(* ===== verification/Prelude.thy ===== *)
theory Prelude
  imports Main "HOL-Library.Word" "HOL-Library.Monad_Syntax" "HOL-Library.Multiset"
begin

text \<open>
  Shared vocabulary of the development.  The program is C compiled for an LP64 little-endian
  machine (\<open>int\<close> 32 bits, \<open>long\<close>, \<open>size_t\<close> and pointers 64 bits, \<open>char\<close> signed), and the
  components share four conventions.

  \<^item> A computation that may hit undefined behaviour (an access outside an array, a read through
    a null or freed pointer) or a failed \<open>assert\<close> is a value of type \<open>'a option\<close>; \<open>None\<close> is
    that event.  A theorem that concludes \<open>= Some \<dots>\<close> therefore includes memory safety and
    termination.
  \<^item> An array is a list; \<open>arr_get\<close> and \<open>arr_set\<close> are the checked accesses.
  \<^item> Unsigned 64-bit and 32-bit counters are \<open>nat\<close> with the wrap-around written out
    (\<open>ul_add\<close>, \<open>ul_sub\<close>, \<open>ui_add\<close>, \<dots>); values on which the code works bitwise are machine
    words.
  \<^item> Memory is a list of bytes, and a byte is an \<open>8 word\<close>; reading it as a C \<open>char\<close> is \<open>sint\<close>.
\<close>

unbundle bit_operations_syntax

named_theorems c_arith \<open>unwrapped forms of the machine arithmetic\<close>
named_theorems c_mem \<open>checked array and byte accesses\<close>

type_synonym byte = "8 word"
type_synonym bytes = "8 word list"

section \<open>Checked array accesses\<close>

definition arr_get :: "'a list \<Rightarrow> nat \<Rightarrow> 'a option" where
  "arr_get xs i = (if i < length xs then Some (xs ! i) else None)"

definition arr_set :: "'a list \<Rightarrow> nat \<Rightarrow> 'a \<Rightarrow> 'a list option" where
  "arr_set xs i x = (if i < length xs then Some (xs[i := x]) else None)"

lemma arr_get_Some [simp, c_mem]: "i < length xs \<Longrightarrow> arr_get xs i = Some (xs ! i)"
  by (simp add: arr_get_def)

lemma arr_set_Some [simp, c_mem]: "i < length xs \<Longrightarrow> arr_set xs i x = Some (xs[i := x])"
  by (simp add: arr_set_def)

lemma arr_get_eq_Some_iff: "arr_get xs i = Some x \<longleftrightarrow> i < length xs \<and> x = xs ! i"
  by (auto simp: arr_get_def)

lemma arr_set_eq_Some_iff: "arr_set xs i x = Some ys \<longleftrightarrow> i < length xs \<and> ys = xs[i := x]"
  by (auto simp: arr_set_def)

section \<open>Results of partial computations\<close>

text \<open>
  \<open>ensures m P\<close>: the computation \<open>m\<close> is defined and its result satisfies \<open>P\<close> (total correctness).
\<close>

definition ensures :: "'a option \<Rightarrow> ('a \<Rightarrow> bool) \<Rightarrow> bool" where
  "ensures m P \<longleftrightarrow> (case m of None \<Rightarrow> False | Some x \<Rightarrow> P x)"

lemma ensures_simps [simp]: "ensures None P \<longleftrightarrow> False" "ensures (Some x) P \<longleftrightarrow> P x"
  by (simp_all add: ensures_def)

lemma ensures_iff: "ensures m P \<longleftrightarrow> (\<exists>x. m = Some x \<and> P x)"
  by (cases m) auto

lemma ensures_bindI: "ensures m P \<Longrightarrow> (\<And>x. P x \<Longrightarrow> ensures (f x) Q) \<Longrightarrow> ensures (m \<bind> f) Q"
  by (cases m) auto

lemma ensures_mono: "ensures m P \<Longrightarrow> (\<And>x. P x \<Longrightarrow> Q x) \<Longrightarrow> ensures m Q"
  by (cases m) auto

lemma ensures_eq: "ensures m (\<lambda>y. y = x) \<longleftrightarrow> m = Some x"
  by (cases m) auto

lemma ensuresE: "ensures m P \<Longrightarrow> (\<And>x. m = Some x \<Longrightarrow> P x \<Longrightarrow> Q) \<Longrightarrow> Q"
  by (cases m) auto

section \<open>Unsigned arithmetic with wrap-around\<close>

definition ul_add :: "nat \<Rightarrow> nat \<Rightarrow> nat" where
  "ul_add a b = (a + b) mod 2 ^ 64"

definition ul_sub :: "nat \<Rightarrow> nat \<Rightarrow> nat" where
  "ul_sub a b = (a + 2 ^ 64 - b mod 2 ^ 64) mod 2 ^ 64"

definition ul_mul :: "nat \<Rightarrow> nat \<Rightarrow> nat" where
  "ul_mul a b = (a * b) mod 2 ^ 64"

definition ui_add :: "nat \<Rightarrow> nat \<Rightarrow> nat" where
  "ui_add a b = (a + b) mod 2 ^ 32"

definition ui_sub :: "nat \<Rightarrow> nat \<Rightarrow> nat" where
  "ui_sub a b = (a + 2 ^ 32 - b mod 2 ^ 32) mod 2 ^ 32"

text \<open>Conversions of a signed value to \<open>unsigned long\<close>, and of an unsigned one to \<open>int\<close>.\<close>

definition ulong_of_int :: "int \<Rightarrow> nat" where
  "ulong_of_int i = nat (i mod 2 ^ 64)"

definition int_of_ulong :: "nat \<Rightarrow> int" where
  "int_of_ulong n = sint (of_nat n :: 32 word)"

lemma ul_add_eq [simp, c_arith]: "a + b < 2 ^ 64 \<Longrightarrow> ul_add a b = a + b"
  by (simp add: ul_add_def)

lemma ul_sub_eq [simp, c_arith]:
  assumes "b \<le> a" "a < 2 ^ 64" shows "ul_sub a b = a - b"
proof -
  have "b < 2 ^ 64" using assms by (rule le_less_trans)
  then have "a + 2 ^ 64 - b mod 2 ^ 64 = (a - b) + 2 ^ 64" using assms by simp
  moreover have "(a - b) mod 2 ^ 64 = a - b" using assms by simp
  ultimately show ?thesis by (simp only: ul_sub_def mod_add_self2)
qed

lemma ul_mul_eq [simp, c_arith]: "a * b < 2 ^ 64 \<Longrightarrow> ul_mul a b = a * b"
  by (simp add: ul_mul_def)

lemma ui_add_eq [simp, c_arith]: "a + b < 2 ^ 32 \<Longrightarrow> ui_add a b = a + b"
  by (simp add: ui_add_def)

lemma ui_sub_eq [simp, c_arith]:
  assumes "b \<le> a" "a < 2 ^ 32" shows "ui_sub a b = a - b"
proof -
  have "b < 2 ^ 32" using assms by (rule le_less_trans)
  then have "a + 2 ^ 32 - b mod 2 ^ 32 = (a - b) + 2 ^ 32" using assms by simp
  moreover have "(a - b) mod 2 ^ 32 = a - b" using assms by simp
  ultimately show ?thesis by (simp only: ui_sub_def mod_add_self2)
qed

lemma ulong_of_int_nat [simp, c_arith]: "0 \<le> i \<Longrightarrow> i < 2 ^ 64 \<Longrightarrow> ulong_of_int i = nat i"
  by (simp add: ulong_of_int_def)

lemma ulong_of_int_of_nat [simp, c_arith]: "n < 2 ^ 64 \<Longrightarrow> ulong_of_int (int n) = n"
  by (simp add: ulong_of_int_def)

lemma int_of_ulong_eq [simp, c_arith]:
  assumes "n < 2 ^ 31" shows "int_of_ulong n = int n"
proof -
  have "signed_take_bit 31 (int n) = int n"
    using assms by (simp add: signed_take_bit_int_eq_self)
  then show ?thesis
    by (simp add: int_of_ulong_def signed_of_nat)
qed

section \<open>Lists and association lists\<close>

text \<open>The position of the first element that satisfies a test: the shape of every chain walk.\<close>

primrec find_pos :: "('a \<Rightarrow> bool) \<Rightarrow> 'a list \<Rightarrow> nat option" where
  "find_pos P [] = None"
| "find_pos P (x # xs) = (if P x then Some 0 else map_option Suc (find_pos P xs))"

lemma find_pos_None_iff: "find_pos P xs = None \<longleftrightarrow> (\<forall>x \<in> set xs. \<not> P x)"
  by (induction xs) auto

lemma find_pos_SomeD: "find_pos P xs = Some i \<Longrightarrow> i < length xs \<and> P (xs ! i) \<and> (\<forall>j < i. \<not> P (xs ! j))"
proof (induction xs arbitrary: i)
  case Nil
  then show ?case by simp
next
  case (Cons x xs)
  show ?case
  proof (cases "P x")
    case True
    with Cons.prems show ?thesis by simp
  next
    case False
    with Cons.prems obtain j where "find_pos P xs = Some j" "i = Suc j" by auto
    with Cons.IH [of j] False show ?thesis by (auto simp: nth_Cons split: nat.splits)
  qed
qed

lemma mset_concat_update:
  "i < length t \<Longrightarrow> mset (concat (t[i := c])) + mset (t ! i) = mset (concat t) + mset c"
proof (induction t arbitrary: i)
  case Nil
  then show ?case by simp
next
  case (Cons x t)
  then show ?case by (cases i) (auto simp: ac_simps)
qed

lemma length_concat_update:
  "i < length t \<Longrightarrow> length (concat (t[i := c])) + length (t ! i) = length (concat t) + length c"
  using mset_concat_update [of i t c] by (metis size_mset size_union)

lemma concat_replicate_Nil [simp]: "concat (replicate n []) = []"
  by (induction n) auto

lemma nth_in_concat: "i < length t \<Longrightarrow> x \<in> set (t ! i) \<Longrightarrow> x \<in> set (concat t)"
  by (auto intro: bexI [of _ "t ! i"])

lemma in_concat_nth: "x \<in> set (concat t) \<Longrightarrow> \<exists>i < length t. x \<in> set (t ! i)"
  by (simp, metis in_set_conv_nth)

lemma map_of_cong_mset:
  assumes "mset xs = mset ys" "distinct (map fst xs)"
  shows "map_of xs = map_of ys"
proof -
  have "mset (map fst xs) = mset (map fst ys)" using assms(1) by simp
  then have "distinct (map fst ys)" using assms(2) mset_eq_imp_distinct_iff by blast
  moreover have "set xs = set ys" using assms(1) by (rule mset_eq_setD)
  ultimately show ?thesis using assms(2) by (simp add: map_of_inject_set)
qed

lemma distinct_map_mset_cong:
  "mset xs = mset ys \<Longrightarrow> distinct (map f xs) \<longleftrightarrow> distinct (map f ys)"
  by (metis mset_map mset_eq_imp_distinct_iff)

lemma mset_nth_split:
  "p < length c \<Longrightarrow> mset c = add_mset (c ! p) (mset (take p c @ drop (Suc p) c))"
  by (metis id_take_nth_drop mset_append mset.simps(2) union_mset_add_mset_right)

lemma mset_update_split:
  "p < length c \<Longrightarrow> mset (c[p := x]) = add_mset x (mset (take p c @ drop (Suc p) c))"
  by (simp add: upd_conv_take_nth_drop)

text \<open>Adding, removing and overwriting one association, seen through the multiset of entries.\<close>

lemma assoc_mset_add:
  assumes "mset E' = add_mset (k, v) (mset E)" "distinct (map fst E)" "map_of E k = None"
  shows "distinct (map fst E') \<and> map_of E' = (map_of E)(k \<mapsto> v)"
proof -
  have m: "mset ((k, v) # E) = mset E'" using assms(1) by simp
  have d: "distinct (map fst ((k, v) # E))" using assms(2,3) by (simp add: map_of_eq_None_iff)
  show ?thesis using map_of_cong_mset [OF m d] distinct_map_mset_cong [OF m, of fst] d by auto
qed

lemma assoc_mset_remove:
  assumes "mset E = add_mset (k, v) (mset E')" "distinct (map fst E)"
  shows "distinct (map fst E') \<and> map_of E' = (map_of E)(k := None)"
proof -
  have m: "mset E = mset ((k, v) # E')" using assms(1) by simp
  have d: "distinct (map fst ((k, v) # E'))"
    using assms(2) distinct_map_mset_cong [OF m, of fst] by simp
  have "map_of E = (map_of E')(k \<mapsto> v)" using map_of_cong_mset [OF m assms(2)] by simp
  moreover have "map_of E' k = None" using d by (simp add: map_of_eq_None_iff)
  ultimately show ?thesis using d by auto
qed

lemma assoc_mset_exchange:
  assumes "add_mset (k, a) (mset E') = add_mset (k, b) (mset E)" "distinct (map fst E)" "(k, a) \<in> set E"
  shows "distinct (map fst E') \<and> map_of E' = (map_of E)(k \<mapsto> b)"
proof -
  let ?R = "remove1 (k, a) E"
  have e: "mset E = add_mset (k, a) (mset ?R)" using assms(3) by simp
  then have "add_mset (k, a) (mset E') = add_mset (k, a) (add_mset (k, b) (mset ?R))"
    using assms(1) by (metis add_mset_commute)
  then have e': "mset E' = add_mset (k, b) (mset ?R)" by (simp only: add_mset_add_mset_same_iff)
  have r: "distinct (map fst ?R) \<and> map_of ?R = (map_of E)(k := None)"
    by (rule assoc_mset_remove [OF e assms(2)])
  have "distinct (map fst E') \<and> map_of E' = (map_of ?R)(k \<mapsto> b)"
    by (rule assoc_mset_add [OF e']) (use r in auto)
  then show ?thesis using r by simp
qed

lemma set_take_drop_subset: "e \<in> set (take p c @ drop q c) \<Longrightarrow> e \<in> set c"
  by (auto dest: in_set_takeD in_set_dropD)

end
