(* ===== verification/Refinement.thy ===== *)
theory Refinement
  imports Prelude
begin

text \<open>
  Data refinement, once for all components: a component is a state with operations that may hit
  undefined behaviour, its specification is a total function on an abstract state, and the
  simulation of single steps lifts to whole runs.
\<close>

text \<open>A run of operations against the code, stopping at undefined behaviour.\<close>

primrec run_ops :: "('s \<Rightarrow> 'op \<Rightarrow> ('s \<times> 'r) option) \<Rightarrow> 's \<Rightarrow> 'op list \<Rightarrow> ('s \<times> 'r list) option" where
  "run_ops step s [] = Some (s, [])"
| "run_ops step s (x # xs) = do {
     r \<leftarrow> step s x;
     q \<leftarrow> run_ops step (fst r) xs;
     Some (fst q, snd r # snd q) }"

text \<open>The same run against the specification.\<close>

primrec run_spec :: "('a \<Rightarrow> 'op \<Rightarrow> 'a \<times> 'r) \<Rightarrow> 'a \<Rightarrow> 'op list \<Rightarrow> 'a \<times> 'r list" where
  "run_spec spec a [] = (a, [])"
| "run_spec spec a (x # xs) =
     (let r = spec a x; q = run_spec spec (fst r) xs in (fst q, snd r # snd q))"

text \<open>The precondition of every operation holds when its turn comes.\<close>

primrec run_ok :: "('a \<Rightarrow> 'op \<Rightarrow> 'a \<times> 'r) \<Rightarrow> ('a \<Rightarrow> 'op \<Rightarrow> bool) \<Rightarrow> 'a \<Rightarrow> 'op list \<Rightarrow> bool" where
  "run_ok spec ok a [] \<longleftrightarrow> True"
| "run_ok spec ok a (x # xs) \<longleftrightarrow> ok a x \<and> run_ok spec ok (fst (spec a x)) xs"

locale simulation =
  fixes inv :: "'s \<Rightarrow> bool"
    and absf :: "'s \<Rightarrow> 'a"
    and step :: "'s \<Rightarrow> 'op \<Rightarrow> ('s \<times> 'r) option"
    and spec :: "'a \<Rightarrow> 'op \<Rightarrow> 'a \<times> 'r"
    and ok :: "'a \<Rightarrow> 'op \<Rightarrow> bool"
  assumes step_sim: "inv s \<Longrightarrow> ok (absf s) x \<Longrightarrow>
    \<exists>s'. step s x = Some (s', snd (spec (absf s) x)) \<and> inv s' \<and> absf s' = fst (spec (absf s) x)"
begin

lemma run_sim:
  "inv s \<Longrightarrow> run_ok spec ok (absf s) xs \<Longrightarrow>
   \<exists>s'. run_ops step s xs = Some (s', snd (run_spec spec (absf s) xs)) \<and> inv s' \<and>
        absf s' = fst (run_spec spec (absf s) xs)"
proof (induction xs arbitrary: s)
  case Nil
  then show ?case by simp
next
  case (Cons x xs)
  obtain s1 where s1: "step s x = Some (s1, snd (spec (absf s) x))" "inv s1" "absf s1 = fst (spec (absf s) x)"
    using step_sim [of s x] Cons.prems by auto
  obtain s2 where "run_ops step s1 xs = Some (s2, snd (run_spec spec (absf s1) xs))" "inv s2"
    "absf s2 = fst (run_spec spec (absf s1) xs)"
    using Cons.IH [OF s1(2)] Cons.prems(2) s1(3) by auto
  then show ?case using s1 by (simp add: Let_def)
qed

text \<open>No operation of an admissible run hits undefined behaviour.\<close>

lemma run_defined: "inv s \<Longrightarrow> run_ok spec ok (absf s) xs \<Longrightarrow> run_ops step s xs \<noteq> None"
  using run_sim by fastforce

end

end
