(* ===== verification/Dict.thy ===== *)
theory Dict
  imports Refinement
begin

text \<open>
  The hash table of \<open>dict.c\<close>: two bucket arrays with chaining and incremental rehashing.  A
  bucket is the list of its entries in chain order (the \<open>next\<close> pointers are the tails), the null
  bucket array is the empty list, and an entry pointer is a reference (table, bucket, position in
  the chain).  The callbacks of \<open>dictType\<close> are fields of a record; the destructors only release
  memory and have no counterpart.  The hash function is the function pointer of the dictionary's
  type, so everything holds for every hash function.
\<close>

section \<open>Data\<close>

datatype dict_ret = DICT_OK | DICT_ERR

record ('k, 'v) dictType =
  hashFunction :: "'k \<Rightarrow> 32 word"
  keyDup :: "('k \<Rightarrow> 'k) option"
  valDup :: "('v \<Rightarrow> 'v) option"
  keyCompare :: "('k \<Rightarrow> 'k \<Rightarrow> bool) option"

type_synonym ('k, 'v) dictEntry = "'k \<times> 'v"

record ('k, 'v) dictht =
  ht_table :: "('k, 'v) dictEntry list list"
  ht_size :: nat
  ht_sizemask :: "64 word"
  ht_used :: nat

record ('k, 'v) dict =
  dict_type :: "('k, 'v) dictType"
  ht0 :: "('k, 'v) dictht"
  ht1 :: "('k, 'v) dictht"
  rehashidx :: int
  iterators :: int

text \<open>An entry pointer: table number, bucket index, position in the chain.\<close>

type_synonym entry_ref = "nat \<times> nat \<times> nat"

definition ht_at :: "('k, 'v) dict \<Rightarrow> nat \<Rightarrow> ('k, 'v) dictht" where
  "ht_at d t = (if t = 0 then ht0 d else ht1 d)"

definition ht_at_update :: "('k, 'v) dict \<Rightarrow> nat \<Rightarrow> ('k, 'v) dictht \<Rightarrow> ('k, 'v) dict" where
  "ht_at_update d t h = (if t = 0 then d\<lparr>ht0 := h\<rparr> else d\<lparr>ht1 := h\<rparr>)"

section \<open>Macros of dict.h\<close>

definition DICT_HT_INITIAL_SIZE :: nat where
  "DICT_HT_INITIAL_SIZE = 4"

definition dict_force_resize_ratio :: nat where
  "dict_force_resize_ratio = 5"

definition dictIsRehashing :: "('k, 'v) dict \<Rightarrow> bool" where
  "dictIsRehashing d \<longleftrightarrow> rehashidx d \<noteq> -1"

definition dictSize :: "('k, 'v) dict \<Rightarrow> nat" where
  "dictSize d = ul_add (ht_used (ht0 d)) (ht_used (ht1 d))"

definition dictSlots :: "('k, 'v) dict \<Rightarrow> nat" where
  "dictSlots d = ul_add (ht_size (ht0 d)) (ht_size (ht1 d))"

definition dictHashKey :: "('k, 'v) dict \<Rightarrow> 'k \<Rightarrow> 32 word" where
  "dictHashKey d key = hashFunction (dict_type d) key"

definition dictCompareKeys :: "('k, 'v) dict \<Rightarrow> 'k \<Rightarrow> 'k \<Rightarrow> bool" where
  "dictCompareKeys d key1 key2 =
     (case keyCompare (dict_type d) of Some f \<Rightarrow> f key1 key2 | None \<Rightarrow> key1 = key2)"

definition dictSetKey :: "('k, 'v) dict \<Rightarrow> 'k \<Rightarrow> 'k" where
  "dictSetKey d key = (case keyDup (dict_type d) of Some f \<Rightarrow> f key | None \<Rightarrow> key)"

definition dictDupVal :: "('k, 'v) dict \<Rightarrow> 'v \<Rightarrow> 'v" where
  "dictDupVal d val = (case valDup (dict_type d) of Some f \<Rightarrow> f val | None \<Rightarrow> val)"

text \<open>The read and the write through an entry pointer (\<open>dictGetVal\<close>, \<open>dictSetVal\<close>).\<close>

definition dictGetEntry :: "('k, 'v) dict \<Rightarrow> entry_ref \<Rightarrow> ('k, 'v) dictEntry option" where
  "dictGetEntry d = (\<lambda>(t, i, p). do {
     chain \<leftarrow> arr_get (ht_table (ht_at d t)) i;
     arr_get chain p })"

definition dictSetVal :: "('k, 'v) dict \<Rightarrow> entry_ref \<Rightarrow> 'v \<Rightarrow> ('k, 'v) dict option" where
  "dictSetVal d = (\<lambda>(t, i, p) val. do {
     chain \<leftarrow> arr_get (ht_table (ht_at d t)) i;
     e \<leftarrow> arr_get chain p;
     chain' \<leftarrow> arr_set chain p (fst e, dictDupVal d val);
     table' \<leftarrow> arr_set (ht_table (ht_at d t)) i chain';
     Some (ht_at_update d t ((ht_at d t)\<lparr>ht_table := table'\<rparr>)) })"

text \<open>
  The bucket of a hash: \<open>h & sizemask\<close> is computed in \<open>unsigned long\<close> and stored in an
  \<open>unsigned int\<close>.
\<close>

definition dict_index :: "64 word \<Rightarrow> 32 word \<Rightarrow> nat" where
  "dict_index m h = unat (ucast (ucast h AND m :: 64 word) :: 32 word)"

section \<open>Creation and resizing\<close>

definition dictReset_priv :: "('k, 'v) dictht" where
  "dictReset_priv = \<lparr>ht_table = [], ht_size = 0, ht_sizemask = 0, ht_used = 0\<rparr>"

definition dictInit_priv :: "('k, 'v) dictType \<Rightarrow> ('k, 'v) dict" where
  "dictInit_priv ty =
     \<lparr>dict_type = ty, ht0 = dictReset_priv, ht1 = dictReset_priv, rehashidx = -1, iterators = 0\<rparr>"

definition dictCreate :: "('k, 'v) dictType \<Rightarrow> ('k, 'v) dict" where
  "dictCreate ty = dictInit_priv ty"

text \<open>\<open>i *= 2\<close> wraps at \<open>2^64\<close>, so the loop is not obviously finite: \<open>None\<close> is divergence.\<close>

partial_function (option) dictNextPower_loop :: "nat \<Rightarrow> nat \<Rightarrow> nat option" where
  "dictNextPower_loop i sz =
     (if i \<ge> sz then Some i else dictNextPower_loop (ul_mul i 2) sz)"

definition dictNextPower_priv :: "nat \<Rightarrow> nat option" where
  "dictNextPower_priv sz =
     (if sz \<ge> 2 ^ 63 - 1 then Some (2 ^ 63 - 1)
      else dictNextPower_loop DICT_HT_INITIAL_SIZE sz)"

definition dictExpand :: "('k, 'v) dict \<Rightarrow> nat \<Rightarrow> (('k, 'v) dict \<times> dict_ret) option" where
  "dictExpand d sz = do {
     realsize \<leftarrow> dictNextPower_priv sz;
     if dictIsRehashing d \<or> ht_used (ht0 d) > sz then Some (d, DICT_ERR)
     else
       let n = \<lparr>ht_table = replicate realsize [], ht_size = realsize,
                ht_sizemask = of_nat (ul_sub realsize 1), ht_used = 0\<rparr>
       in if ht_table (ht0 d) = [] then Some (d\<lparr>ht0 := n\<rparr>, DICT_OK)
          else Some (d\<lparr>ht1 := n, rehashidx := 0\<rparr>, DICT_OK) }"

text \<open>\<open>dict_can_resize\<close>, a global of \<open>dict.c\<close>, is the argument \<open>cr\<close> of the operations that read it.\<close>

definition dictResize :: "bool \<Rightarrow> ('k, 'v) dict \<Rightarrow> (('k, 'v) dict \<times> dict_ret) option" where
  "dictResize cr d =
     (if \<not> cr \<or> dictIsRehashing d then Some (d, DICT_ERR)
      else
        let minimal = int_of_ulong (ht_used (ht0 d));
            minimal = (if minimal < int DICT_HT_INITIAL_SIZE then int DICT_HT_INITIAL_SIZE else minimal)
        in dictExpand d (ulong_of_int minimal))"

definition dictExpandIfNeeded_priv ::
    "bool \<Rightarrow> ('k, 'v) dict \<Rightarrow> (('k, 'v) dict \<times> dict_ret) option" where
  "dictExpandIfNeeded_priv cr d =
     (if dictIsRehashing d then Some (d, DICT_OK)
      else if ht_size (ht0 d) = 0 then dictExpand d DICT_HT_INITIAL_SIZE
      else if ht_used (ht0 d) \<ge> ht_size (ht0 d) \<and>
              (cr \<or> ht_used (ht0 d) div ht_size (ht0 d) > dict_force_resize_ratio)
      then dictExpand d (ul_mul (ht_used (ht0 d)) 2)
      else Some (d, DICT_OK))"

section \<open>Incremental rehashing\<close>

text \<open>\<open>while (table[rehashidx] == NULL) rehashidx++\<close>, with the array bound checked.\<close>

function dictRehash_skip :: "('k, 'v) dictEntry list list \<Rightarrow> nat \<Rightarrow> nat option" where
  "dictRehash_skip t i =
     (if i < length t then (if t ! i = [] then dictRehash_skip t (Suc i) else Some i) else None)"
  by pat_completeness auto
termination
  by (relation "measure (\<lambda>(t, i). length t - i)") auto

declare dictRehash_skip.simps [simp del]

text \<open>The inner loop: every entry of the bucket is pushed on its chain in \<open>ht[1]\<close>.\<close>

primrec dictRehash_move ::
    "('k, 'v) dictEntry list \<Rightarrow> ('k, 'v) dict \<Rightarrow> ('k, 'v) dict option" where
  "dictRehash_move [] d = Some d"
| "dictRehash_move (de # des) d =
     (let h = dict_index (ht_sizemask (ht1 d)) (dictHashKey d (fst de)) in
      do {
        chain \<leftarrow> arr_get (ht_table (ht1 d)) h;
        table' \<leftarrow> arr_set (ht_table (ht1 d)) h (de # chain);
        dictRehash_move des
          (d\<lparr>ht0 := (ht0 d)\<lparr>ht_used := ul_sub (ht_used (ht0 d)) 1\<rparr>,
             ht1 := (ht1 d)\<lparr>ht_table := table', ht_used := ul_add (ht_used (ht1 d)) 1\<rparr>\<rparr>) })"

fun dictRehash_loop :: "nat \<Rightarrow> ('k, 'v) dict \<Rightarrow> (('k, 'v) dict \<times> bool) option" where
  "dictRehash_loop 0 d = Some (d, True)"
| "dictRehash_loop (Suc n) d =
     (if ht_used (ht0 d) = 0 then
        Some (d\<lparr>ht0 := ht1 d, ht1 := dictReset_priv, rehashidx := -1\<rparr>, False)
      else if \<not> ht_size (ht0 d) > ulong_of_int (rehashidx d) then None
      else do {
        i \<leftarrow> dictRehash_skip (ht_table (ht0 d)) (nat (rehashidx d));
        d' \<leftarrow> dictRehash_move (ht_table (ht0 d) ! i) d;
        dictRehash_loop n
          (d'\<lparr>ht0 := (ht0 d')\<lparr>ht_table := (ht_table (ht0 d'))[i := []]\<rparr>,
              rehashidx := int i + 1\<rparr>) })"

definition dictRehash :: "('k, 'v) dict \<Rightarrow> nat \<Rightarrow> (('k, 'v) dict \<times> bool) option" where
  "dictRehash d n = (if \<not> dictIsRehashing d then Some (d, False) else dictRehash_loop n d)"

definition dictRehashStep_priv :: "('k, 'v) dict \<Rightarrow> ('k, 'v) dict option" where
  "dictRehashStep_priv d =
     (if iterators d = 0 then map_option fst (dictRehash d 1) else Some d)"

section \<open>Lookup, insertion, deletion\<close>

text \<open>
  The loop \<open>for (table = 0; table <= 1; table++)\<close> that \<open>dictFind\<close>, \<open>_dictKeyIndex\<close> and
  \<open>dictGenericDelete\<close> share: walk the chain of the key's bucket in the first table and, while
  rehashing, in the second.  It returns the entry found and the last bucket index computed.
\<close>

definition dict_search :: "('k, 'v) dict \<Rightarrow> 'k \<Rightarrow> (entry_ref option \<times> nat) option" where
  "dict_search d key =
     (let h = dictHashKey d key;
          idx0 = dict_index (ht_sizemask (ht0 d)) h;
          idx1 = dict_index (ht_sizemask (ht1 d)) h;
          P = (\<lambda>he. dictCompareKeys d key (fst he))
      in do {
        chain0 \<leftarrow> arr_get (ht_table (ht0 d)) idx0;
        (case find_pos P chain0 of
           Some p \<Rightarrow> Some (Some (0, idx0, p), idx0)
         | None \<Rightarrow>
             if \<not> dictIsRehashing d then Some (None, idx0)
             else do {
               chain1 \<leftarrow> arr_get (ht_table (ht1 d)) idx1;
               (case find_pos P chain1 of
                  Some p \<Rightarrow> Some (Some (1, idx1, p), idx1)
                | None \<Rightarrow> Some (None, idx1)) }) })"

definition dictFind :: "('k, 'v) dict \<Rightarrow> 'k \<Rightarrow> (('k, 'v) dict \<times> entry_ref option) option" where
  "dictFind d key =
     (if ht_size (ht0 d) = 0 then Some (d, None)
      else do {
        d \<leftarrow> (if dictIsRehashing d then dictRehashStep_priv d else Some d);
        r \<leftarrow> dict_search d key;
        Some (d, fst r) })"

definition dictFetchValue :: "('k, 'v) dict \<Rightarrow> 'k \<Rightarrow> (('k, 'v) dict \<times> 'v option) option" where
  "dictFetchValue d key = do {
     r \<leftarrow> dictFind d key;
     (case snd r of
        Some he \<Rightarrow> do { e \<leftarrow> dictGetEntry (fst r) he; Some (fst r, Some (snd e)) }
      | None \<Rightarrow> Some (fst r, None)) }"

text \<open>The index is returned as an \<open>int\<close>; \<open>-1\<close> is "already there".\<close>

definition dictKeyIndex_priv ::
    "bool \<Rightarrow> ('k, 'v) dict \<Rightarrow> 'k \<Rightarrow> (('k, 'v) dict \<times> int) option" where
  "dictKeyIndex_priv cr d key = do {
     r \<leftarrow> dictExpandIfNeeded_priv cr d;
     let d = fst r;
     if snd r = DICT_ERR then Some (d, -1)
     else do {
       s \<leftarrow> dict_search d key;
       (case fst s of
          Some _ \<Rightarrow> Some (d, -1)
        | None \<Rightarrow> Some (d, int_of_ulong (snd s))) } }"

text \<open>
  \<open>junk\<close> is the indeterminate content of the value field of the entry \<open>zmalloc\<close> returned; the
  caller overwrites it.
\<close>

definition dictAddRaw ::
    "bool \<Rightarrow> 'v \<Rightarrow> ('k, 'v) dict \<Rightarrow> 'k \<Rightarrow> (('k, 'v) dict \<times> entry_ref option) option" where
  "dictAddRaw cr junk d key = do {
     d \<leftarrow> (if dictIsRehashing d then dictRehashStep_priv d else Some d);
     r \<leftarrow> dictKeyIndex_priv cr d key;
     let d = fst r;
     let index = snd r;
     if index = -1 then Some (d, None)
     else if index < 0 then None
     else
       let t = (if dictIsRehashing d then 1 else 0);
           ht = ht_at d t;
           i = nat index
       in do {
         chain \<leftarrow> arr_get (ht_table ht) i;
         table' \<leftarrow> arr_set (ht_table ht) i ((dictSetKey d key, junk) # chain);
         Some (ht_at_update d t (ht\<lparr>ht_table := table', ht_used := ul_add (ht_used ht) 1\<rparr>),
               Some (t, i, 0)) } }"

definition dictAdd ::
    "bool \<Rightarrow> 'v \<Rightarrow> ('k, 'v) dict \<Rightarrow> 'k \<Rightarrow> 'v \<Rightarrow> (('k, 'v) dict \<times> dict_ret) option" where
  "dictAdd cr junk d key val = do {
     r \<leftarrow> dictAddRaw cr junk d key;
     (case snd r of
        None \<Rightarrow> Some (fst r, DICT_ERR)
      | Some entry \<Rightarrow> do { d' \<leftarrow> dictSetVal (fst r) entry val; Some (d', DICT_OK) }) }"

definition dictReplace ::
    "bool \<Rightarrow> 'v \<Rightarrow> ('k, 'v) dict \<Rightarrow> 'k \<Rightarrow> 'v \<Rightarrow> (('k, 'v) dict \<times> nat) option" where
  "dictReplace cr junk d key val = do {
     r \<leftarrow> dictAdd cr junk d key val;
     if snd r = DICT_OK then Some (fst r, 1)
     else do {
       q \<leftarrow> dictFind (fst r) key;
       (case snd q of
          None \<Rightarrow> None
        | Some entry \<Rightarrow> do { d' \<leftarrow> dictSetVal (fst q) entry val; Some (d', 0) }) } }"

definition dictReplaceRaw ::
    "bool \<Rightarrow> 'v \<Rightarrow> ('k, 'v) dict \<Rightarrow> 'k \<Rightarrow> (('k, 'v) dict \<times> entry_ref option) option" where
  "dictReplaceRaw cr junk d key = do {
     r \<leftarrow> dictFind d key;
     (case snd r of
        Some entry \<Rightarrow> Some (fst r, Some entry)
      | None \<Rightarrow> dictAddRaw cr junk (fst r) key) }"

definition dictGenericDelete :: "('k, 'v) dict \<Rightarrow> 'k \<Rightarrow> (('k, 'v) dict \<times> dict_ret) option" where
  "dictGenericDelete d key =
     (if ht_size (ht0 d) = 0 then Some (d, DICT_ERR)
      else do {
        d \<leftarrow> (if dictIsRehashing d then dictRehashStep_priv d else Some d);
        s \<leftarrow> dict_search d key;
        (case fst s of
           None \<Rightarrow> Some (d, DICT_ERR)
         | Some (t, i, p) \<Rightarrow>
             let ht = ht_at d t; chain = ht_table ht ! i in
             Some (ht_at_update d t
                     (ht\<lparr>ht_table := (ht_table ht)[i := take p chain @ drop (Suc p) chain],
                         ht_used := ul_sub (ht_used ht) 1\<rparr>),
                   DICT_OK)) })"

text \<open>\<open>dictDelete\<close> and \<open>dictDeleteNoFree\<close> differ only in whether the destructors are called.\<close>

definition dictDelete :: "('k, 'v) dict \<Rightarrow> 'k \<Rightarrow> (('k, 'v) dict \<times> dict_ret) option" where
  "dictDelete d key = dictGenericDelete d key"

definition dictDeleteNoFree :: "('k, 'v) dict \<Rightarrow> 'k \<Rightarrow> (('k, 'v) dict \<times> dict_ret) option" where
  "dictDeleteNoFree d key = dictGenericDelete d key"

section \<open>Clearing\<close>

text \<open>
  \<open>_dictClear\<close> walks the buckets while elements are left, freeing every entry; the model returns
  the entries freed, in order, and how often the progress callback ran.
\<close>

function dictClear_loop ::
    "('k, 'v) dictht \<Rightarrow> nat \<Rightarrow> nat \<Rightarrow> (('k, 'v) dictEntry list \<times> nat) option" where
  "dictClear_loop ht i used =
     (if i < ht_size ht \<and> used > 0 then do {
        chain \<leftarrow> arr_get (ht_table ht) i;
        r \<leftarrow> dictClear_loop ht (Suc i) (ul_sub used (length chain));
        Some (chain @ fst r, (if i AND 65535 = 0 then 1 else 0) + snd r) }
      else Some ([], 0))"
  by pat_completeness auto
termination
  by (relation "measure (\<lambda>(ht, i, used). ht_size ht - i)") auto

declare dictClear_loop.simps [simp del]

definition dictClear_priv ::
    "('k, 'v) dictht \<Rightarrow> (('k, 'v) dictht \<times> ('k, 'v) dictEntry list \<times> nat) option" where
  "dictClear_priv ht = do {
     r \<leftarrow> dictClear_loop ht 0 (ht_used ht);
     Some (dictReset_priv, r) }"

definition dictEmpty :: "('k, 'v) dict \<Rightarrow> (('k, 'v) dict \<times> ('k, 'v) dictEntry list) option" where
  "dictEmpty d = do {
     r0 \<leftarrow> dictClear_priv (ht0 d);
     r1 \<leftarrow> dictClear_priv (ht1 d);
     Some (d\<lparr>ht0 := fst r0, ht1 := fst r1, rehashidx := -1, iterators := 0\<rparr>,
           fst (snd r0) @ fst (snd r1)) }"

text \<open>\<open>dictRelease\<close> frees the dictionary itself: what is left is the list of freed entries.\<close>

definition dictRelease :: "('k, 'v) dict \<Rightarrow> ('k, 'v) dictEntry list option" where
  "dictRelease d = do {
     r0 \<leftarrow> dictClear_priv (ht0 d);
     r1 \<leftarrow> dictClear_priv (ht1 d);
     Some (fst (snd r0) @ fst (snd r1)) }"

section \<open>Invariant and abstraction\<close>

definition ht_entries :: "('k, 'v) dictht \<Rightarrow> ('k, 'v) dictEntry list" where
  "ht_entries ht = concat (ht_table ht)"

definition dict_entries :: "('k, 'v) dict \<Rightarrow> ('k, 'v) dictEntry list" where
  "dict_entries d = ht_entries (ht0 d) @ ht_entries (ht1 d)"

text \<open>The finite map a dictionary stands for.\<close>

definition dict_map :: "('k, 'v) dict \<Rightarrow> ('k \<rightharpoonup> 'v)" where
  "dict_map d = map_of (dict_entries d)"

text \<open>
  An allocated table: its size is a power of two that fits the \<open>int\<close> indices the code uses, the
  mask and the element count agree with it, and every entry sits in the bucket of its hash.
\<close>

definition ht_live :: "('k \<Rightarrow> 32 word) \<Rightarrow> ('k, 'v) dictht \<Rightarrow> bool" where
  "ht_live hf ht \<longleftrightarrow>
     (\<exists>k. 2 \<le> k \<and> k \<le> 31 \<and> ht_size ht = 2 ^ k \<and> length (ht_table ht) = 2 ^ k \<and>
          ht_sizemask ht = mask k) \<and>
     ht_used ht = length (ht_entries ht) \<and>
     (\<forall>i < length (ht_table ht). \<forall>e \<in> set (ht_table ht ! i).
        dict_index (ht_sizemask ht) (hf (fst e)) = i)"

text \<open>
  The callbacks respect the content of keys and values: keys compare equal when they are equal,
  and the duplication functions copy.
\<close>

definition dict_type_ok :: "('k, 'v) dictType \<Rightarrow> bool" where
  "dict_type_ok ty \<longleftrightarrow>
     (\<forall>f. keyCompare ty = Some f \<longrightarrow> (\<forall>a b. f a b = (a = b))) \<and>
     (\<forall>f. keyDup ty = Some f \<longrightarrow> (\<forall>a. f a = a)) \<and>
     (\<forall>f. valDup ty = Some f \<longrightarrow> (\<forall>v. f v = v))"

definition dict_max :: nat where
  "dict_max = 2 ^ 29"

definition dict_inv :: "('k, 'v) dict \<Rightarrow> bool" where
  "dict_inv d \<longleftrightarrow>
     dict_type_ok (dict_type d) \<and>
     distinct (map fst (dict_entries d)) \<and>
     length (dict_entries d) \<le> dict_max \<and>
     (if rehashidx d = -1
      then ht1 d = dictReset_priv \<and>
           (ht0 d = dictReset_priv \<or> ht_live (hashFunction (dict_type d)) (ht0 d))
      else ht_live (hashFunction (dict_type d)) (ht0 d) \<and>
           ht_live (hashFunction (dict_type d)) (ht1 d) \<and>
           0 \<le> rehashidx d \<and> rehashidx d \<le> int (ht_size (ht0 d)) \<and>
           (\<forall>i < nat (rehashidx d). ht_table (ht0 d) ! i = []))"

end
