(* ===== verification/Dict_Correct.thy ===== *)
theory Dict_Correct
  imports Dict
begin

text \<open>
  Correctness of the hash table: every operation keeps the invariant \<open>dict_inv\<close> and acts on the
  finite map \<open>dict_map\<close>; rehash steps and resizes keep the multiset of entries (\<open>dict_same\<close>); runs of
  operations refine the finite map through the locale \<open>simulation\<close>.
\<close>

section \<open>One table\<close>

lemma dict_index_mask:
  assumes "k \<le> 32"
  shows "dict_index (mask k) h = unat h mod 2 ^ k"
proof -
  have "unat (ucast (take_bit k (ucast h :: 64 word)) :: 32 word) = take_bit k (unat h)"
    using assms by (simp add: unsigned_ucast_eq unsigned_take_bit_eq)
  then show ?thesis
    by (simp add: dict_index_def take_bit_eq_mod flip: take_bit_eq_mask)
qed

lemma ht_liveE:
  assumes "ht_live hf ht"
  obtains k where "2 \<le> k" "k \<le> 31" "ht_size ht = 2 ^ k" "length (ht_table ht) = 2 ^ k"
    "ht_sizemask ht = mask k" "ht_used ht = length (ht_entries ht)"
  using assms by (auto simp: ht_live_def)

lemma ht_live_index [simp]: "ht_live hf ht \<Longrightarrow> dict_index (ht_sizemask ht) h < length (ht_table ht)"
  by (erule ht_liveE) (simp add: dict_index_mask)

lemma ht_live_index_int: "ht_live hf ht \<Longrightarrow> dict_index (ht_sizemask ht) h < 2 ^ 31"
proof (erule ht_liveE)
  fix k assume k: "k \<le> 31" "ht_sizemask ht = mask k"
  have "unat h mod 2 ^ k < 2 ^ k" by simp
  also have "(2::nat) ^ k \<le> 2 ^ 31" using k by (intro power_increasing) auto
  finally show ?thesis using k by (simp add: dict_index_mask)
qed

lemma ht_live_size: "ht_live hf ht \<Longrightarrow> ht_size ht = length (ht_table ht)"
  by (auto elim: ht_liveE)

lemma ht_live_size_pos [simp]: "ht_live hf ht \<Longrightarrow> 0 < ht_size ht"
  by (auto elim: ht_liveE)

lemma ht_live_size_bound: "ht_live hf ht \<Longrightarrow> ht_size ht \<le> 2 ^ 31"
proof (erule ht_liveE)
  fix k :: nat assume "k \<le> 31" "ht_size ht = 2 ^ k"
  then show ?thesis using power_increasing [of k 31 "2::nat"] by simp
qed

lemma ht_live_used: "ht_live hf ht \<Longrightarrow> ht_used ht = length (ht_entries ht)"
  by (simp add: ht_live_def)

lemma ht_live_home:
  "ht_live hf ht \<Longrightarrow> i < length (ht_table ht) \<Longrightarrow> e \<in> set (ht_table ht ! i) \<Longrightarrow>
   dict_index (ht_sizemask ht) (hf (fst e)) = i"
  by (simp add: ht_live_def)

lemma ht_live_not_reset: "ht_live hf ht \<Longrightarrow> ht \<noteq> dictReset_priv"
  by (auto simp: ht_live_def dictReset_priv_def)

text \<open>Replacing one chain by another of entries that belong there: the shape of every update.\<close>

lemma ht_live_update:
  assumes live: "ht_live hf ht" and i: "i < length (ht_table ht)"
    and home: "\<forall>e \<in> set c. dict_index (ht_sizemask ht) (hf (fst e)) = i"
    and u: "u + length (ht_table ht ! i) = ht_used ht + length c"
  shows "ht_live hf (ht\<lparr>ht_table := (ht_table ht)[i := c], ht_used := u\<rparr>)"
proof -
  have "length (concat ((ht_table ht)[i := c])) = u"
    using length_concat_update [OF i, of c] u live by (simp add: ht_live_def ht_entries_def)
  then show ?thesis
    using live home i by (auto simp: ht_live_def ht_entries_def nth_list_update)
qed

lemma ht_entries_update:
  assumes "i < length (ht_table ht)"
  shows "mset (ht_entries (ht\<lparr>ht_table := (ht_table ht)[i := c], ht_used := u\<rparr>)) + mset (ht_table ht ! i)
       = mset (ht_entries ht) + mset c"
  using mset_concat_update [OF assms, of c] by (simp add: ht_entries_def)

lemma ht_live_home_bucket:
  assumes "ht_live hf ht" "e \<in> set (ht_entries ht)"
  shows "e \<in> set (ht_table ht ! dict_index (ht_sizemask ht) (hf (fst e)))"
  using assms ht_live_home [OF assms(1)]
  by (metis ht_entries_def in_concat_nth)

section \<open>The two tables\<close>

lemma ht_entries_reset [simp]: "ht_entries dictReset_priv = []"
  by (simp add: ht_entries_def dictReset_priv_def)

lemma dict_reset_fields [simp]:
  "ht_table dictReset_priv = []" "ht_size dictReset_priv = 0" "ht_used dictReset_priv = 0"
  by (simp_all add: dictReset_priv_def)

lemma dict_map_cong:
  "mset (dict_entries d) = mset (dict_entries d') \<Longrightarrow> dict_inv d' \<Longrightarrow> dict_map d = dict_map d'"
  unfolding dict_map_def dict_inv_def by (metis map_of_cong_mset)

lemma dict_inv_used:
  assumes "dict_inv d"
  shows "ht_used (ht0 d) = length (ht_entries (ht0 d))" "ht_used (ht1 d) = length (ht_entries (ht1 d))"
  using assms by (auto simp: dict_inv_def ht_live_used split: if_splits)

lemma dict_inv_small:
  assumes "dict_inv d"
  shows "ht_used (ht0 d) + ht_used (ht1 d) \<le> dict_max"
  using assms dict_inv_used [OF assms] by (simp add: dict_inv_def dict_entries_def)

lemma dictSize_eq: "dict_inv d \<Longrightarrow> dictSize d = length (dict_entries d)"
  using dict_inv_small [of d] dict_inv_used [of d]
  by (simp add: dictSize_def dict_entries_def dict_max_def)

lemma dictSize_card: "dict_inv d \<Longrightarrow> dictSize d = card (dom (dict_map d))"
  by (simp add: dictSize_eq dict_map_def dom_map_of_conv_image_fst dict_inv_def distinct_card
      flip: set_map)

lemma dict_compare_ok [simp]: "dict_type_ok (dict_type d) \<Longrightarrow> dictCompareKeys d a b = (a = b)"
  by (auto simp: dictCompareKeys_def dict_type_ok_def split: option.splits)

lemma dict_setkey_ok [simp]: "dict_type_ok (dict_type d) \<Longrightarrow> dictSetKey d a = a"
  by (auto simp: dictSetKey_def dict_type_ok_def split: option.splits)

lemma dict_dupval_ok [simp]: "dict_type_ok (dict_type d) \<Longrightarrow> dictDupVal d v = v"
  by (auto simp: dictDupVal_def dict_type_ok_def split: option.splits)

lemma dictCreate_inv: "dict_type_ok ty \<Longrightarrow> dict_inv (dictCreate ty)"
  by (simp add: dictCreate_def dictInit_priv_def dict_inv_def dict_entries_def)

lemma dictCreate_map [simp]: "dict_map (dictCreate ty) = Map.empty"
  by (simp add: dictCreate_def dictInit_priv_def dict_map_def dict_entries_def)

section \<open>Rehashing preserves the contents\<close>

lemma dictRehash_skip_Some:
  assumes "\<exists>j < length t. i \<le> j \<and> t ! j \<noteq> []" "\<forall>j < i. t ! j = []"
  shows "\<exists>i'. dictRehash_skip t i = Some i' \<and> i \<le> i' \<and> i' < length t \<and> t ! i' \<noteq> [] \<and> (\<forall>j < i'. t ! j = [])"
  using assms
proof (induction t i rule: dictRehash_skip.induct)
  case (1 t i)
  show ?case
  proof (cases "t ! i = []")
    case True
    have i: "i < length t" using "1.prems"(1) by auto
    have "\<exists>j < length t. Suc i \<le> j \<and> t ! j \<noteq> []"
      using "1.prems"(1) True by (metis Suc_leI le_neq_implies_less)
    moreover have "\<forall>j < Suc i. t ! j = []"
      using "1.prems"(2) True less_Suc_eq by auto
    ultimately obtain i' where "dictRehash_skip t (Suc i) = Some i'" "Suc i \<le> i'" "i' < length t"
      "t ! i' \<noteq> []" "\<forall>j < i'. t ! j = []"
      using "1.IH" [OF i True] by blast
    with i True show ?thesis by (simp add: dictRehash_skip.simps [of t i])
  next
    case False
    have "i < length t" using "1.prems"(1) by auto
    with False "1.prems"(2) show ?thesis by (simp add: dictRehash_skip.simps [of t i])
  qed
qed

lemma dictRehash_move_Some:
  assumes "ht_live (hashFunction (dict_type d)) (ht1 d)"
    and "length des \<le> ht_used (ht0 d)" "ht_used (ht0 d) + ht_used (ht1 d) < 2 ^ 64"
  shows "\<exists>h1. dictRehash_move des d
            = Some (d\<lparr>ht0 := (ht0 d)\<lparr>ht_used := ht_used (ht0 d) - length des\<rparr>, ht1 := h1\<rparr>) \<and>
          ht_live (hashFunction (dict_type d)) h1 \<and>
          mset (ht_entries h1) = mset (ht_entries (ht1 d)) + mset des"
  using assms
proof (induction des arbitrary: d)
  case Nil
  then show ?case by (intro exI [of _ "ht1 d"]) simp
next
  case (Cons de des)
  let ?hf = "hashFunction (dict_type d)"
  let ?i = "dict_index (ht_sizemask (ht1 d)) (?hf (fst de))"
  let ?t = "ht_table (ht1 d)"
  have i: "?i < length ?t" using Cons.prems(1) by simp
  let ?h = "(ht1 d)\<lparr>ht_table := ?t[?i := de # ?t ! ?i], ht_used := Suc (ht_used (ht1 d))\<rparr>"
  have live: "ht_live ?hf ?h"
    by (rule ht_live_update [OF Cons.prems(1) i]) (use ht_live_home [OF Cons.prems(1) i] in auto)
  have ms: "mset (ht_entries ?h) = add_mset de (mset (ht_entries (ht1 d)))"
    using ht_entries_update [OF i, where c = "de # ?t ! ?i" and u = "Suc (ht_used (ht1 d))"] by simp
  let ?d = "d\<lparr>ht0 := (ht0 d)\<lparr>ht_used := ht_used (ht0 d) - 1\<rparr>, ht1 := ?h\<rparr>"
  have "dictRehash_move (de # des) d = dictRehash_move des ?d"
    using i Cons.prems(2,3) by (simp add: Let_def dictHashKey_def)
  moreover have "\<exists>h1. dictRehash_move des ?d
      = Some (?d\<lparr>ht0 := (ht0 ?d)\<lparr>ht_used := ht_used (ht0 ?d) - length des\<rparr>, ht1 := h1\<rparr>) \<and>
      ht_live (hashFunction (dict_type ?d)) h1 \<and>
      mset (ht_entries h1) = mset (ht_entries (ht1 ?d)) + mset des"
    using live Cons.prems(2,3) by (intro Cons.IH) simp_all
  ultimately show ?case using ms by auto
qed

lemma dict_entries_nonempty_bucket:
  assumes "ht_entries ht \<noteq> []" "\<forall>i < n. ht_table ht ! i = []"
  shows "\<exists>j < length (ht_table ht). n \<le> j \<and> ht_table ht ! j \<noteq> []"
proof -
  obtain e where "e \<in> set (ht_entries ht)" using assms(1) by (meson last_in_set)
  then obtain j where "j < length (ht_table ht)" "e \<in> set (ht_table ht ! j)"
    unfolding ht_entries_def using in_concat_nth by fast
  then show ?thesis using assms(2) by (metis leI list.set_cases list.distinct(1))
qed

text \<open>What rehashing leaves alone.\<close>

definition dict_same :: "('k, 'v) dict \<Rightarrow> ('k, 'v) dict \<Rightarrow> bool" where
  "dict_same d d' \<longleftrightarrow>
     dict_inv d' \<and> dict_type d' = dict_type d \<and> iterators d' = iterators d \<and>
     mset (dict_entries d') = mset (dict_entries d) \<and>
     (ht_size (ht0 d) \<noteq> 0 \<longrightarrow> ht_size (ht0 d') \<noteq> 0)"

lemma dict_same_refl [simp]: "dict_inv d \<Longrightarrow> dict_same d d"
  by (simp add: dict_same_def)

lemma dict_same_trans: "dict_same d d' \<Longrightarrow> dict_same d' d'' \<Longrightarrow> dict_same d d''"
  by (simp add: dict_same_def)

lemma dict_same_map: "dict_inv d \<Longrightarrow> dict_same d d' \<Longrightarrow> dict_map d' = dict_map d"
  by (auto simp: dict_same_def intro: dict_map_cong)

lemma dict_same_length: "dict_same d d' \<Longrightarrow> length (dict_entries d') = length (dict_entries d)"
  unfolding dict_same_def by (metis size_mset)

lemma dict_rehash_finish:
  assumes "dict_inv d" "dictIsRehashing d" "ht_used (ht0 d) = 0"
  shows "dict_same d (d\<lparr>ht0 := ht1 d, ht1 := dictReset_priv, rehashidx := -1\<rparr>)"
  using assms dict_inv_used [OF assms(1)] ht_live_size_pos [of "hashFunction (dict_type d)" "ht1 d"]
  by (auto simp: dict_same_def dict_inv_def dictIsRehashing_def dict_entries_def)

lemma dict_rehash_bucket:
  assumes inv: "dict_inv d" and reh: "dictIsRehashing d"
    and i: "i < length (ht_table (ht0 d))" "\<forall>j < i. ht_table (ht0 d) ! j = []"
  shows "\<exists>d'. dictRehash_move (ht_table (ht0 d) ! i) d = Some d' \<and>
     dict_same d (d'\<lparr>ht0 := (ht0 d')\<lparr>ht_table := (ht_table (ht0 d'))[i := []]\<rparr>, rehashidx := int i + 1\<rparr>)"
proof -
  let ?hf = "hashFunction (dict_type d)" and ?c = "ht_table (ht0 d) ! i"
  have live0: "ht_live ?hf (ht0 d)" and live1: "ht_live ?hf (ht1 d)"
    using inv reh by (auto simp: dict_inv_def dictIsRehashing_def)
  have len: "length ?c \<le> ht_used (ht0 d)"
    using length_concat_update [OF i(1), of "[]"] ht_live_used [OF live0] by (simp add: ht_entries_def)
  have small: "ht_used (ht0 d) + ht_used (ht1 d) < 2 ^ 64"
    using dict_inv_small [OF inv] by (simp add: dict_max_def)
  obtain h1 where mv: "dictRehash_move ?c d
      = Some (d\<lparr>ht0 := (ht0 d)\<lparr>ht_used := ht_used (ht0 d) - length ?c\<rparr>, ht1 := h1\<rparr>)"
    and h1: "ht_live ?hf h1" "mset (ht_entries h1) = mset (ht_entries (ht1 d)) + mset ?c"
    using dictRehash_move_Some [OF live1 len small] by blast
  let ?h0 = "(ht0 d)\<lparr>ht_table := (ht_table (ht0 d))[i := []], ht_used := ht_used (ht0 d) - length ?c\<rparr>"
  have live0': "ht_live ?hf ?h0"
    using len by (intro ht_live_update [OF live0 i(1)]) auto
  have ms0: "mset (ht_entries ?h0) + mset ?c = mset (ht_entries (ht0 d))"
    using ht_entries_update [OF i(1), where c = "[]"] by simp
  let ?d = "d\<lparr>ht0 := ?h0, ht1 := h1, rehashidx := int i + 1\<rparr>"
  have ms: "mset (dict_entries ?d) = mset (dict_entries d)"
    using ms0 h1(2) by (simp add: dict_entries_def ac_simps flip: ms0)
  then have "distinct (map fst (dict_entries ?d))" "length (dict_entries ?d) \<le> dict_max"
    using inv distinct_map_mset_cong [OF ms, of fst] mset_eq_length [OF ms]
    by (simp_all add: dict_inv_def)
  then have "dict_inv ?d"
    using inv live0' h1(1) i ht_live_size [OF live0]
    by (auto simp: dict_inv_def nth_list_update less_Suc_eq)
  then have "dict_same d ?d" using ms by (simp add: dict_same_def)
  moreover have "?d = d\<lparr>ht1 := h1,
      ht0 := (ht0 d)\<lparr>ht_used := ht_used (ht0 d) - length ?c, ht_table := (ht_table (ht0 d))[i := []]\<rparr>,
      rehashidx := int i + 1\<rparr>" by simp
  ultimately show ?thesis using mv by simp
qed

lemma dictRehash_loop_same:
  assumes "dict_inv d" "dictIsRehashing d"
  shows "\<exists>d' b. dictRehash_loop n d = Some (d', b) \<and> dict_same d d'"
  using assms
proof (induction n arbitrary: d)
  case 0
  then show ?case by (auto intro!: exI [of _ True])
next
  case (Suc n)
  note inv = Suc.prems(1) and reh = Suc.prems(2)
  show ?case
  proof (cases "ht_used (ht0 d) = 0")
    case True
    then show ?thesis using dict_rehash_finish [OF inv reh] by auto
  next
    case False
    let ?t = "ht_table (ht0 d)"
    have live0: "ht_live (hashFunction (dict_type d)) (ht0 d)"
      and r: "0 \<le> rehashidx d" "\<forall>i < nat (rehashidx d). ?t ! i = []"
      using inv reh by (auto simp: dict_inv_def dictIsRehashing_def)
    have "ht_entries (ht0 d) \<noteq> []" using False ht_live_used [OF live0] by auto
    from dict_entries_nonempty_bucket [OF this r(2)]
    have ex: "\<exists>j < length ?t. nat (rehashidx d) \<le> j \<and> ?t ! j \<noteq> []" .
    then have lt: "ulong_of_int (rehashidx d) < ht_size (ht0 d)"
      using r(1) ht_live_size [OF live0] ht_live_size_bound [OF live0] by auto
    obtain i where sk: "dictRehash_skip ?t (nat (rehashidx d)) = Some i"
      and i: "i < length ?t" "\<forall>j < i. ?t ! j = []"
      using dictRehash_skip_Some [OF ex r(2)] by blast
    obtain d' where mv: "dictRehash_move (?t ! i) d = Some d'"
      and same: "dict_same d (d'\<lparr>ht0 := (ht0 d')\<lparr>ht_table := (ht_table (ht0 d'))[i := []]\<rparr>, rehashidx := int i + 1\<rparr>)"
      (is "dict_same d ?d") using dict_rehash_bucket [OF inv reh i] by blast
    have "dict_inv ?d" "dictIsRehashing ?d" using same by (auto simp: dict_same_def dictIsRehashing_def)
    from Suc.IH [OF this] obtain d'' b where "dictRehash_loop n ?d = Some (d'', b)" "dict_same ?d d''"
      by blast
    then show ?thesis using False lt sk mv dict_same_trans [OF same] by auto
  qed
qed

lemma dictRehash_same: "dict_inv d \<Longrightarrow> \<exists>d' b. dictRehash d n = Some (d', b) \<and> dict_same d d'"
  using dictRehash_loop_same [of d n] by (auto simp: dictRehash_def)

lemma dictRehashStep_same: "dict_inv d \<Longrightarrow> \<exists>d'. dictRehashStep_priv d = Some d' \<and> dict_same d d'"
  using dictRehash_same [of d 1] by (auto simp: dictRehashStep_priv_def)

lemma dict_step_if_same:
  assumes "dict_inv d"
  obtains d' where "(if dictIsRehashing d then dictRehashStep_priv d else Some d) = Some d'" "dict_same d d'"
  using dictRehashStep_same [OF assms] assms by (cases "dictIsRehashing d") auto

section \<open>Growing the table\<close>

lemma dict_ret_not_ERR [simp]: "r \<noteq> DICT_ERR \<longleftrightarrow> r = DICT_OK"
  by (cases r) auto

lemma dictNextPower_loop_Some:
  assumes "j \<le> 62" "sz \<le> 2 ^ 62"
  shows "\<exists>k. dictNextPower_loop (2 ^ j) sz = Some (2 ^ k) \<and> j \<le> k \<and> sz \<le> 2 ^ k \<and>
             (k = j \<or> 2 ^ (k - 1) < sz)"
  using assms(1)
proof (induction "62 - j" arbitrary: j)
  case 0
  then have "j = 62" by simp
  then show ?case using assms(2) by (intro exI [of _ 62]) (simp add: dictNextPower_loop.simps)
next
  case (Suc x)
  show ?case
  proof (cases "sz \<le> 2 ^ j")
    case True
    then show ?thesis by (intro exI [of _ j]) (simp add: dictNextPower_loop.simps)
  next
    case False
    have j: "j < 62" and x: "x = 62 - Suc j" using Suc.hyps(2) by simp_all
    then have "(2::nat) ^ Suc j < 2 ^ 64" by (intro power_strict_increasing) auto
    then have m: "ul_mul (2 ^ j) 2 = 2 ^ Suc j" by (simp add: mult.commute)
    obtain k where k: "dictNextPower_loop (2 ^ Suc j) sz = Some (2 ^ k)" "Suc j \<le> k" "sz \<le> 2 ^ k"
      "k = Suc j \<or> 2 ^ (k - 1) < sz"
      using Suc.hyps(1) [of "Suc j"] x j by auto
    have "dictNextPower_loop (2 ^ j) sz = Some (2 ^ k)"
      using False k(1) m by (subst dictNextPower_loop.simps) simp
    then show ?thesis using k False by (intro exI [of _ k]) auto
  qed
qed

text \<open>The size computed is the least power of two, at least 4, that holds \<open>sz\<close> elements.\<close>

lemma dictNextPower_Some:
  assumes "sz \<le> 2 ^ 31"
  obtains k where "dictNextPower_priv sz = Some (2 ^ k)" "2 \<le> k" "k \<le> 31" "sz \<le> 2 ^ k"
    "k = 2 \<or> 2 ^ (k - 1) < sz"
proof -
  obtain k where k: "dictNextPower_loop (2 ^ 2) sz = Some (2 ^ k)" "2 \<le> k" "sz \<le> 2 ^ k"
    "k = 2 \<or> 2 ^ (k - 1) < sz"
    using dictNextPower_loop_Some [of 2 sz] assms by auto
  have "k \<le> 31"
  proof (rule ccontr)
    assume "\<not> k \<le> 31"
    then have "(2::nat) ^ 31 \<le> 2 ^ (k - 1)" by (intro power_increasing) auto
    then show False using k(4) assms \<open>\<not> k \<le> 31\<close> by simp
  qed
  moreover have "dictNextPower_priv sz = Some (2 ^ k)"
    using k(1) assms by (simp add: dictNextPower_priv_def DICT_HT_INITIAL_SIZE_def)
  ultimately show ?thesis using that k by blast
qed

definition ht_fresh :: "nat \<Rightarrow> ('k, 'v) dictht" where
  "ht_fresh k = \<lparr>ht_table = replicate (2 ^ k) [], ht_size = 2 ^ k, ht_sizemask = mask k, ht_used = 0\<rparr>"

lemma ht_fresh_live: "2 \<le> k \<Longrightarrow> k \<le> 31 \<Longrightarrow> ht_live hf (ht_fresh k)"
  by (auto simp: ht_live_def ht_fresh_def ht_entries_def)

lemma ht_fresh_entries [simp]: "ht_entries (ht_fresh k) = []"
  by (simp add: ht_fresh_def ht_entries_def)

lemma ht_fresh_size [simp]: "ht_size (ht_fresh k) = 2 ^ k"
  by (simp add: ht_fresh_def)

lemma ht_fresh_eq:
  assumes "k \<le> 31"
  shows "\<lparr>ht_table = replicate (2 ^ k) [], ht_size = 2 ^ k, ht_sizemask = of_nat (ul_sub (2 ^ k) (Suc 0)),
      ht_used = 0\<rparr> = ht_fresh k"
proof -
  have "(2::nat) ^ k < 2 ^ 64" using assms by (intro power_strict_increasing) auto
  then have "ul_sub (2 ^ k) (Suc 0) = 2 ^ k - 1" by simp
  then show ?thesis by (simp add: ht_fresh_def mask_eq_exp_minus_1 of_nat_diff)
qed

lemma dictExpand_same:
  assumes inv: "dict_inv d" and sz: "sz \<le> 2 ^ 31"
  shows "\<exists>d' r. dictExpand d sz = Some (d', r) \<and> dict_same d d' \<and>
           (r = DICT_ERR \<longleftrightarrow> dictIsRehashing d \<or> sz < ht_used (ht0 d)) \<and>
           (r = DICT_OK \<longrightarrow> ht_size (ht0 d') \<noteq> 0)"
proof -
  obtain k where k: "dictNextPower_priv sz = Some (2 ^ k)" "2 \<le> k" "k \<le> 31"
    using dictNextPower_Some [OF sz] by blast
  let ?hf = "hashFunction (dict_type d)"
  have fresh: "ht_live ?hf (ht_fresh k)" using k by (simp add: ht_fresh_live)
  show ?thesis
  proof (cases "dictIsRehashing d \<or> sz < ht_used (ht0 d)")
    case True
    then show ?thesis using k(1) inv by (auto simp: dictExpand_def)
  next
    case False
    then have nr: "rehashidx d = -1" by (simp add: dictIsRehashing_def)
    show ?thesis
    proof (cases "ht_table (ht0 d) = []")
      case True
      then have "ht0 d = dictReset_priv" "ht1 d = dictReset_priv"
        using inv nr by (auto simp: dict_inv_def ht_live_def)
      then have "dict_same d (d\<lparr>ht0 := ht_fresh k\<rparr>)"
        using inv nr fresh by (auto simp: dict_same_def dict_inv_def dict_entries_def)
      then show ?thesis using k False True by (auto simp: dictExpand_def ht_fresh_eq Let_def)
    next
      case nonempty: False
      then have "ht_live ?hf (ht0 d)" "ht1 d = dictReset_priv"
        using inv nr by (auto simp: dict_inv_def)
      then have "dict_same d (d\<lparr>ht1 := ht_fresh k, rehashidx := 0\<rparr>)" "0 < ht_size (ht0 d)"
        using inv nr fresh by (auto simp: dict_same_def dict_inv_def dict_entries_def)
      then show ?thesis using k False nonempty by (auto simp: dictExpand_def ht_fresh_eq Let_def)
    qed
  qed
qed

lemma dictResize_same:
  assumes "dict_inv d" shows "\<exists>d' r. dictResize cr d = Some (d', r) \<and> dict_same d d'"
proof -
  have "ht_used (ht0 d) \<le> dict_max" using dict_inv_small [OF assms] by simp
  then have "ulong_of_int (let m = int_of_ulong (ht_used (ht0 d)) in if m < 4 then 4 else m) \<le> 2 ^ 31"
    by (simp add: dict_max_def Let_def)
  from dictExpand_same [OF assms this] assms show ?thesis
    by (auto simp: dictResize_def Let_def DICT_HT_INITIAL_SIZE_def)
qed

text \<open>Before an insertion the table exists, and the growth test never fails.\<close>

lemma dictExpandIfNeeded_same:
  assumes inv: "dict_inv d"
  shows "\<exists>d'. dictExpandIfNeeded_priv cr d = Some (d', DICT_OK) \<and> dict_same d d' \<and> ht_size (ht0 d') \<noteq> 0"
proof -
  have u: "ht_used (ht0 d) \<le> dict_max" using dict_inv_small [OF inv] by simp
  consider "dictIsRehashing d"
    | "\<not> dictIsRehashing d" "ht_size (ht0 d) = 0"
    | "\<not> dictIsRehashing d" "ht_size (ht0 d) \<noteq> 0" by blast
  then show ?thesis
  proof cases
    case 1
    then have "ht_size (ht0 d) \<noteq> 0"
      using inv ht_live_size_pos by (fastforce simp: dict_inv_def dictIsRehashing_def)
    then show ?thesis using 1 inv by (simp add: dictExpandIfNeeded_priv_def)
  next
    case 2
    then have "ht_used (ht0 d) = 0" using inv by (auto simp: dict_inv_def dictIsRehashing_def ht_live_def)
    then show ?thesis using 2 dictExpand_same [OF inv, of 4]
      by (auto simp: dictExpandIfNeeded_priv_def DICT_HT_INITIAL_SIZE_def)
  next
    case 3
    let ?sz = "ul_mul (ht_used (ht0 d)) 2"
    have sz: "?sz = 2 * ht_used (ht0 d)" "?sz \<le> 2 ^ 31" using u by (simp_all add: dict_max_def)
    show ?thesis using 3 dictExpand_same [OF inv sz(2)] inv sz(1)
      by (auto simp: dictExpandIfNeeded_priv_def)
  qed
qed

section \<open>Entry references\<close>

definition table_live :: "('k, 'v) dict \<Rightarrow> nat \<Rightarrow> bool" where
  "table_live d t \<longleftrightarrow> t = 0 \<and> ht_size (ht0 d) \<noteq> 0 \<or> t = 1 \<and> dictIsRehashing d"

definition ref_ok :: "('k, 'v) dict \<Rightarrow> entry_ref \<Rightarrow> bool" where
  "ref_ok d = (\<lambda>(t, i, p). table_live d t \<and> i < length (ht_table (ht_at d t)) \<and>
                           p < length (ht_table (ht_at d t) ! i))"

definition ref_entry :: "('k, 'v) dict \<Rightarrow> entry_ref \<Rightarrow> ('k, 'v) dictEntry" where
  "ref_entry d = (\<lambda>(t, i, p). ht_table (ht_at d t) ! i ! p)"

lemma table_live_ht:
  "dict_inv d \<Longrightarrow> table_live d t \<Longrightarrow> ht_live (hashFunction (dict_type d)) (ht_at d t)"
  by (auto simp: dict_inv_def table_live_def ht_at_def dictIsRehashing_def split: if_splits)

lemma ref_entry_in:
  assumes "dict_inv d" "ref_ok d r" shows "ref_entry d r \<in> set (dict_entries d)"
proof -
  obtain t i p where r: "r = (t, i, p)" by (cases r) auto
  have "ref_entry d r \<in> set (concat (ht_table (ht_at d t)))"
    by (rule nth_in_concat [of i]) (use assms(2) in \<open>auto simp: r ref_ok_def ref_entry_def\<close>)
  then show ?thesis by (auto simp: dict_entries_def ht_entries_def ht_at_def split: if_splits)
qed

lemma dictGetEntry_ref: "ref_ok d r \<Longrightarrow> dictGetEntry d r = Some (ref_entry d r)"
  by (cases r) (auto simp: dictGetEntry_def ref_ok_def ref_entry_def)

lemma dict_map_ref:
  "dict_inv d \<Longrightarrow> ref_ok d r \<Longrightarrow> dict_map d (fst (ref_entry d r)) = Some (snd (ref_entry d r))"
  using ref_entry_in [of d r] by (auto simp: dict_map_def dict_inv_def intro: map_of_is_SomeI)

text \<open>Every update of a dictionary replaces one chain of one table.\<close>

definition dict_put_chain ::
    "('k, 'v) dict \<Rightarrow> nat \<Rightarrow> nat \<Rightarrow> ('k, 'v) dictEntry list \<Rightarrow> nat \<Rightarrow> ('k, 'v) dict" where
  "dict_put_chain d t i c u =
     ht_at_update d t ((ht_at d t)\<lparr>ht_table := (ht_table (ht_at d t))[i := c], ht_used := u\<rparr>)"

lemma dict_put_chain_entries:
  assumes "i < length (ht_table (ht_at d t))"
  shows "mset (dict_entries (dict_put_chain d t i c u)) + mset (ht_table (ht_at d t) ! i)
       = mset (dict_entries d) + mset c"
  using ht_entries_update [OF assms, where c = c and u = u]
  by (auto simp: dict_put_chain_def dict_entries_def ht_at_def ht_at_update_def ac_simps)

lemma dict_put_chain_inv:
  assumes inv: "dict_inv d" and t: "table_live d t" and i: "i < length (ht_table (ht_at d t))"
    and home: "\<forall>e \<in> set c. dict_index (ht_sizemask (ht_at d t)) (hashFunction (dict_type d) (fst e)) = i"
    and u: "u + length (ht_table (ht_at d t) ! i) = ht_used (ht_at d t) + length c"
    and old: "t = 0 \<Longrightarrow> dictIsRehashing d \<Longrightarrow> ht_table (ht0 d) ! i \<noteq> []"
    and dist: "distinct (map fst (dict_entries (dict_put_chain d t i c u)))"
    and small: "length (dict_entries (dict_put_chain d t i c u)) \<le> dict_max"
  shows "dict_inv (dict_put_chain d t i c u)"
proof -
  let ?h = "(ht_at d t)\<lparr>ht_table := (ht_table (ht_at d t))[i := c], ht_used := u\<rparr>"
  have live: "ht_live (hashFunction (dict_type d)) ?h"
    by (rule ht_live_update [OF table_live_ht [OF inv t] i home u])
  show ?thesis
  proof (cases "t = 0")
    case True
    then have "\<not> i < nat (rehashidx d)" if "dictIsRehashing d"
      using old that inv by (auto simp: dict_inv_def dictIsRehashing_def)
    then show ?thesis using inv live dist small True t
      by (auto simp: dict_inv_def dict_put_chain_def ht_at_def ht_at_update_def table_live_def
          dictIsRehashing_def nth_list_update)
  next
    case False
    then show ?thesis using inv live dist small t
      by (auto simp: dict_inv_def dict_put_chain_def ht_at_def ht_at_update_def table_live_def
          dictIsRehashing_def)
  qed
qed

lemma dict_put_chain_fields [simp]:
  "dict_type (dict_put_chain d t i c u) = dict_type d"
  "iterators (dict_put_chain d t i c u) = iterators d"
  "dictIsRehashing (dict_put_chain d t i c u) = dictIsRehashing d"
  "ht_size (ht_at (dict_put_chain d t i c u) t') = ht_size (ht_at d t')"
  "ht_sizemask (ht_at (dict_put_chain d t i c u) t') = ht_sizemask (ht_at d t')"
  by (auto simp: dict_put_chain_def ht_at_update_def ht_at_def dictIsRehashing_def)

section \<open>Searching\<close>

lemma dict_absent_table:
  assumes live: "ht_live hf ht"
    and none: "\<forall>e \<in> set (ht_table ht ! dict_index (ht_sizemask ht) (hf key)). fst e \<noteq> key"
  shows "key \<notin> fst ` set (ht_entries ht)"
  using ht_live_home_bucket [OF live] none by auto

lemma dict_search_Some:
  assumes inv: "dict_inv d" and sz: "ht_size (ht0 d) \<noteq> 0"
  shows "(\<exists>t i p. dict_search d key = Some (Some (t, i, p), i) \<and> ref_ok d (t, i, p) \<and>
                  fst (ref_entry d (t, i, p)) = key) \<or>
         (dict_search d key = Some (None, dict_index (ht_sizemask (ht_at d (if dictIsRehashing d then 1 else 0)))
                                        (hashFunction (dict_type d) key)) \<and>
          key \<notin> fst ` set (dict_entries d))"
proof -
  let ?hf = "hashFunction (dict_type d)"
  let ?i0 = "dict_index (ht_sizemask (ht0 d)) (?hf key)" and ?i1 = "dict_index (ht_sizemask (ht1 d)) (?hf key)"
  let ?c0 = "ht_table (ht0 d) ! ?i0" and ?c1 = "ht_table (ht1 d) ! ?i1"
  let ?P = "\<lambda>he. key = fst he"
  have ok: "dict_type_ok (dict_type d)" using inv by (simp add: dict_inv_def)
  have live0: "ht_live ?hf (ht0 d)"
    using table_live_ht [OF inv, of 0] sz by (simp add: table_live_def ht_at_def)
  have live1: "dictIsRehashing d \<Longrightarrow> ht_live ?hf (ht1 d)"
    using table_live_ht [OF inv, of 1] by (simp add: table_live_def ht_at_def)
  show ?thesis
  proof (cases "find_pos ?P ?c0")
    case (Some p)
    then show ?thesis
      using find_pos_SomeD [OF Some] live0 ok sz
      by (auto simp: dict_search_def Let_def dictHashKey_def ref_ok_def ref_entry_def ht_at_def table_live_def)
  next
    case None
    have abs0: "key \<notin> fst ` set (ht_entries (ht0 d))"
      by (rule dict_absent_table [OF live0]) (use None in \<open>auto simp: find_pos_None_iff\<close>)
    show ?thesis
    proof (cases "dictIsRehashing d")
      case False
      then have "ht_entries (ht1 d) = []" using inv by (auto simp: dict_inv_def dictIsRehashing_def)
      then show ?thesis using False None live0 ok abs0
        by (simp add: dict_search_def Let_def dictHashKey_def ht_at_def dict_entries_def)
    next
      case True
      note live1 = live1 [OF True]
      show ?thesis
      proof (cases "find_pos ?P ?c1")
        case (Some p)
        then show ?thesis
          using find_pos_SomeD [OF Some] None live0 live1 ok True
          by (auto simp: dict_search_def Let_def dictHashKey_def ref_ok_def ref_entry_def ht_at_def table_live_def)
      next
        case none1: None
        have "key \<notin> fst ` set (ht_entries (ht1 d))"
          by (rule dict_absent_table [OF live1]) (use none1 in \<open>auto simp: find_pos_None_iff\<close>)
        then show ?thesis using True None none1 live0 live1 ok abs0
          by (simp add: dict_search_def Let_def dictHashKey_def ht_at_def dict_entries_def image_Un)
      qed
    qed
  qed
qed

lemma dict_search_cases:
  assumes "dict_inv d" "ht_size (ht0 d) \<noteq> 0"
  obtains (found) t i p where "dict_search d key = Some (Some (t, i, p), i)" "ref_ok d (t, i, p)"
      "fst (ref_entry d (t, i, p)) = key"
    | (absent) "dict_search d key = Some (None, dict_index (ht_sizemask (ht_at d (if dictIsRehashing d then 1 else 0)))
                                        (hashFunction (dict_type d) key))"
      "dict_map d key = None"
  using dict_search_Some [OF assms, of key] by (auto simp: dict_map_def map_of_eq_None_iff)

lemma dict_empty_table_map: "dict_inv d \<Longrightarrow> ht_size (ht0 d) = 0 \<Longrightarrow> dict_map d = Map.empty"
  using ht_live_size_pos
  by (fastforce simp: dict_inv_def dict_map_def dict_entries_def split: if_splits)

section \<open>The operations\<close>

text \<open>What every operation keeps: the invariant, the type and the iterator count.\<close>

definition dict_step :: "('k, 'v) dict \<Rightarrow> ('k, 'v) dict \<Rightarrow> ('k \<rightharpoonup> 'v) \<Rightarrow> bool" where
  "dict_step d d' m \<longleftrightarrow>
     dict_inv d' \<and> dict_type d' = dict_type d \<and> iterators d' = iterators d \<and> dict_map d' = m"

lemma dict_same_step: "dict_inv d \<Longrightarrow> dict_same d d' \<Longrightarrow> dict_step d d' (dict_map d)"
  using dict_same_map [of d d'] by (simp add: dict_step_def dict_same_def)

lemma dict_step_trans:
  "dict_step d d' m \<Longrightarrow> dict_step d' d'' m' \<Longrightarrow> dict_step d d'' m'"
  by (simp add: dict_step_def)

lemma dictFind_spec:
  assumes inv: "dict_inv d"
  shows "\<exists>d' r. dictFind d key = Some (d', r) \<and> dict_same d d' \<and>
           (case r of None \<Rightarrow> dict_map d key = None
            | Some he \<Rightarrow> ref_ok d' he \<and> fst (ref_entry d' he) = key)"
proof (cases "ht_size (ht0 d) = 0")
  case True
  then show ?thesis using dict_empty_table_map [OF inv True] inv by (simp add: dictFind_def)
next
  case False
  obtain d' where st: "(if dictIsRehashing d then dictRehashStep_priv d else Some d) = Some d'"
    and same: "dict_same d d'" using dict_step_if_same [OF inv] by blast
  have inv': "dict_inv d'" "ht_size (ht0 d') \<noteq> 0" using same False by (simp_all add: dict_same_def)
  show ?thesis
    using dict_same_map [OF inv same]
    by (rule_tac dict_search_cases [OF inv', of key]) (use st same False in \<open>simp_all add: dictFind_def\<close>)
qed

lemma dictFetchValue_spec:
  assumes inv: "dict_inv d"
  shows "\<exists>d'. dictFetchValue d key = Some (d', dict_map d key) \<and> dict_step d d' (dict_map d)"
proof -
  obtain d' r where f: "dictFind d key = Some (d', r)" "dict_same d d'"
    and r: "case r of None \<Rightarrow> dict_map d key = None
            | Some he \<Rightarrow> ref_ok d' he \<and> fst (ref_entry d' he) = key"
    using dictFind_spec [OF inv, of key] by blast
  have inv': "dict_inv d'" and m: "dict_map d' = dict_map d" and st: "dict_step d d' (dict_map d)"
    using f(2) dict_same_map [OF inv f(2)] dict_same_step [OF inv f(2)] by (simp_all add: dict_same_def)
  show ?thesis
  proof (cases r)
    case None
    then show ?thesis using f r st by (simp add: dictFetchValue_def)
  next
    case (Some he)
    then show ?thesis using f r st m dict_map_ref [OF inv', of he] dictGetEntry_ref [of d' he]
      by (simp add: dictFetchValue_def)
  qed
qed

text \<open>Writing the value of an entry.\<close>

lemma dictSetVal_spec:
  assumes inv: "dict_inv d" and ok: "ref_ok d r"
  shows "\<exists>d'. dictSetVal d r v = Some d' \<and>
              dict_step d d' ((dict_map d)(fst (ref_entry d r) \<mapsto> v)) \<and>
              length (dict_entries d') = length (dict_entries d)"
proof -
  obtain t i p where r: "r = (t, i, p)" by (cases r) auto
  let ?c = "ht_table (ht_at d t) ! i" and ?e = "ref_entry d r"
  let ?c' = "?c[p := (fst ?e, v)]" and ?u = "ht_used (ht_at d t)"
  let ?d = "dict_put_chain d t i ?c' ?u"
  have t: "table_live d t" and i: "i < length (ht_table (ht_at d t))" and p: "p < length ?c"
    using ok by (simp_all add: r ref_ok_def)
  have e: "?c ! p = (fst ?e, snd ?e)" by (simp add: r ref_entry_def)
  have live: "ht_live (hashFunction (dict_type d)) (ht_at d t)" by (rule table_live_ht [OF inv t])
  have put: "dictSetVal d r v = Some ?d"
    using i p inv by (simp add: dictSetVal_def r dict_put_chain_def ref_entry_def dict_inv_def)
  have ms: "add_mset (fst ?e, snd ?e) (mset (dict_entries ?d)) = add_mset (fst ?e, v) (mset (dict_entries d))"
    using dict_put_chain_entries [OF i, where c = ?c' and u = ?u]
    by (simp only: mset_nth_split [OF p] mset_update_split [OF p] e) simp
  then have len: "length (dict_entries ?d) = length (dict_entries d)"
    by (metis size_add_mset size_mset nat.inject)
  have "distinct (map fst (dict_entries ?d)) \<and> map_of (dict_entries ?d) = (dict_map d)(fst ?e \<mapsto> v)"
    using assoc_mset_exchange [OF ms] inv ref_entry_in [OF inv ok] by (simp add: dict_inv_def dict_map_def)
  moreover have "dict_index (ht_sizemask (ht_at d t)) (hashFunction (dict_type d) (fst ?e)) = i"
    using ht_live_home [OF live i nth_mem [OF p]] e by simp
  then have "\<forall>x \<in> set ?c'. dict_index (ht_sizemask (ht_at d t)) (hashFunction (dict_type d) (fst x)) = i"
    using ht_live_home [OF live i] set_update_subset_insert [of ?c p "(fst ?e, v)"] by auto
  with calculation have "dict_inv ?d"
    using p len inv by (intro dict_put_chain_inv [OF inv t i]) (auto simp: dict_inv_def ht_at_def)
  ultimately show ?thesis using put len by (simp add: dict_step_def dict_map_def)
qed

lemma dictAddRaw_spec:
  assumes inv: "dict_inv d" and room: "dictSize d < dict_max"
  shows "\<exists>d' r. dictAddRaw cr junk d key = Some (d', r) \<and>
           (if dict_map d key = None
            then \<exists>he. r = Some he \<and> ref_ok d' he \<and> fst (ref_entry d' he) = key \<and>
                      dict_step d d' ((dict_map d)(key \<mapsto> junk)) \<and> dictSize d' = Suc (dictSize d)
            else r = None \<and> dict_same d d')"
proof -
  obtain d1 where st: "(if dictIsRehashing d then dictRehashStep_priv d else Some d) = Some d1"
    and same1: "dict_same d d1" using dict_step_if_same [OF inv] by blast
  have inv1: "dict_inv d1" using same1 by (simp add: dict_same_def)
  obtain d2 where ex: "dictExpandIfNeeded_priv cr d1 = Some (d2, DICT_OK)"
    and same12: "dict_same d1 d2" and sz: "ht_size (ht0 d2) \<noteq> 0"
    using dictExpandIfNeeded_same [OF inv1] by blast
  have same: "dict_same d d2" by (rule dict_same_trans [OF same1 same12])
  then have inv2: "dict_inv d2" by (simp add: dict_same_def)
  have m: "dict_map d2 = dict_map d" by (rule dict_same_map [OF inv same])
  from inv2 sz show ?thesis
  proof (cases rule: dict_search_cases [of d2 key])
    case (found t i p)
    then have "dict_map d key \<noteq> None" using dict_map_ref [OF inv2 found(2)] m by auto
    then show ?thesis using st ex found same by (simp add: dictAddRaw_def dictKeyIndex_priv_def)
  next
    case absent
    let ?t = "if dictIsRehashing d2 then 1 else 0"
    let ?i = "dict_index (ht_sizemask (ht_at d2 ?t)) (hashFunction (dict_type d2) key)"
    let ?c = "ht_table (ht_at d2 ?t) ! ?i" and ?u = "ht_used (ht_at d2 ?t)"
    let ?d = "dict_put_chain d2 ?t ?i ((key, junk) # ?c) (Suc ?u)"
    have t: "table_live d2 ?t" using sz by (simp add: table_live_def)
    have live: "ht_live (hashFunction (dict_type d2)) (ht_at d2 ?t)" by (rule table_live_ht [OF inv2 t])
    then have i: "?i < length (ht_table (ht_at d2 ?t))" and ii: "?i < 2 ^ 31"
      by (simp_all only: ht_live_index ht_live_index_int)
    have len: "length (dict_entries d2) = dictSize d"
      using dict_same_length [OF same] dictSize_eq [OF inv] by simp
    have "?u \<le> dict_max" using dict_inv_small [OF inv2] by (auto simp: ht_at_def)
    then have u: "ul_add ?u 1 = Suc ?u" by (simp add: dict_max_def)
    have ms: "mset (dict_entries ?d) = add_mset (key, junk) (mset (dict_entries d2))"
      using dict_put_chain_entries [OF i, where c = "(key, junk) # ?c" and u = "Suc ?u"] by simp
    then have len': "length (dict_entries ?d) = Suc (dictSize d)" using len by (metis size_add_mset size_mset)
    have dm: "distinct (map fst (dict_entries ?d)) \<and> map_of (dict_entries ?d) = (dict_map d)(key \<mapsto> junk)"
      using assoc_mset_add [OF ms] inv2 absent m by (simp add: dict_inv_def dict_map_def)
    then have inv': "dict_inv ?d"
      using len' room ht_live_home [OF live i]
      by (intro dict_put_chain_inv [OF inv2 t i]) auto
    have add: "dictAddRaw cr junk d key = Some (?d, Some (?t, ?i, 0))"
      using st ex absent(1) i ii u inv2
      by (simp add: dictAddRaw_def dictKeyIndex_priv_def Let_def dict_put_chain_def dict_inv_def)
    have "ref_ok ?d (?t, ?i, 0)" "fst (ref_entry ?d (?t, ?i, 0)) = key"
      using i sz by (auto simp: ref_ok_def ref_entry_def table_live_def dict_put_chain_def ht_at_def
          ht_at_update_def dictIsRehashing_def)
    moreover have "dict_step d ?d ((dict_map d)(key \<mapsto> junk))"
      using inv' dm same by (simp add: dict_step_def dict_map_def dict_same_def)
    moreover have "dictSize ?d = Suc (dictSize d)" using dictSize_eq [OF inv'] len' by simp
    ultimately show ?thesis using add absent(2) m by auto
  qed
qed

lemma dictAdd_spec:
  assumes inv: "dict_inv d" and room: "dictSize d < dict_max"
  shows "\<exists>d'. dictAdd cr junk d key val
            = Some (d', if dict_map d key = None then DICT_OK else DICT_ERR) \<and>
          dict_step d d' (if dict_map d key = None then (dict_map d)(key \<mapsto> val) else dict_map d)"
proof -
  obtain d1 r where add: "dictAddRaw cr junk d key = Some (d1, r)"
    and res: "if dict_map d key = None
            then \<exists>he. r = Some he \<and> ref_ok d1 he \<and> fst (ref_entry d1 he) = key \<and>
                      dict_step d d1 ((dict_map d)(key \<mapsto> junk)) \<and> dictSize d1 = Suc (dictSize d)
            else r = None \<and> dict_same d d1"
    using dictAddRaw_spec [OF assms] by blast
  show ?thesis
  proof (cases "dict_map d key = None")
    case True
    then obtain he where he: "r = Some he" "ref_ok d1 he" "fst (ref_entry d1 he) = key"
      and st: "dict_step d d1 ((dict_map d)(key \<mapsto> junk))" using res by auto
    have inv1: "dict_inv d1" using st by (simp add: dict_step_def)
    obtain d2 where "dictSetVal d1 he val = Some d2" "dict_step d1 d2 ((dict_map d1)(key \<mapsto> val))"
      using dictSetVal_spec [OF inv1 he(2), of val] he(3) by auto
    moreover have "(dict_map d1)(key \<mapsto> val) = (dict_map d)(key \<mapsto> val)"
      using st by (simp add: dict_step_def)
    ultimately show ?thesis using True add he(1) dict_step_trans [OF st] by (simp add: dictAdd_def)
  next
    case False
    then show ?thesis using res add dict_same_step [OF inv] by (simp add: dictAdd_def)
  qed
qed

lemma dictReplace_spec:
  assumes inv: "dict_inv d" and room: "dictSize d < dict_max"
  shows "\<exists>d'. dictReplace cr junk d key val = Some (d', if dict_map d key = None then 1 else 0) \<and>
          dict_step d d' ((dict_map d)(key \<mapsto> val))"
proof -
  obtain d1 where add: "dictAdd cr junk d key val
            = Some (d1, if dict_map d key = None then DICT_OK else DICT_ERR)"
    and st: "dict_step d d1 (if dict_map d key = None then (dict_map d)(key \<mapsto> val) else dict_map d)"
    using dictAdd_spec [OF assms] by blast
  show ?thesis
  proof (cases "dict_map d key = None")
    case True
    then show ?thesis using add st by (simp add: dictReplace_def)
  next
    case False
    then have inv1: "dict_inv d1" and m: "dict_map d1 = dict_map d" using st by (auto simp: dict_step_def)
    obtain d2 r where f: "dictFind d1 key = Some (d2, r)" "dict_same d1 d2"
      and r: "case r of None \<Rightarrow> dict_map d1 key = None
              | Some he \<Rightarrow> ref_ok d2 he \<and> fst (ref_entry d2 he) = key"
      using dictFind_spec [OF inv1, of key] by blast
    obtain he where he: "r = Some he" "ref_ok d2 he" "fst (ref_entry d2 he) = key"
      using r False m by (cases r) auto
    have st2: "dict_step d1 d2 (dict_map d1)" by (rule dict_same_step [OF inv1 f(2)])
    then have inv2: "dict_inv d2" by (simp add: dict_step_def)
    obtain d3 where "dictSetVal d2 he val = Some d3" "dict_step d2 d3 ((dict_map d2)(key \<mapsto> val))"
      using dictSetVal_spec [OF inv2 he(2), of val] he(3) by auto
    moreover have "dict_map d2 = dict_map d" using st2 m by (simp add: dict_step_def)
    ultimately show ?thesis
      using add f(1) he(1) False dict_step_trans [OF dict_step_trans [OF st st2]]
      by (simp add: dictReplace_def)
  qed
qed

lemma dictReplaceRaw_spec:
  assumes inv: "dict_inv d" and room: "dictSize d < dict_max"
  shows "\<exists>d' he. dictReplaceRaw cr junk d key = Some (d', Some he) \<and> ref_ok d' he \<and>
           fst (ref_entry d' he) = key \<and>
           dict_step d d' (if dict_map d key = None then (dict_map d)(key \<mapsto> junk) else dict_map d)"
proof -
  obtain d1 r where f: "dictFind d key = Some (d1, r)" and same: "dict_same d d1"
    and r: "case r of None \<Rightarrow> dict_map d key = None
              | Some he \<Rightarrow> ref_ok d1 he \<and> fst (ref_entry d1 he) = key"
    using dictFind_spec [OF inv, of key] by blast
  have st: "dict_step d d1 (dict_map d)" and inv1: "dict_inv d1"
    using dict_same_step [OF inv same] by (simp_all add: dict_step_def)
  show ?thesis
  proof (cases r)
    case (Some he)
    then have "dict_map d key \<noteq> None"
      using r dict_map_ref [OF inv1, of he] dict_same_map [OF inv same] by auto
    then show ?thesis using Some f r st by (auto simp: dictReplaceRaw_def)
  next
    case None
    have "dictSize d1 < dict_max"
      using room dictSize_eq [OF inv] dictSize_eq [OF inv1] dict_same_length [OF same] by simp
    from dictAddRaw_spec [OF inv1 this, of cr junk key] None f r
    show ?thesis using dict_step_trans [OF st] dict_same_map [OF inv same]
      by (auto simp: dictReplaceRaw_def)
  qed
qed

lemma dictGenericDelete_spec:
  assumes inv: "dict_inv d"
  shows "\<exists>d'. dictGenericDelete d key = Some (d', if dict_map d key = None then DICT_ERR else DICT_OK) \<and>
          dict_step d d' ((dict_map d)(key := None))"
proof (cases "ht_size (ht0 d) = 0")
  case True
  then show ?thesis using dict_empty_table_map [OF inv True] inv
    by (simp add: dictGenericDelete_def dict_step_def fun_upd_idem)
next
  case False
  obtain d1 where st: "(if dictIsRehashing d then dictRehashStep_priv d else Some d) = Some d1"
    and same: "dict_same d d1" using dict_step_if_same [OF inv] by blast
  have inv1: "dict_inv d1" "ht_size (ht0 d1) \<noteq> 0" using same False by (simp_all add: dict_same_def)
  have m: "dict_map d1 = dict_map d" by (rule dict_same_map [OF inv same])
  note step1 = dict_same_step [OF inv same]
  from inv1 show ?thesis
  proof (cases rule: dict_search_cases [of d1 key])
    case absent
    then show ?thesis using st False step1 m by (auto simp: dictGenericDelete_def fun_upd_idem)
  next
    case (found t i p)
    let ?c = "ht_table (ht_at d1 t) ! i" and ?u = "ht_used (ht_at d1 t)"
    let ?c' = "take p ?c @ drop (Suc p) ?c" and ?e = "ref_entry d1 (t, i, p)"
    let ?d = "dict_put_chain d1 t i ?c' (?u - 1)"
    have t: "table_live d1 t" and i: "i < length (ht_table (ht_at d1 t))" and p: "p < length ?c"
      using found(2) by (simp_all add: ref_ok_def)
    have live: "ht_live (hashFunction (dict_type d1)) (ht_at d1 t)" by (rule table_live_ht [OF inv1(1) t])
    have e: "?c ! p = (key, snd ?e)" using found(3) by (auto simp: ref_entry_def prod_eq_iff)
    have ms: "mset (dict_entries d1) = add_mset (key, snd ?e) (mset (dict_entries ?d))"
      using dict_put_chain_entries [OF i, where c = ?c' and u = "?u - 1"]
      by (simp only: mset_nth_split [OF p] e) simp
    have dm: "distinct (map fst (dict_entries ?d)) \<and> map_of (dict_entries ?d) = (dict_map d1)(key := None)"
      using assoc_mset_remove [OF ms] inv1(1) by (simp add: dict_inv_def dict_map_def)
    have u: "length ?c \<le> ?u"
      using length_concat_update [OF i, of "[]"] ht_live_used [OF live] by (simp add: ht_entries_def)
    have "?u \<le> dict_max" using dict_inv_small [OF inv1(1)] by (auto simp: ht_at_def)
    then have sub: "ul_sub ?u (Suc 0) = ?u - 1" using u p by (simp add: dict_max_def)
    have "length (dict_entries ?d) \<le> dict_max"
      using ms inv1(1) by (metis dict_inv_def size_add_mset size_mset Suc_leD)
    then have inv': "dict_inv ?d"
      using p u dm ht_live_home [OF live i]
      by (intro dict_put_chain_inv [OF inv1(1) t i])
         (auto simp: ht_at_def dest: in_set_takeD in_set_dropD)
    have "dictGenericDelete d key = Some (?d, DICT_OK)"
      using st False found(1) sub by (simp add: dictGenericDelete_def Let_def dict_put_chain_def)
    moreover have "dict_map d key \<noteq> None" using dict_map_ref [OF inv1(1) found(2)] found(3) m by simp
    moreover have "dict_step d1 ?d ((dict_map d)(key := None))"
      using inv' dm m by (simp add: dict_step_def dict_map_def)
    ultimately show ?thesis using dict_step_trans [OF step1] by auto
  qed
qed

section \<open>Clearing frees every entry once\<close>

lemma dictClear_loop_Some:
  assumes "length (ht_table ht) = ht_size ht" "used = length (concat (drop i (ht_table ht)))" "used < 2 ^ 64"
  shows "\<exists>n. dictClear_loop ht i used = Some (concat (drop i (ht_table ht)), n)"
  using assms
proof (induction ht i used rule: dictClear_loop.induct)
  case (1 ht i used)
  show ?case
  proof (cases "i < ht_size ht \<and> used > 0")
    case True
    then have i: "i < length (ht_table ht)" using "1.prems"(1) by simp
    then have dr: "drop i (ht_table ht) = ht_table ht ! i # drop (Suc i) (ht_table ht)"
      by (simp add: Cons_nth_drop_Suc)
    have "ul_sub used (length (ht_table ht ! i)) = length (concat (drop (Suc i) (ht_table ht)))"
      using "1.prems"(2,3) by (simp add: dr)
    then obtain n where "dictClear_loop ht (Suc i) (ul_sub used (length (ht_table ht ! i)))
        = Some (concat (drop (Suc i) (ht_table ht)), n)"
      using "1.IH" [OF True, of "ht_table ht ! i"] i "1.prems" dr by auto
    then show ?thesis using True i by (simp add: dictClear_loop.simps [of ht i used] dr)
  next
    case False
    then have "concat (drop i (ht_table ht)) = []" using "1.prems" by auto
    then show ?thesis using False by (auto simp: dictClear_loop.simps [of ht i used])
  qed
qed

lemma dictClear_spec:
  assumes "dict_inv d" "ht = ht0 d \<or> ht = ht1 d"
  shows "\<exists>n. dictClear_priv ht = Some (dictReset_priv, ht_entries ht, n)"
proof -
  have "ht = dictReset_priv \<or> ht_live (hashFunction (dict_type d)) ht"
    using assms by (auto simp: dict_inv_def split: if_splits)
  then have "length (ht_table ht) = ht_size ht" using ht_live_size [of "hashFunction (dict_type d)" ht] by auto
  moreover have "ht_used ht = length (ht_entries ht)" "ht_used ht \<le> dict_max"
    using assms dict_inv_used [OF assms(1)] dict_inv_small [OF assms(1)] by auto
  ultimately show ?thesis
    using dictClear_loop_Some [of ht "ht_used ht" 0] by (auto simp: dictClear_priv_def ht_entries_def dict_max_def)
qed

lemma dictEmpty_spec:
  assumes "dict_inv d"
  shows "\<exists>d'. dictEmpty d = Some (d', dict_entries d) \<and> dict_inv d' \<and> dict_map d' = Map.empty"
proof -
  obtain n0 n1 where "dictClear_priv (ht0 d) = Some (dictReset_priv, ht_entries (ht0 d), n0)"
    "dictClear_priv (ht1 d) = Some (dictReset_priv, ht_entries (ht1 d), n1)"
    using dictClear_spec [OF assms] by blast
  then show ?thesis using assms
    by (auto simp: dictEmpty_def dict_inv_def dict_entries_def dict_map_def)
qed

lemma dictRelease_spec: "dict_inv d \<Longrightarrow> dictRelease d = Some (dict_entries d)"
  using dictClear_spec [of d "ht0 d"] dictClear_spec [of d "ht1 d"]
  by (auto simp: dictRelease_def dict_entries_def)

section \<open>Refinement of the finite map\<close>

datatype ('k, 'v) dict_op =
    OpAdd 'k 'v | OpReplace 'k 'v | OpDelete 'k | OpFetch 'k | OpSize | OpEmpty
  | OpRehash nat | OpResize | OpCanResize bool

datatype 'v dict_res = ResBool bool | ResVal "'v option" | ResNat nat | ResUnit

text \<open>
  The client's view of the component: the state is the global \<open>dict_can_resize\<close> and a dictionary.
\<close>

fun dict_do :: "'v \<Rightarrow> bool \<times> ('k, 'v) dict \<Rightarrow> ('k, 'v) dict_op \<Rightarrow>
    ((bool \<times> ('k, 'v) dict) \<times> 'v dict_res) option" where
  "dict_do junk (cr, d) (OpAdd k v) =
     do { r \<leftarrow> dictAdd cr junk d k v; Some ((cr, fst r), ResBool (snd r = DICT_OK)) }"
| "dict_do junk (cr, d) (OpReplace k v) =
     do { r \<leftarrow> dictReplace cr junk d k v; Some ((cr, fst r), ResBool (snd r = 1)) }"
| "dict_do junk (cr, d) (OpDelete k) =
     do { r \<leftarrow> dictDelete d k; Some ((cr, fst r), ResBool (snd r = DICT_OK)) }"
| "dict_do junk (cr, d) (OpFetch k) =
     do { r \<leftarrow> dictFetchValue d k; Some ((cr, fst r), ResVal (snd r)) }"
| "dict_do junk (cr, d) OpSize = Some ((cr, d), ResNat (dictSize d))"
| "dict_do junk (cr, d) OpEmpty = do { r \<leftarrow> dictEmpty d; Some ((cr, fst r), ResUnit) }"
| "dict_do junk (cr, d) (OpRehash n) = do { r \<leftarrow> dictRehash d n; Some ((cr, fst r), ResUnit) }"
| "dict_do junk (cr, d) OpResize = do { r \<leftarrow> dictResize cr d; Some ((cr, fst r), ResUnit) }"
| "dict_do junk (cr, d) (OpCanResize b) = Some ((b, d), ResUnit)"

text \<open>The specification: a finite map, on which rehashing and resizing are invisible.\<close>

fun map_do :: "('k \<rightharpoonup> 'v) \<Rightarrow> ('k, 'v) dict_op \<Rightarrow> ('k \<rightharpoonup> 'v) \<times> 'v dict_res" where
  "map_do m (OpAdd k v) = (if m k = None then m(k \<mapsto> v) else m, ResBool (m k = None))"
| "map_do m (OpReplace k v) = (m(k \<mapsto> v), ResBool (m k = None))"
| "map_do m (OpDelete k) = (m(k := None), ResBool (m k \<noteq> None))"
| "map_do m (OpFetch k) = (m, ResVal (m k))"
| "map_do m OpSize = (m, ResNat (card (dom m)))"
| "map_do m OpEmpty = (Map.empty, ResUnit)"
| "map_do m (OpRehash n) = (m, ResUnit)"
| "map_do m OpResize = (m, ResUnit)"
| "map_do m (OpCanResize b) = (m, ResUnit)"

text \<open>There is room for one more element.\<close>

fun map_ok :: "('k \<rightharpoonup> 'v) \<Rightarrow> ('k, 'v) dict_op \<Rightarrow> bool" where
  "map_ok m (OpAdd k v) \<longleftrightarrow> card (dom m) < dict_max"
| "map_ok m (OpReplace k v) \<longleftrightarrow> card (dom m) < dict_max"
| "map_ok m x \<longleftrightarrow> True"

lemma dict_do_sim:
  assumes inv: "dict_inv (snd s)" and ok: "map_ok (dict_map (snd s)) x"
  shows "\<exists>s'. dict_do junk s x = Some (s', snd (map_do (dict_map (snd s)) x)) \<and>
           dict_inv (snd s') \<and> dict_map (snd s') = fst (map_do (dict_map (snd s)) x)"
proof -
  obtain cr d where s: "s = (cr, d)" by (cases s)
  have i: "dict_inv d" using inv by (simp add: s)
  show ?thesis
  proof (cases x)
    case (OpAdd k v)
    then show ?thesis using dictAdd_spec [OF i, of cr junk k v] ok
      by (auto simp: s dictSize_card [OF i] dict_step_def)
  next
    case (OpReplace k v)
    then show ?thesis using dictReplace_spec [OF i, of cr junk k v] ok
      by (auto simp: s dictSize_card [OF i] dict_step_def)
  next
    case (OpDelete k)
    then show ?thesis using dictGenericDelete_spec [OF i, of k] by (auto simp: s dictDelete_def dict_step_def)
  next
    case (OpFetch k)
    then show ?thesis using dictFetchValue_spec [OF i, of k] by (auto simp: s dict_step_def)
  next
    case OpSize
    then show ?thesis using i by (simp add: s dictSize_card)
  next
    case OpEmpty
    then show ?thesis using dictEmpty_spec [OF i] by (auto simp: s)
  next
    case (OpRehash n)
    then show ?thesis using dictRehash_same [OF i, of n] dict_same_step [OF i] by (auto simp: s dict_step_def)
  next
    case OpResize
    then show ?thesis using dictResize_same [OF i, of cr] dict_same_step [OF i] by (auto simp: s dict_step_def)
  next
    case (OpCanResize b)
    then show ?thesis using i by (simp add: s)
  qed
qed

interpretation dict_sim: simulation "\<lambda>s. dict_inv (snd s)" "\<lambda>s. dict_map (snd s)" "dict_do junk" map_do map_ok
  for junk :: 'v
  by unfold_locales (rule dict_do_sim)

lemma map_do_card:
  assumes "finite (dom m)" shows "finite (dom (fst (map_do m x))) \<and> card (dom (fst (map_do m x))) \<le> Suc (card (dom m))"
  using assms by (cases x) (auto simp: card_insert_if card_Diff1_le le_SucI)

lemma map_run_ok:
  "finite (dom m) \<Longrightarrow> card (dom m) + length xs \<le> dict_max \<Longrightarrow> run_ok map_do map_ok m xs"
proof (induction xs arbitrary: m)
  case (Cons x xs)
  have "map_ok m x" using Cons.prems by (cases x) auto
  moreover have "run_ok map_do map_ok (fst (map_do m x)) xs"
    using Cons.prems map_do_card [of m x] by (intro Cons.IH) auto
  ultimately show ?case by simp
qed simp

text \<open>
  C1.  The dictionary is a finite map.  From the empty dictionary, any sequence of \<open>dictAdd\<close>,
  \<open>dictReplace\<close>, \<open>dictDelete\<close>, \<open>dictFetchValue\<close>, \<open>dictSize\<close>, \<open>dictEmpty\<close>, explicit rehash steps,
  resizes and changes of \<open>dict_can_resize\<close> runs without undefined behaviour or a failed assertion
  and returns exactly what a finite map returns, whatever the hash function: the incremental
  rehashing between two tables is invisible.
\<close>

theorem dict_refines_map:
  assumes "dict_type_ok ty" "length xs \<le> dict_max"
  shows "\<exists>s. run_ops (dict_do junk) (cr, dictCreate ty) xs = Some (s, snd (run_spec map_do Map.empty xs)) \<and>
             dict_inv (snd s) \<and> dict_map (snd s) = fst (run_spec map_do Map.empty xs)"
  using dict_sim.run_sim [of "(cr, dictCreate ty)" xs junk] assms dictCreate_inv [of ty]
    map_run_ok [of Map.empty xs] by simp

definition sample_type :: "(nat, nat) dictType" where
  "sample_type = \<lparr>hashFunction = of_nat, keyDup = None, valDup = None, keyCompare = Some (=)\<rparr>"

lemma sample_type_ok: "dict_type_ok sample_type"
  by (simp add: dict_type_ok_def sample_type_def)

theorem dict_refines_map_witness:
  "dict_type_ok sample_type \<and>
   (\<exists>s. run_ops (dict_do 0) (True, dictCreate sample_type)
          [OpAdd 1 10, OpReplace 1 20, OpFetch 1, OpDelete 1, OpFetch 1]
        = Some (s, [ResBool True, ResBool False, ResVal (Some 20), ResBool True, ResVal None]))"
proof -
  let ?xs = "[OpAdd 1 10, OpReplace 1 20, OpFetch 1, OpDelete 1, OpFetch 1] :: (nat, nat) dict_op list"
  have "length ?xs \<le> dict_max" by (simp add: dict_max_def)
  from dict_refines_map [OF sample_type_ok this, of 0 True] sample_type_ok
  show ?thesis by (auto simp: Let_def)
qed

text \<open>
  C22.  Emptying a dictionary frees every entry exactly once: \<open>dictEmpty\<close> and \<open>dictRelease\<close> hand to
  the destructors precisely the entries the two tables hold (none leaks although the loop stops
  as soon as the count reaches zero), and \<open>dictEmpty\<close> leaves a valid empty dictionary.
\<close>

theorem dict_clear_frees_all:
  assumes "dict_inv d"
  shows "\<exists>d'. dictEmpty d = Some (d', dict_entries d) \<and> dict_inv d' \<and> dict_map d' = Map.empty \<and>
              dictRelease d = Some (dict_entries d)"
  using dictEmpty_spec [OF assms] dictRelease_spec [OF assms] by auto

theorem dict_clear_frees_all_witness:
  "\<exists>d. dictAdd True 0 (dictCreate sample_type) 7 70 = Some (d, DICT_OK) \<and> dict_inv d \<and>
       dictRelease d = Some (dict_entries d) \<and> map_of (dict_entries d) 7 = Some 70"
proof -
  have "dictSize (dictCreate sample_type) < dict_max"
    by (simp add: dictCreate_def dictInit_priv_def dictSize_def dict_max_def)
  from dictAdd_spec [OF dictCreate_inv [OF sample_type_ok] this, of True 0 7 70]
  obtain d where "dictAdd True 0 (dictCreate sample_type) 7 70 = Some (d, DICT_OK)"
    and d: "dict_inv d" "dict_map d 7 = Some 70" by (auto simp: dict_step_def)
  then show ?thesis using dict_clear_frees_all [OF d(1)] by (auto simp: dict_map_def)
qed

end
