(* ===== verification/Dict_Scan.thy ===== *)
theory Dict_Scan
  imports Dict_Correct
begin

text \<open>
  The cursor-based iteration \<open>dictScan\<close> of \<open>dict.c\<close> and its bit-reversal \<open>rev\<close> (\<open>dict_rev\<close> here).
  Reading the reversed cursor as a number (\<open>cursor_pos\<close>), one call visits exactly the hashes of one
  block of that order and moves the cursor to the next block, which gives the guarantee the
  source's comment states, also while the table is resized between calls, except for one case:
  a table that shrinks by more than a factor of two during the scan.
\<close>

section \<open>The code\<close>

definition rev_swap :: "nat \<Rightarrow> 64 word \<Rightarrow> 64 word \<Rightarrow> 64 word" where
  "rev_swap s msk v = (drop_bit s v AND msk) OR (push_bit s v AND NOT msk)"

function rev_loop :: "nat \<Rightarrow> 64 word \<Rightarrow> 64 word \<Rightarrow> 64 word" where
  "rev_loop s msk v =
     (let s = s div 2 in
      if s > 0 then let msk = msk XOR push_bit s msk in rev_loop s msk (rev_swap s msk v)
      else v)"
  by pat_completeness auto
termination
  by (relation "measure (\<lambda>(s, msk, v). s)") auto
declare rev_loop.simps [simp del]

definition dict_rev :: "64 word \<Rightarrow> 64 word" where
  "dict_rev v = rev_loop 64 (NOT 0) v"

partial_function (option) dictScan_expand ::
    "('k, 'v) dictht \<Rightarrow> 64 word \<Rightarrow> 64 word \<Rightarrow> 64 word \<Rightarrow> (('k, 'v) dictEntry list \<times> 64 word) option" where
  "dictScan_expand t1 m0 m1 v = do {
     chain \<leftarrow> arr_get (ht_table t1) (unat (v AND m1));
     let v' = (((v OR m0) + 1) AND NOT m0) OR (v AND m0);
     if v' AND (m0 XOR m1) \<noteq> 0 then do {
       r \<leftarrow> dictScan_expand t1 m0 m1 v';
       Some (chain @ fst r, snd r) }
     else Some (chain, v') }"

definition dictScan ::
    "('k, 'v) dict \<Rightarrow> 64 word \<Rightarrow> (('k, 'v) dictEntry list \<times> 64 word) option" where
  "dictScan d v =
     (if dictSize d = 0 then Some ([], 0)
      else do {
        r \<leftarrow> (if \<not> dictIsRehashing d then do {
               chain \<leftarrow> arr_get (ht_table (ht0 d)) (unat (v AND ht_sizemask (ht0 d)));
               Some (chain, v, ht_sizemask (ht0 d)) }
             else
               let t0 = (if ht_size (ht0 d) > ht_size (ht1 d) then ht1 d else ht0 d);
                   t1 = (if ht_size (ht0 d) > ht_size (ht1 d) then ht0 d else ht1 d)
               in do {
                 chain \<leftarrow> arr_get (ht_table t0) (unat (v AND ht_sizemask t0));
                 q \<leftarrow> dictScan_expand t1 (ht_sizemask t0) (ht_sizemask t1) v;
                 Some (chain @ fst q, snd q, ht_sizemask t0) });
        let v = fst (snd r) OR NOT (snd (snd r));
        let v = dict_rev v;
        let v = v + 1;
        let v = dict_rev v;
        Some (fst r, v) })"

section \<open>Bit reversal\<close>

lemma dict_rev_unfold:
  "dict_rev v =
     rev_swap 1 0x5555555555555555 (rev_swap 2 0x3333333333333333 (rev_swap 4 0x0F0F0F0F0F0F0F0F
       (rev_swap 8 0x00FF00FF00FF00FF (rev_swap 16 0x0000FFFF0000FFFF (rev_swap 32 0x00000000FFFFFFFF v)))))"
  by (simp add: dict_rev_def rev_loop.simps Let_def mask_eq_exp_minus_1)

definition swap_idx :: "nat \<Rightarrow> nat \<Rightarrow> nat" where
  "swap_idx s i = (if odd (i div s) then i - s else i + s)"

lemma bit_rev_swap:
  assumes m: "\<forall>i \<in> set [0..<64]. bit m i = even (i div s)" and i: "i < 64" and s: "0 < s"
  shows "bit (rev_swap s m v) i = bit v (swap_idx s i)"
proof -
  have mi: "bit m i = even (i div s)" using m i by simp
  have "s \<le> i" if "odd (i div s)" using that by (metis div_less even_zero not_less)
  then show ?thesis using mi i s
    by (auto simp: rev_swap_def swap_idx_def bit_simps add.commute)
qed

lemma swap_mask_1: "\<forall>i \<in> set [0..<64]. bit (0x5555555555555555 :: 64 word) i = even (i div 1)"
  by code_simp

lemma swap_mask_2: "\<forall>i \<in> set [0..<64]. bit (0x3333333333333333 :: 64 word) i = even (i div 2)"
  by code_simp

lemma swap_mask_4: "\<forall>i \<in> set [0..<64]. bit (0x0F0F0F0F0F0F0F0F :: 64 word) i = even (i div 4)"
  by code_simp

lemma swap_mask_8: "\<forall>i \<in> set [0..<64]. bit (0x00FF00FF00FF00FF :: 64 word) i = even (i div 8)"
  by code_simp

lemma swap_mask_16: "\<forall>i \<in> set [0..<64]. bit (0x0000FFFF0000FFFF :: 64 word) i = even (i div 16)"
  by code_simp

lemma swap_mask_32: "\<forall>i \<in> set [0..<64]. bit (0x00000000FFFFFFFF :: 64 word) i = even (i div 32)"
  by code_simp

lemmas swap_masks = swap_mask_1 swap_mask_2 swap_mask_4 swap_mask_8 swap_mask_16 swap_mask_32

lemma swap_idx_xor_all: "\<forall>s \<in> set [1, 2, 4, 8, 16, 32]. \<forall>i \<in> set [0..<64]. swap_idx s i = i XOR s"
  by code_simp

lemma swap_idx_xor: "i < 64 \<Longrightarrow> s \<in> {1, 2, 4, 8, 16, 32} \<Longrightarrow> swap_idx s i = i XOR s"
  using swap_idx_xor_all by auto

lemma xor_63: "\<forall>i \<in> set [0..<64]. i XOR 1 XOR 2 XOR 4 XOR 8 XOR 16 XOR 32 = 63 - i"
  by code_simp

lemma swap_idx_lt_all: "\<forall>s \<in> set [1, 2, 4, 8, 16]. \<forall>i \<in> set [0..<64]. swap_idx s i < 64"
  by code_simp

lemma swap_idx_lt: "i < 64 \<Longrightarrow> s \<in> {1, 2, 4, 8, 16} \<Longrightarrow> swap_idx s i < 64"
  using swap_idx_lt_all by auto

lemma xor_lt: "i < 64 \<Longrightarrow> s \<in> {1, 2, 4, 8, 16} \<Longrightarrow> i XOR s < (64::nat)"
  using swap_idx_lt [of i s] swap_idx_xor [of i s] by auto

lemmas bit_swaps = swap_masks [THEN bit_rev_swap]

text \<open>\<open>rev\<close> reverses the order of the bits.\<close>

lemma bit_dict_rev: "bit (dict_rev v) i \<longleftrightarrow> i < 64 \<and> bit v (63 - i)"
proof (cases "i < 64")
  case True
  let ?j = "swap_idx 32 (swap_idx 16 (swap_idx 8 (swap_idx 4 (swap_idx 2 (swap_idx 1 i)))))"
  have "bit (dict_rev v) i = bit v ?j"
    unfolding dict_rev_unfold
    by (simp only: bit_swaps swap_idx_lt True insert_iff zero_less_one zero_less_numeral simp_thms)
  also have "?j = (((((i XOR 1) XOR 2) XOR 4) XOR 8) XOR 16) XOR 32"
    by (simp only: swap_idx_xor xor_lt True insert_iff simp_thms)
  also have "\<dots> = 63 - i" using xor_63 True by (simp add: xor.assoc)
  finally show ?thesis using True by simp
next
  case False
  then show ?thesis using bit_imp_le_length [of "dict_rev v" i] by auto
qed

lemma dict_rev_rev [simp]: "dict_rev (dict_rev v) = v"
  by (rule bit_eqI) (auto simp: bit_dict_rev)

section \<open>The order of the cursor\<close>

lemma nat_or_mask: "(a :: nat) OR mask n = a div 2 ^ n * 2 ^ n + (2 ^ n - 1)"
proof -
  have "a OR mask n = push_bit n (drop_bit n a) OR mask n"
    by (rule bit_eqI) (auto simp: bit_simps)
  also have "\<dots> = push_bit n (drop_bit n a) + mask n"
    by (rule disjunctive_add [symmetric]) (auto simp: bit_simps)
  finally show ?thesis by (simp add: push_bit_eq_mult drop_bit_eq_div mask_eq_exp_minus_1)
qed
lemma dict_rev_or: "k \<le> 64 \<Longrightarrow> dict_rev (v OR NOT (mask k)) = dict_rev v OR mask (64 - k)"
  by (rule bit_eqI) (auto simp: bit_simps bit_dict_rev)

definition cursor_pos :: "64 word \<Rightarrow> nat" where "cursor_pos v = unat (dict_rev v)"

lemma cursor_pos_lt: "cursor_pos v < 2 ^ 64"
  using unsigned_less [of "dict_rev v", where ?'a = nat] by (simp add: cursor_pos_def)

lemma dict_rev_0 [simp]: "dict_rev 0 = 0"
  by (rule bit_eqI) (auto simp: bit_dict_rev)

lemma cursor_pos_0 [simp]: "cursor_pos v = 0 \<longleftrightarrow> v = 0"
  by (metis cursor_pos_def dict_rev_rev dict_rev_0 unat_eq_zero)

definition cursor_block :: "nat \<Rightarrow> 64 word \<Rightarrow> nat" where
  "cursor_block k v = cursor_pos v div 2 ^ (64 - k)"

lemma unat_mask64: "n \<le> 64 \<Longrightarrow> unat (mask n :: 64 word) = mask n"
  by (rule bit_eqI) (auto simp: bit_simps)

lemma cursor_next:
  assumes "k \<le> 64"
  shows "cursor_pos (dict_rev (dict_rev (v OR NOT (mask k)) + 1)) = (cursor_block k v + 1) * 2 ^ (64 - k) mod 2 ^ 64"
proof -
  have "unat (dict_rev v OR mask (64 - k)) = cursor_block k v * 2 ^ (64 - k) + (2 ^ (64 - k) - 1)"
    by (simp add: unsigned_or_eq nat_or_mask cursor_block_def cursor_pos_def unat_mask64)
  then have "unat (dict_rev v OR mask (64 - k)) + 1 = (cursor_block k v + 1) * 2 ^ (64 - k)"
    by simp
  then show ?thesis using assms
    by (simp add: cursor_pos_def dict_rev_or unat_word_ariths)
qed

lemma all_less_rev: "(\<forall>i < k. P (k - 1 - i)) \<longleftrightarrow> (\<forall>i < (k::nat). P i)"
proof safe
  fix i assume P: "\<forall>i < k. P (k - 1 - i)" and i: "i < k"
  have "k - 1 - i < k" using i by arith
  then have "P (k - 1 - (k - 1 - i))" using P by blast
  moreover have "k - 1 - (k - 1 - i) = i" using i by arith
  ultimately show "P i" by metis
qed simp

lemma cursor_block_eq_iff:
  assumes "k \<le> 64"
  shows "cursor_block k x = cursor_block k y \<longleftrightarrow> take_bit k x = take_bit k y"
proof -
  have "cursor_block k x = cursor_block k y \<longleftrightarrow> drop_bit (64 - k) (dict_rev x) = drop_bit (64 - k) (dict_rev y)"
    by (simp only: word_unat_eq_iff unat_drop_bit_eq) (simp add: cursor_block_def cursor_pos_def drop_bit_eq_div)
  also have "\<dots> \<longleftrightarrow> (\<forall>n < 64. (n < k \<and> bit x (k - Suc n)) = (n < k \<and> bit y (k - Suc n)))"
  proof -
    have "64 - k + n < 64 \<longleftrightarrow> n < k" for n using assms by arith
    then show ?thesis using assms by (simp add: bit_eq_iff bit_simps bit_dict_rev)
  qed
  also have "\<dots> \<longleftrightarrow> (\<forall>i < k. bit x (k - 1 - i) = bit y (k - 1 - i))"
    using assms by (auto intro: order_less_le_trans)
  also have "\<dots> \<longleftrightarrow> (\<forall>i < k. bit x i = bit y i)"
    by (rule all_less_rev)
  also have "\<dots> \<longleftrightarrow> take_bit k x = take_bit k y"
    using assms by (auto simp: bit_eq_iff bit_simps intro: order_less_le_trans)
  finally show ?thesis .
qed

lemma expand_incr:
  fixes v :: "64 word"
  assumes "k < 64"
  shows "(((v OR mask k) + 1) AND NOT (mask k)) OR (v AND mask k) = v + 2 ^ k"
proof -
  have hi: "v AND NOT (mask k) = push_bit k (drop_bit k v)"
    by (rule bit_eqI) (auto simp: bit_simps)
  have "v OR mask k = push_bit k (drop_bit k v) OR mask k"
    by (rule bit_eqI) (auto simp: bit_simps)
  also have "\<dots> = push_bit k (drop_bit k v) + mask k"
    by (rule disjunctive_add [symmetric]) (auto simp: bit_simps)
  finally have "(v OR mask k) + 1 = push_bit k (drop_bit k v + 1)"
    by (simp add: push_bit_eq_mult mask_eq_exp_minus_1 algebra_simps)
  moreover have "push_bit k (drop_bit k v + 1) AND NOT (mask k) = push_bit k (drop_bit k v + 1)"
    by (rule bit_eqI) (auto simp: bit_simps)
  moreover have "push_bit k (drop_bit k v + 1) OR (v AND mask k) = push_bit k (drop_bit k v + 1) + (v AND mask k)"
    by (rule disjunctive_add [symmetric]) (auto simp: bit_simps)
  moreover have "v = push_bit k (drop_bit k v) + (v AND mask k)"
  proof -
    have "push_bit k (drop_bit k v) + (v AND mask k) = push_bit k (drop_bit k v) OR (v AND mask k)"
      by (rule disjunctive_add) (auto simp: bit_simps)
    also have "\<dots> = v" by (rule bit_eqI) (auto simp: bit_simps)
    finally show ?thesis by simp
  qed
  ultimately show ?thesis by (simp add: push_bit_eq_mult algebra_simps)
qed

lemma unat_and_mask: "unat (v AND mask k :: 64 word) = unat v mod 2 ^ k"
  by (simp only: take_bit_eq_mask [symmetric] unsigned_take_bit_eq) (simp add: take_bit_eq_mod)

lemma expand_stop:
  fixes v :: "64 word"
  assumes "k0 \<le> k1" "k1 < 64"
  shows "v AND (mask k0 XOR mask k1) = 0 \<longleftrightarrow> unat v mod 2 ^ k1 < 2 ^ k0"
proof -
  have X: "bit (v AND (mask k0 XOR mask k1)) i \<longleftrightarrow> bit v i \<and> k0 \<le> i \<and> i < k1" for i
    using assms by (auto simp: bit_simps dest: bit_imp_le_length)
  have D: "bit (drop_bit k0 (v AND mask k1)) n \<longleftrightarrow> bit v (k0 + n) \<and> k0 + n < k1" for n
    using assms by (auto simp: bit_simps dest: bit_imp_le_length)
  have "v AND (mask k0 XOR mask k1) = 0 \<longleftrightarrow> (\<forall>i. \<not> (bit v i \<and> k0 \<le> i \<and> i < k1))"
    by (metis X bit_0_eq bit_eqI bot_apply bot_bool_def)
  also have "\<dots> \<longleftrightarrow> (\<forall>n. \<not> (bit v (k0 + n) \<and> k0 + n < k1))"
    by (metis le_add1 le_iff_add)
  also have "\<dots> \<longleftrightarrow> drop_bit k0 (v AND mask k1) = 0"
    by (metis D bit_0_eq bit_eqI bot_apply bot_bool_def)
  also have "\<dots> \<longleftrightarrow> unat v mod 2 ^ k1 div 2 ^ k0 = 0"
    by (simp only: unat_eq_0 [symmetric] unat_drop_bit_eq unat_and_mask) (simp add: drop_bit_eq_div)
  finally show ?thesis by (simp add: div_eq_0_iff)
qed

lemma mod_eq_less_gap:
  assumes "a mod m = b mod m" "a < (b::nat)" shows "a + m \<le> b"
proof -
  have "m dvd b - a" using assms by (metis mod_eq_dvd_iff_nat less_imp_le)
  then have "m \<le> b - a" using assms(2) by (simp add: dvd_imp_le)
  then show ?thesis using assms(2) by simp
qed

lemma unat_plus_exp_mod:
  fixes v :: "64 word"
  assumes "k0 \<le> k1" "k1 < 64"
  shows "unat (v + 2 ^ k0) mod 2 ^ k1 = (unat v mod 2 ^ k1 + 2 ^ k0) mod 2 ^ k1"
proof -
  have "unat (2 ^ k0 :: 64 word) = 2 ^ k0" using assms by (intro bit_eqI) (auto simp: bit_simps)
  then have "unat (v + 2 ^ k0) mod 2 ^ k1 = ((unat v + 2 ^ k0) mod 2 ^ 64) mod 2 ^ k1"
    by (simp add: unat_word_ariths)
  also have "\<dots> = (unat v + 2 ^ k0) mod 2 ^ k1"
    using assms by (intro mod_mod_cancel le_imp_power_dvd) simp
  finally show ?thesis by (simp add: mod_simps)
qed

lemma dictScan_expand_spec:
  assumes k: "k0 \<le> k1" "k1 \<le> 31" and len: "length (ht_table t1) = 2 ^ k1"
  shows "\<exists>es v'. dictScan_expand t1 (mask k0) (mask k1) v = Some (es, v') \<and>
           v' AND mask k0 = v AND mask k0 \<and>
           (\<forall>j < 2 ^ k1. unat v mod 2 ^ k1 \<le> j \<and> j mod 2 ^ k0 = unat v mod 2 ^ k0 \<longrightarrow>
              set (ht_table t1 ! j) \<subseteq> set es)"
proof (induction "2 ^ k1 - unat v mod 2 ^ k1" arbitrary: v rule: less_induct)
  case less
  let ?x = "unat v mod 2 ^ k1" and ?v = "v + 2 ^ k0" and ?t = "ht_table t1"
  have x: "?x < 2 ^ k1" by simp
  have dv: "(2::nat) ^ k0 dvd 2 ^ k1" using k(1) by (rule le_imp_power_dvd)
  have low: "?v AND mask k0 = v AND mask k0"
    using unat_plus_exp_mod [of k0 k0 v] k by (simp add: word_unat_eq_iff unat_and_mask)
  have incr: "(((v OR mask k0) + 1) AND NOT (mask k0)) OR (v AND mask k0) = ?v"
    using k by (intro expand_incr) simp
  have x': "unat ?v mod 2 ^ k1 = (?x + 2 ^ k0) mod 2 ^ k1" using k by (simp add: unat_plus_exp_mod)
  have m: "?x mod 2 ^ k0 = unat v mod 2 ^ k0" using dv by (rule mod_mod_cancel)
  show ?case
  proof (cases "?x + 2 ^ k0 < 2 ^ k1")
    case True
    then have xs: "unat ?v mod 2 ^ k1 = ?x + 2 ^ k0" using x' by simp
    have "2 ^ k1 - unat ?v mod 2 ^ k1 < 2 ^ k1 - ?x" unfolding xs using x by (intro diff_less_mono2) simp_all
    from less.hyps [OF this] obtain es v' where
      r: "dictScan_expand t1 (mask k0) (mask k1) ?v = Some (es, v')" and v': "v' AND mask k0 = ?v AND mask k0"
      and cov: "\<forall>j < 2 ^ k1. unat ?v mod 2 ^ k1 \<le> j \<and> j mod 2 ^ k0 = unat ?v mod 2 ^ k0 \<longrightarrow>
              set (?t ! j) \<subseteq> set es" by blast
    have go: "?v AND (mask k0 XOR mask k1) \<noteq> 0" using k xs by (simp add: expand_stop)
    have "dictScan_expand t1 (mask k0) (mask k1) v = Some (?t ! ?x @ es, v')"
      using len x r go incr by (subst dictScan_expand.simps) (simp add: unat_and_mask)
    moreover have "set (?t ! j) \<subseteq> set (?t ! ?x @ es)"
      if j: "j < 2 ^ k1" "?x \<le> j" "j mod 2 ^ k0 = unat v mod 2 ^ k0" for j
    proof (cases "j = ?x")
      case False
      have "?x + 2 ^ k0 \<le> j" using False j m by (intro mod_eq_less_gap) auto
      moreover have "unat ?v mod 2 ^ k0 = unat v mod 2 ^ k0"
        using low by (metis unat_and_mask)
      ultimately show ?thesis using cov j xs by auto
    qed simp
    ultimately show ?thesis using v' low by auto
  next
    case False
    have "?x + 2 ^ k0 - 2 ^ k1 < 2 ^ k1" using x power_increasing [OF k(1), of "2::nat"] by linarith
    then have "unat ?v mod 2 ^ k1 = ?x + 2 ^ k0 - 2 ^ k1"
      using False unfolding x' by (simp add: le_mod_geq)
    then have "unat ?v mod 2 ^ k1 < 2 ^ k0"
      using x zero_less_power [of "2::nat" k0] by linarith
    then have stop: "?v AND (mask k0 XOR mask k1) = 0" using k by (simp add: expand_stop)
    have "dictScan_expand t1 (mask k0) (mask k1) v = Some (?t ! ?x, ?v)"
      using len x stop incr by (subst dictScan_expand.simps) (simp add: unat_and_mask)
    moreover have "j = ?x" if "j < 2 ^ k1" "?x \<le> j" "j mod 2 ^ k0 = unat v mod 2 ^ k0" for j
      using mod_eq_less_gap [of ?x "2 ^ k0" j] that m False by fastforce
    ultimately show ?thesis using low by auto
  qed
qed

lemma cursor_block_Suc:
  assumes "k < 64"
  shows "cursor_block (Suc k) y = 2 * cursor_block k y + of_bool (bit y k)"
proof -
  let ?n = "cursor_pos y" and ?m = "63 - k"
  have e: "64 - k = Suc ?m" "64 - Suc k = ?m" using assms by simp_all
  have "bit (dict_rev y) ?m = bit y k" using assms by (auto simp: bit_dict_rev)
  then have "bit ?n ?m = bit y k" using assms by (auto simp: cursor_pos_def bit_simps)
  then have "?n div 2 ^ ?m mod 2 = of_bool (bit y k)"
    by (simp only: bit_iff_odd [of ?n] mod_2_eq_odd)
  moreover have "?n div 2 ^ ?m = 2 * (?n div 2 ^ Suc ?m) + ?n div 2 ^ ?m mod 2"
    by (metis div_mult2_eq mult.commute mult_div_mod_eq power_Suc)
  ultimately show ?thesis by (simp add: cursor_block_def e)
qed

lemma cursor_block_mono: "cursor_pos x \<le> cursor_pos y \<Longrightarrow> cursor_block k x \<le> cursor_block k y"
  by (simp add: cursor_block_def div_le_mono)

lemma cursor_block_same:
  assumes "cursor_pos x \<le> cursor_pos y" "cursor_pos y < (cursor_block k x + 1) * 2 ^ (64 - k)"
  shows "cursor_block k y = cursor_block k x"
proof -
  have "cursor_block k y < cursor_block k x + 1"
    using assms(2) by (simp add: cursor_block_def less_mult_imp_div_less)
  then show ?thesis using cursor_block_mono [OF assms(1), of k] by simp
qed

lemma cursor_block_bound:
  assumes "k \<le> 64" shows "(cursor_block k v + 1) * 2 ^ (64 - k) \<le> 2 ^ 64"
proof -
  have "(2::nat) ^ 64 = 2 ^ k * 2 ^ (64 - k)" using assms by (simp flip: power_add)
  moreover from this have "cursor_block k v < 2 ^ k"
    using cursor_pos_lt [of v] by (simp add: cursor_block_def less_mult_imp_div_less)
  ultimately show ?thesis by (metis Suc_eq_plus1 Suc_leI mult_le_mono1)
qed

lemma cursor_block_gt: "cursor_pos v < (cursor_block k v + 1) * 2 ^ (64 - k)"
  using dividend_less_div_times [of "2 ^ (64 - k)" "cursor_pos v"] by (simp add: cursor_block_def add.commute)

lemma or_not_mask_cong:
  fixes v w :: "64 word"
  assumes "w AND mask k = v AND mask k" shows "w OR NOT (mask k) = v OR NOT (mask k)"
proof (rule bit_eqI)
  fix n assume "possible_bit TYPE(64 word) n"
  moreover have "bit (w AND mask k) n = bit (v AND mask k) n" using assms by simp
  ultimately show "bit (w OR NOT (mask k)) n = bit (v OR NOT (mask k)) n" by (auto simp: bit_simps)
qed

text \<open>The position of a hash in the order in which the cursor visits the buckets.\<close>

definition hash_pos :: "32 word \<Rightarrow> nat" where
  "hash_pos h = cursor_pos (ucast h)"

text \<open>
  During a rehash the larger table is at most twice the smaller one, or the cursor has no bits
  beyond the smaller table's mask.
\<close>

definition scan_safe :: "('k, 'v) dict \<Rightarrow> 64 word \<Rightarrow> bool" where
  "scan_safe d v \<longleftrightarrow> \<not> dictIsRehashing d \<or>
     (let small = min (ht_size (ht0 d)) (ht_size (ht1 d)); large = max (ht_size (ht0 d)) (ht_size (ht1 d))
      in large \<le> 2 * small \<or> unat v mod large < small)"

lemma dict_index_same_block:
  fixes h :: "32 word"
  assumes "k \<le> 31" "cursor_block k (ucast h) = cursor_block k v"
  shows "unat h mod 2 ^ k = unat v mod 2 ^ k"
proof -
  have "take_bit k (ucast h) = take_bit k v" using assms cursor_block_eq_iff [of k "ucast h" v] by simp
  then have "take_bit k (unat (ucast h :: 64 word)) = take_bit k (unat v)" by (metis unsigned_take_bit_eq)
  moreover have "unat (ucast h :: 64 word) = unat h"
  proof -
    have "unat h < 2 ^ 64" by (rule less_trans [OF unsigned_less]) simp
    then show ?thesis by (simp add: unsigned_ucast_eq take_bit_nat_eq_self)
  qed
  ultimately show ?thesis by (simp add: take_bit_eq_mod)
qed

lemma large_index_ge:
  assumes k: "k0 \<le> k1" "k1 \<le> 31" and same: "cursor_block k0 (ucast h) = cursor_block k0 v"
    and le: "cursor_pos v \<le> hash_pos h"
    and safe: "k1 \<le> Suc k0 \<or> unat v mod 2 ^ k1 < 2 ^ k0"
  shows "unat v mod 2 ^ k1 \<le> unat h mod 2 ^ k1"
proof -
  have low: "unat h mod 2 ^ k0 = unat v mod 2 ^ k0" using k same by (intro dict_index_same_block) auto
  have dv: "(2::nat) ^ k0 dvd 2 ^ k1" using k(1) by (rule le_imp_power_dvd)
  consider "unat v mod 2 ^ k1 < 2 ^ k0" | "k1 = k0" | "k1 = Suc k0" using safe k(1) by linarith
  then show ?thesis
  proof cases
    case 1
    then have "unat v mod 2 ^ k1 = unat h mod 2 ^ k1 mod 2 ^ k0"
      using low dv by (metis mod_less mod_mod_cancel)
    then show ?thesis by (metis mod_less_eq_dividend)
  next
    case 2
    then show ?thesis using low by simp
  next
    case 3
    have "cursor_block k1 v \<le> cursor_block k1 (ucast h)" using le by (simp add: hash_pos_def cursor_block_mono)
    then have b: "bit v k0 \<Longrightarrow> bit h k0"
      using same k 3 by (simp add: cursor_block_Suc bit_simps of_bool_def split: if_splits)
    have e: "n mod 2 ^ Suc k0 = n mod 2 ^ k0 + 2 ^ k0 * of_bool (bit n k0)" for n :: nat
      by (simp only: power_Suc2 mod_mult2_eq) (simp add: bit_iff_odd mod_2_eq_odd)
    show ?thesis using b low unfolding 3 e by (simp add: bit_unsigned_iff)
  qed
qed

text \<open>One call: what it emits, and where it leaves the cursor.\<close>

lemma dictScan_tables:
  assumes inv: "dict_inv d" and ne: "dictSize d \<noteq> 0" and reh: "dictIsRehashing d"
  obtains t0 t1 k0 k1 where
    "t0 = (if ht_size (ht0 d) > ht_size (ht1 d) then ht1 d else ht0 d)"
    "t1 = (if ht_size (ht0 d) > ht_size (ht1 d) then ht0 d else ht1 d)"
    "ht_live (hashFunction (dict_type d)) t0" "ht_live (hashFunction (dict_type d)) t1"
    "set (dict_entries d) = set (ht_entries t0) \<union> set (ht_entries t1)"
    "k0 \<le> k1" "k1 \<le> 31" "ht_sizemask t0 = mask k0" "ht_sizemask t1 = mask k1"
    "length (ht_table t0) = 2 ^ k0" "length (ht_table t1) = 2 ^ k1"
    "min (ht_size (ht0 d)) (ht_size (ht1 d)) = 2 ^ k0" "max (ht_size (ht0 d)) (ht_size (ht1 d)) = 2 ^ k1"
proof -
  have l: "ht_live (hashFunction (dict_type d)) (ht0 d)" "ht_live (hashFunction (dict_type d)) (ht1 d)"
    using inv reh by (auto simp: dict_inv_def dictIsRehashing_def)
  obtain a where a: "a \<le> 31" "ht_size (ht0 d) = 2 ^ a" "length (ht_table (ht0 d)) = 2 ^ a" "ht_sizemask (ht0 d) = mask a"
    using l(1) by (auto elim: ht_liveE)
  obtain b where b: "b \<le> 31" "ht_size (ht1 d) = 2 ^ b" "length (ht_table (ht1 d)) = 2 ^ b" "ht_sizemask (ht1 d) = mask b"
    using l(2) by (auto elim: ht_liveE)
  show thesis
  proof (cases "ht_size (ht0 d) > ht_size (ht1 d)")
    case True
    then have "b \<le> a" using a b by simp
    with True l a b show thesis
      by (intro that [of "ht1 d" "ht0 d" b a]) (auto simp: dict_entries_def min_def max_def)
  next
    case False
    then have "a \<le> b" using a b by simp
    with False l a b show thesis
      by (intro that [of "ht0 d" "ht1 d" a b]) (auto simp: dict_entries_def min_def max_def)
  qed
qed

definition scan_bits :: "('k, 'v) dict \<Rightarrow> nat \<Rightarrow> bool" where
  "scan_bits d k \<longleftrightarrow> k \<le> 31 \<and>
     (2 ^ k :: nat) = (if dictIsRehashing d then min (ht_size (ht0 d)) (ht_size (ht1 d)) else ht_size (ht0 d))"

lemma dictScan_call:
  assumes inv: "dict_inv d" and ne: "dictSize d \<noteq> 0"
  shows "\<exists>es v' k. dictScan d v = Some (es, v') \<and> scan_bits d k \<and>
     cursor_pos v' = (cursor_block k v + 1) * 2 ^ (64 - k) mod 2 ^ 64 \<and>
     (scan_safe d v \<longrightarrow>
       (\<forall>e \<in> set (dict_entries d). cursor_pos v \<le> hash_pos (hashFunction (dict_type d) (fst e)) \<and>
         hash_pos (hashFunction (dict_type d) (fst e)) < (cursor_block k v + 1) * 2 ^ (64 - k) \<longrightarrow> e \<in> set es))"
proof (cases "dictIsRehashing d")
  case False
  let ?hf = "hashFunction (dict_type d)"
  have "ht0 d \<noteq> dictReset_priv" and e1: "ht1 d = dictReset_priv"
    using inv ne False by (auto simp: dict_inv_def dictIsRehashing_def dictSize_eq [OF inv] dict_entries_def)
  then have live: "ht_live ?hf (ht0 d)" using inv False by (simp add: dict_inv_def dictIsRehashing_def)
  then obtain k where k: "k \<le> 31" "ht_size (ht0 d) = 2 ^ k" "length (ht_table (ht0 d)) = 2 ^ k" "ht_sizemask (ht0 d) = mask k"
    by (auto elim: ht_liveE)
  let ?c = "ht_table (ht0 d) ! (unat v mod 2 ^ k)"
  have r: "dictScan d v = Some (?c, dict_rev (dict_rev (v OR NOT (mask k)) + 1))"
    using ne False k by (simp add: dictScan_def unat_and_mask)
  have "e \<in> set ?c" if "e \<in> set (dict_entries d)" "cursor_pos v \<le> hash_pos (?hf (fst e))"
      "hash_pos (?hf (fst e)) < (cursor_block k v + 1) * 2 ^ (64 - k)" for e
  proof -
    have "cursor_block k (ucast (?hf (fst e))) = cursor_block k v"
      using that by (intro cursor_block_same) (auto simp: hash_pos_def)
    from dict_index_same_block [OF k(1) this]
    have "dict_index (ht_sizemask (ht0 d)) (?hf (fst e)) = unat v mod 2 ^ k"
      using k by (simp add: dict_index_mask)
    then show ?thesis using ht_live_home_bucket [OF live, of e] that(1) e1 by (simp add: dict_entries_def)
  qed
  then show ?thesis using r k False cursor_next [of k v] by (auto simp: scan_bits_def intro!: exI [of _ k])
next
  case True
  let ?hf = "hashFunction (dict_type d)"
  obtain t0 t1 k0 k1 where
    t: "t0 = (if ht_size (ht0 d) > ht_size (ht1 d) then ht1 d else ht0 d)"
       "t1 = (if ht_size (ht0 d) > ht_size (ht1 d) then ht0 d else ht1 d)"
    and live: "ht_live ?hf t0" "ht_live ?hf t1"
    and ent: "set (dict_entries d) = set (ht_entries t0) \<union> set (ht_entries t1)"
    and k: "k0 \<le> k1" "k1 \<le> 31" "ht_sizemask t0 = mask k0" "ht_sizemask t1 = mask k1"
      "length (ht_table t0) = 2 ^ k0" "length (ht_table t1) = 2 ^ k1"
    and mm: "min (ht_size (ht0 d)) (ht_size (ht1 d)) = 2 ^ k0" "max (ht_size (ht0 d)) (ht_size (ht1 d)) = 2 ^ k1"
    by (rule dictScan_tables [OF inv ne True])
  let ?c = "ht_table t0 ! (unat v mod 2 ^ k0)"
  obtain es w where ex: "dictScan_expand t1 (mask k0) (mask k1) v = Some (es, w)"
    and w: "w AND mask k0 = v AND mask k0"
    and cov: "\<forall>j < 2 ^ k1. unat v mod 2 ^ k1 \<le> j \<and> j mod 2 ^ k0 = unat v mod 2 ^ k0 \<longrightarrow>
              set (ht_table t1 ! j) \<subseteq> set es"
    using dictScan_expand_spec [OF k(1,2,6)] by blast
  have w': "w OR NOT (mask k0) = v OR NOT (mask k0)"
    using w by (metis (no_types) or_not_mask_cong)
  have r: "dictScan d v = Some (?c @ es, dict_rev (dict_rev (v OR NOT (mask k0)) + 1))"
    unfolding dictScan_def Let_def t [symmetric] k(3,4) unat_and_mask using ne True k(5) ex w' by simp
  have s: "k1 \<le> Suc k0 \<or> unat v mod 2 ^ k1 < 2 ^ k0" if "scan_safe d v"
    using that True mm by (auto simp: scan_safe_def Let_def simp flip: power_Suc)
  have "e \<in> set (?c @ es)" if safe: "scan_safe d v" and e: "e \<in> set (dict_entries d)" "cursor_pos v \<le> hash_pos (?hf (fst e))"
      "hash_pos (?hf (fst e)) < (cursor_block k0 v + 1) * 2 ^ (64 - k0)" for e
  proof -
    let ?h = "?hf (fst e)"
    have same: "cursor_block k0 (ucast ?h) = cursor_block k0 v"
      using e by (intro cursor_block_same) (auto simp: hash_pos_def)
    then have low: "unat ?h mod 2 ^ k0 = unat v mod 2 ^ k0" using k by (intro dict_index_same_block) auto
    show ?thesis
    proof (cases "e \<in> set (ht_entries t0)")
      case True
      then show ?thesis using ht_live_home_bucket [OF live(1) True] k low by (simp add: dict_index_mask)
    next
      case False
      then have e1: "e \<in> set (ht_entries t1)" using e ent by auto
      have "unat v mod 2 ^ k1 \<le> unat ?h mod 2 ^ k1"
        by (rule large_index_ge [OF k(1,2) same e(2) s [OF safe]])
      moreover have "unat ?h mod 2 ^ k1 mod 2 ^ k0 = unat v mod 2 ^ k0"
        using low k(1) by (metis le_imp_power_dvd mod_mod_cancel)
      ultimately have "set (ht_table t1 ! (unat ?h mod 2 ^ k1)) \<subseteq> set es" using cov by simp
      then show ?thesis using ht_live_home_bucket [OF live(2) e1] k by (auto simp: dict_index_mask)
    qed
  qed
  then show ?thesis using r k mm True cursor_next [of k0 v]
    by (intro exI conjI) (auto simp: scan_bits_def intro!: exI [of _ k0])
qed

section \<open>Whole scans\<close>

text \<open>
  A scan is a sequence of calls, each against the state the dictionary has at that moment; the
  cursor returned by one call is passed to the next.
\<close>

fun scan_run :: "('k, 'v) dict list \<Rightarrow> 64 word \<Rightarrow> (('k, 'v) dictEntry list \<times> 64 word) option" where
  "scan_run [] v = Some ([], v)"
| "scan_run (d # ds) v = do {
     r \<leftarrow> dictScan d v;
     q \<leftarrow> scan_run ds (snd r);
     Some (fst r @ fst q, snd q) }"

fun scan_run_safe :: "('k, 'v) dict list \<Rightarrow> 64 word \<Rightarrow> bool" where
  "scan_run_safe [] v \<longleftrightarrow> True"
| "scan_run_safe (d # ds) v \<longleftrightarrow> scan_safe d v \<and>
     (case dictScan d v of None \<Rightarrow> True | Some r \<Rightarrow> scan_run_safe ds (snd r))"

lemma dictSize_pos: "dict_inv d \<Longrightarrow> key \<in> dom (dict_map d) \<Longrightarrow> dictSize d \<noteq> 0"
  by (auto simp: dictSize_eq dict_map_def)

lemma dictScan_total: "dict_inv d \<Longrightarrow> \<exists>r. dictScan d v = Some r"
  by (cases "dictSize d = 0") (auto simp: dictScan_def dest: dictScan_call [of d v])

lemma scan_run_total: "\<forall>d \<in> set ds. dict_inv d \<Longrightarrow> \<exists>r. scan_run ds v = Some r"
proof (induction ds arbitrary: v)
  case (Cons d ds)
  obtain r where r: "dictScan d v = Some r" using dictScan_total [of d v] Cons.prems by auto
  obtain q where "scan_run ds (snd r) = Some q" using Cons by fastforce
  then show ?case using r by simp
qed simp

lemma scan_run_complete:
  assumes "\<forall>d \<in> set ds. dict_inv d \<and> hashFunction (dict_type d) = hf \<and> key \<in> dom (dict_map d)"
    and "scan_run_safe ds v" "cursor_pos v \<le> hash_pos (hf key)" "ds \<noteq> []"
  shows "\<exists>es w. scan_run ds v = Some (es, w) \<and> (w = 0 \<longrightarrow> key \<in> fst ` set es)"
  using assms
proof (induction ds arbitrary: v)
  case Nil
  then show ?case by simp
next
  case (Cons d ds)
  have inv: "dict_inv d" and hf: "hashFunction (dict_type d) = hf" and key: "key \<in> dom (dict_map d)"
    using Cons.prems(1) by auto
  obtain val where e: "(key, val) \<in> set (dict_entries d)"
    using key by (auto simp: dict_map_def dest: map_of_SomeD)
  obtain es w k where r: "dictScan d v = Some (es, w)" and k: "scan_bits d k"
    and w: "cursor_pos w = (cursor_block k v + 1) * 2 ^ (64 - k) mod 2 ^ 64"
    and cov: "\<forall>e \<in> set (dict_entries d). cursor_pos v \<le> hash_pos (hf (fst e)) \<and>
        hash_pos (hf (fst e)) < (cursor_block k v + 1) * 2 ^ (64 - k) \<longrightarrow> e \<in> set es"
    using dictScan_call [OF inv dictSize_pos [OF inv key], of v] Cons.prems(2) unfolding hf by auto
  show ?case
  proof (cases "hash_pos (hf key) < (cursor_block k v + 1) * 2 ^ (64 - k)")
    case True
    then have "(key, val) \<in> set es" using cov e Cons.prems(3) by auto
    then have "key \<in> fst ` set es" by force
    moreover obtain q where "scan_run ds w = Some q" using scan_run_total [of ds w] Cons.prems(1) by auto
    ultimately show ?thesis using r by (cases q) (simp add: image_Un)
  next
    case False
    have "hash_pos (hf key) < 2 ^ 64" by (simp only: hash_pos_def cursor_pos_lt)
    then have lt: "(cursor_block k v + 1) * 2 ^ (64 - k) < 2 ^ 64" using False by linarith
    then have pos: "cursor_pos w = (cursor_block k v + 1) * 2 ^ (64 - k)" using w by (metis mod_less)
    show ?thesis
    proof (cases "ds = []")
      case True
      have "cursor_pos w \<noteq> 0" using pos by simp
      then show ?thesis using True r by simp
    next
      case ne: False
      obtain es' w' where "scan_run ds w = Some (es', w')" "w' = 0 \<longrightarrow> key \<in> fst ` set es'"
        using Cons.IH [of w] Cons.prems r ne False pos by auto
      then show ?thesis using r by (simp add: image_Un)
    qed
  qed
qed

section \<open>A scan of a table that does not change\<close>

definition scan_cursor :: "nat \<Rightarrow> nat \<Rightarrow> 64 word" where
  "scan_cursor k i = dict_rev (of_nat (i * 2 ^ (64 - k)))"

lemma scan_cursor_pos:
  assumes "k \<le> 31" "i < 2 ^ k" shows "cursor_pos (scan_cursor k i) = i * 2 ^ (64 - k)"
proof -
  have "i * 2 ^ (64 - k) < 2 ^ k * 2 ^ (64 - k)" using assms(2) by simp
  also have "\<dots> = 2 ^ 64" using assms(1) by (simp flip: power_add)
  finally have "unat (of_nat (i * 2 ^ (64 - k)) :: 64 word) = i * 2 ^ (64 - k)"
    by (subst unat_of_nat) simp
  then show ?thesis by (simp only: scan_cursor_def cursor_pos_def dict_rev_rev)
qed

lemma scan_cursor_block:
  "k \<le> 31 \<Longrightarrow> i < 2 ^ k \<Longrightarrow> cursor_block k (scan_cursor k i) = i"
  by (simp add: cursor_block_def scan_cursor_pos)

lemma cursor_pos_inject: "cursor_pos x = cursor_pos y \<longleftrightarrow> x = y"
  by (metis cursor_pos_def dict_rev_rev word_unat_eq_iff)

definition scan_bucket :: "nat \<Rightarrow> nat \<Rightarrow> nat" where
  "scan_bucket k i = unat (scan_cursor k i) mod 2 ^ k"

lemma scan_bucket_perm:
  assumes "k \<le> 31" shows "mset (map (scan_bucket k) [0..<2 ^ k]) = mset [0..<2 ^ k]"
proof -
  have "i = j" if "i < 2 ^ k" "j < 2 ^ k" "scan_bucket k i = scan_bucket k j" for i j
  proof -
    have "take_bit k (scan_cursor k i) = take_bit k (scan_cursor k j)"
      using that(3) by (simp add: scan_bucket_def word_unat_eq_iff unsigned_take_bit_eq take_bit_eq_mod [where ?'a = nat] del: take_bit_of_nat)
    then have "cursor_block k (scan_cursor k i) = cursor_block k (scan_cursor k j)"
      using assms cursor_block_eq_iff by simp
    then show ?thesis using scan_cursor_block assms that by simp
  qed
  then have inj: "inj_on (scan_bucket k) {0..<2 ^ k}" by (auto simp: inj_on_def)
  moreover have "scan_bucket k ` {0..<2 ^ k} \<subseteq> {0..<2 ^ k}" by (auto simp: scan_bucket_def)
  ultimately have "scan_bucket k ` {0..<2 ^ k} = {0..<2 ^ k}"
    by (simp add: endo_inj_surj)
  then show ?thesis
    using inj by (simp add: image_mset_mset_set)
qed

lemma scan_run_fixed:
  assumes inv: "dict_inv d" and ne: "dictSize d \<noteq> 0" and nr: "\<not> dictIsRehashing d"
    and k: "k \<le> 31" "ht_size (ht0 d) = 2 ^ k" "i \<le> 2 ^ k"
  shows "scan_run (replicate (2 ^ k - i) d) (if i = 2 ^ k then 0 else scan_cursor k i)
       = Some (concat (map (\<lambda>j. ht_table (ht0 d) ! scan_bucket k j) [i..<2 ^ k]), 0)"
  using k(3)
proof (induction "2 ^ k - i" arbitrary: i)
  case 0
  then show ?case by simp
next
  case (Suc n)
  then have i: "i < 2 ^ k" by simp
  let ?v = "scan_cursor k i"
  let ?w = "if Suc i = 2 ^ k then 0 else scan_cursor k (Suc i)"
  have "ht0 d \<noteq> dictReset_priv" using k(2) by auto
  then have live: "ht_live (hashFunction (dict_type d)) (ht0 d)" using inv nr by (simp add: dict_inv_def dictIsRehashing_def)
  then have tb: "length (ht_table (ht0 d)) = 2 ^ k" "ht_sizemask (ht0 d) = mask k"
    using k(2) by (auto elim: ht_liveE)
  have "cursor_pos (dict_rev (dict_rev (?v OR NOT (mask k)) + 1)) = (i + 1) * 2 ^ (64 - k) mod 2 ^ 64"
    using cursor_next [of k ?v] k(1) i by (simp add: scan_cursor_block)
  also have "\<dots> = cursor_pos ?w"
  proof (cases "Suc i = 2 ^ k")
    case True
    then have "(i + 1) * 2 ^ (64 - k) = 2 ^ 64" using k(1) by (simp flip: power_add)
    then show ?thesis using True by simp
  next
    case False
    then have "Suc i < 2 ^ k" using i by simp
    from scan_cursor_pos [OF k(1) this] show ?thesis
      using cursor_pos_lt [of "scan_cursor k (Suc i)"] False by simp
  qed
  finally have "dict_rev (dict_rev (?v OR NOT (mask k)) + 1) = ?w" by (simp only: cursor_pos_inject)
  then have "dictScan d ?v = Some (ht_table (ht0 d) ! scan_bucket k i, ?w)"
    using ne nr tb by (simp add: dictScan_def unat_and_mask scan_bucket_def)
  moreover have "2 ^ k - i = Suc (2 ^ k - Suc i)" using i by simp
  moreover have "scan_run (replicate (2 ^ k - Suc i) d) ?w
      = Some (concat (map (\<lambda>j. ht_table (ht0 d) ! scan_bucket k j) [Suc i..<2 ^ k]), 0)"
    using Suc.hyps(1) [of "Suc i"] Suc.hyps(2) i by simp
  ultimately show ?case using i by (simp add: upt_conv_Cons)
qed

lemma mset_concat_map_perm:
  assumes "mset xs = mset ys" shows "mset (concat (map f xs)) = mset (concat (map f ys))"
proof -
  have "mset (concat (map f zs)) = \<Sum>\<^sub># (image_mset (mset \<circ> f) (mset zs))" for zs
    by (induction zs) auto
  then show ?thesis using assms by simp
qed

lemma scan_full_fixed:
  assumes inv: "dict_inv d" and ne: "dictSize d \<noteq> 0" and nr: "\<not> dictIsRehashing d"
  shows "\<exists>es. scan_run (replicate (ht_size (ht0 d)) d) 0 = Some (es, 0) \<and> mset es = mset (dict_entries d)"
proof -
  have "ht0 d \<noteq> dictReset_priv" and e1: "ht_entries (ht1 d) = []"
    using inv ne nr by (auto simp: dict_inv_def dictIsRehashing_def dictSize_eq [OF inv] dict_entries_def)
  then have live: "ht_live (hashFunction (dict_type d)) (ht0 d)" using inv nr by (simp add: dict_inv_def dictIsRehashing_def)
  then obtain k where k: "k \<le> 31" "ht_size (ht0 d) = 2 ^ k" "length (ht_table (ht0 d)) = 2 ^ k"
    by (auto elim: ht_liveE)
  let ?es = "concat (map (\<lambda>j. ht_table (ht0 d) ! scan_bucket k j) [0..<2 ^ k])"
  have "scan_cursor k 0 = 0" by (simp add: scan_cursor_def)
  then have "scan_run (replicate (2 ^ k) d) 0 = Some (?es, 0)"
    using scan_run_fixed [OF inv ne nr k(1,2), of 0] by simp
  moreover have "mset ?es = mset (concat (map ((!) (ht_table (ht0 d))) [0..<2 ^ k]))"
    using mset_concat_map_perm [OF scan_bucket_perm [OF k(1)], of "(!) (ht_table (ht0 d))"] by (simp add: comp_def)
  moreover have "map ((!) (ht_table (ht0 d))) [0..<2 ^ k] = ht_table (ht0 d)" using k(3) by (metis map_nth)
  ultimately show ?thesis using k(2) e1 by (simp add: dict_entries_def ht_entries_def)
qed

section \<open>Two states of one table, before and after it starts to shrink\<close>

definition idType :: "(nat, unit) dictType" where
  "idType = \<lparr>hashFunction = of_nat, keyDup = None, valDup = None, keyCompare = None\<rparr>"

definition shrink_before :: "(nat, unit) dict" where
  "shrink_before = \<lparr>dict_type = idType,
     ht0 = \<lparr>ht_table = [[], [], [], [], [(4, ())], [], [], [], [], [], [], [], [], [], [], []],
            ht_size = 16, ht_sizemask = 15, ht_used = 1\<rparr>,
     ht1 = dictReset_priv, rehashidx = -1, iterators = 0\<rparr>"

definition shrink_after :: "(nat, unit) dict" where
  "shrink_after = shrink_before\<lparr>ht1 := \<lparr>ht_table = [[], [], [], []], ht_size = 4, ht_sizemask = 3, ht_used = 0\<rparr>,
     rehashidx := 0\<rparr>"

lemmas dict_eval = dictExpand_def dictNextPower_priv_def dictNextPower_loop.simps dictCreate_def
  dictInit_priv_def dictIsRehashing_def DICT_HT_INITIAL_SIZE_def dictAdd_def dictAddRaw_def
  dictKeyIndex_priv_def dictExpandIfNeeded_priv_def dict_search_def dict_index_def dictHashKey_def
  dictCompareKeys_def dictSetKey_def dictSetVal_def dictDupVal_def ht_at_def ht_at_update_def
  idType_def Let_def dict_force_resize_ratio_def


lemma rev_values:
  "dict_rev (- 16) = 0x0FFFFFFFFFFFFFFF" "dict_rev 0x1000000000000000 = 8"
  "dict_rev (- 4) = 0x3FFFFFFFFFFFFFFF" "dict_rev 0x4000000000000000 = 2"
  "dict_rev (- 2) = 0x7FFFFFFFFFFFFFFF" "dict_rev 0x8000000000000000 = 1"
  "dict_rev (- 3) = 0xBFFFFFFFFFFFFFFF" "dict_rev 0xC000000000000000 = 3"
  by (simp_all add: dict_rev_unfold rev_swap_def)

lemma dict_rev_m1: "dict_rev (- 1) = - 1"
  by (rule bit_eqI) (simp add: bit_dict_rev)

lemma replicate_values:
  "replicate 4 x = [x, x, x, x]"
  "replicate 16 x = [x, x, x, x, x, x, x, x, x, x, x, x, x, x, x, x]"
  by (simp_all add: numeral_eq_Suc)

abbreviation table16 :: "(nat, unit) dict" where
  "table16 \<equiv> (dictCreate idType)\<lparr>ht0 := \<lparr>ht_table = replicate 16 [], ht_size = 16, ht_sizemask = 15, ht_used = 0\<rparr>\<rparr>"

lemma table16_reached: "dictExpand (dictCreate idType) 16 = Some (table16, DICT_OK)"
  by (simp add: dict_eval)

lemma shrink_before_reached: "dictAdd True () table16 4 () = Some (shrink_before, DICT_OK)"
  by (simp add: dict_eval shrink_before_def replicate_values)

lemma shrink_after_reached: "dictResize True shrink_before = Some (shrink_after, DICT_OK)"
  by (simp add: dict_eval shrink_before_def shrink_after_def dictResize_def replicate_values)

lemma idType_ok: "dict_type_ok idType"
  by (simp add: dict_type_ok_def idType_def)

lemma shrink_states:
  "dict_inv shrink_before" "dict_map shrink_before = [4 \<mapsto> ()]"
  "dict_inv shrink_after" "dict_map shrink_after = [4 \<mapsto> ()]"
proof -
  have "dict_same (dictCreate idType) table16"
    using dictExpand_same [OF dictCreate_inv [OF idType_ok], of 16] table16_reached by auto
  then have t: "dict_inv table16" "dict_map table16 = Map.empty"
    using dict_same_map [OF dictCreate_inv [OF idType_ok]] by (auto simp: dict_same_def)
  then have "dict_step table16 shrink_before [4 \<mapsto> ()]"
    using dictAdd_spec [OF t(1), of True "()" 4 "()"] shrink_before_reached
    by (simp add: dictSize_def dictCreate_def dictInit_priv_def dictReset_priv_def dict_max_def)
  then show b: "dict_inv shrink_before" "dict_map shrink_before = [4 \<mapsto> ()]"
    by (auto simp: dict_step_def)
  have "dict_same shrink_before shrink_after"
    using dictResize_same [OF b(1), of True] shrink_after_reached by auto
  then show "dict_inv shrink_after" "dict_map shrink_after = [4 \<mapsto> ()]"
    using dict_same_map [OF b(1)] b(2) by (auto simp: dict_same_def)
qed

lemma shrink_before_fields [simp]:
  "\<not> dictIsRehashing shrink_before" "dictSize shrink_before = 1" "ht_size (ht0 shrink_before) = 16"
  "dict_type shrink_before = idType" "dict_entries shrink_before = [(4, ())]"
  by (simp_all add: shrink_before_def dictIsRehashing_def dictSize_def dictReset_priv_def dict_entries_def
      ht_entries_def)

lemmas scan_eval = dictScan_def shrink_after_def shrink_before_def dictSize_def dictIsRehashing_def
  dictScan_expand.simps rev_values dict_rev_m1 Let_def

lemma shrink_scan_steps:
  "dictScan shrink_before 0 = Some ([], 8)"
  "dictScan shrink_after 8 = Some ([], 2)"
  "dictScan shrink_after 2 = Some ([], 1)"
  "dictScan shrink_after 1 = Some ([], 3)"
  "dictScan shrink_after 3 = Some ([], 0)"
  by (simp_all add: scan_eval)

lemma scan_run_safe_stable:
  "\<not> dictIsRehashing d \<Longrightarrow> scan_run_safe (replicate n d) v"
  by (induction n arbitrary: v) (auto simp: scan_safe_def split: option.splits)

section \<open>Properties\<close>

text \<open>
  C10.  A scan that starts at cursor 0 and ends at cursor 0 returns every key that was in the table
  during the whole scan, whatever happened to the table between the calls (insertions, deletions,
  growing, rehashing steps), as long as no call was made with the cursor outside the smaller of two
  tables whose sizes differ by more than a factor of two.  Each call also returns: the inner
  \<open>do \<dots> while\<close> of \<open>dictScan\<close> terminates and reads no bucket out of bounds.
\<close>

theorem dictScan_complete:
  assumes "ds \<noteq> []"
    and "\<forall>d \<in> set ds. dict_inv d \<and> hashFunction (dict_type d) = hf \<and> key \<in> dom (dict_map d)"
    and "scan_run_safe ds 0"
  shows "\<exists>es w. scan_run ds 0 = Some (es, w) \<and> (w = 0 \<longrightarrow> key \<in> fst ` set es)"
  using scan_run_complete [OF assms(2,3)] assms(1) by (simp add: cursor_pos_def)

lemma rehash_scan_steps: "dictScan shrink_after 0 = Some ([(4, ())], 2)"
  by (simp add: scan_eval)

theorem dictScan_complete_witness:
  "dictIsRehashing shrink_after \<and>
   (\<exists>es. scan_run [shrink_after, shrink_after, shrink_after, shrink_after] 0 = Some (es, 0) \<and> 4 \<in> fst ` set es)"
proof
  show r: "dictIsRehashing shrink_after" by (simp add: shrink_after_def dictIsRehashing_def)
  have "scan_run_safe [shrink_after, shrink_after, shrink_after, shrink_after] 0"
    by (simp add: rehash_scan_steps shrink_scan_steps) (simp add: scan_safe_def shrink_after_def shrink_before_def Let_def)
  from dictScan_complete [OF _ _ this, of "hashFunction idType" 4]
  show "\<exists>es. scan_run [shrink_after, shrink_after, shrink_after, shrink_after] 0 = Some (es, 0) \<and> 4 \<in> fst ` set es"
    by (simp add: shrink_states rehash_scan_steps shrink_scan_steps)
qed

text \<open>
  C20.  On a table that does not change, the scan ends after exactly as many calls as the table has
  buckets, and together they return every entry exactly once.
\<close>

theorem dictScan_exactly_once:
  assumes "dict_inv d" "dictSize d \<noteq> 0" "\<not> dictIsRehashing d"
  shows "\<exists>es. scan_run (replicate (ht_size (ht0 d)) d) 0 = Some (es, 0) \<and> mset es = mset (dict_entries d)"
  using assms by (rule scan_full_fixed)

theorem dictScan_exactly_once_witness:
  "\<exists>es. scan_run (replicate 16 shrink_before) 0 = Some (es, 0) \<and> mset es = {#(4, ())#}"
  using dictScan_exactly_once [of shrink_before] by (simp add: shrink_states)

text \<open>
  The exception of \<open>dictScan_complete\<close> for shrinking tables is real: on a table of 16 buckets that starts to shrink to 4 after the
  first call, a full scan from cursor 0 back to cursor 0 does not return the key 4, which was in the
  table all the time.
\<close>

lemma dictScan_misses_on_shrink:
  "dictResize True shrink_before = Some (shrink_after, DICT_OK) \<and>
   dict_map shrink_before = [4 \<mapsto> ()] \<and> dict_map shrink_after = [4 \<mapsto> ()] \<and>
   scan_run [shrink_before, shrink_after, shrink_after, shrink_after, shrink_after] 0 = Some ([], 0)"
  by (simp add: shrink_after_reached shrink_states shrink_scan_steps)

end
