(* ===== verification/Bytes.thy ===== *)
theory Bytes
  imports Prelude
begin

text \<open>
  C strings: byte literals, the \<open>ctype.h\<close> functions the sources use (in the C locale) and decimal
  notation.
\<close>

abbreviation byte_of :: "char \<Rightarrow> byte" where
  "byte_of c \<equiv> of_char c"

abbreviation str :: "string \<Rightarrow> bytes" where
  "str s \<equiv> map of_char s"

text \<open>A byte read as a (signed) \<open>char\<close> and promoted to \<open>int\<close>.\<close>

abbreviation cval :: "byte \<Rightarrow> int" where
  "cval b \<equiv> sint b"

definition c_tolower :: "int \<Rightarrow> int" where
  "c_tolower c = (if 65 \<le> c \<and> c \<le> 90 then c + 32 else c)"

definition c_toupper :: "int \<Rightarrow> int" where
  "c_toupper c = (if 97 \<le> c \<and> c \<le> 122 then c - 32 else c)"

definition c_isdigit :: "int \<Rightarrow> bool" where
  "c_isdigit c \<longleftrightarrow> 48 \<le> c \<and> c \<le> 57"

text \<open>The length of a NUL-terminated string; \<open>None\<close> when the buffer has no terminator.\<close>

fun c_strlen :: "bytes \<Rightarrow> nat option" where
  "c_strlen [] = None"
| "c_strlen (b # s) = (if b = 0 then Some 0 else map_option Suc (c_strlen s))"

text \<open>Decimal notation of a natural number and of an integer, the reference for the conversions.\<close>

fun dec :: "nat \<Rightarrow> bytes" where
  "dec n = (if n < 10 then [48 + of_nat n] else dec (n div 10) @ [48 + of_nat (n mod 10)])"
declare dec.simps [simp del]

definition dec_int :: "int \<Rightarrow> bytes" where
  "dec_int i = (if i < 0 then 45 # dec (nat (- i)) else dec (nat i))"

lemma cval_digit [simp]: "n < 10 \<Longrightarrow> cval (48 + word_of_nat n) = int n + 48"
proof -
  assume "n < 10"
  moreover have "48 + word_of_nat n = (word_of_nat (48 + n) :: byte)" by simp
  moreover have "cval (word_of_nat (48 + n)) = signed_take_bit 7 (int (48 + n))"
    by (simp only: signed_of_nat) simp
  ultimately show ?thesis by (simp add: signed_take_bit_int_eq_self)
qed

lemma length_dec_pos [simp]: "0 < length (dec n)"
  by (subst dec.simps) simp

lemma dec_neq_Nil [simp]: "dec n \<noteq> []"
  using length_dec_pos [of n] by force

text \<open>Reading digits back, from the most significant one.\<close>

definition dec_val :: "bytes \<Rightarrow> nat" where
  "dec_val ds = foldl (\<lambda>v b. 10 * v + nat (cval b - 48)) 0 ds"

lemma dec_val_Nil [simp]: "dec_val [] = 0"
  by (simp add: dec_val_def)

lemma dec_val_snoc [simp]: "dec_val (ds @ [b]) = 10 * dec_val ds + nat (cval b - 48)"
  by (simp add: dec_val_def)

lemma dec_val_dec [simp]: "dec_val (dec n) = n"
proof (induction n rule: dec.induct)
  case (1 n)
  show ?case
  proof (cases "n < 10")
    case True
    then show ?thesis by (subst dec.simps) (simp add: dec_val_def)
  next
    case False
    then show ?thesis using 1 by (subst dec.simps) simp
  qed
qed

definition is_digits :: "bytes \<Rightarrow> bool" where
  "is_digits ds \<longleftrightarrow> (\<forall>b \<in> set ds. c_isdigit (cval b))"

lemma is_digits_simps [simp]:
  "is_digits []" "is_digits (b # ds) \<longleftrightarrow> c_isdigit (cval b) \<and> is_digits ds"
  "is_digits (ds @ es) \<longleftrightarrow> is_digits ds \<and> is_digits es"
  by (auto simp: is_digits_def)

lemma is_digits_dec [simp]: "is_digits (dec n)"
proof (induction n rule: dec.induct)
  case (1 n)
  have "n mod 10 \<le> 9" using mod_less_divisor [of 10 n] by linarith
  then show ?case using 1 by (subst dec.simps) (simp add: c_isdigit_def)
qed

lemma digit_of_cval: "c_isdigit (cval b) \<Longrightarrow> 48 + word_of_nat (nat (cval b - 48)) = b"
proof -
  assume a: "c_isdigit (cval b)"
  have "48 + word_of_nat (nat (cval b - 48)) = (word_of_int (48 + (cval b - 48)) :: byte)"
    using a by (simp only: of_int_add) (simp add: c_isdigit_def)
  then show ?thesis by simp
qed

lemma dec_val_eq_0: "is_digits ds \<Longrightarrow> dec_val ds = 0 \<Longrightarrow> b \<in> set ds \<Longrightarrow> cval b = 48"
proof (induction ds rule: rev_induct)
  case (snoc a ds)
  then show ?case by (auto simp: c_isdigit_def)
qed simp

text \<open>A digit string without a leading zero is the decimal notation of its value.\<close>

lemma dec_of_dec_val:
  "is_digits ds \<Longrightarrow> ds \<noteq> [] \<Longrightarrow> cval (hd ds) \<noteq> 48 \<or> length ds = 1 \<Longrightarrow> dec (dec_val ds) = ds"
proof (induction ds rule: rev_induct)
  case (snoc b ds)
  let ?d = "nat (cval b - 48)"
  have d: "?d < 10" "48 + word_of_nat ?d = b"
    using snoc.prems(1) digit_of_cval [of b] by (auto simp: c_isdigit_def)
  show ?case
  proof (cases ds)
    case Nil
    then show ?thesis using d by (subst dec.simps) (simp add: dec_val_def)
  next
    case (Cons a as)
    then have nz: "cval (hd ds) \<noteq> 48" using snoc.prems(3) by simp
    have "dec_val ds \<noteq> 0"
      using dec_val_eq_0 [of ds "hd ds"] nz snoc.prems(1) Cons by auto
    then have "\<not> 10 * dec_val ds + ?d < 10" by simp
    moreover have "(10 * dec_val ds + ?d) div 10 = dec_val ds" "(10 * dec_val ds + ?d) mod 10 = ?d"
      using d(1) by auto
    moreover have "dec (dec_val ds) = ds" using snoc.IH snoc.prems(1) nz Cons by simp
    ultimately show ?thesis using d(2) by (subst dec.simps) simp
  qed
qed simp

lemma hd_dec: "0 < n \<Longrightarrow> 49 \<le> cval (hd (dec n)) \<and> cval (hd (dec n)) \<le> 57"
proof (induction n rule: dec.induct)
  case (1 n)
  show ?case
  proof (cases "n < 10")
    case True
    then show ?thesis using 1 by (subst (1 2) dec.simps) simp
  next
    case False
    then have "dec n = dec (n div 10) @ [48 + word_of_nat (n mod 10)]" by (subst dec.simps) simp
    then show ?thesis using 1 False by (simp add: hd_append)
  qed
qed

lemma length_dec_le_iff: "0 < k \<Longrightarrow> length (dec n) \<le> k \<longleftrightarrow> n < 10 ^ k"
proof (induction n arbitrary: k rule: dec.induct)
  case (1 n)
  show ?case
  proof (cases "n < 10")
    case True
    moreover have "(10::nat) \<le> 10 ^ k" using 1(2) by (cases k) auto
    ultimately show ?thesis using 1(2) by (subst dec.simps) simp
  next
    case False
    then have e: "length (dec n) = Suc (length (dec (n div 10)))" by (subst dec.simps) simp
    show ?thesis
    proof (cases "k - 1")
      case 0
      then have "k = 1" using 1(2) by simp
      then show ?thesis using False e by simp
    next
      case (Suc j)
      then have k: "k = Suc (Suc j)" using 1(2) by simp
      have "length (dec (n div 10)) \<le> Suc j \<longleftrightarrow> n div 10 < 10 ^ Suc j" using 1(1) False by blast
      also have "\<dots> \<longleftrightarrow> n < 10 ^ Suc j * 10" by (rule div_less_iff_less_mult) simp
      finally show ?thesis using e k by (simp add: mult.commute)
    qed
  qed
qed

end
