(* ===== verification/Numbers.thy ===== *)
theory Numbers
  imports Bytes
begin

text \<open>
  The number conversions of \<open>util.c\<close>: \<open>digits10\<close>, \<open>ll2string\<close>, \<open>string2ll\<close>, \<open>string2l\<close> and
  \<open>memtoll\<close>.  A \<open>long long\<close> argument is an \<open>int\<close> in the 64-bit range, an \<open>unsigned long long\<close>
  local a \<open>nat\<close> with wrap-around, a buffer a list of bytes with checked accesses.
\<close>

abbreviation LLONG_MAX :: int where "LLONG_MAX \<equiv> 2 ^ 63 - 1"
abbreviation LLONG_MIN :: int where "LLONG_MIN \<equiv> - (2 ^ 63)"
abbreviation ULLONG_MAX :: nat where "ULLONG_MAX \<equiv> 2 ^ 64 - 1"

definition is_llong :: "int \<Rightarrow> bool" where
  "is_llong i \<longleftrightarrow> LLONG_MIN \<le> i \<and> i \<le> LLONG_MAX"

text \<open>Conversion of an \<open>unsigned long long\<close> to \<open>long long\<close>.\<close>

definition llong_of_ulong :: "nat \<Rightarrow> int" where
  "llong_of_ulong n = sint (of_nat n :: 64 word)"

section \<open>Printing\<close>

fun digits10 :: "nat \<Rightarrow> nat" where
  "digits10 v =
     (if v < 10 then 1
      else if v < 100 then 2
      else if v < 1000 then 3
      else if v < 1000000000000 then
        (if v < 100000000 then
           (if v < 1000000 then
              (if v < 10000 then 4 else 5 + (if v \<ge> 100000 then 1 else 0))
            else 7 + (if v \<ge> 10000000 then 1 else 0))
         else if v < 10000000000 then 9 + (if v \<ge> 1000000000 then 1 else 0)
         else 11 + (if v \<ge> 100000000000 then 1 else 0))
      else 12 + digits10 (v div 1000000000000))"
declare digits10.simps [simp del]

definition digit_pairs :: bytes where
  "digit_pairs = str (''0001020304050607080910111213141516171819'' @
     ''2021222324252627282930313233343536373839'' @
     ''4041424344454647484950515253545556575859'' @
     ''6061626364656667686970717273747576777879'' @
     ''8081828384858687888990919293949596979899'') @ [0]"

text \<open>The main loop writes two digits at a time, from the end of the buffer.\<close>

fun ll2string_loop :: "bytes \<Rightarrow> nat \<Rightarrow> nat \<Rightarrow> (bytes \<times> nat \<times> nat) option" where
  "ll2string_loop dst next value =
     (if value \<ge> 100 then do {
        let i = (value mod 100) * 2;
        d1 \<leftarrow> arr_get digit_pairs (i + 1);
        dst \<leftarrow> arr_set dst next d1;
        d0 \<leftarrow> arr_get digit_pairs i;
        dst \<leftarrow> arr_set dst (ui_sub next 1) d0;
        ll2string_loop dst (ui_sub next 2) (value div 100) }
      else Some (dst, next, value))"
declare ll2string_loop.simps [simp del]

text \<open>The last one or two digits.\<close>

definition ll2string_last :: "bytes \<Rightarrow> nat \<Rightarrow> nat \<Rightarrow> bytes option" where
  "ll2string_last dst next value =
     (if value < 10 then arr_set dst next (48 + of_nat value)
      else do {
        let i = value * 2;
        d1 \<leftarrow> arr_get digit_pairs (i + 1);
        dst \<leftarrow> arr_set dst next d1;
        d0 \<leftarrow> arr_get digit_pairs i;
        arr_set dst (ui_sub next 1) d0 })"

definition ll2string :: "bytes \<Rightarrow> nat \<Rightarrow> int \<Rightarrow> (bytes \<times> nat) option" where
  "ll2string dst dstlen svalue = do {
     let negative = svalue < 0;
     let value = (if svalue < 0
                  then if svalue \<noteq> LLONG_MIN then nat (- svalue) else nat LLONG_MAX + 1
                  else nat svalue);
     let len = ui_add (digits10 value) (if negative then 1 else 0);
     if len \<ge> dstlen then Some (dst, 0)
     else do {
       dst \<leftarrow> arr_set dst len 0;
       r \<leftarrow> ll2string_loop dst (ui_sub len 1) value;
       dst \<leftarrow> ll2string_last (fst r) (fst (snd r)) (snd (snd r));
       dst \<leftarrow> (if negative then arr_set dst 0 (byte_of CHR ''-'') else Some dst);
       Some (dst, len) } }"

section \<open>Parsing\<close>

text \<open>The digit loop: \<open>None\<close> is a read outside the string, \<open>Some None\<close> is "overflow, return 0".\<close>

function string2ll_loop :: "bytes \<Rightarrow> nat \<Rightarrow> nat \<Rightarrow> nat \<Rightarrow> (nat \<times> nat) option option" where
  "string2ll_loop s slen plen v =
     (if plen < slen then do {
        p0 \<leftarrow> arr_get s plen;
        if cval p0 \<ge> 48 \<and> cval p0 \<le> 57 then
          if v > ULLONG_MAX div 10 then Some None
          else
            let v = ul_mul v 10; d = nat (cval p0 - 48) in
            if v > ULLONG_MAX - d then Some None
            else string2ll_loop s slen (plen + 1) (ul_add v d)
        else Some (Some (plen, v)) }
      else Some (Some (plen, v)))"
  by pat_completeness auto
termination
  by (relation "measure (\<lambda>(s, slen, plen, v). slen - plen)") auto
declare string2ll_loop.simps [simp del]

text \<open>What follows the sign, at position \<open>plen\<close>: the first digit, the digit loop, the range checks.\<close>

definition string2ll_number :: "bytes \<Rightarrow> nat \<Rightarrow> nat \<Rightarrow> bool \<Rightarrow> int option option" where
  "string2ll_number s slen plen negative = do {
     p0 \<leftarrow> arr_get s plen;
     if cval p0 \<ge> 49 \<and> cval p0 \<le> 57 then do {
       r \<leftarrow> string2ll_loop s slen (plen + 1) (nat (cval p0 - 48));
       (case r of
          None \<Rightarrow> Some None
        | Some (plen, v) \<Rightarrow>
            if plen < slen then Some None
            else if negative then
              if v > nat (- (LLONG_MIN + 1)) + 1 then Some None
              else Some (Some (llong_of_ulong (ul_sub 0 v)))
            else if v > nat LLONG_MAX then Some None
            else Some (Some (llong_of_ulong v))) }
     else if p0 = byte_of CHR ''0'' \<and> slen = 1 then Some (Some 0)
     else Some None }"

definition string2ll :: "bytes \<Rightarrow> nat \<Rightarrow> int option option" where
  "string2ll s slen =
     (if slen = 0 then Some None
      else do {
        p0 \<leftarrow> arr_get s 0;
        if slen = 1 \<and> p0 = byte_of CHR ''0'' then Some (Some 0)
        else if p0 = byte_of CHR ''-'' then
          if slen = 1 then Some None else string2ll_number s slen 1 True
        else string2ll_number s slen 0 False })"

definition string2l :: "bytes \<Rightarrow> nat \<Rightarrow> int option option" where
  "string2l s slen = do {
     r \<leftarrow> string2ll s slen;
     (case r of
        None \<Rightarrow> Some None
      | Some llval \<Rightarrow>
          if llval < LLONG_MIN \<or> llval > LLONG_MAX then Some None else Some (Some llval)) }"

section \<open>Memory amounts\<close>

text \<open>
  Standard library: \<open>strcasecmp(u, lit) == 0\<close> reads the string at \<open>u\<close> up to the first difference;
  \<open>strtoll(buf, NULL, 10)\<close> on an optional minus sign followed by digits saturates.
\<close>

fun strcasecmp_eq :: "bytes \<Rightarrow> nat \<Rightarrow> bytes \<Rightarrow> bool option" where
  "strcasecmp_eq s i [] = do { b \<leftarrow> arr_get s i; Some (b = 0) }"
| "strcasecmp_eq s i (l # ls) = do {
     b \<leftarrow> arr_get s i;
     if c_tolower (cval b) = c_tolower (cval l) then strcasecmp_eq s (i + 1) ls else Some False }"

definition strtoll10 :: "bytes \<Rightarrow> int" where
  "strtoll10 ds =
     (let neg = (ds \<noteq> [] \<and> hd ds = byte_of CHR ''-'');
          m = int (dec_val (if neg then tl ds else ds));
          v = (if neg then - m else m)
      in if v < LLONG_MIN then LLONG_MIN else if v > LLONG_MAX then LLONG_MAX else v)"

function memtoll_skip :: "bytes \<Rightarrow> nat \<Rightarrow> nat option" where
  "memtoll_skip p u = do {
     b \<leftarrow> arr_get p u;
     if b \<noteq> 0 \<and> c_isdigit (cval b) then memtoll_skip p (u + 1) else Some u }"
  by pat_completeness auto
termination
  by (relation "measure (\<lambda>(p, u). length p - u)") (auto simp: arr_get_eq_Some_iff)
declare memtoll_skip.simps [simp del]

text \<open>
  The chain of unit comparisons: the first that matches gives the multiplier; no match is a parse
  error with multiplier 1.
\<close>

fun memtoll_unit :: "bytes \<Rightarrow> nat \<Rightarrow> (bytes \<times> int) list \<Rightarrow> (int \<times> bool) option" where
  "memtoll_unit p u [] = Some (1, True)"
| "memtoll_unit p u ((name, mul) # us) = do {
     b \<leftarrow> strcasecmp_eq p u name;
     if b then Some (mul, False) else memtoll_unit p u us }"

definition memtoll_units :: "(bytes \<times> int) list" where
  "memtoll_units = [(str ''b'', 1), (str ''k'', 1000), (str ''kb'', 1024), (str ''m'', 1000 * 1000),
     (str ''mb'', 1024 * 1024), (str ''g'', 1000 * 1000 * 1000), (str ''gb'', 1024 * 1024 * 1024)]"

text \<open>The result is the value and the error flag; \<open>None\<close> is a bad read or a signed overflow.\<close>

definition memtoll :: "bytes \<Rightarrow> (int \<times> bool) option" where
  "memtoll p = do {
     c \<leftarrow> arr_get p 0;
     u \<leftarrow> memtoll_skip p (if c = byte_of CHR ''-'' then 1 else 0);
     b \<leftarrow> arr_get p u;
     r \<leftarrow> (if b = 0 then Some (1, False) else memtoll_unit p u memtoll_units);
     let digits = u mod 2 ^ 32;
     if digits \<ge> 128 then Some (LLONG_MAX, True)
     else do {
       let val = strtoll10 (take digits p);
       if is_llong (val * fst r) then Some (val * fst r, snd r) else None } }"

section \<open>Decimal length\<close>

lemma length_dec_eq: "1 < k \<Longrightarrow> 10 ^ (k - 1) \<le> n \<Longrightarrow> n < 10 ^ k \<Longrightarrow> length (dec n) = k"
  using length_dec_le_iff [of k n] length_dec_le_iff [of "k - 1" n] by simp

lemma length_dec_div: "10 ^ k \<le> n \<Longrightarrow> length (dec n) = k + length (dec (n div 10 ^ k))"
proof (induction k arbitrary: n)
  case (Suc k)
  then have "10 ^ k \<le> n" "10 ^ k * 10 \<le> n" by (auto intro: order_trans [rotated])
  then have "10 \<le> n div 10 ^ k" by (simp add: less_eq_div_iff_mult_less_eq mult.commute)
  then have "length (dec (n div 10 ^ k)) = Suc (length (dec (n div 10 ^ k div 10)))"
    by (subst dec.simps) simp
  then show ?case using Suc.IH [OF \<open>10 ^ k \<le> n\<close>] by (simp add: div_mult2_eq [symmetric] mult.commute)
qed simp

lemma digits10_dec: "digits10 v = length (dec v)"
proof (induction v rule: digits10.induct)
  case (1 v)
  note len = length_dec_eq [of _ v]
  show ?case
  proof (cases "v < 1000000000000")
    case True
    have 1: "v < 10 \<Longrightarrow> digits10 v = length (dec v)" by (subst digits10.simps, subst dec.simps) simp
    have k: "digits10 v = length (dec v)" if "10 ^ (k - 1) \<le> v" "v < 10 ^ k" "k \<in> {2, 3, 4, 5, 6, 7, 8, 9, 10, 11, 12}" for k
    proof -
      have "length (dec v) = k" using that by (intro len) auto
      moreover have "digits10 v = k" using that by (subst digits10.simps) auto
      ultimately show ?thesis by simp
    qed
    consider "v < 10" | "10 \<le> v" "v < 100" | "100 \<le> v" "v < 1000" | "1000 \<le> v" "v < 10000"
      | "10000 \<le> v" "v < 100000" | "100000 \<le> v" "v < 1000000" | "1000000 \<le> v" "v < 10000000"
      | "10000000 \<le> v" "v < 100000000" | "100000000 \<le> v" "v < 1000000000"
      | "1000000000 \<le> v" "v < 10000000000" | "10000000000 \<le> v" "v < 100000000000"
      | "100000000000 \<le> v" using linorder_not_le by blast
    then show ?thesis
      using 1 k [of 2] k [of 3] k [of 4] k [of 5] k [of 6] k [of 7] k [of 8] k [of 9] k [of 10] k [of 11] k [of 12] True
      by cases simp_all
  next
    case False
    then have "10 ^ 12 \<le> v" by simp
    from length_dec_div [OF this] show ?thesis using 1 False by (subst digits10.simps) simp
  qed
qed

section \<open>Correctness of printing\<close>

lemma nth_concat_pairs:
  "i < n \<Longrightarrow> concat (map (\<lambda>i. [f i, g i]) [0..<n]) ! (i * 2) = f i \<and>
             concat (map (\<lambda>i. [f i, g i]) [0..<n]) ! Suc (i * 2) = g i"
proof (induction n)
  case (Suc n)
  have "length (concat (map (\<lambda>i. [f i, g i]) [0..<n])) = n * 2" by (induction n) auto
  then show ?case using Suc by (auto simp: nth_append less_Suc_eq)
qed simp

lemma digit_pairs_eq:
  "digit_pairs = concat (map (\<lambda>i. [48 + of_nat (i div 10), 48 + of_nat (i mod 10)]) [0..<100]) @ [0]"
  by (simp add: digit_pairs_def upt_rec)

lemma length_digit_pairs [simp]: "length digit_pairs = 201"
  by (simp add: digit_pairs_def)

lemma digit_pairs_nth:
  assumes "i < 100"
  shows "digit_pairs ! (i * 2) = 48 + of_nat (i div 10) \<and> digit_pairs ! Suc (i * 2) = 48 + of_nat (i mod 10)"
proof -
  let ?c = "concat (map (\<lambda>i. [48 + of_nat (i div 10), 48 + of_nat (i mod 10)]) [0..<100]) :: bytes"
  have "Suc (length ?c) = 201" using length_digit_pairs unfolding digit_pairs_eq by simp
  then show ?thesis
    using nth_concat_pairs [OF assms, of "\<lambda>i. 48 + of_nat (i div 10) :: byte"] assms
    unfolding digit_pairs_eq by (simp add: nth_append del: length_concat)
qed

lemma dec_two: "100 \<le> v \<Longrightarrow> dec v = dec (v div 100) @ [48 + of_nat (v mod 100 div 10), 48 + of_nat (v mod 100 mod 10)]"
proof -
  assume v: "100 \<le> v"
  have "dec v = dec (v div 10) @ [48 + of_nat (v mod 10)]" using v by (subst dec.simps) simp
  moreover have "dec (v div 10) = dec (v div 10 div 10) @ [48 + of_nat (v div 10 mod 10)]"
    using v by (subst dec.simps) simp
  moreover have "v div 10 div 10 = v div 100" by (simp add: div_mult2_eq [symmetric])
  moreover have "v mod 100 mod 10 = v mod 10" by (simp add: mod_mod_cancel)
  moreover have "v mod 100 div 10 = v div 10 mod 10" using mod_mult2_eq [of v 10 10] by simp
  ultimately show ?thesis by simp
qed

lemma two_updates:
  "0 < n \<Longrightarrow> n < length xs \<Longrightarrow> xs[n := b, n - 1 := a] = take (n - 1) xs @ [a, b] @ drop (Suc n) xs"
proof (rule nth_equalityI)
  fix i assume a: "0 < n" "n < length xs" "i < length (xs[n := b, n - 1 := a])"
  consider "i < n - 1" | "i = n - 1" | "i = n" | "n < i" using a by linarith
  then show "xs[n := b, n - 1 := a] ! i = (take (n - 1) xs @ [a, b] @ drop (Suc n) xs) ! i"
    using a by cases (auto simp: nth_append nth_Cons' min_def)
qed (auto simp: min_def)

lemma ll2string_loop_Some:
  assumes "n < length dst" "n < 2 ^ 32" "length (dec v) \<le> n + 1"
  shows "\<exists>v' suf. ll2string_loop dst n v
           = Some (take (n + 1 - length suf) dst @ suf @ drop (n + 1) dst, n - length suf, v') \<and>
         v' < 100 \<and> dec v = dec v' @ suf"
  using assms
proof (induction dst n v rule: ll2string_loop.induct)
  case (1 dst n v)
  show ?case
  proof (cases "100 \<le> v")
    case False
    then show ?thesis using 1 by (subst ll2string_loop.simps) (auto intro: exI [of _ "[]"])
  next
    case True
    let ?a = "48 + of_nat (v mod 100 div 10) :: byte" and ?b = "48 + of_nat (v mod 100 mod 10) :: byte"
    note d = dec_two [OF True]
    have "length (dec v) = length (dec (v div 100)) + 2" using d by simp
    then have n: "2 \<le> n" "length (dec (v div 100)) \<le> n - 2 + 1"
      using 1(4) length_dec_pos [of "v div 100"] by linarith+
    have u: "ui_sub n 1 = n - 1" "ui_sub n 2 = n - 2" using n 1(3) by auto
    let ?dst = "dst[n := ?b, n - 1 := ?a]"
    have q: "?dst = take (n - 1) dst @ [?a, ?b] @ drop (Suc n) dst"
      using n 1(2) by (intro two_updates) auto
    have b: "v mod 100 < 100" by simp
    then have g: "arr_get digit_pairs (v mod 100 * 2) = Some ?a" "arr_get digit_pairs (v mod 100 * 2 + 1) = Some ?b"
      using digit_pairs_nth [OF b] by simp_all
    have s1: "arr_set dst n ?b = Some (dst[n := ?b])"
      and s2: "arr_set (dst[n := ?b]) (ui_sub n 1) ?a = Some ?dst"
      using 1(2) n u by simp_all
    have step: "ll2string_loop dst n v = ll2string_loop ?dst (n - 2) (v div 100)"
      using True n 1(2) u g by (subst ll2string_loop.simps) (simp add: Let_def)
    have "\<exists>v' suf. ll2string_loop ?dst (n - 2) (v div 100)
           = Some (take (n - 2 + 1 - length suf) ?dst @ suf @ drop (n - 2 + 1) ?dst, n - 2 - length suf, v') \<and>
         v' < 100 \<and> dec (v div 100) = dec v' @ suf"
      using 1(1) [OF True refl g(2) s1 g(1) s2] n 1(2,3) u(2) by simp
    then obtain v' suf where r: "ll2string_loop ?dst (n - 2) (v div 100)
           = Some (take (n - 2 + 1 - length suf) ?dst @ suf @ drop (n - 2 + 1) ?dst, n - 2 - length suf, v')"
       "v' < 100" "dec (v div 100) = dec v' @ suf" by blast
    have l: "length suf \<le> n - 2"
      using length_dec_pos [of v'] n(2) unfolding r(3) length_append by linarith
    let ?suf = "suf @ [?a, ?b]"
    have "take (n - 2 + 1 - length suf) ?dst @ suf @ drop (n - 2 + 1) ?dst
        = take (n + 1 - length ?suf) dst @ ?suf @ drop (n + 1) dst"
      using n l 1(2) unfolding q by (auto simp: min_def)
    moreover have "n - 2 - length suf = n - length ?suf" by simp
    ultimately show ?thesis using step r d by (intro exI [of _ v'] exI [of _ ?suf]) simp
  qed
qed

lemma ll2string_last_Some:
  assumes "n < length dst" "n < 2 ^ 32" "v < 100" "length (dec v) \<le> n + 1"
  shows "ll2string_last dst n v = Some (take (n + 1 - length (dec v)) dst @ dec v @ drop (n + 1) dst)"
proof (cases "v < 10")
  case True
  then have "dec v = [48 + of_nat v]" by (subst dec.simps) simp
  then show ?thesis using True assms by (simp add: ll2string_last_def upd_conv_take_nth_drop)
next
  case False
  then have d: "dec v = [48 + of_nat (v div 10), 48 + of_nat (v mod 10)]"
    using assms(3) by (subst dec.simps, subst dec.simps) simp
  then have n: "0 < n" using assms(4) by simp
  then have "ui_sub n 1 = n - 1" using assms(2) by simp
  then show ?thesis using False assms n d two_updates [OF n assms(1)] digit_pairs_nth [OF assms(3)]
    by (simp add: ll2string_last_def Let_def arr_get_def)
qed

lemma is_llong_abs: "is_llong v \<Longrightarrow> nat \<bar>v\<bar> \<le> 2 ^ 63"
  by (auto simp: is_llong_def)

lemma length_dec_llong: "is_llong v \<Longrightarrow> length (dec (nat \<bar>v\<bar>)) \<le> 19"
  using is_llong_abs [of v] by (simp add: length_dec_le_iff)

lemma length_dec_int: "length (dec_int v) = length (dec (nat \<bar>v\<bar>)) + (if v < 0 then 1 else 0)"
  by (simp add: dec_int_def)

lemma ll2string_Some:
  assumes v: "is_llong v"
  shows "ll2string dst dstlen v =
     (if length (dec_int v) < dstlen then
        if length (dec_int v) < length dst
        then Some (dec_int v @ [0] @ drop (length (dec_int v) + 1) dst, length (dec_int v))
        else None
      else Some (dst, 0))"
proof -
  let ?n = "length (dec_int v)"
  let ?m = "nat \<bar>v\<bar>"
  have m: "(if v < 0 then if v \<noteq> LLONG_MIN then nat (- v) else nat LLONG_MAX + 1 else nat v) = ?m"
    by auto
  have len: "ui_add (digits10 ?m) (if v < 0 then 1 else 0) = ?n"
    using length_dec_llong [OF v] by (cases "v < 0") (simp_all add: digits10_dec length_dec_int)
  have n0: "?n < 2 ^ 32" "0 < ?n" "length (dec ?m) \<le> ?n"
    using length_dec_llong [OF v] by (auto simp: length_dec_int)
  then have n: "?n < 2 ^ 32" "0 < ?n" "length (dec ?m) \<le> ?n" "ui_sub ?n 1 = ?n - 1" "?n - 1 < 2 ^ 32" "?n - 1 + 1 = ?n"
    by (auto simp del: length_greater_0_conv)
  note unf = ll2string_def m len Let_def
  show ?thesis
  proof (cases "?n < dstlen \<and> ?n < length dst")
    case False
    then show ?thesis by (simp add: unf arr_set_def)
  next
    case True
    let ?dst = "dst[?n := 0]"
    have "?n - 1 < length ?dst" "length (dec ?m) \<le> ?n - 1 + 1" using True n(3) by auto
    then obtain v' suf where l: "ll2string_loop ?dst (?n - 1) ?m
         = Some (take (?n - length suf) ?dst @ suf @ drop ?n ?dst, ?n - 1 - length suf, v')"
      "v' < 100" "dec ?m = dec v' @ suf"
      using ll2string_loop_Some [of "?n - 1" ?dst ?m] n(5) unfolding n(6) by blast
    let ?d2 = "take (?n - length suf) ?dst @ suf @ drop ?n ?dst"
    let ?k = "?n - 1 - length suf"
    have "length (dec v') + length suf \<le> ?n" using n(3) l(3) by simp
    then have "length suf < ?n" "length (dec v') \<le> ?n - length suf" using length_dec_pos [of v'] by linarith+
    then have k: "length suf < ?n" "?k < length ?d2" "?k < 2 ^ 32" "length (dec v') \<le> ?k + 1" "?k + 1 = ?n - length suf"
      using n(5) True by (auto simp del: length_dec_pos)
    have d3: "take (?k + 1 - length (dec v')) ?d2 @ dec v' @ drop (?k + 1) ?d2
        = take (?n - length (dec ?m)) dst @ dec ?m @ [0] @ drop (?n + 1) dst"
      using k l(3) n True by (auto simp: min_def upd_conv_take_nth_drop add.commute)
    let ?r = "take (?n - length (dec ?m)) dst @ dec ?m @ [0] @ drop (?n + 1) dst"
    have "ll2string_last ?d2 ?k v' = Some ?r"
      using ll2string_last_Some [OF k(2,3) l(2) k(4)] unfolding d3 .
    then have "ll2string dst dstlen v = (if v < 0 then Some (?r[0 := 45], ?n) else Some (?r, ?n))"
      using True n(4) l(1) by (simp add: unf)
    moreover have "v < 0 \<Longrightarrow> ?r[0 := 45] = dec_int v @ [0] @ drop (?n + 1) dst"
      using True by (cases dst) (auto simp: length_dec_int dec_int_def)
    moreover have "\<not> v < 0 \<Longrightarrow> ?r = dec_int v @ [0] @ drop (?n + 1) dst"
      by (simp add: length_dec_int dec_int_def)
    ultimately show ?thesis using True by presburger
  qed
qed

section \<open>Parsing is the inverse of printing\<close>

definition fval :: "nat \<Rightarrow> bytes \<Rightarrow> nat" where
  "fval v ds = foldl (\<lambda>v b. 10 * v + nat (cval b - 48)) v ds"

lemma fval_simps [simp]:
  "fval v [] = v" "fval v (b # ds) = fval (10 * v + nat (cval b - 48)) ds"
  by (simp_all add: fval_def)

lemma fval_ge: "v \<le> fval v ds"
proof (induction ds arbitrary: v)
  case (Cons b ds)
  from Cons.IH [of "10 * v + nat (cval b - 48)"] show ?case by simp
qed simp

lemma fval_dec_val: "dec_val (b # ds) = fval (nat (cval b - 48)) ds"
  by (simp add: dec_val_def fval_def)

lemma string2ll_loop_eq:
  assumes "plen \<le> slen" "slen \<le> length s" "v \<le> ULLONG_MAX"
  shows "string2ll_loop s slen plen v =
     (let ds = takeWhile (\<lambda>b. c_isdigit (cval b)) (drop plen (take slen s)) in
      Some (if fval v ds \<le> ULLONG_MAX then Some (plen + length ds, fval v ds) else None))"
  using assms
proof (induction s slen plen v rule: string2ll_loop.induct)
  case (1 s slen plen v)
  show ?case
  proof (cases "plen < slen")
    case False
    then show ?thesis using 1 by (subst string2ll_loop.simps) simp
  next
    case True
    let ?b = "s ! plen"
    have dr: "drop plen (take slen s) = ?b # drop (Suc plen) (take slen s)"
      using True 1(3) by (simp add: Cons_nth_drop_Suc [symmetric])
    have g: "arr_get s plen = Some ?b" using True 1(3) by simp
    show ?thesis
    proof (cases "c_isdigit (cval ?b)")
      case False
      then show ?thesis using True 1(3,4) g by (subst string2ll_loop.simps) (auto simp: dr c_isdigit_def)
    next
      case dig: True
      let ?d = "nat (cval ?b - 48)" and ?ds = "takeWhile (\<lambda>b. c_isdigit (cval b)) (drop (Suc plen) (take slen s))"
      have d: "?d \<le> 9" using dig unfolding c_isdigit_def by linarith
      note ge = fval_ge [of "10 * v + ?d" ?ds]
      show ?thesis
      proof (cases "10 * v + ?d \<le> ULLONG_MAX")
        case False
        then show ?thesis
          using True g dig ge d by (subst string2ll_loop.simps) (auto simp: dr c_isdigit_def Let_def)
      next
        case le: True
        then have m: "\<not> v > ULLONG_MAX div 10" "ul_mul v 10 = 10 * v" "\<not> 10 * v > ULLONG_MAX - ?d"
          "ul_add (10 * v) ?d = 10 * v + ?d" by auto
        have cond: "48 \<le> cval ?b \<and> cval ?b \<le> 57" using dig by (simp add: c_isdigit_def)
        have "string2ll_loop s slen (plen + 1) (10 * v + ?d) =
           (let ds = takeWhile (\<lambda>b. c_isdigit (cval b)) (drop (plen + 1) (take slen s)) in
            Some (if fval (10 * v + ?d) ds \<le> ULLONG_MAX
                  then Some (plen + 1 + length ds, fval (10 * v + ?d) ds) else None))"
          using 1(1) [OF True g cond m(1) refl refl, unfolded m(2,4)] m(3) True 1(3) le by simp
        moreover have "string2ll_loop s slen plen v = string2ll_loop s slen (plen + 1) (10 * v + ?d)"
          using True g m cond by (subst string2ll_loop.simps) (simp add: Let_def mult.commute [of v 10])
        ultimately show ?thesis using dig by (simp add: dr Let_def)
      qed
    qed
  qed
qed

lemma cval_eq_48 [simp]: "cval b = 48 \<longleftrightarrow> b = 48"
proof
  assume "cval b = 48"
  then have "word_of_int (cval b) = (48 :: byte)" by simp
  then show "b = 48" by simp
qed simp

lemma llong_of_ulong_pos: "v < 2 ^ 63 \<Longrightarrow> llong_of_ulong v = int v"
  by (simp add: llong_of_ulong_def signed_of_nat signed_take_bit_int_eq_self)

lemma llong_of_ulong_neg:
  assumes "0 < v" "v \<le> 2 ^ 63" shows "llong_of_ulong (ul_sub 0 v) = - int v"
proof -
  have "ul_sub 0 v = 2 ^ 64 - v" using assms by (simp add: ul_sub_def)
  moreover have "(of_nat (2 ^ 64 - v) :: 64 word) = word_of_int (- int v)"
    using assms by (simp add: of_nat_diff)
  moreover have "signed_take_bit 63 (- int v) = - int v"
    using assms by (intro signed_take_bit_int_eq_self) auto
  moreover have "sint (word_of_int (- int v) :: 64 word) = signed_take_bit 63 (- int v)"
    by (simp only: signed_of_int) simp
  ultimately show ?thesis by (simp only: llong_of_ulong_def)
qed

lemma dec_eq_iff:
  "dec n = ds \<longleftrightarrow> is_digits ds \<and> ds \<noteq> [] \<and> (hd ds \<noteq> 48 \<or> length ds = 1) \<and> dec_val ds = n"
proof
  assume "dec n = ds"
  moreover have "hd (dec n) \<noteq> 48 \<or> length (dec n) = 1"
    using hd_dec [of n] by (cases "n = 0") (auto simp: dec.simps [of 0])
  ultimately show "is_digits ds \<and> ds \<noteq> [] \<and> (hd ds \<noteq> 48 \<or> length ds = 1) \<and> dec_val ds = n" by auto
next
  assume "is_digits ds \<and> ds \<noteq> [] \<and> (hd ds \<noteq> 48 \<or> length ds = 1) \<and> dec_val ds = n"
  then show "dec n = ds" using dec_of_dec_val [of ds] by auto
qed

text \<open>The strings \<open>string2ll\<close> accepts, with their values.\<close>

definition canon :: "bytes \<Rightarrow> int option" where
  "canon t =
     (if t = [48] then Some 0
      else
        let neg = (t \<noteq> [] \<and> hd t = 45); body = (if neg then tl t else t); m = int (dec_val body) in
        if body \<noteq> [] \<and> is_digits body \<and> hd body \<noteq> 48 \<and> is_llong (if neg then - m else m)
        then Some (if neg then - m else m) else None)"

lemma canon_iff: "canon t = Some v \<longleftrightarrow> is_llong v \<and> t = dec_int v"
proof (cases "t \<noteq> [] \<and> hd t = 45")
  case True
  then obtain body where t: "t = 45 # body" by (cases t) auto
  have "\<not> is_digits t" using t by (simp add: c_isdigit_def)
  then have nd: "t \<noteq> dec (nat v)" using is_digits_dec by blast
  have "t = dec_int v \<longleftrightarrow> v < 0 \<and> dec (nat (- v)) = body" using nd t by (auto simp: dec_int_def)
  also have "\<dots> \<longleftrightarrow> is_digits body \<and> body \<noteq> [] \<and> hd body \<noteq> 48 \<and> int (dec_val body) = - v"
  proof -
    have "hd body = 48 \<Longrightarrow> length body = 1 \<Longrightarrow> dec_val body = 0" by (cases body) (auto simp: dec_val_def)
    moreover have "is_digits body \<Longrightarrow> body \<noteq> [] \<Longrightarrow> hd body \<noteq> 48 \<Longrightarrow> dec_val body \<noteq> 0"
      using dec_val_eq_0 [of body "hd body"] by auto
    ultimately show ?thesis unfolding dec_eq_iff by auto
  qed
  finally show ?thesis using t by (auto simp: canon_def Let_def)
next
  case False
  have z: "dec_val [48] = 0" "is_digits [48]" by (auto simp: dec_val_def c_isdigit_def)
  have "t = dec_int v \<longleftrightarrow> 0 \<le> v \<and> dec (nat v) = t" using False by (auto simp: dec_int_def)
  also have "\<dots> \<longleftrightarrow> 0 \<le> v \<and> int (dec_val t) = v \<and> (t = [48] \<or> is_digits t \<and> t \<noteq> [] \<and> hd t \<noteq> 48)"
    unfolding dec_eq_iff using z by (cases t) auto
  finally show ?thesis using False z unfolding canon_def Let_def by (auto simp: is_llong_def)
qed

lemma takeWhile_length_all: "length (takeWhile P xs) = length xs \<longleftrightarrow> (\<forall>x \<in> set xs. P x)"
  by (metis nth_length_takeWhile takeWhile_eq_all_conv takeWhile_eq_take take_all_iff le_refl)

lemma first_digit: "c_isdigit (cval b) \<and> b \<noteq> 48 \<longleftrightarrow> 49 \<le> cval b \<and> cval b \<le> 57"
proof -
  have "c_isdigit (cval b) \<and> cval b \<noteq> 48 \<longleftrightarrow> 49 \<le> cval b \<and> cval b \<le> 57"
    unfolding c_isdigit_def by linarith
  then show ?thesis by simp
qed

lemma string2ll_eq:
  assumes s: "slen \<le> length s" shows "string2ll s slen = Some (canon (take slen s))"
proof (cases "slen = 0 \<or> take slen s = [48] \<or> take slen s = [45]")
  case True
  then consider "slen = 0" | "slen = 1" "s ! 0 = 48" "take slen s = [48]" | "slen = 1" "s ! 0 = 45" "take slen s = [45]"
    using s by (cases s; cases slen) auto
  then show ?thesis
  proof cases
    case 3
    have "\<not> is_digits (tl [45 :: byte]) \<or> tl [45 :: byte] = []" by simp
    with 3 show ?thesis using s by (auto simp: string2ll_def canon_def arr_get_def)
  qed (use s in \<open>auto simp: string2ll_def canon_def arr_get_def\<close>)
next
  case False
  define neg where "neg \<longleftrightarrow> s ! 0 = 45"
  define p where "p = (if neg then 1 else 0 :: nat)"
  define body where "body = drop p (take slen s)"
  have p: "p < slen" "p \<le> 1" using False s by (cases s; cases slen; auto simp: p_def neg_def)+
  have hd: "take slen s \<noteq> []" "hd (take slen s) = s ! 0" using p s by (cases s; auto)+
  have b: "body \<noteq> []" "hd body = s ! p" "tl body = drop (p + 1) (take slen s)"
    using p s by (auto simp: body_def hd_drop_conv_nth tl_drop drop_Suc)
  have bb: "body = s ! p # drop (p + 1) (take slen s)" using b by (metis list.collapse)
  let ?m = "int (dec_val body)"
  have canon: "canon (take slen s) =
     (if is_digits body \<and> hd body \<noteq> 48 \<and> is_llong (if neg then - ?m else ?m) then Some (if neg then - ?m else ?m) else None)"
  proof -
    have "(if take slen s \<noteq> [] \<and> hd (take slen s) = 45 then tl (take slen s) else take slen s) = body"
      using hd by (simp add: body_def p_def neg_def drop_Suc)
    moreover have "(take slen s \<noteq> [] \<and> hd (take slen s) = 45) = neg" using hd by (simp add: neg_def)
    ultimately show ?thesis using False b(1) unfolding canon_def Let_def by (cases neg) auto
  qed
  have n1: "\<not> (slen = 1 \<and> s ! 0 = 48)" using False s by (cases s; cases slen) auto
  have g: "arr_get s 0 = Some (s ! 0)" "arr_get s p = Some (s ! p)" using p s hd(1) by auto
  have number: "string2ll s slen = string2ll_number s slen p neg"
    using n1 p g(1) by (auto simp: string2ll_def p_def neg_def split: if_splits)
  show ?thesis
  proof (cases "49 \<le> cval (s ! p) \<and> cval (s ! p) \<le> 57")
    case F: False
    have "\<not> (s ! p = 48 \<and> slen = 1)" using n1 p by auto
    then have "string2ll s slen = Some None"
      unfolding number using F by (auto simp: string2ll_number_def g)
    moreover have "canon (take slen s) = None" using F first_digit [of "s ! p"] by (auto simp: canon bb)
    ultimately show ?thesis by simp
  next
    case T: True
    let ?v = "nat (cval (s ! p) - 48)"
    let ?ds = "takeWhile (\<lambda>b. c_isdigit (cval b)) (drop (p + 1) (take slen s))"
    have v: "0 < ?v" "?v \<le> ULLONG_MAX" using T by auto
    have loop: "string2ll_loop s slen (p + 1) ?v =
        Some (if fval ?v ?ds \<le> ULLONG_MAX then Some (p + 1 + length ?ds, fval ?v ?ds) else None)"
      using string2ll_loop_eq [of "p + 1" slen s ?v] p s v by (simp add: Let_def)
    have dig: "is_digits body \<longleftrightarrow> ?ds = drop (p + 1) (take slen s)"
      using T by (simp add: bb is_digits_def c_isdigit_def takeWhile_eq_all_conv)
    have len: "\<not> p + 1 + length ?ds < slen \<longleftrightarrow> is_digits body"
    proof -
      have "length (drop (p + 1) (take slen s)) = slen - (p + 1)" using s by simp
      moreover have "length ?ds \<le> length (drop (p + 1) (take slen s))" by (rule length_takeWhile_le)
      ultimately have "\<not> p + 1 + length ?ds < slen \<longleftrightarrow> length ?ds = length (drop (p + 1) (take slen s))"
        using p by linarith
      also have "\<dots> \<longleftrightarrow> is_digits body" using T unfolding takeWhile_length_all by (simp add: bb is_digits_def c_isdigit_def)
      finally show ?thesis .
    qed
    have val: "is_digits body \<Longrightarrow> fval ?v ?ds = dec_val body"
      unfolding dig by (simp only: bb fval_dec_val)
    have big: "0 < fval ?v ?ds" using fval_ge [of ?v ?ds] v by linarith
    have eq: "string2ll s slen = (case (if fval ?v ?ds \<le> ULLONG_MAX then Some (p + 1 + length ?ds, fval ?v ?ds) else None) of
                 None \<Rightarrow> Some None
               | Some (plen, v) \<Rightarrow>
                   if plen < slen then Some None
                   else if neg then
                     if v > nat (- (LLONG_MIN + 1)) + 1 then Some None
                     else Some (Some (llong_of_ulong (ul_sub 0 v)))
                   else if v > nat LLONG_MAX then Some None
                   else Some (Some (llong_of_ulong v)))"
      unfolding number using T loop by (simp add: string2ll_number_def g split del: if_split)
    show ?thesis
    proof (cases "is_digits body")
      case False
      then show ?thesis using eq len canon by (simp split: option.splits)
    next
      case True
      have h48: "hd body \<noteq> 48" using T by (auto simp: bb)
      have "neg \<Longrightarrow> is_llong (- ?m) \<longleftrightarrow> dec_val body \<le> 2 ^ 63" "is_llong ?m \<longleftrightarrow> dec_val body < 2 ^ 63"
        by (auto simp: is_llong_def)
      then show ?thesis
        using eq len val [OF True] canon True h48 big llong_of_ulong_pos [of "dec_val body"] llong_of_ulong_neg [of "dec_val body"]
        by (auto simp: bb)
    qed
  qed
qed

lemma string2ll_iff:
  assumes "slen \<le> length s"
  shows "\<exists>r. string2ll s slen = Some r \<and> (\<forall>v. r = Some v \<longleftrightarrow> is_llong v \<and> take slen s = dec_int v)"
  using string2ll_eq [OF assms] canon_iff by auto

lemma string2l_eq: "slen \<le> length s \<Longrightarrow> string2l s slen = string2ll s slen"
proof (cases "canon (take slen s)")
  case (Some v)
  then have "is_llong v" using canon_iff by blast
  moreover assume "slen \<le> length s"
  ultimately show ?thesis using Some string2ll_eq [of slen s] by (simp add: string2l_def is_llong_def)
next
  case None
  moreover assume "slen \<le> length s"
  ultimately show ?thesis using string2ll_eq [of slen s] by (simp add: string2l_def)
qed

section \<open>Correctness of memory amounts\<close>

definition lower :: "byte \<Rightarrow> byte" where
  "lower b = word_of_int (c_tolower (cval b))"

lemma cval_range: "- 128 \<le> cval b" "cval b \<le> 127"
  using sint_range_size [of b] by (auto simp: word_size)

lemma cval_lower: "cval (lower b) = c_tolower (cval b)"
proof -
  have "- 128 \<le> c_tolower (cval b) \<and> c_tolower (cval b) \<le> 127" using cval_range [of b] by (auto simp: c_tolower_def)
  then show ?thesis by (simp add: lower_def signed_of_int signed_take_bit_int_eq_self)
qed

lemma lower_eq_iff: "c_tolower (cval a) = c_tolower (cval b) \<longleftrightarrow> lower a = lower b"
  using cval_lower by (metis signed_word_eqI)

lemma lower_eq_0 [simp]: "lower b = 0 \<longleftrightarrow> b = 0"
proof -
  have "lower b = 0 \<longleftrightarrow> c_tolower (cval b) = 0" by (metis cval_lower signed_0 signed_word_eqI)
  also have "\<dots> \<longleftrightarrow> cval b = 0" by (auto simp: c_tolower_def)
  also have "\<dots> \<longleftrightarrow> b = 0" by (metis signed_0 signed_word_eqI)
  finally show ?thesis .
qed

lemma strcasecmp_eq_spec:
  "0 \<notin> set u \<Longrightarrow> 0 \<notin> set name \<Longrightarrow>
   strcasecmp_eq (pre @ u @ 0 # post) (length pre) name = Some (map lower u = map lower name)"
proof (induction name arbitrary: pre u)
  case Nil
  then show ?case by (cases u) (auto simp: arr_get_def nth_append)
next
  case (Cons l ls)
  show ?case
  proof (cases u)
    case Nil
    have "lower l \<noteq> 0" using Cons.prems by simp
    then have "\<not> c_tolower (cval 0) = c_tolower (cval l)" using lower_eq_iff [of 0 l] lower_eq_0 [of 0] by metis
    then show ?thesis using Nil by (simp add: arr_get_def nth_append)
  next
    case c: (Cons a as)
    have "strcasecmp_eq ((pre @ [a]) @ as @ 0 # post) (length (pre @ [a])) ls = Some (map lower as = map lower ls)"
      using Cons c by (intro Cons.IH) auto
    then show ?thesis using c lower_eq_iff [of a l] by (auto simp: arr_get_def nth_append)
  qed
qed

lemma memtoll_skip_spec:
  "is_digits ds \<Longrightarrow> rest \<noteq> [] \<Longrightarrow> \<not> c_isdigit (cval (hd rest)) \<Longrightarrow>
   memtoll_skip (pre @ ds @ rest) (length pre) = Some (length pre + length ds)"
proof (induction ds arbitrary: pre)
  case Nil
  then show ?case by (subst memtoll_skip.simps) (cases rest; auto simp: arr_get_def nth_append)
next
  case (Cons d ds)
  then have "memtoll_skip ((pre @ [d]) @ ds @ rest) (length (pre @ [d])) = Some (length (pre @ [d]) + length ds)"
    by (intro Cons.IH) auto
  moreover have "d \<noteq> 0" using Cons.prems(1) by (auto simp: c_isdigit_def)
  ultimately show ?case using Cons.prems(1) by (subst memtoll_skip.simps) (simp add: arr_get_def nth_append)
qed

text \<open>The documented units (\<open>redis.conf\<close>): decimal factors without, binary ones with a trailing \<open>b\<close>.\<close>

definition unit_of :: "bytes \<Rightarrow> int \<times> bool" where
  "unit_of u =
    (if u \<in> {[], str ''b'', str ''B''} then (1, False)
     else if u \<in> {str ''k'', str ''K''} then (10 ^ 3, False)
     else if u \<in> {str ''kb'', str ''kB'', str ''Kb'', str ''KB''} then (2 ^ 10, False)
     else if u \<in> {str ''m'', str ''M''} then (10 ^ 6, False)
     else if u \<in> {str ''mb'', str ''mB'', str ''Mb'', str ''MB''} then (2 ^ 20, False)
     else if u \<in> {str ''g'', str ''G''} then (10 ^ 9, False)
     else if u \<in> {str ''gb'', str ''gB'', str ''Gb'', str ''GB''} then (2 ^ 30, False)
     else (1, True))"

lemma cval_eq_iff: "cval a = cval b \<longleftrightarrow> a = b"
  by (metis signed_word_eqI)

lemma lower_letter_iff:
  assumes "cval l = cval u + 32" "65 \<le> cval u" "cval u \<le> 90"
  shows "lower a = l \<longleftrightarrow> a = l \<or> a = u"
proof -
  have "lower a = l \<longleftrightarrow> c_tolower (cval a) = cval l" by (metis cval_lower cval_eq_iff)
  also have "\<dots> \<longleftrightarrow> cval a = cval l \<or> cval a = cval u" using assms by (auto simp: c_tolower_def)
  finally show ?thesis by (simp add: cval_eq_iff)
qed

lemma unit_of_table:
  "unit_of u = (if u = [] then (1, False)
     else case map_of memtoll_units (map lower u) of Some m \<Rightarrow> (m, False) | None \<Rightarrow> (1, True))"
proof -
  note l = lower_letter_iff [of 98 66] lower_letter_iff [of 103 71] lower_letter_iff [of 107 75] lower_letter_iff [of 109 77]
  show ?thesis
    by (auto simp: unit_of_def memtoll_units_def map_eq_Cons_conv l)
qed

lemma lower_names: "map lower (str ''b'') = str ''b'' \<and> map lower (str ''k'') = str ''k'' \<and>
   map lower (str ''kb'') = str ''kb'' \<and> map lower (str ''m'') = str ''m'' \<and> map lower (str ''mb'') = str ''mb'' \<and>
   map lower (str ''g'') = str ''g'' \<and> map lower (str ''gb'') = str ''gb''"
  by (simp add: lower_def c_tolower_def)

lemma memtoll_unit_spec:
  assumes "0 \<notin> set u" "\<forall>(name, m) \<in> set us. 0 \<notin> set name \<and> map lower name = name"
  shows "memtoll_unit (pre @ u @ 0 # post) (length pre) us =
     Some (case map_of us (map lower u) of Some m \<Rightarrow> (m, False) | None \<Rightarrow> (1, True))"
  using assms(2) by (induction us) (auto simp: strcasecmp_eq_spec [OF assms(1)])

lemma memtoll_units_ok: "\<forall>(name, m) \<in> set memtoll_units. 0 \<notin> set name \<and> map lower name = name"
  using lower_names by (simp add: memtoll_units_def)

lemma strtoll10_dec_int: "is_llong v \<Longrightarrow> strtoll10 (dec_int v) = v"
proof (cases "v < 0")
  case True
  assume "is_llong v"
  then show ?thesis using True by (simp add: strtoll10_def dec_int_def is_llong_def)
next
  case False
  have "hd (dec (nat v)) \<noteq> 45"
    using is_digits_dec [of "nat v"] dec_neq_Nil [of "nat v"] by (cases "dec (nat v)") (auto simp: c_isdigit_def)
  moreover assume "is_llong v"
  ultimately show ?thesis using False by (simp add: strtoll10_def dec_int_def is_llong_def)
qed

lemma memtoll_spec:
  assumes v: "is_llong v" and u: "0 \<notin> set u" "u = [] \<or> \<not> c_isdigit (cval (hd u))"
    and ov: "is_llong (v * fst (unit_of u))"
  shows "memtoll (dec_int v @ u @ [0]) = Some (v * fst (unit_of u), snd (unit_of u))"
proof -
  let ?p = "dec_int v @ u @ [0]" and ?n = "length (dec_int v)"
  have n: "?n < 128" using length_dec_llong [OF v] by (auto simp: length_dec_int)
  have hd: "hd (dec (nat v)) \<noteq> 45"
    using is_digits_dec [of "nat v"] dec_neq_Nil [of "nat v"] by (cases "dec (nat v)") (auto simp: c_isdigit_def)
  have r: "\<not> c_isdigit (cval (hd (u @ [0])))" using u(2) by (cases u) (auto simp: c_isdigit_def)
  have skip: "memtoll_skip ?p (if ?p ! 0 = 45 then 1 else 0) = Some ?n"
  proof (cases "v < 0")
    case True
    then show ?thesis using memtoll_skip_spec [of "dec (nat (- v))" "u @ [0]" "[45]"] r
      by (simp add: dec_int_def)
  next
    case False
    then have "?p ! 0 \<noteq> 45" using hd by (simp add: dec_int_def nth_append hd_conv_nth)
    then show ?thesis using memtoll_skip_spec [of "dec (nat v)" "u @ [0]" "[]"] r False
      by (simp add: dec_int_def)
  qed
  have b: "?p ! ?n = 0 \<longleftrightarrow> u = []" using u(1) by (cases u) (auto simp: nth_append)
  have unit: "(if ?p ! ?n = 0 then Some (1, False) else memtoll_unit ?p ?n memtoll_units) = Some (unit_of u)"
    unfolding b using memtoll_unit_spec [OF u(1) memtoll_units_ok, of "dec_int v" "[]"]
    by (simp add: unit_of_table)
  show ?thesis
    using skip n unit strtoll10_dec_int [OF v] ov by (simp add: memtoll_def arr_get_def Let_def)
qed

section \<open>Properties\<close>

text \<open>
  C25.  \<open>ll2string\<close> writes exactly the decimal notation of any \<open>long long\<close> (the most negative one
  included), a terminator, and nothing else of the buffer; it returns the number of characters, or 0
  and an untouched buffer when the notation and its terminator do not fit into \<open>dstlen\<close> bytes.
\<close>

theorem ll2string_correct:
  assumes "is_llong v" "dstlen \<le> length dst"
  shows "ll2string dst dstlen v =
     (if length (dec_int v) < dstlen
      then Some (dec_int v @ [0] @ drop (length (dec_int v) + 1) dst, length (dec_int v))
      else Some (dst, 0))"
  using ll2string_Some [OF assms(1)] assms(2) by simp

theorem ll2string_correct_witness:
  "ll2string (replicate 8 7) 8 (-1234) = Some ([45, 49, 50, 51, 52, 0, 7, 7], 5) \<and>
   ll2string (replicate 8 7) 5 (-1234) = Some (replicate 8 7, 0)"
proof -
  have "dec_int (-1234) = [45, 49, 50, 51, 52]" by (simp add: dec_int_def dec.simps)
  moreover have "replicate 8 x = [x, x, x, x, x, x, x, x]" for x :: byte by (simp add: numeral_eq_Suc)
  ultimately show ?thesis
    using ll2string_correct [of "-1234" 8 "replicate 8 7"] ll2string_correct [of "-1234" 5 "replicate 8 7"]
    by (simp add: is_llong_def)
qed

text \<open>
  C19.  \<open>string2ll\<close> accepts exactly the decimal notations of the 64-bit integers (no leading zeros,
  no plus sign, no surrounding space, no "-0", no value out of range) and returns the number; no
  input makes it read outside the string.
\<close>

theorem string2ll_correct:
  assumes "slen \<le> length s"
  shows "\<exists>r. string2ll s slen = Some r \<and> (\<forall>v. r = Some v \<longleftrightarrow> is_llong v \<and> take slen s = dec_int v)"
  using assms by (rule string2ll_iff)

theorem string2ll_correct_witness:
  "string2ll (str ''-17'') 3 = Some (Some (-17)) \<and> string2ll (str ''017'') 3 \<noteq> Some (Some 17)"
proof -
  have d: "dec_int (-17) = str ''-17''" "dec_int 17 = str ''17''" by (simp_all add: dec_int_def dec.simps)
  have "string2ll (str ''-17'') 3 = Some (Some (-17))"
    using string2ll_correct [of 3 "str ''-17''"] d(1) by (auto simp: is_llong_def)
  moreover have "string2ll (str ''017'') 3 \<noteq> Some (Some 17)"
    using string2ll_correct [of 3 "str ''017''"] d(2) by (auto dest: spec [of _ 17])
  ultimately show ?thesis by simp
qed

text \<open>
  C26.  What \<open>ll2string\<close> prints, \<open>string2ll\<close> and \<open>string2l\<close> read back, for every \<open>long long\<close> and
  every buffer that has room for the longest notation.
\<close>

theorem ll2string_string2ll:
  assumes "is_llong v" "21 < dstlen" "dstlen \<le> length dst"
  shows "\<exists>buf n. ll2string dst dstlen v = Some (buf, n) \<and> 0 < n \<and>
           string2ll buf n = Some (Some v) \<and> string2l buf n = Some (Some v)"
proof -
  have "length (dec_int v) < dstlen" using length_dec_llong [OF assms(1)] assms(2) by (cases "v < 0") (simp_all add: length_dec_int)
  then have "ll2string dst dstlen v = Some (dec_int v @ [0] @ drop (length (dec_int v) + 1) dst, length (dec_int v))"
    using ll2string_Some [OF assms(1)] assms(3) by simp
  moreover have "string2ll (dec_int v @ 0 # drop (Suc (length (dec_int v))) dst) (length (dec_int v)) = Some (Some v)"
    using assms(1) canon_iff [of "dec_int v" v] by (subst string2ll_eq) simp_all
  ultimately show ?thesis by (simp add: string2l_eq length_dec_int)
qed

theorem ll2string_string2ll_witness:
  "\<exists>buf n. ll2string (replicate 32 0) 32 (-17) = Some (buf, n) \<and> 0 < n \<and>
     string2ll buf n = Some (Some (-17)) \<and> string2l buf n = Some (Some (-17))"
  by (rule ll2string_string2ll) (simp_all add: is_llong_def)

text \<open>
  C27.  \<open>memtoll\<close> on a decimal number followed by a unit returns the number times the factor of the
  unit (in any capitalisation), and sets the error flag exactly when the unit is none of \<open>b\<close>, \<open>k\<close>,
  \<open>kb\<close>, \<open>m\<close>, \<open>mb\<close>, \<open>g\<close>, \<open>gb\<close> or nothing.
\<close>

theorem memtoll_correct:
  assumes "is_llong v" "0 \<notin> set u" "u = [] \<or> \<not> c_isdigit (cval (hd u))" "is_llong (v * fst (unit_of u))"
  shows "memtoll (dec_int v @ u @ [0]) = Some (v * fst (unit_of u), snd (unit_of u))"
  using assms by (rule memtoll_spec)

theorem memtoll_correct_witness:
  "memtoll (str ''10Mb'' @ [0]) = Some (10 * 1024 * 1024, False) \<and> memtoll (str ''1Gi'' @ [0]) = Some (1, True)"
proof -
  have u: "unit_of (str ''Mb'') = (1024 * 1024, False)" "unit_of (str ''Gi'') = (1, True)"
    by (simp_all add: unit_of_def)
  have d: "dec_int 10 = str ''10''" "dec_int 1 = str ''1''"
    by (simp_all add: dec_int_def dec.simps)
  show ?thesis
    using memtoll_correct [of 10 "str ''Mb''"] memtoll_correct [of 1 "str ''Gi''"]
    unfolding u d by (simp add: is_llong_def c_isdigit_def)
qed

end
