(* ===== verification/Glob.thy ===== *)
theory Glob
  imports Bytes
begin

text \<open>
  Glob-style matching, \<open>stringmatchlen\<close> of \<open>util.c\<close> (\<open>KEYS\<close>, \<open>SCAN MATCH\<close>, \<open>PSUBSCRIBE\<close>).  A
  pointer into a NUL-terminated buffer is the list of the bytes from it to the end of the buffer,
  terminator included: reading or stepping from the empty list is undefined behaviour (\<open>None\<close>).  The
  lengths are \<open>int\<close>s and, as in the code, can become negative.
\<close>

section \<open>The code\<close>

definition chr_eq :: "bool \<Rightarrow> byte \<Rightarrow> byte \<Rightarrow> bool" where
  "chr_eq nocase a b \<longleftrightarrow> (if nocase then c_tolower (cval a) = c_tolower (cval b) else a = b)"

text \<open>The range test of a character class.\<close>

definition chr_in_range :: "bool \<Rightarrow> byte \<Rightarrow> byte \<Rightarrow> byte \<Rightarrow> bool" where
  "chr_in_range nocase a b x =
     (let start = cval a; end = cval b; c = cval x;
          start' = (if start > end then end else start);
          end' = (if start > end then start else end)
      in if nocase then c_tolower start' \<le> c_tolower c \<and> c_tolower c \<le> c_tolower end'
         else start' \<le> c \<and> c \<le> end')"

text \<open>\<open>while (pattern[1] == '*') { pattern++; patternLen--; }\<close>\<close>

fun glob_stars :: "bytes \<Rightarrow> int \<Rightarrow> (bytes \<times> int) option" where
  "glob_stars (c # d # p) plen =
     (if d = byte_of CHR ''*'' then glob_stars (d # p) (plen - 1) else Some (c # d # p, plen))"
| "glob_stars _ plen = None"

text \<open>\<open>while (*pattern == '*') { pattern++; patternLen--; }\<close>\<close>

fun glob_trail :: "bytes \<Rightarrow> int \<Rightarrow> (bytes \<times> int) option" where
  "glob_trail (c # p) plen =
     (if c = byte_of CHR ''*'' then glob_trail p (plen - 1) else Some (c # p, plen))"
| "glob_trail [] plen = None"

text \<open>
  The loop over the members of a class.  The result holds the pattern after the common
  \<open>pattern++; patternLen--\<close> that follows the \<open>switch\<close>: behind the closing bracket, or, when the
  pattern ends inside the class (where the code first steps one back), at its end.
\<close>

fun glob_class :: "bool \<Rightarrow> bytes \<Rightarrow> int \<Rightarrow> bytes \<Rightarrow> bool \<Rightarrow> (bytes \<times> int \<times> bool) option" where
  "glob_class nocase [] plen s matched = None"
| "glob_class nocase (c # p) plen s matched =
     (if c = byte_of CHR 0x5C then
        (case (p, s) of
           (e # p', x # _) \<Rightarrow> glob_class nocase p' (plen - 2) s (matched \<or> e = x)
         | _ \<Rightarrow> None)
      else if c = byte_of CHR '']'' then Some (p, plen - 1, matched)
      else if plen = 0 then Some (c # p, plen, matched)
      else
        (case (p, s) of
           (d # p', x # _) \<Rightarrow>
             if d = byte_of CHR ''-'' \<and> plen \<ge> 3 then
               (case p' of
                  e # p'' \<Rightarrow> glob_class nocase p'' (plen - 3) s (matched \<or> chr_in_range nocase c e x)
                | [] \<Rightarrow> None)
             else glob_class nocase p (plen - 1) s (matched \<or> chr_eq nocase c x)
         | _ \<Rightarrow> None))"

lemma glob_stars_length: "glob_stars p plen = Some (q, n) \<Longrightarrow> q \<noteq> [] \<and> length q \<le> length p"
  by (induction p plen rule: glob_stars.induct) (auto split: if_splits)

declare glob_class.simps(2) [simp del]

lemma glob_class_length: "glob_class nocase p plen s m = Some (q, n, b) \<Longrightarrow> length q \<le> length p"
proof (induction p arbitrary: plen m s rule: measure_induct_rule [where f = length])
  case (less p)
  show ?case
  proof (cases p)
    case (Cons c r)
    from less.prems [unfolded Cons] show ?thesis
      by (subst (asm) glob_class.simps(2))
         (auto simp: Cons split: if_splits list.splits dest!: less.IH [rotated])
  qed (use less.prems in simp)
qed

text \<open>
  The main loop, one call per iteration, and the loop behind a star that tries every suffix of the
  string.  \<open>p\<close> in \<open>glob_star_loop\<close> is \<open>pattern+1\<close>.
\<close>

function (sequential) stringmatchlen :: "bytes \<Rightarrow> int \<Rightarrow> bytes \<Rightarrow> int \<Rightarrow> bool \<Rightarrow> bool option"
  and glob_star_loop :: "bytes \<Rightarrow> int \<Rightarrow> bytes \<Rightarrow> int \<Rightarrow> bool \<Rightarrow> bool option"
  and glob_next :: "bytes \<Rightarrow> int \<Rightarrow> bytes \<Rightarrow> int \<Rightarrow> bool \<Rightarrow> bool option" where
  "stringmatchlen p plen s slen nocase =
     (if plen = 0 then Some (slen = 0)
      else case p of
        [] \<Rightarrow> None
      | c # p1 \<Rightarrow>
          if c = byte_of CHR ''*'' then
            (case glob_stars p plen of
               None \<Rightarrow> None
             | Some (q, n) \<Rightarrow>
                 if n = 1 then Some True else glob_star_loop (tl q) (n - 1) s slen nocase)
          else if c = byte_of CHR ''?'' then
            if slen = 0 then Some False
            else (case s of [] \<Rightarrow> None | _ # s' \<Rightarrow> glob_next p1 (plen - 1) s' (slen - 1) nocase)
          else if c = byte_of CHR ''['' then
            (case p1 of
               [] \<Rightarrow> None
             | c1 # p2 \<Rightarrow>
                 let neg = (c1 = byte_of CHR ''^'') in
                 case glob_class nocase (if neg then p2 else p1) (if neg then plen - 2 else plen - 1) s False of
                   None \<Rightarrow> None
                 | Some (q, n, matched) \<Rightarrow>
                     if (if neg then \<not> matched else matched) then
                       (case s of [] \<Rightarrow> None | _ # s' \<Rightarrow> glob_next q n s' (slen - 1) nocase)
                     else Some False)
          else
            let esc = (c = byte_of CHR 0x5C \<and> plen \<ge> 2);
                p' = (if esc then p1 else p); n = (if esc then plen - 1 else plen) in
            case (p', s) of
              (c' # p'', x # s') \<Rightarrow>
                if chr_eq nocase c' x then glob_next p'' (n - 1) s' (slen - 1) nocase else Some False
            | _ \<Rightarrow> None)"
| "glob_star_loop p plen s slen nocase =
     (if slen = 0 then Some False
      else case stringmatchlen p plen s slen nocase of
        None \<Rightarrow> None
      | Some True \<Rightarrow> Some True
      | Some False \<Rightarrow>
          (case s of [] \<Rightarrow> None | _ # s' \<Rightarrow> glob_star_loop p plen s' (slen - 1) nocase))"
| "glob_next p plen s slen nocase =
     (if slen = 0 then map_option (\<lambda>(q, n). n = 0) (glob_trail p plen)
      else stringmatchlen p plen s slen nocase)"
  by pat_completeness auto
termination
proof (relation "measures [\<lambda>x. case x of Inl (p, _) \<Rightarrow> length p | Inr (Inl (p, _)) \<Rightarrow> length p | Inr (Inr (p, _)) \<Rightarrow> length p,
      \<lambda>x. case x of Inl _ \<Rightarrow> 0 | Inr _ \<Rightarrow> 1,
      \<lambda>x. case x of Inr (Inl (p, plen, s, _)) \<Rightarrow> length s | _ \<Rightarrow> 0]", goal_cases)
  case (2 p plen s slen nocase c p1 a q n)
  then show ?case using glob_stars_length [of p plen q n] by (cases q) auto
next
  case (4 p plen s slen nocase c p1 c1 p2 neg a q b n m)
  then show ?case using glob_class_length by (fastforce split: if_splits)
qed (auto split: if_splits)

text \<open>\<open>stringmatch\<close> takes the lengths of its two NUL-terminated arguments.\<close>

definition stringmatch :: "bytes \<Rightarrow> bytes \<Rightarrow> bool \<Rightarrow> bool option" where
  "stringmatch pattern s nocase = do {
     m \<leftarrow> c_strlen pattern;
     n \<leftarrow> c_strlen s;
     stringmatchlen pattern (int_of_ulong m) s (int_of_ulong n) nocase }"

declare stringmatchlen.simps [simp del] glob_star_loop.simps [simp del] glob_next.simps [simp del]

section \<open>What a pattern means\<close>

datatype glob_item = GChr byte | GEsc byte | GRange byte byte

datatype glob_tok = GStar | GAny | GLit byte | GEscape byte | GClass bool "glob_item list"

fun render_item :: "glob_item \<Rightarrow> bytes" where
  "render_item (GChr c) = [c]"
| "render_item (GEsc c) = [92, c]"
| "render_item (GRange a b) = [a, 45, b]"

fun render_tok :: "glob_tok \<Rightarrow> bytes" where
  "render_tok GStar = str ''*''"
| "render_tok GAny = str ''?''"
| "render_tok (GLit c) = [c]"
| "render_tok (GEscape c) = [92, c]"
| "render_tok (GClass neg its) =
     str ''['' @ (if neg then str ''^'' else []) @ concat (map render_item its) @ str '']''"

definition render :: "glob_tok list \<Rightarrow> bytes" where
  "render ts = concat (map render_tok ts)"

text \<open>
  Bytes are compared as the signed characters of the target; without regard to case the ASCII
  capitals count as their small letters.  A range is given by its two ends in any order, and it is
  the ends, after they were put in order, that are folded.
\<close>

definition fold_case :: "bool \<Rightarrow> int \<Rightarrow> int" where
  "fold_case nocase i = (if nocase \<and> i \<in> {65..90} then i + 32 else i)"

definition same_byte :: "bool \<Rightarrow> byte \<Rightarrow> byte \<Rightarrow> bool" where
  "same_byte nocase a b \<longleftrightarrow> fold_case nocase (sint a) = fold_case nocase (sint b)"

definition between :: "bool \<Rightarrow> byte \<Rightarrow> byte \<Rightarrow> byte \<Rightarrow> bool" where
  "between nocase a b x \<longleftrightarrow>
     fold_case nocase (sint x) \<in>
       {fold_case nocase (min (sint a) (sint b)) .. fold_case nocase (max (sint a) (sint b))}"

fun item_match :: "bool \<Rightarrow> byte \<Rightarrow> glob_item \<Rightarrow> bool" where
  "item_match nocase x (GChr c) = same_byte nocase c x"
| "item_match nocase x (GEsc c) = (c = x)"
| "item_match nocase x (GRange a b) = between nocase a b x"

fun tok_match :: "bool \<Rightarrow> byte \<Rightarrow> glob_tok \<Rightarrow> bool" where
  "tok_match nocase x GStar = False"
| "tok_match nocase x GAny = True"
| "tok_match nocase x (GLit c) = same_byte nocase c x"
| "tok_match nocase x (GEscape c) = same_byte nocase c x"
| "tok_match nocase x (GClass neg its) = ((\<exists>i \<in> set its. item_match nocase x i) \<noteq> neg)"

text \<open>The language of a pattern: a star stands for any string, every other element for one byte.\<close>

fun glob :: "bool \<Rightarrow> glob_tok list \<Rightarrow> bytes \<Rightarrow> bool" where
  "glob nocase [] s = (s = [])"
| "glob nocase (GStar # ts) [] = glob nocase ts []"
| "glob nocase (GStar # ts) (x # s) = (glob nocase ts (x # s) \<or> glob nocase (GStar # ts) s)"
| "glob nocase (t # ts) [] = False"
| "glob nocase (t # ts) (x # s) = (tok_match nocase x t \<and> glob nocase ts s)"

text \<open>The patterns that denote their elements unambiguously.\<close>

fun wf_item :: "glob_item \<Rightarrow> bool" where
  "wf_item (GChr c) = (c \<notin> {45, 92, 93})"
| "wf_item (GEsc c) = True"
| "wf_item (GRange a b) = (a \<notin> {45, 92, 93})"

fun wf_tok :: "glob_tok \<Rightarrow> bool" where
  "wf_tok GStar = True"
| "wf_tok GAny = True"
| "wf_tok (GLit c) = (c \<notin> {0, 42, 63, 91, 92})"
| "wf_tok (GEscape c) = (c \<noteq> 0)"
| "wf_tok (GClass neg its) =
     ((\<forall>i \<in> set its. wf_item i) \<and> (its = [] \<or> neg \<or> hd (render_item (hd its)) \<noteq> 94))"

fun is_class :: "glob_tok \<Rightarrow> bool" where
  "is_class (GClass _ _) = True" | "is_class _ = False"

section \<open>The code implements it\<close>

lemma chr_eq_spec [simp]: "chr_eq nocase a b = same_byte nocase a b"
  by (auto simp: chr_eq_def same_byte_def fold_case_def c_tolower_def signed_word_eqI)

lemma chr_in_range_spec [simp]: "chr_in_range nocase a b x = between nocase a b x"
  by (auto simp: chr_in_range_def between_def fold_case_def c_tolower_def Let_def min_def max_def)

lemma render_simps [simp]: "render [] = []" "render (t # ts) = render_tok t @ render ts"
  by (simp_all add: render_def)

lemma render_tok_nonempty [simp]: "render_tok t \<noteq> []"
  by (cases t) auto


lemma glob_star_iff: "glob nc (GStar # ts) s \<longleftrightarrow> (\<exists>k \<le> length s. glob nc ts (drop k s))"
proof (induction s)
  case (Cons x s)
  have "(\<exists>k \<le> length (x # s). glob nc ts (drop k (x # s))) \<longleftrightarrow> glob nc ts (x # s) \<or> (\<exists>k \<le> length s. glob nc ts (drop k s))"
    by (metis (no_types, lifting) Suc_le_mono drop0 drop_Suc_Cons length_Cons not0_implies_Suc zero_le)
  then show ?case using Cons.IH by simp
qed simp

lemma glob_star_star: "glob nc (GStar # GStar # ts) s = glob nc (GStar # ts) s"
proof (induction s)
  case Nil
  then show ?case by simp
next
  case (Cons x s)
  have "glob nc (GStar # ts) s \<Longrightarrow> glob nc (GStar # ts) (x # s)" by simp
  then show ?case using Cons by auto
qed

lemma glob_Nil_iff: "glob nc ts [] \<longleftrightarrow> (\<forall>t \<in> set ts. t = GStar)"
proof (induction ts)
  case (Cons t ts)
  then show ?case by (cases t) auto
qed simp

lemma same_byte_0: "c \<noteq> 0 \<Longrightarrow> \<not> same_byte nc c 0"
proof -
  assume "c \<noteq> 0"
  then have "cval c \<noteq> 0" by (metis signed_0 signed_word_eqI)
  then show ?thesis using \<open>c \<noteq> 0\<close> by (auto simp: same_byte_def fold_case_def)
qed

lemma render_tok_hd_star: "wf_tok t \<Longrightarrow> hd (render_tok t) = 42 \<longleftrightarrow> t = GStar"
  by (cases t) auto

lemma glob_trail_render:
  assumes "\<forall>t \<in> set ts. wf_tok t"
  shows "\<exists>q n. glob_trail (render ts @ 0 # r) (int (length (render ts))) = Some (q, n) \<and> (n = 0 \<longleftrightarrow> (\<forall>t \<in> set ts. t = GStar))"
  using assms
proof (induction ts)
  case (Cons t ts)
  show ?case
  proof (cases "t = GStar")
    case True
    then show ?thesis using Cons by simp
  next
    case False
    obtain c cs where c: "render_tok t = c # cs" by (cases "render_tok t") auto
    then have "c \<noteq> 42" using render_tok_hd_star [of t] False Cons.prems by simp
    then show ?thesis using c False by auto
  qed
qed simp

text \<open>The scan of a class reads its members one by one, up to a byte that cannot make a range of the last.\<close>

lemma glob_class_items:
  assumes "\<forall>i \<in> set its. wf_item i" "0 \<le> m" "d \<noteq> 45"
  shows "glob_class nc (concat (map render_item its) @ d # r) (int (length (concat (map render_item its))) + m) (x # s) b
       = glob_class nc (d # r) m (x # s) (b \<or> (\<exists>i \<in> set its. item_match nc x i))"
  using assms(1)
proof (induction its arbitrary: b)
  case Nil
  then show ?case by simp
next
  case (Cons i its)
  let ?R = "concat (map render_item its)"
  obtain e rest where e: "?R @ d # r = e # rest" "e \<noteq> 45"
  proof (cases its)
    case (Cons j js)
    then show ?thesis using Cons.prems that by (cases j) auto
  qed (use that assms(3) in auto)
  have p: "\<not> int (length ?R) + m + 1 = 0" using assms(2) by simp
  note IH = Cons.IH [simplified]
  show ?case
  proof (cases i)
    case (GChr c)
    then have c: "c \<noteq> 92" "c \<noteq> 93" using Cons.prems by auto
    have "glob_class nc (c # ?R @ d # r) (int (length ?R) + m + 1) (x # s) b
        = glob_class nc (?R @ d # r) (int (length ?R) + m) (x # s) (b \<or> same_byte nc c x)"
      unfolding e(1) using c p e(2) by (subst glob_class.simps(2)) (simp add: algebra_simps)
    then show ?thesis using GChr Cons by (simp add: algebra_simps)
  next
    case (GEsc c)
    have "glob_class nc (92 # c # ?R @ d # r) (int (length ?R) + m + 2) (x # s) b
        = glob_class nc (?R @ d # r) (int (length ?R) + m) (x # s) (b \<or> c = x)"
      by (subst glob_class.simps(2)) (simp add: algebra_simps)
    then show ?thesis using GEsc Cons by (simp add: algebra_simps)
  next
    case (GRange a z)
    then have a: "a \<noteq> 92" "a \<noteq> 93" using Cons.prems by auto
    have "glob_class nc (a # 45 # z # ?R @ d # r) (int (length ?R) + m + 3) (x # s) b
        = glob_class nc (?R @ d # r) (int (length ?R) + m) (x # s) (b \<or> between nc a z x)"
      using a assms(2) by (subst glob_class.simps(2)) (simp add: algebra_simps)
    then show ?thesis using GRange Cons by (simp add: algebra_simps)
  qed
qed

lemma glob_class_render_len:
  assumes "\<forall>i \<in> set its. wf_item i" "n = int (length (concat (map render_item its))) + 1 + int m"
  shows "glob_class nc (concat (map render_item its) @ 93 # r) n (x # s) b
       = Some (r, int m, b \<or> (\<exists>i \<in> set its. item_match nc x i))"
  using glob_class_items [OF assms(1), of "1 + int m" 93 nc r x s b] unfolding assms(2)
  by (simp add: glob_class.simps(2) add.assoc)

definition matches :: "bool \<Rightarrow> glob_tok list \<Rightarrow> bytes \<Rightarrow> bytes \<Rightarrow> bytes \<Rightarrow> bool" where
  "matches nc ts xs r r' \<longleftrightarrow>
     stringmatchlen (render ts @ 0 # r) (int (length (render ts))) (xs @ 0 # r') (int (length xs)) nc
       = Some (glob nc ts xs)"

lemma glob_next_render:
  assumes wf: "\<forall>t \<in> set ts. wf_tok t" and m: "xs \<noteq> [] \<Longrightarrow> matches nc ts xs r r'"
  shows "glob_next (render ts @ 0 # r) (int (length (render ts))) (xs @ 0 # r') (int (length xs)) nc
       = Some (glob nc ts xs)"
proof (cases "xs = []")
  case True
  obtain q n where "glob_trail (render ts @ 0 # r) (int (length (render ts))) = Some (q, n)"
    "n = 0 \<longleftrightarrow> (\<forall>t \<in> set ts. t = GStar)"
    using glob_trail_render [OF wf] by blast
  then show ?thesis using True by (simp add: glob_next.simps glob_Nil_iff)
next
  case False
  then show ?thesis using m by (simp add: glob_next.simps matches_def)
qed

text \<open>An element that stands for one byte, against a nonempty string.\<close>

lemma matches_one:
  assumes t: "wf_tok t" "t \<noteq> GStar"
    and m: "glob_next (render ts @ 0 # r) (int (length (render ts))) (xs @ 0 # r') (int (length xs)) nc = Some (glob nc ts xs)"
  shows "matches nc (t # ts) (x # xs) r r'"
proof (cases t)
  case GStar
  then show ?thesis using t by simp
next
  case GAny
  then show ?thesis using m by (simp add: matches_def stringmatchlen.simps [of "63 # _"])
next
  case (GLit c)
  then have "c \<noteq> 42" "c \<noteq> 63" "c \<noteq> 91" "c \<noteq> 92" using t by auto
  then show ?thesis using m GLit by (simp add: matches_def stringmatchlen.simps [of "c # _"])
next
  case (GEscape c)
  then show ?thesis using m by (simp add: matches_def stringmatchlen.simps [of "92 # _"])
next
  case (GClass neg its)
  let ?R = "concat (map render_item its)"
  have wf: "\<forall>i \<in> set its. wf_item i" using t GClass by simp
  note cls = glob_class_render_len [OF wf, of _ "length (render ts)" nc "render ts @ 0 # r" x "xs @ 0 # r'" False]
  show ?thesis
  proof (cases neg)
    case True
    then show ?thesis using GClass m
      by (simp add: matches_def stringmatchlen.simps [of "91 # _"] cls)
  next
    case False
    obtain c1 p2 where c1: "?R @ 93 # render ts @ 0 # r = c1 # p2" "c1 \<noteq> 94"
    proof (cases its)
      case (Cons i js)
      then have "hd (render_item i) \<noteq> 94" using t GClass False by simp
      then show ?thesis using Cons that by (cases i) auto
    qed (use that in auto)
    moreover note cls [unfolded c1(1)]
    ultimately show ?thesis using GClass False m
      by (simp add: matches_def stringmatchlen.simps [of "91 # _"] cls [unfolded c1(1)])
  qed
qed

lemma matches_one_Nil:
  assumes t: "wf_tok t" "t \<noteq> GStar" "\<not> is_class t"
  shows "matches nc (t # ts) [] r r'"
proof (cases t)
  case GStar
  then show ?thesis using t by simp
next
  case GAny
  then show ?thesis by (simp add: matches_def stringmatchlen.simps [of "63 # _"])
next
  case (GLit c)
  then have "c \<noteq> 42" "c \<noteq> 63" "c \<noteq> 91" "c \<noteq> 92" "c \<noteq> 0" using t by auto
  then show ?thesis using GLit same_byte_0 by (simp add: matches_def stringmatchlen.simps [of "c # _"])
next
  case (GEscape c)
  then have "c \<noteq> 0" using t by simp
  then show ?thesis using same_byte_0 GEscape by (simp add: matches_def stringmatchlen.simps [of "92 # _"])
next
  case (GClass neg its)
  then show ?thesis using t by simp
qed

lemma glob_star_loop_render:
  assumes m: "\<And>ys. ys \<noteq> [] \<Longrightarrow> matches nc ts ys r r'" and ne: "\<not> glob nc ts []"
  shows "glob_star_loop (render ts @ 0 # r) (int (length (render ts))) (xs @ 0 # r') (int (length xs)) nc
       = Some (glob nc (GStar # ts) xs)"
proof (induction xs)
  case Nil
  then show ?case using ne by (simp add: glob_star_loop.simps)
next
  case (Cons x xs)
  show ?case using m [of "x # xs"] Cons
    by (subst glob_star_loop.simps) (simp add: matches_def split: bool.splits)
qed

lemma glob_stars_render:
  assumes "\<forall>t \<in> set ts. wf_tok t"
  shows "\<exists>ts'. glob_stars (42 # render ts @ 0 # r) (1 + int (length (render ts)))
             = Some (42 # render ts' @ 0 # r, 1 + int (length (render ts'))) \<and>
           length ts' \<le> length ts \<and> set ts' \<subseteq> set ts \<and> (ts' = [] \<or> hd ts' \<noteq> GStar) \<and>
           (\<forall>nc xs. glob nc (GStar # ts') xs = glob nc (GStar # ts) xs)"
  using assms
proof (induction ts)
  case Nil
  then show ?case by simp
next
  case (Cons t ts)
  show ?case
  proof (cases "t = GStar")
    case True
    then obtain ts' where "glob_stars (42 # render ts @ 0 # r) (1 + int (length (render ts)))
             = Some (42 # render ts' @ 0 # r, 1 + int (length (render ts')))"
           "length ts' \<le> length ts" "set ts' \<subseteq> set ts" "ts' = [] \<or> hd ts' \<noteq> GStar"
           "\<forall>nc xs. glob nc (GStar # ts') xs = glob nc (GStar # ts) xs"
      using Cons by auto
    then show ?thesis using True glob_star_star by (intro exI [of _ ts']) auto
  next
    case False
    obtain c cs where c: "render_tok t = c # cs" by (cases "render_tok t") auto
    then have "c \<noteq> 42" using render_tok_hd_star [of t] False Cons.prems by simp
    then show ?thesis using c False by (intro exI [of _ "t # ts"]) auto
  qed
qed

lemma stringmatchlen_render:
  assumes "\<forall>t \<in> set ts. wf_tok t" "xs \<noteq> [] \<or> ts = [] \<or> \<not> is_class (hd ts)"
  shows "matches nc ts xs r r'"
  using assms
proof (induction ts arbitrary: xs rule: measure_induct_rule [where f = length])
  case (less ts)
  show ?case
  proof (cases ts)
    case Nil
    then show ?thesis by (simp add: matches_def stringmatchlen.simps)
  next
    case (Cons t us)
    have us: "\<forall>t \<in> set us. wf_tok t" "wf_tok t" using less.prems(1) Cons by auto
    show ?thesis
    proof (cases "t = GStar")
      case False
      show ?thesis
      proof (cases xs)
        case Nil
        then show ?thesis using matches_one_Nil us(2) False less.prems(2) Cons by simp
      next
        case (Cons y ys)
        have "glob_next (render us @ 0 # r) (int (length (render us))) (ys @ 0 # r') (int (length ys)) nc = Some (glob nc us ys)"
          using less.IH [of us ys] us(1) \<open>ts = t # us\<close> by (intro glob_next_render) auto
        then show ?thesis using matches_one us(2) False Cons \<open>ts = t # us\<close> by simp
      qed
    next
      case True
      obtain vs where vs: "glob_stars (42 # render us @ 0 # r) (1 + int (length (render us)))
             = Some (42 # render vs @ 0 # r, 1 + int (length (render vs)))"
           "length vs \<le> length us" "set vs \<subseteq> set us" "vs = [] \<or> hd vs \<noteq> GStar"
           "\<forall>nc xs. glob nc (GStar # vs) xs = glob nc (GStar # us) xs"
        using glob_stars_render [OF us(1)] by blast
      show ?thesis
      proof (cases "vs = []")
        case e: True
        have "glob nc (GStar # []) xs" by (induction xs) auto
        then have "glob nc (GStar # us) xs" using vs(5) e by metis
        then show ?thesis using True Cons vs(1) e by (simp add: matches_def stringmatchlen.simps [of "42 # _"])
      next
        case ne: False
        then obtain v vs' where "vs = v # vs'" "v \<noteq> GStar" using vs(4) by (cases vs) auto
        then have n0: "\<not> glob nc vs []" by (cases v) auto
        have vm: "\<And>ys. ys \<noteq> [] \<Longrightarrow> matches nc vs ys r r'"
        proof -
          fix ys :: bytes assume "ys \<noteq> []"
          moreover have "\<forall>t \<in> set vs. wf_tok t" "length vs < length ts" using vs(2,3) us(1) Cons by auto
          ultimately show "matches nc vs ys r r'" using less.IH [of vs ys] by simp
        qed
        have "glob_star_loop (render vs @ 0 # r) (int (length (render vs))) (xs @ 0 # r') (int (length xs)) nc
            = Some (glob nc (GStar # us) xs)"
          using glob_star_loop_render [OF vm n0] vs(5) by simp
        moreover have "render vs \<noteq> []" using \<open>vs = v # vs'\<close> by simp
        ultimately show ?thesis using True Cons vs(1) by (simp add: matches_def stringmatchlen.simps [of "42 # _"])
      qed
    qed
  qed
qed

section \<open>Behind the terminators\<close>







section \<open>Properties\<close>

text \<open>
  C16.  \<open>stringmatchlen\<close> decides the language of the pattern: for every pattern built from stars,
  question marks, plain and escaped characters and character classes (with ranges, escapes and
  negation) that \<open>wf_tok\<close> admits (every class is closed, no backslash stands alone, \<open>-\<close> in a class is
  escaped or between the ends of a range), and every string, it returns, without reading outside the two
  NUL-terminated buffers, and its answer is the one of the declarative \<open>glob\<close>.  The empty string against a
  pattern that starts with a class is excluded; it is treated below.
\<close>

theorem stringmatchlen_correct:
  assumes "\<forall>t \<in> set ts. wf_tok t" "xs \<noteq> [] \<or> ts = [] \<or> \<not> is_class (hd ts)"
  shows "stringmatchlen (render ts @ [0]) (int (length (render ts))) (xs @ [0]) (int (length xs)) nocase
       = Some (glob nocase ts xs)"
  using stringmatchlen_render [OF assms] by (simp add: matches_def)

theorem stringmatchlen_correct_witness:
  "stringmatchlen (str ''h[^a-c]*o'' @ [0]) 9 (str ''hello'' @ [0]) 5 False = Some True \<and>
   stringmatchlen (str ''[c-a]x'' @ [0]) 6 (str ''CX'' @ [0]) 2 True = Some True \<and>
   stringmatchlen (str ''[c-a]x'' @ [0]) 6 (str ''Cx'' @ [0]) 2 False = Some False"
proof -
  let ?ts = "[GLit 104, GClass True [GRange 97 99], GStar, GLit 111]" and ?us = "[GClass False [GRange 99 97], GLit 120]"
  have "glob False ?ts (str ''hello'')" "glob True ?us (str ''CX'')" "\<not> glob False ?us (str ''Cx'')"
    by (simp_all add: same_byte_def between_def fold_case_def)
  then show ?thesis
    using stringmatchlen_correct [of ?ts "str ''hello''" False] stringmatchlen_correct [of ?us "str ''CX''" True]
      stringmatchlen_correct [of ?us "str ''Cx''" False] by simp
qed





end
