(* ===== verification/Memory.thy ===== *)
theory Memory
  imports Prelude
begin

text \<open>
  Byte memory: checked \<open>memcpy\<close>/\<open>memmove\<close> on a buffer, \<open>zrealloc\<close>, little-endian integers and the
  byte reversals of \<open>endianconv.c\<close>.
\<close>

section \<open>Checked accesses\<close>

definition mem_read :: "bytes \<Rightarrow> nat \<Rightarrow> nat \<Rightarrow> bytes option" where
  "mem_read buf off n = (if off + n \<le> length buf then Some (take n (drop off buf)) else None)"

definition mem_write :: "bytes \<Rightarrow> nat \<Rightarrow> bytes \<Rightarrow> bytes option" where
  "mem_write buf off bs =
     (if off + length bs \<le> length buf
      then Some (take off buf @ bs @ drop (off + length bs) buf) else None)"

definition mem_move :: "bytes \<Rightarrow> nat \<Rightarrow> nat \<Rightarrow> nat \<Rightarrow> bytes option" where
  "mem_move buf dst src n = do { bs \<leftarrow> mem_read buf src n; mem_write buf dst bs }"

text \<open>
  \<open>zrealloc\<close> keeps the common prefix; the new bytes are indeterminate, given by \<open>junk\<close>.
\<close>

definition zrealloc :: "(nat \<Rightarrow> byte) \<Rightarrow> bytes \<Rightarrow> nat \<Rightarrow> bytes" where
  "zrealloc junk buf n = take n buf @ map junk [length buf..<n]"

lemma mem_read_Some [simp, c_mem]: "off + n \<le> length buf \<Longrightarrow> mem_read buf off n = Some (take n (drop off buf))"
  by (simp add: mem_read_def)

lemma mem_write_Some [simp, c_mem]:
  "off + length bs \<le> length buf \<Longrightarrow> mem_write buf off bs = Some (take off buf @ bs @ drop (off + length bs) buf)"
  by (simp add: mem_write_def)

lemma mem_move_Some [simp, c_mem]:
  "src + n \<le> length buf \<Longrightarrow> dst + n \<le> length buf \<Longrightarrow>
   mem_move buf dst src n = Some (take dst buf @ take n (drop src buf) @ drop (dst + n) buf)"
  by (simp add: mem_move_def mem_write_def min_absorb2)

lemma length_zrealloc [simp]: "length (zrealloc junk buf n) = n"
  by (simp add: zrealloc_def)

lemma take_zrealloc [simp]: "k \<le> n \<Longrightarrow> k \<le> length buf \<Longrightarrow> take k (zrealloc junk buf n) = take k buf"
  by (simp add: zrealloc_def min_def)

lemma zrealloc_shrink: "n \<le> length buf \<Longrightarrow> zrealloc junk buf n = take n buf"
  by (simp add: zrealloc_def)

section \<open>Little-endian integers\<close>

primrec le_of_nat :: "nat \<Rightarrow> nat \<Rightarrow> bytes" where
  "le_of_nat 0 n = []"
| "le_of_nat (Suc k) n = of_nat n # le_of_nat k (n div 256)"

primrec nat_of_le :: "bytes \<Rightarrow> nat" where
  "nat_of_le [] = 0"
| "nat_of_le (b # bs) = unat b + 256 * nat_of_le bs"

text \<open>Two's complement values of \<open>k\<close> bytes.\<close>

definition le_int :: "nat \<Rightarrow> int \<Rightarrow> bytes" where
  "le_int k v = le_of_nat k (nat (v mod 256 ^ k))"

definition int_le :: "bytes \<Rightarrow> int" where
  "int_le bs = (let n = int (nat_of_le bs); m = 256 ^ length bs in if 2 * n < m then n else n - m)"

definition fits :: "nat \<Rightarrow> int \<Rightarrow> bool" where
  "fits k v \<longleftrightarrow> - (256 ^ k) \<le> 2 * v \<and> 2 * v < 256 ^ k"

lemma length_le_of_nat [simp]: "length (le_of_nat k n) = k"
  by (induction k arbitrary: n) auto

lemma length_le_int [simp]: "length (le_int k v) = k"
  by (simp add: le_int_def)

lemma nat_of_le_of_nat: "nat_of_le (le_of_nat k n) = n mod 256 ^ k"
proof (induction k arbitrary: n)
  case (Suc k)
  have "unat (of_nat n :: byte) = n mod 256" by (simp add: unat_of_nat)
  then show ?case using Suc mod_mult2_eq [of n 256 "256 ^ k"] by simp
qed simp

lemma nat_of_le_bound: "nat_of_le bs < 256 ^ length bs"
proof (induction bs)
  case (Cons b bs)
  have "unat b < 256" using unsigned_less [of b] by simp
  then show ?case using Cons by simp
qed simp

lemma le_of_nat_of_le: "le_of_nat (length bs) (nat_of_le bs) = bs"
proof (induction bs)
  case (Cons b bs)
  have b: "unat b < 256" using unsigned_less [of b] by simp
  then have "(unat b + 256 * nat_of_le bs) div 256 = nat_of_le bs" by simp
  moreover have "(of_nat (unat b + 256 * nat_of_le bs) :: byte) = b"
  proof -
    have z: "(256 :: byte) = 0" by simp
    show ?thesis by (simp only: of_nat_add of_nat_mult of_nat_numeral z) simp
  qed
  ultimately show ?case using Cons by (simp del: of_nat_add of_nat_mult)
qed simp

lemma int_le_le_int:
  assumes "fits k v" shows "int_le (le_int k v) = v"
proof -
  have m: "int (nat_of_le (le_int k v)) = v mod 256 ^ k"
    by (simp add: le_int_def nat_of_le_of_nat flip: zmod_int)
  show ?thesis
  proof (cases "0 \<le> v")
    case True
    then have "v mod 256 ^ k = v" using assms by (simp add: fits_def)
    then show ?thesis using assms True m by (simp add: int_le_def fits_def Let_def)
  next
    case False
    then have "v mod 256 ^ k = v + 256 ^ k"
      using assms mod_pos_pos_trivial [of "v + 256 ^ k" "256 ^ k"] by (simp add: fits_def)
    then show ?thesis using assms False m by (simp add: int_le_def fits_def Let_def)
  qed
qed

lemma fits_mono: "fits j v \<Longrightarrow> j \<le> k \<Longrightarrow> fits k v"
proof -
  assume a: "fits j v" "j \<le> k"
  then have "(256 :: int) ^ j \<le> 256 ^ k" by (simp add: power_increasing)
  then show ?thesis using a unfolding fits_def by linarith
qed

section \<open>Arrays of fixed-width elements\<close>

lemma length_concat_width: "\<forall>x \<in> set xs. length x = w \<Longrightarrow> length (concat xs) = length xs * w"
  by (induction xs) auto

lemma drop_concat_width: "\<forall>x \<in> set xs. length x = w \<Longrightarrow> drop (i * w) (concat xs) = concat (drop i xs)"
proof (induction xs arbitrary: i)
  case (Cons x xs)
  then show ?case by (cases i) auto
qed simp

lemma take_concat_width: "\<forall>x \<in> set xs. length x = w \<Longrightarrow> take (i * w) (concat xs) = concat (take i xs)"
proof (induction xs arbitrary: i)
  case (Cons x xs)
  then show ?case by (cases i) auto
qed simp

definition pack :: "nat \<Rightarrow> int list \<Rightarrow> bytes" where
  "pack w vs = concat (map (le_int w) vs)"

lemma pack_simps [simp]:
  "pack w [] = []" "pack w (v # vs) = le_int w v @ pack w vs" "pack w (us @ vs) = pack w us @ pack w vs"
  by (simp_all add: pack_def)

lemma length_pack [simp]: "length (pack w vs) = length vs * w"
  by (induction vs) auto

lemma drop_pack: "drop (i * w) (pack w vs) = pack w (drop i vs)"
  by (simp add: pack_def drop_concat_width flip: drop_map)

lemma take_pack: "take (i * w) (pack w vs) = pack w (take i vs)"
  by (simp add: pack_def take_concat_width flip: take_map)

lemma pack_nth: "i < length vs \<Longrightarrow> take w (drop (i * w) (pack w vs)) = le_int w (vs ! i)"
  by (simp add: drop_pack flip: Cons_nth_drop_Suc)

section \<open>Byte order: endianconv.c\<close>

definition swap_bytes :: "nat \<Rightarrow> nat \<Rightarrow> bytes \<Rightarrow> bytes option" where
  "swap_bytes i j x = do {
     t \<leftarrow> arr_get x i;
     u \<leftarrow> arr_get x j;
     x \<leftarrow> arr_set x i u;
     arr_set x j t }"

definition memrev16 :: "bytes \<Rightarrow> bytes option" where
  "memrev16 x = swap_bytes 0 1 x"

definition memrev32 :: "bytes \<Rightarrow> bytes option" where
  "memrev32 x = do { x \<leftarrow> swap_bytes 0 3 x; swap_bytes 1 2 x }"

definition memrev64 :: "bytes \<Rightarrow> bytes option" where
  "memrev64 x = do {
     x \<leftarrow> swap_bytes 0 7 x;
     x \<leftarrow> swap_bytes 1 6 x;
     x \<leftarrow> swap_bytes 2 5 x;
     swap_bytes 3 4 x }"

text \<open>The integer versions work on the object representation of their argument.\<close>

definition intrev16 :: "nat \<Rightarrow> nat option" where
  "intrev16 v = map_option nat_of_le (memrev16 (le_of_nat 2 v))"

definition intrev32 :: "nat \<Rightarrow> nat option" where
  "intrev32 v = map_option nat_of_le (memrev32 (le_of_nat 4 v))"

definition intrev64 :: "nat \<Rightarrow> nat option" where
  "intrev64 v = map_option nat_of_le (memrev64 (le_of_nat 8 v))"

lemma length_Suc_list: "length xs = n \<Longrightarrow> n = Suc m \<Longrightarrow> \<exists>y ys. xs = y # ys \<and> length ys = m"
  by (cases xs) auto

lemma memrev_rev:
  "length x = 2 \<Longrightarrow> memrev16 (x @ r) = Some (rev x @ r)"
  "length x = 4 \<Longrightarrow> memrev32 (x @ r) = Some (rev x @ r)"
  "length x = 8 \<Longrightarrow> memrev64 (x @ r) = Some (rev x @ r)"
  by (auto simp: memrev16_def memrev32_def memrev64_def swap_bytes_def arr_get_def arr_set_def
      eval_nat_numeral length_Suc_conv)

lemma intrev_involution:
  "v < 2 ^ 16 \<Longrightarrow> Option.bind (intrev16 v) intrev16 = Some v"
  "v < 2 ^ 32 \<Longrightarrow> Option.bind (intrev32 v) intrev32 = Some v"
  "v < 2 ^ 64 \<Longrightarrow> Option.bind (intrev64 v) intrev64 = Some v"
proof -
  have l: "le_of_nat (length (rev (le_of_nat k v))) (nat_of_le (rev (le_of_nat k v))) = rev (le_of_nat k v)" for k
    by (rule le_of_nat_of_le)
  show "v < 2 ^ 16 \<Longrightarrow> Option.bind (intrev16 v) intrev16 = Some v"
    "v < 2 ^ 32 \<Longrightarrow> Option.bind (intrev32 v) intrev32 = Some v"
    "v < 2 ^ 64 \<Longrightarrow> Option.bind (intrev64 v) intrev64 = Some v"
    using l [of 2] l [of 4] l [of 8]
      memrev_rev(1) [of "le_of_nat 2 v" "[]"] memrev_rev(1) [of "rev (le_of_nat 2 v)" "[]"]
      memrev_rev(2) [of "le_of_nat 4 v" "[]"] memrev_rev(2) [of "rev (le_of_nat 4 v)" "[]"]
      memrev_rev(3) [of "le_of_nat 8 v" "[]"] memrev_rev(3) [of "rev (le_of_nat 8 v)" "[]"]
    by (simp_all add: intrev16_def intrev32_def intrev64_def nat_of_le_of_nat)
qed

end
