(* ===== verification/Intset.thy ===== *)
theory Intset
  imports Memory Refinement
begin

text \<open>
  The sorted integer sets of \<open>intset.c\<close>, down to the bytes of \<open>contents\<close>: elements are stored in
  2, 4 or 8 bytes each, the encoding is upgraded in place when a value does not fit, insertion and
  deletion move the tail, and membership is a binary search.  On a little-endian machine the
  \<open>intrevXXifbe\<close> and \<open>memrevXXifbe\<close> macros are the identity.
\<close>

section \<open>The code\<close>

record intset =
  is_encoding :: nat
  is_length :: nat
  is_contents :: bytes

definition INTSET_ENC_INT16 :: nat where "INTSET_ENC_INT16 = 2"
definition INTSET_ENC_INT32 :: nat where "INTSET_ENC_INT32 = 4"
definition INTSET_ENC_INT64 :: nat where "INTSET_ENC_INT64 = 8"

definition intsetValueEncoding_priv :: "int \<Rightarrow> nat" where
  "intsetValueEncoding_priv v =
     (if v < - (2 ^ 31) \<or> v > 2 ^ 31 - 1 then INTSET_ENC_INT64
      else if v < - (2 ^ 15) \<or> v > 2 ^ 15 - 1 then INTSET_ENC_INT32
      else INTSET_ENC_INT16)"

text \<open>The element \<open>((T* )is->contents)[pos]\<close> for a type of \<open>w\<close> bytes.\<close>

definition elem_read :: "nat \<Rightarrow> bytes \<Rightarrow> int \<Rightarrow> int option" where
  "elem_read w buf pos =
     (if pos < 0 then None else map_option int_le (mem_read buf (nat pos * w) w))"

definition elem_write :: "nat \<Rightarrow> bytes \<Rightarrow> int \<Rightarrow> int \<Rightarrow> bytes option" where
  "elem_write w buf pos v = (if pos < 0 then None else mem_write buf (nat pos * w) (le_int w v))"

definition intsetGetEncoded_priv :: "intset \<Rightarrow> int \<Rightarrow> nat \<Rightarrow> int option" where
  "intsetGetEncoded_priv is pos enc =
     (if enc = INTSET_ENC_INT64 then elem_read 8 (is_contents is) pos
      else if enc = INTSET_ENC_INT32 then elem_read 4 (is_contents is) pos
      else elem_read 2 (is_contents is) pos)"

definition intsetGet_priv :: "intset \<Rightarrow> int \<Rightarrow> int option" where
  "intsetGet_priv is pos = intsetGetEncoded_priv is pos (is_encoding is)"

definition intsetSet_priv :: "intset \<Rightarrow> int \<Rightarrow> int \<Rightarrow> intset option" where
  "intsetSet_priv is pos value = do {
     c \<leftarrow> (if is_encoding is = INTSET_ENC_INT64 then elem_write 8 (is_contents is) pos value
          else if is_encoding is = INTSET_ENC_INT32 then elem_write 4 (is_contents is) pos value
          else elem_write 2 (is_contents is) pos value);
     Some (is\<lparr>is_contents := c\<rparr>) }"

definition intsetNew :: intset where
  "intsetNew = \<lparr>is_encoding = INTSET_ENC_INT16, is_length = 0, is_contents = []\<rparr>"

definition intsetResize :: "(nat \<Rightarrow> byte) \<Rightarrow> intset \<Rightarrow> nat \<Rightarrow> intset" where
  "intsetResize junk is len =
     (let sz = (len * is_encoding is) mod 2 ^ 32 in is\<lparr>is_contents := zrealloc junk (is_contents is) sz\<rparr>)"

text \<open>\<open>min\<close> and \<open>max\<close> of the binary search are \<open>lo\<close> and \<open>hi\<close>.  Conversions between \<open>int\<close> and \<open>unsigned int\<close>.\<close>

definition uint_of :: "int \<Rightarrow> nat" where "uint_of i = nat (i mod 2 ^ 32)"
definition int_of_uint :: "nat \<Rightarrow> int" where "int_of_uint n = sint (of_nat n :: 32 word)"

partial_function (option) intsetSearch_loop ::
    "intset \<Rightarrow> int \<Rightarrow> int \<Rightarrow> int \<Rightarrow> int \<Rightarrow> int \<Rightarrow> (int \<times> int \<times> int) option" where
  "intsetSearch_loop is value lo hi mid cur =
     (if hi \<ge> lo then do {
        let mid = int_of_uint (ui_add (uint_of lo) (uint_of hi) div 2);
        cur \<leftarrow> intsetGet_priv is mid;
        if value > cur then intsetSearch_loop is value (mid + 1) hi mid cur
        else if value < cur then intsetSearch_loop is value lo (mid - 1) mid cur
        else Some (lo, mid, cur) }
      else Some (lo, mid, cur))"

definition intsetSearch :: "intset \<Rightarrow> int \<Rightarrow> (bool \<times> nat) option" where
  "intsetSearch is value =
     (if is_length is = 0 then Some (False, 0)
      else do {
        last \<leftarrow> intsetGet_priv is (int_of_uint (ui_sub (is_length is) 1));
        if value > last then Some (False, is_length is)
        else do {
          first \<leftarrow> intsetGet_priv is 0;
          if value < first then Some (False, 0)
          else do {
            r \<leftarrow> intsetSearch_loop is value 0 (int_of_uint (ui_sub (is_length is) 1)) (-1) (-1);
            (case r of (lo, mid, cur) \<Rightarrow>
               if value = cur then Some (True, uint_of mid) else Some (False, uint_of lo)) } } })"

text \<open>\<open>while (length--) _intsetSet(is, length+prepend, _intsetGetEncoded(is, length, curenc))\<close>\<close>

primrec intsetUpgrade_loop :: "nat \<Rightarrow> nat \<Rightarrow> nat \<Rightarrow> intset \<Rightarrow> intset option" where
  "intsetUpgrade_loop curenc prepend 0 is = Some is"
| "intsetUpgrade_loop curenc prepend (Suc len) is = do {
     v \<leftarrow> intsetGetEncoded_priv is (int len) curenc;
     is \<leftarrow> intsetSet_priv is (int len + int prepend) v;
     intsetUpgrade_loop curenc prepend len is }"

definition intsetUpgradeAndAdd :: "(nat \<Rightarrow> byte) \<Rightarrow> intset \<Rightarrow> int \<Rightarrow> intset option" where
  "intsetUpgradeAndAdd junk is value = do {
     let curenc = is_encoding is;
     let newenc = intsetValueEncoding_priv value;
     let len = is_length is;
     let prepend = (if value < 0 then 1 else 0);
     let is = is\<lparr>is_encoding := newenc\<rparr>;
     let is = intsetResize junk is (ui_add (is_length is) 1);
     is \<leftarrow> intsetUpgrade_loop curenc prepend len is;
     is \<leftarrow> (if prepend = 1 then intsetSet_priv is 0 value
           else intsetSet_priv is (int_of_uint (is_length is)) value);
     Some (is\<lparr>is_length := ui_add (is_length is) 1\<rparr>) }"

definition intsetMoveTail :: "intset \<Rightarrow> nat \<Rightarrow> nat \<Rightarrow> intset option" where
  "intsetMoveTail is from to = do {
     let n = ui_sub (is_length is) from;
     let w = (if is_encoding is = INTSET_ENC_INT64 then 8
              else if is_encoding is = INTSET_ENC_INT32 then 4 else 2);
     c \<leftarrow> mem_move (is_contents is) (to * w) (from * w) ((n * w) mod 2 ^ 32);
     Some (is\<lparr>is_contents := c\<rparr>) }"

definition intsetAdd :: "(nat \<Rightarrow> byte) \<Rightarrow> intset \<Rightarrow> int \<Rightarrow> (intset \<times> bool) option" where
  "intsetAdd junk is value =
     (if intsetValueEncoding_priv value > is_encoding is
      then map_option (\<lambda>is. (is, True)) (intsetUpgradeAndAdd junk is value)
      else do {
        r \<leftarrow> intsetSearch is value;
        if fst r then Some (is, False)
        else do {
          let pos = snd r;
          let is = intsetResize junk is (ui_add (is_length is) 1);
          is \<leftarrow> (if pos < is_length is then intsetMoveTail is pos (ui_add pos 1) else Some is);
          is \<leftarrow> intsetSet_priv is (int_of_uint pos) value;
          Some (is\<lparr>is_length := ui_add (is_length is) 1\<rparr>, True) } })"

definition intsetRemove :: "(nat \<Rightarrow> byte) \<Rightarrow> intset \<Rightarrow> int \<Rightarrow> (intset \<times> bool) option" where
  "intsetRemove junk is value =
     (if intsetValueEncoding_priv value \<le> is_encoding is then do {
        r \<leftarrow> intsetSearch is value;
        if fst r then do {
          let pos = snd r;
          let len = is_length is;
          is \<leftarrow> (if pos < ui_sub len 1 then intsetMoveTail is (ui_add pos 1) pos else Some is);
          let is = intsetResize junk is (ui_sub len 1);
          Some (is\<lparr>is_length := ui_sub len 1\<rparr>, True) }
        else Some (is, False) }
      else Some (is, False))"

definition intsetFind :: "intset \<Rightarrow> int \<Rightarrow> bool option" where
  "intsetFind is value =
     (if intsetValueEncoding_priv value \<le> is_encoding is then map_option fst (intsetSearch is value)
      else Some False)"

text \<open>\<open>rnd\<close> is the value \<open>rand()\<close> returned, a nonnegative \<open>int\<close>.\<close>

definition intsetRandom :: "nat \<Rightarrow> intset \<Rightarrow> int option" where
  "intsetRandom rnd is =
     (if is_length is = 0 then None else intsetGet_priv is (int_of_uint (rnd mod is_length is)))"

definition intsetGet :: "intset \<Rightarrow> nat \<Rightarrow> int option option" where
  "intsetGet is pos =
     (if pos < is_length is then map_option Some (intsetGet_priv is (int_of_uint pos)) else Some None)"

definition intsetLen :: "intset \<Rightarrow> nat" where
  "intsetLen is = is_length is"

definition intsetBlobLen :: "intset \<Rightarrow> nat" where
  "intsetBlobLen is = ul_add 8 ((is_length is * is_encoding is) mod 2 ^ 32)"

section \<open>Invariant and abstraction\<close>

definition intset_max :: nat where "intset_max = 2 ^ 28"

text \<open>The set holds the elements \<open>vs\<close>, in increasing order, packed at the current width.\<close>

definition intset_rep :: "intset \<Rightarrow> int list \<Rightarrow> bool" where
  "intset_rep is vs \<longleftrightarrow>
     is_encoding is \<in> {2, 4, 8} \<and> is_length is = length vs \<and> length vs \<le> intset_max \<and>
     sorted_wrt (<) vs \<and> (\<forall>v \<in> set vs. fits (is_encoding is) v) \<and>
     is_contents is = pack (is_encoding is) vs"

section \<open>Elements\<close>

lemmas enc_defs = INTSET_ENC_INT16_def INTSET_ENC_INT32_def INTSET_ENC_INT64_def

lemma valenc_cases: "intsetValueEncoding_priv v \<in> {2, 4, 8}"
  by (simp add: intsetValueEncoding_priv_def enc_defs)

lemma valenc_le_iff: "enc \<in> {2, 4, 8} \<Longrightarrow> fits 8 v \<Longrightarrow> intsetValueEncoding_priv v \<le> enc \<longleftrightarrow> fits enc v"
  by (auto simp: intsetValueEncoding_priv_def enc_defs fits_def)

lemma getEncoded_width: "enc \<in> {2, 4, 8} \<Longrightarrow> intsetGetEncoded_priv is pos enc = elem_read enc (is_contents is) pos"
  by (auto simp: intsetGetEncoded_priv_def enc_defs)

lemma set_width: "is_encoding is \<in> {2, 4, 8} \<Longrightarrow>
   intsetSet_priv is pos v = map_option (\<lambda>c. is\<lparr>is_contents := c\<rparr>) (elem_write (is_encoding is) (is_contents is) pos v)"
  by (auto simp: intsetSet_priv_def enc_defs map_option_case split: option.splits)

lemma move_width: "is_encoding is \<in> {2, 4, 8} \<Longrightarrow>
   intsetMoveTail is from to =
     map_option (\<lambda>c. is\<lparr>is_contents := c\<rparr>)
       (mem_move (is_contents is) (to * is_encoding is) (from * is_encoding is)
          ((ui_sub (is_length is) from * is_encoding is) mod 2 ^ 32))"
  by (auto simp: intsetMoveTail_def enc_defs Let_def map_option_case split: option.splits)

lemma int_of_uint_eq [simp]: "n < 2 ^ 31 \<Longrightarrow> int_of_uint n = int n"
  using int_of_ulong_eq [of n] by (simp add: int_of_uint_def int_of_ulong_def)

lemma uint_of_eq [simp]: "0 \<le> i \<Longrightarrow> i < 2 ^ 32 \<Longrightarrow> uint_of i = nat i"
  by (simp add: uint_of_def)

lemma elem_read_pack:
  assumes "take ((i + 1) * w) buf = pack w us" "i < length us" "fits w (us ! i)" "(i + 1) * w \<le> length buf"
  shows "elem_read w buf (int i) = Some (us ! i)"
proof -
  have "take w (drop (i * w) buf) = take w (drop (i * w) (take ((i + 1) * w) buf))"
    by (simp add: drop_take algebra_simps)
  also have "\<dots> = le_int w (us ! i)" by (simp only: assms(1) pack_nth [OF assms(2)])
  finally show ?thesis using assms(3,4) by (simp add: elem_read_def int_le_le_int algebra_simps)
qed

lemma intset_small:
  assumes "intset_rep is vs"
  shows "length vs < 2 ^ 31" "Suc (length vs) * is_encoding is < 2 ^ 32" "length vs < 2 ^ 32"
proof -
  have "length vs \<le> 2 ^ 28" "is_encoding is \<le> 8" using assms by (auto simp: intset_rep_def intset_max_def)
  moreover from this have "Suc (length vs) * is_encoding is \<le> (2 ^ 28 + 1) * 8" by (intro mult_le_mono) auto
  ultimately show "length vs < 2 ^ 31" "Suc (length vs) * is_encoding is < 2 ^ 32" "length vs < 2 ^ 32" by auto
qed

lemma intsetGet_rep:
  assumes "intset_rep is vs" "i < length vs" shows "intsetGet_priv is (int i) = Some (vs ! i)"
proof -
  let ?w = "is_encoding is"
  have "intsetGet_priv is (int i) = elem_read ?w (pack ?w vs) (int i)"
    using assms(1) getEncoded_width [of ?w "is" "int i"] by (simp add: intsetGet_priv_def intset_rep_def)
  moreover have "elem_read ?w (pack ?w vs) (int i) = Some (vs ! i)"
  proof -
    have "take ((i + 1) * ?w) (pack ?w vs) = pack ?w (take (i + 1) vs)" by (rule take_pack)
    moreover have "(i + 1) * ?w \<le> length (pack ?w vs)" using assms(2) by (simp del: mult_Suc add: mult_le_mono1)
    ultimately show ?thesis
      using elem_read_pack [of i ?w "pack ?w vs" "take (i + 1) vs"] assms by (simp add: intset_rep_def)
  qed
  ultimately show ?thesis by simp
qed

section \<open>Binary search\<close>

lemma intsetSearch_loop_Some:
  assumes rep: "intset_rep is vs"
    and "0 \<le> lo" "hi < int (length vs)" "lo \<le> hi + 1" "lo \<le> hi \<or> cur \<noteq> value"
    and "\<And>i. i < nat lo \<Longrightarrow> vs ! i < value" "\<And>i. hi < int i \<Longrightarrow> i < length vs \<Longrightarrow> value < vs ! i"
  shows "\<exists>lo' mid' cur'. intsetSearch_loop is value lo hi mid cur = Some (lo', mid', cur') \<and>
           (if cur' = value then 0 \<le> mid' \<and> mid' < int (length vs) \<and> vs ! nat mid' = value
            else 0 \<le> lo' \<and> lo' \<le> int (length vs) \<and> (\<forall>i < nat lo'. vs ! i < value) \<and>
                 (\<forall>i < length vs. nat lo' \<le> i \<longrightarrow> value < vs ! i))"
  using assms(2-)
proof (induction "nat (hi + 1 - lo)" arbitrary: lo hi mid cur rule: less_induct)
  case less
  show ?case
  proof (cases "lo \<le> hi")
    case False
    then have "hi = lo - 1" using less.prems(3) by simp
    then show ?thesis using less.prems False by (subst intsetSearch_loop.simps) (auto simp: Let_def)
  next
    case True
    let ?m = "(lo + hi) div 2"
    have b: "hi < 2 ^ 31" using less.prems(2) intset_small(1) [OF rep] by simp
    have "ui_add (uint_of lo) (uint_of hi) = nat (lo + hi)"
      using True less.prems(1) b by (simp add: nat_add_distrib flip: nat_less_iff)
    then have mid: "int_of_uint (ui_add (uint_of lo) (uint_of hi) div 2) = ?m"
      using True less.prems(1) b by (subst int_of_uint_eq) (auto simp: nat_div_distrib)
    have m: "lo \<le> ?m" "?m \<le> hi" using True by auto
    then have im: "nat ?m < length vs" "0 \<le> ?m" using less.prems(1,2) by auto
    let ?c = "vs ! nat ?m"
    have get: "intsetGet_priv is ?m = Some ?c" using intsetGet_rep [OF rep im(1)] im(2) by simp
    have srt: "i < j \<Longrightarrow> j < length vs \<Longrightarrow> vs ! i < vs ! j" for i j
      using rep by (simp add: intset_rep_def sorted_wrt_iff_nth_less)
    consider "?c < value" | "value < ?c" | "?c = value" by linarith
    then show ?thesis
    proof cases
      case 1
      have "\<exists>lo' mid' cur'. intsetSearch_loop is value (?m + 1) hi ?m ?c = Some (lo', mid', cur') \<and>
           (if cur' = value then 0 \<le> mid' \<and> mid' < int (length vs) \<and> vs ! nat mid' = value
            else 0 \<le> lo' \<and> lo' \<le> int (length vs) \<and> (\<forall>i < nat lo'. vs ! i < value) \<and>
                 (\<forall>i < length vs. nat lo' \<le> i \<longrightarrow> value < vs ! i))"
      proof (rule less.hyps)
        fix i assume "i < nat (?m + 1)"
        then have "i = nat ?m \<or> i < nat ?m" using im(2) by linarith
        then show "vs ! i < value" using srt [of i "nat ?m"] im(1) 1 by auto
      qed (use m im less.prems 1 True in auto)
      then show ?thesis using True mid get 1 by (subst intsetSearch_loop.simps) (simp add: Let_def)
    next
      case 2
      have "\<exists>lo' mid' cur'. intsetSearch_loop is value lo (?m - 1) ?m ?c = Some (lo', mid', cur') \<and>
           (if cur' = value then 0 \<le> mid' \<and> mid' < int (length vs) \<and> vs ! nat mid' = value
            else 0 \<le> lo' \<and> lo' \<le> int (length vs) \<and> (\<forall>i < nat lo'. vs ! i < value) \<and>
                 (\<forall>i < length vs. nat lo' \<le> i \<longrightarrow> value < vs ! i))"
      proof (rule less.hyps)
        fix i assume "?m - 1 < int i" "i < length vs"
        then have "i = nat ?m \<or> nat ?m < i" using im(2) by linarith
        then show "value < vs ! i" using srt [of "nat ?m" i] \<open>i < length vs\<close> 2 by auto
      qed (use m im less.prems 2 True in auto)
      then show ?thesis using True mid get 2 by (subst intsetSearch_loop.simps) (simp add: Let_def)
    next
      case 3
      then show ?thesis using True mid get im by (subst intsetSearch_loop.simps) (auto simp: Let_def)
    qed
  qed
qed

text \<open>The position of a value: its index when it is there, else where it belongs.\<close>

definition search_ok :: "int list \<Rightarrow> int \<Rightarrow> bool \<times> nat \<Rightarrow> bool" where
  "search_ok vs value r \<longleftrightarrow>
     (case r of (found, pos) \<Rightarrow>
        if found then pos < length vs \<and> vs ! pos = value
        else pos \<le> length vs \<and> (\<forall>i < pos. vs ! i < value) \<and>
             (\<forall>i < length vs. pos \<le> i \<longrightarrow> value < vs ! i))"

lemma intsetSearch_Some:
  assumes rep: "intset_rep is vs"
  shows "\<exists>r. intsetSearch is value = Some r \<and> search_ok vs value r"
proof (cases "vs = []")
  case True
  then show ?thesis using rep by (simp add: intsetSearch_def intset_rep_def search_ok_def)
next
  case False
  have len: "is_length is = length vs" using rep by (simp add: intset_rep_def)
  have n: "int_of_uint (ui_sub (length vs) 1) = int (length vs - 1)"
    using intset_small [OF rep] False by (simp add: Suc_le_eq)
  have last: "intsetGet_priv is (int (length vs - 1)) = Some (vs ! (length vs - 1))"
    and first: "intsetGet_priv is 0 = Some (vs ! 0)"
    using intsetGet_rep [OF rep, of "length vs - 1"] intsetGet_rep [OF rep, of 0] False by auto
  have srt: "i \<le> j \<Longrightarrow> j < length vs \<Longrightarrow> vs ! i \<le> vs ! j" for i j
    using rep by (cases "i = j") (auto simp: intset_rep_def sorted_wrt_iff_nth_less intro: less_imp_le)
  show ?thesis
  proof (cases "vs ! (length vs - 1) < value \<or> value < vs ! 0")
    case True
    then show ?thesis
    proof
      assume a: "vs ! (length vs - 1) < value"
      have "vs ! i < value" if "i < length vs" for i
      proof -
        have "i \<le> length vs - 1" "length vs - 1 < length vs" using that by auto
        then show ?thesis using srt [of i "length vs - 1"] a by simp
      qed
      then show ?thesis using a len n last False by (simp add: intsetSearch_def search_ok_def)
    next
      assume a: "value < vs ! 0"
      then have "\<not> vs ! (length vs - 1) < value" using srt [of 0 "length vs - 1"] False by simp
      moreover have "\<forall>i < length vs. value < vs ! i" using srt [of 0] a by (auto intro: less_le_trans)
      ultimately show ?thesis using a len n last first False by (simp add: intsetSearch_def search_ok_def)
    qed
  next
    case in_range: False
    obtain lo mid cur where l: "intsetSearch_loop is value 0 (int (length vs - 1)) (-1) (-1) = Some (lo, mid, cur)"
      "if cur = value then 0 \<le> mid \<and> mid < int (length vs) \<and> vs ! nat mid = value
       else 0 \<le> lo \<and> lo \<le> int (length vs) \<and> (\<forall>i < nat lo. vs ! i < value) \<and>
            (\<forall>i < length vs. nat lo \<le> i \<longrightarrow> value < vs ! i)"
      using intsetSearch_loop_Some [OF rep, of 0 "int (length vs - 1)" "-1" "value" "-1"] False by auto
    have eq: "intsetSearch is value = (if value = cur then Some (True, uint_of mid) else Some (False, uint_of lo))"
      using in_range len n last first l(1) False by (simp add: intsetSearch_def)
    show ?thesis
    proof (cases "cur = value")
      case True
      then have "uint_of mid = nat mid" using l(2) intset_small(3) [OF rep] by simp
      then show ?thesis using eq True l(2) by (auto simp: search_ok_def)
    next
      case False
      then have "uint_of lo = nat lo" using l(2) intset_small(3) [OF rep] by simp
      then show ?thesis using eq False l(2) by (auto simp: search_ok_def)
    qed
  qed
qed


section \<open>Upgrading the encoding\<close>

lemma elem_write_Some:
  assumes "(i + 1) * w \<le> length buf"
  shows "elem_write w buf (int i) v = Some (take (i * w) buf @ le_int w v @ drop ((i + 1) * w) buf)"
  using assms by (simp add: elem_write_def algebra_simps)

lemma intsetUpgrade_loop_Some:
  assumes enc: "w \<in> {2, 4, 8}" "is_encoding is \<in> {2, 4, 8}" "w \<le> is_encoding is" and n: "length vs = n" and p: "p \<le> 1"
    and fit: "\<forall>v \<in> set vs. fits w v"
    and len: "length (is_contents is) = (n + 1) * is_encoding is" and k: "k \<le> n"
    and old: "take (k * w) (is_contents is) = pack w (take k vs)"
    and new: "take ((n - k) * is_encoding is) (drop ((k + p) * is_encoding is) (is_contents is)) = pack (is_encoding is) (drop k vs)"
  shows "\<exists>buf. intsetUpgrade_loop w p k is = Some (is\<lparr>is_contents := buf\<rparr>) \<and> length buf = (n + 1) * is_encoding is \<and>
           take (n * is_encoding is) (drop (p * is_encoding is) buf) = pack (is_encoding is) vs"
  using enc(2,3) len k old new
proof (induction k arbitrary: "is")
  case 0
  then show ?case by (intro exI [of _ "is_contents is"]) simp
next
  case (Suc k)
  let ?w = "is_encoding is" and ?buf = "is_contents is"
  let ?v = "vs ! k"
  have kn: "k < n" "k < length vs" using Suc.prems(4) n by auto
  have sz: "(k + 1) * w \<le> length ?buf"
    using Suc.prems(2,3) kn by (metis add_le_mono1 less_imp_le mult_le_mono)
  have "(k + p + 1) * ?w \<le> (n + 1) * ?w" using kn p by (intro mult_le_mono1) simp
  then have room: "(k + p + 1) * ?w \<le> length ?buf" using Suc.prems(3) by simp
  have rd: "intsetGetEncoded_priv is (int k) w = Some ?v"
    using elem_read_pack [of k w ?buf "take (Suc k) vs"] Suc.prems(5) sz kn fit getEncoded_width [OF enc(1)] by simp
  let ?buf1 = "take ((k + p) * ?w) ?buf @ le_int ?w ?v @ drop ((k + p + 1) * ?w) ?buf"
  have wr: "intsetSet_priv is (int k + int p) ?v = Some (is\<lparr>is_contents := ?buf1\<rparr>)"
    using set_width [OF Suc.prems(1), of "int (k + p)"] elem_write_Some [OF room] by simp
  have l1: "length ?buf1 = (n + 1) * ?w" using room Suc.prems(3) by (auto simp: min_def algebra_simps)
  have kw: "k * w \<le> (k + p) * ?w" using Suc.prems(2) by (intro mult_le_mono) auto
  then have "k * w \<le> length (take ((k + p) * ?w) ?buf)" using room by (simp add: algebra_simps)
  then have "take (k * w) ?buf1 = take (k * w) ?buf" using kw by (simp add: min_def)
  also have "\<dots> = take (k * w) (take (Suc k * w) ?buf)" by (simp add: min_def)
  also have "\<dots> = pack w (take k vs)" unfolding Suc.prems(5) take_pack by (simp add: min_def)
  finally have old1: "take (k * w) ?buf1 = pack w (take k vs)" .
  have nk: "(n - k) * ?w = ?w + (n - Suc k) * ?w" 
  proof -
    have "n - k = Suc (n - Suc k)" using kn by simp
    then show ?thesis by (simp only: mult_Suc)
  qed
  have "drop ((k + p) * ?w) ?buf1 = le_int ?w ?v @ drop ((Suc k + p) * ?w) ?buf"
    using room by (simp add: min_def algebra_simps)
  then have "take ((n - k) * ?w) (drop ((k + p) * ?w) ?buf1) = le_int ?w ?v @ pack ?w (drop (Suc k) vs)"
    using nk Suc.prems(6) by simp
  then have new1: "take ((n - k) * ?w) (drop ((k + p) * ?w) ?buf1) = pack ?w (drop k vs)"
    using kn Cons_nth_drop_Suc [of k vs] by (metis pack_simps(2))
  have "\<exists>buf. intsetUpgrade_loop w p k (is\<lparr>is_contents := ?buf1\<rparr>) = Some (is\<lparr>is_contents := ?buf1\<rparr>\<lparr>is_contents := buf\<rparr>) \<and>
          length buf = (n + 1) * is_encoding (is\<lparr>is_contents := ?buf1\<rparr>) \<and>
          take (n * is_encoding (is\<lparr>is_contents := ?buf1\<rparr>)) (drop (p * is_encoding (is\<lparr>is_contents := ?buf1\<rparr>)) buf)
            = pack (is_encoding (is\<lparr>is_contents := ?buf1\<rparr>)) vs"
    using Suc.IH [of "is\<lparr>is_contents := ?buf1\<rparr>"] Suc.prems(1,2) l1 kn old1 new1 by simp
  then show ?case using rd wr by simp
qed

lemma out_of_range_value:
  assumes "\<not> fits w value" "\<forall>v \<in> set vs. fits w v"
  shows "value < 0 \<Longrightarrow> \<forall>v \<in> set vs. value < v" "\<not> value < 0 \<Longrightarrow> \<forall>v \<in> set vs. v < value"
proof -
  have "value < v" if "value < 0" "v \<in> set vs" for v
  proof -
    have "fits w v" using assms(2) that by simp
    moreover have "(0 :: int) < 256 ^ w" by simp
    ultimately show ?thesis using assms(1) that(1) unfolding fits_def by linarith
  qed
  then show "value < 0 \<Longrightarrow> \<forall>v \<in> set vs. value < v" by simp
  have "v < value" if "\<not> value < 0" "v \<in> set vs" for v
  proof -
    have "fits w v" using assms(2) that by simp
    moreover have "(0 :: int) < 256 ^ w" by simp
    ultimately show ?thesis using assms(1) that(1) unfolding fits_def by linarith
  qed
  then show "\<not> value < 0 \<Longrightarrow> \<forall>v \<in> set vs. v < value" by simp
qed

lemma intsetUpgradeAndAdd_Some:
  assumes rep: "intset_rep is vs" and v: "fits 8 value" "\<not> fits (is_encoding is) value" and room: "length vs < intset_max"
  shows "\<exists>is'. intsetUpgradeAndAdd junk is value = Some is' \<and>
           intset_rep is' (if value < 0 then value # vs else vs @ [value])"
proof -
  let ?w = "is_encoding is" and ?u = "intsetValueEncoding_priv value" and ?n = "length vs"
  let ?p = "if value < 0 then 1 else 0 :: nat"
  have w: "?w \<in> {2, 4, 8}" and len: "is_length is = ?n" and c: "is_contents is = pack ?w vs"
    and fit: "\<forall>v \<in> set vs. fits ?w v" and srt: "sorted_wrt (<) vs"
    using rep by (auto simp: intset_rep_def)
  have u: "?u \<in> {2, 4, 8}" by (rule valenc_cases)
  have wu: "?w \<le> ?u" using valenc_le_iff [OF w v(1)] v(2) by linarith
  have fu: "fits ?u value" using valenc_le_iff [OF u v(1)] by simp
  have n: "ui_add ?n 1 = ?n + 1" using intset_small [OF rep] by simp
  have "(?n + 1) * ?u \<le> (2 ^ 28 + 1) * 8" using room u by (intro mult_le_mono) (auto simp: intset_max_def)
  then have s: "((?n + 1) * ?u) mod 2 ^ 32 = (?n + 1) * ?u" by (intro mod_less) simp
  let ?is = "is\<lparr>is_encoding := ?u, is_contents := zrealloc junk (pack ?w vs) ((?n + 1) * ?u)\<rparr>"
  have nw: "?n * ?w \<le> (?n + 1) * ?u" using wu by (intro mult_le_mono) auto
  have "\<exists>buf. intsetUpgrade_loop ?w ?p ?n ?is = Some (?is\<lparr>is_contents := buf\<rparr>) \<and> length buf = (?n + 1) * is_encoding ?is \<and>
           take (?n * is_encoding ?is) (drop (?p * is_encoding ?is) buf) = pack (is_encoding ?is) vs"
    by (rule intsetUpgrade_loop_Some) (use w u wu fit nw in auto)
  then obtain buf where buf: "intsetUpgrade_loop ?w ?p ?n ?is = Some (?is\<lparr>is_contents := buf\<rparr>)"
    "length buf = (?n + 1) * ?u" "take (?n * ?u) (drop (?p * ?u) buf) = pack ?u vs" by auto
  let ?final = "if value < 0 then value # vs else vs @ [value]"
  have set: "(if value < 0 then intsetSet_priv (?is\<lparr>is_contents := buf\<rparr>) 0 value
              else intsetSet_priv (?is\<lparr>is_contents := buf\<rparr>) (int_of_uint ?n) value)
      = Some (?is\<lparr>is_contents := pack ?u ?final\<rparr>)"
  proof (cases "value < 0")
    case True
    have "elem_write ?u buf 0 value = Some (le_int ?u value @ drop ?u buf)"
      using elem_write_Some [of 0 ?u buf "value"] buf(2) by simp
    moreover have "drop ?u buf = pack ?u vs" using buf(2,3) True by simp
    ultimately show ?thesis using True u set_width [of "?is\<lparr>is_contents := buf\<rparr>"] by simp
  next
    case False
    have "elem_write ?u buf (int ?n) value = Some (pack ?u vs @ le_int ?u value)"
      using elem_write_Some [of ?n ?u buf "value"] buf(2,3) False by simp
    moreover have "int_of_uint ?n = int ?n" using intset_small [OF rep] by simp
    ultimately show ?thesis using False u set_width [of "?is\<lparr>is_contents := buf\<rparr>"] by simp
  qed
  have "intsetUpgradeAndAdd junk is value = Some (?is\<lparr>is_contents := pack ?u ?final, is_length := ?n + 1\<rparr>)"
    using buf(1) set n s len c by (simp add: intsetUpgradeAndAdd_def intsetResize_def Let_def split: if_splits)
  moreover have "intset_rep (?is\<lparr>is_contents := pack ?u ?final, is_length := ?n + 1\<rparr>) ?final"
    using u room srt fu fits_mono [OF _ wu] fit out_of_range_value [OF v(2) fit]
    by (auto simp: intset_rep_def sorted_wrt_append)
  ultimately show ?thesis by blast
qed


section \<open>Insertion and deletion\<close>

lemma search_ok_mem: "sorted_wrt (<) vs \<Longrightarrow> search_ok vs x (found, pos) \<Longrightarrow> found \<longleftrightarrow> x \<in> set vs"
proof (cases found)
  case True
  moreover assume "search_ok vs x (found, pos)"
  ultimately show ?thesis by (auto simp: search_ok_def)
next
  case False
  moreover assume "search_ok vs x (found, pos)"
  ultimately have "vs ! i \<noteq> x" if "i < length vs" for i
    using that by (cases "i < pos") (force simp: search_ok_def)+
  then show ?thesis using False by (auto simp: in_set_conv_nth)
qed

lemma intset_bytes: "intset_rep is vs \<Longrightarrow> k \<le> length vs \<Longrightarrow> k * is_encoding is < 2 ^ 32"
proof -
  assume "intset_rep is vs" "k \<le> length vs"
  then show ?thesis using intset_small(2) [of "is" vs] mult_le_mono1 [of k "Suc (length vs)" "is_encoding is"] by linarith
qed

lemma search_ok_insert:
  assumes "sorted_wrt (<) vs" "search_ok vs x (False, pos)"
  shows "sorted_wrt (<) (take pos vs @ x # drop pos vs)"
proof -
  have "\<forall>a \<in> set (take pos vs). a < x" "\<forall>b \<in> set (drop pos vs). x < b"
    using assms(2) by (auto simp: search_ok_def in_set_conv_nth)
  moreover have "sorted_wrt (<) (take pos vs @ drop pos vs)" using assms(1) by simp
  ultimately show ?thesis by (fastforce simp: sorted_wrt_append simp del: append_take_drop_id)
qed

lemma pack_split: "pos \<le> length vs \<Longrightarrow> pack w vs = pack w (take pos vs) @ pack w (drop pos vs)"
  by (metis append_take_drop_id pack_simps(3))

lemma intset_insert_bytes:
  assumes "pos \<le> length vs" "length buf = (length vs + 1) * w" "take (length vs * w) buf = pack w vs"
  shows "take (pos * w) (take ((pos + 1) * w) buf @ pack w (drop pos vs)) @ le_int w v @
         drop ((pos + 1) * w) (take ((pos + 1) * w) buf @ pack w (drop pos vs))
       = pack w (take pos vs @ v # drop pos vs)"
proof -
  have p: "pos * w \<le> length vs * w" "(pos + 1) * w \<le> length buf" using assms(1,2) by (auto intro: mult_le_mono1)
  have "take (pos * w) buf = take (pos * w) (take (length vs * w) buf)" using p(1) by (simp add: min_def)
  then have "take (pos * w) buf = pack w (take pos vs)" unfolding assms(3) take_pack .
  moreover have "take (pos * w) (take ((pos + 1) * w) buf) = take (pos * w) buf" by (simp add: min_def)
  moreover have "length (take ((pos + 1) * w) buf) = (pos + 1) * w" using p(2) by simp
  ultimately show ?thesis using p by simp
qed

lemma intsetAdd_insert:
  assumes rep: "intset_rep is vs" and v: "fits (is_encoding is) v" "fits 8 v" and room: "length vs < intset_max"
    and s: "intsetSearch is v = Some (False, pos)" "search_ok vs v (False, pos)"
  shows "\<exists>is'. intsetAdd junk is v = Some (is', True) \<and> intset_rep is' (take pos vs @ v # drop pos vs)"
proof -
  let ?w = "is_encoding is" and ?n = "length vs"
  have w: "?w \<in> {2, 4, 8}" and len: "is_length is = ?n" and c: "is_contents is = pack ?w vs"
    and fit: "\<forall>v \<in> set vs. fits ?w v" and srt: "sorted_wrt (<) vs"
    using rep by (auto simp: intset_rep_def)
  have pos: "pos \<le> ?n" using s(2) by (simp add: search_ok_def)
  note small = intset_small [OF rep]
  let ?buf = "zrealloc junk (pack ?w vs) ((?n + 1) * ?w)"
  let ?is = "is\<lparr>is_contents := ?buf\<rparr>"
  have buf: "length ?buf = (?n + 1) * ?w" "take (?n * ?w) ?buf = pack ?w vs" by simp_all
  have n: "ui_add ?n 1 = ?n + 1" "ui_add pos 1 = pos + 1" "int_of_uint pos = int pos" using small pos by auto
  have r: "intsetResize junk is (?n + 1) = ?is"
    using small(2) c by (simp add: intsetResize_def Let_def)
  let ?mid = "if pos < ?n then take ((pos + 1) * ?w) ?buf @ pack ?w (drop pos vs) else ?buf"
  have mv: "(if pos < ?n then intsetMoveTail ?is pos (pos + 1) else Some ?is) = Some (is\<lparr>is_contents := ?mid\<rparr>)"
  proof (cases "pos < ?n")
    case True
    have bytes: "(?n - pos) * ?w < 2 ^ 32" using intset_bytes [OF rep] by simp
    have e: "pos * ?w + (?n - pos) * ?w = ?n * ?w" "(pos + 1) * ?w + (?n - pos) * ?w = (?n + 1) * ?w"
      using True by (simp_all flip: add_mult_distrib)
    have "take ((?n - pos) * ?w) (drop (pos * ?w) ?buf) = drop (pos * ?w) (take (?n * ?w) ?buf)"
      by (simp only: drop_take diff_mult_distrib)
    also have "\<dots> = pack ?w (drop pos vs)" unfolding buf(2) by (rule drop_pack)
    finally have "mem_move ?buf ((pos + 1) * ?w) (pos * ?w) ((?n - pos) * ?w) = Some (take ((pos + 1) * ?w) ?buf @ pack ?w (drop pos vs))"
      using e buf(1) by (subst mem_move_Some) simp_all
    moreover have "ui_sub ?n pos = ?n - pos" using True small by simp
    ultimately show ?thesis
      using True w len bytes move_width [of ?is pos "pos + 1"] by simp
  qed simp
  have mid: "length ?mid = (?n + 1) * ?w"
    using buf(1) by (simp add: min_def diff_mult_distrib algebra_simps)
  have pw: "(pos + 1) * ?w \<le> length ?mid" unfolding mid using pos by (intro mult_le_mono1) simp
  have "take (pos * ?w) ?mid @ le_int ?w v @ drop ((pos + 1) * ?w) ?mid = pack ?w (take pos vs @ v # drop pos vs)"
  proof (cases "pos < ?n")
    case True
    then show ?thesis using intset_insert_bytes [OF pos buf] by simp
  next
    case False
    then show ?thesis using pos buf by simp
  qed
  then have set: "intsetSet_priv (is\<lparr>is_contents := ?mid\<rparr>) (int pos) v = Some (is\<lparr>is_contents := pack ?w (take pos vs @ v # drop pos vs)\<rparr>)"
    using set_width [of "is\<lparr>is_contents := ?mid\<rparr>" "int pos" v] w elem_write_Some [OF pw, of v] by simp
  have "intsetAdd junk is v =
      Option.bind (if pos < ?n then intsetMoveTail ?is pos (pos + 1) else Some ?is)
        (\<lambda>is. Option.bind (intsetSet_priv is (int pos) v) (\<lambda>is. Some (is\<lparr>is_length := ui_add (is_length is) 1\<rparr>, True)))"
    using valenc_le_iff [OF w v(2)] v(1) s(1) len n r by (simp add: intsetAdd_def Let_def split del: if_split cong: if_cong)
  also have "\<dots> = Some (is\<lparr>is_contents := pack ?w (take pos vs @ v # drop pos vs), is_length := ?n + 1\<rparr>, True)"
    unfolding mv Option.bind.simps set using len n(1) by simp
  finally have "intsetAdd junk is v = Some (is\<lparr>is_contents := pack ?w (take pos vs @ v # drop pos vs), is_length := ?n + 1\<rparr>, True)" .
  moreover have "intset_rep (is\<lparr>is_contents := pack ?w (take pos vs @ v # drop pos vs), is_length := ?n + 1\<rparr>) (take pos vs @ v # drop pos vs)"
    using w room fit v(1) search_ok_insert [OF srt s(2)] pos
    by (auto simp: intset_rep_def dest: in_set_takeD in_set_dropD)
  ultimately show ?thesis by blast
qed

lemma intsetRemove_delete:
  assumes rep: "intset_rep is vs" and v: "fits (is_encoding is) v" "fits 8 v"
    and s: "intsetSearch is v = Some (True, pos)" "search_ok vs v (True, pos)"
  shows "\<exists>is'. intsetRemove junk is v = Some (is', True) \<and> intset_rep is' (take pos vs @ drop (pos + 1) vs)"
proof -
  let ?w = "is_encoding is" and ?n = "length vs"
  have w: "?w \<in> {2, 4, 8}" and len: "is_length is = ?n" and c: "is_contents is = pack ?w vs"
    and fit: "\<forall>v \<in> set vs. fits ?w v" and srt: "sorted_wrt (<) vs" and mx: "?n \<le> intset_max"
    using rep by (auto simp: intset_rep_def)
  have pos: "pos < ?n" using s(2) by (simp add: search_ok_def)
  note small = intset_small [OF rep]
  have n: "ui_sub ?n 1 = ?n - 1" "ui_add pos 1 = pos + 1" "ui_sub ?n (pos + 1) = ?n - (pos + 1)" using small pos by auto
  let ?rest = "take pos vs @ drop (pos + 1) vs"
  let ?mid = "if pos < ?n - 1 then pack ?w ?rest @ drop ((?n - 1) * ?w) (pack ?w vs) else pack ?w vs"
  have mv: "(if pos < ?n - 1 then intsetMoveTail is (pos + 1) pos else Some is) = Some (is\<lparr>is_contents := ?mid\<rparr>)"
  proof (cases "pos < ?n - 1")
    case True
    let ?k = "?n - (pos + 1)"
    have bytes: "?k * ?w < 2 ^ 32" using intset_bytes [OF rep] by simp
    have e: "(pos + 1) * ?w + ?k * ?w = ?n * ?w" "pos * ?w + ?k * ?w = (?n - 1) * ?w"
    proof -
      have "(pos + 1) + ?k = ?n" "pos + ?k = ?n - 1" using True by auto
      then show "(pos + 1) * ?w + ?k * ?w = ?n * ?w" "pos * ?w + ?k * ?w = (?n - 1) * ?w"
        by (metis add_mult_distrib)+
    qed
    have "take (?k * ?w) (drop ((pos + 1) * ?w) (pack ?w vs)) = pack ?w (drop (pos + 1) vs)"
      unfolding drop_pack take_pack by simp
    moreover have "(?n - 1) * ?w \<le> ?n * ?w" by simp
    ultimately have "mem_move (pack ?w vs) (pos * ?w) ((pos + 1) * ?w) (?k * ?w) = Some (pack ?w ?rest @ drop ((?n - 1) * ?w) (pack ?w vs))"
      using e by (subst mem_move_Some) (simp_all add: take_pack)
    then show ?thesis using True w len c bytes n(3) move_width [of "is" "pos + 1" pos] by simp
  next
    case False
    then show ?thesis using c by simp
  qed
  have "length ?rest = ?n - 1" using pos by simp
  then have lr: "length (pack ?w ?rest) = (?n - 1) * ?w" by (simp only: length_pack)
  have "take ((?n - 1) * ?w) ?mid = pack ?w ?rest"
  proof (cases "pos < ?n - 1")
    case True
    then show ?thesis using lr by simp
  next
    case False
    then have "pos = ?n - 1" using pos by simp
    then show ?thesis using pos by (simp add: take_pack)
  qed
  moreover have "(?n - 1) * ?w < 2 ^ 32" using intset_bytes [OF rep] by simp
  moreover have "length ?mid \<ge> (?n - 1) * ?w" using lr by (cases "pos < ?n - 1") (auto simp del: pack_simps)
  ultimately have "intsetResize junk (is\<lparr>is_contents := ?mid\<rparr>) (?n - 1) = is\<lparr>is_contents := pack ?w ?rest\<rparr>"
    by (simp add: intsetResize_def Let_def zrealloc_shrink)
  then have rs: "intsetResize junk (is\<lparr>is_contents := ?mid\<rparr>) (?n - 1) = is\<lparr>is_contents := pack ?w ?rest\<rparr>" .
  have "intsetRemove junk is v =
      Option.bind (if pos < ?n - 1 then intsetMoveTail is (pos + 1) pos else Some is)
        (\<lambda>is. Some ((intsetResize junk is (?n - 1))\<lparr>is_length := ?n - 1\<rparr>, True))"
    using valenc_le_iff [OF w v(2)] v(1) s(1) len n by (simp add: intsetRemove_def Let_def split del: if_split cong: if_cong)
  also have "\<dots> = Some (is\<lparr>is_contents := pack ?w ?rest, is_length := ?n - 1\<rparr>, True)"
    unfolding mv Option.bind.simps rs by simp
  finally have "intsetRemove junk is v = Some (is\<lparr>is_contents := pack ?w ?rest, is_length := ?n - 1\<rparr>, True)" .
  moreover have "sorted_wrt (<) ?rest"
  proof -
    have "sorted_wrt (<) (take pos vs @ vs ! pos # drop (Suc pos) vs)"
      using srt id_take_nth_drop [OF pos] by simp
    then show ?thesis by (simp add: sorted_wrt_append)
  qed
  ultimately show ?thesis using w fit mx pos
    by (intro exI [of _ "is\<lparr>is_contents := pack ?w ?rest, is_length := ?n - 1\<rparr>"])
       (auto simp: intset_rep_def dest: in_set_takeD in_set_dropD)
qed

section \<open>Refinement of sets\<close>

lemma intsetAdd_rep:
  assumes rep: "intset_rep is vs" and v: "fits 8 v" and room: "length vs < intset_max"
  shows "\<exists>is' vs'. intsetAdd junk is v = Some (is', v \<notin> set vs) \<and> intset_rep is' vs' \<and> set vs' = insert v (set vs)"
proof (cases "fits (is_encoding is) v")
  case False
  have w: "is_encoding is \<in> {2, 4, 8}" using rep by (simp add: intset_rep_def)
  obtain is' where "intsetUpgradeAndAdd junk is v = Some is'" "intset_rep is' (if v < 0 then v # vs else vs @ [v])"
    using intsetUpgradeAndAdd_Some [OF rep v False room] by blast
  moreover have "v \<notin> set vs" using False rep by (auto simp: intset_rep_def)
  moreover have "intsetValueEncoding_priv v > is_encoding is" using valenc_le_iff [OF w v] False by linarith
  ultimately show ?thesis
    by (intro exI [of _ is'] exI [of _ "if v < 0 then v # vs else vs @ [v]"]) (simp add: intsetAdd_def)
next
  case True
  have w: "is_encoding is \<in> {2, 4, 8}" and srt: "sorted_wrt (<) vs" using rep by (auto simp: intset_rep_def)
  obtain found pos where s: "intsetSearch is v = Some (found, pos)" "search_ok vs v (found, pos)"
    using intsetSearch_Some [OF rep, of v] by (metis surj_pair)
  note mem = search_ok_mem [OF srt s(2)]
  show ?thesis
  proof (cases found)
    case f: True
    have "intsetAdd junk is v = Some (is, False)"
      using valenc_le_iff [OF w v] True s(1) f by (simp add: intsetAdd_def)
    then show ?thesis using rep mem f by auto
  next
    case f: False
    obtain is' where "intsetAdd junk is v = Some (is', True)" "intset_rep is' (take pos vs @ v # drop pos vs)"
      using intsetAdd_insert [OF rep True v room, of pos junk] s f by auto
    moreover have "set (take pos vs @ v # drop pos vs) = insert v (set vs)"
      using set_append [of "take pos vs" "drop pos vs"] by auto
    ultimately show ?thesis using mem f by auto
  qed
qed

lemma intsetRemove_rep:
  assumes rep: "intset_rep is vs" and v: "fits 8 v"
  shows "\<exists>is' vs'. intsetRemove junk is v = Some (is', v \<in> set vs) \<and> intset_rep is' vs' \<and> set vs' = set vs - {v}"
proof -
  have w: "is_encoding is \<in> {2, 4, 8}" and srt: "sorted_wrt (<) vs" using rep by (auto simp: intset_rep_def)
  obtain found pos where s: "intsetSearch is v = Some (found, pos)" "search_ok vs v (found, pos)"
    using intsetSearch_Some [OF rep, of v] by (metis surj_pair)
  note mem = search_ok_mem [OF srt s(2)]
  have fit: "found \<Longrightarrow> fits (is_encoding is) v" using mem rep by (auto simp: intset_rep_def)
  show ?thesis
  proof (cases found)
    case False
    then have "intsetRemove junk is v = Some (is, False)" using s(1) by (simp add: intsetRemove_def)
    then show ?thesis using rep mem False by auto
  next
    case True
    obtain is' where r: "intsetRemove junk is v = Some (is', True)" "intset_rep is' (take pos vs @ drop (pos + 1) vs)"
      using intsetRemove_delete [OF rep fit v, of pos junk] s True by auto
    have pos: "pos < length vs" "vs ! pos = v" using s(2) True by (auto simp: search_ok_def)
    then have vs: "vs = take pos vs @ v # drop (Suc pos) vs" using id_take_nth_drop by metis
    have "distinct vs" using srt strict_sorted_iff by blast
    then have "v \<notin> set (take pos vs @ drop (Suc pos) vs)" by (subst (asm) vs) auto
    moreover have "set vs = insert v (set (take pos vs @ drop (Suc pos) vs))" by (subst vs) auto
    ultimately have "set (take pos vs @ drop (pos + 1) vs) = set vs - {v}" by auto
    then show ?thesis using r mem True by auto
  qed
qed

lemma intsetFind_rep:
  assumes rep: "intset_rep is vs" and v: "fits 8 v"
  shows "intsetFind is v = Some (v \<in> set vs)"
proof -
  have w: "is_encoding is \<in> {2, 4, 8}" and srt: "sorted_wrt (<) vs" using rep by (auto simp: intset_rep_def)
  obtain found pos where s: "intsetSearch is v = Some (found, pos)" "search_ok vs v (found, pos)"
    using intsetSearch_Some [OF rep, of v] by (metis surj_pair)
  have "\<not> fits (is_encoding is) v \<Longrightarrow> v \<notin> set vs" using rep by (auto simp: intset_rep_def)
  then show ?thesis using search_ok_mem [OF srt s(2)] s(1) valenc_le_iff [OF w v] by (auto simp: intsetFind_def)
qed

lemma intset_rep_sorted: "intset_rep is vs \<Longrightarrow> vs = sorted_list_of_set (set vs)"
  by (auto simp: intset_rep_def strict_sorted_iff sorted_list_of_set.idem_if_sorted_distinct)

lemma intsetGet_rep_pos:
  "intset_rep is vs \<Longrightarrow> intsetGet is i = Some (if i < length vs then Some (vs ! i) else None)"
proof -
  assume rep: "intset_rep is vs"
  have "i < length vs \<Longrightarrow> int_of_uint i = int i" using intset_small(1) [OF rep] by simp
  then show ?thesis using rep intsetGet_rep [OF rep, of i] by (simp add: intsetGet_def intset_rep_def)
qed

definition intset_elems :: "intset \<Rightarrow> int list" where
  "intset_elems is = map (\<lambda>i. the (intsetGet_priv is (int i))) [0..<is_length is]"

lemma intset_elems_rep: "intset_rep is vs \<Longrightarrow> intset_elems is = vs"
  using intsetGet_rep [of "is" vs] by (intro nth_equalityI) (auto simp: intset_elems_def intset_rep_def)

datatype intset_op = ISAdd int | ISRemove int | ISFind int | ISGet nat | ISLen

datatype intset_res = ISBool bool | ISVal "int option" | ISNat nat

fun intset_do :: "(nat \<Rightarrow> byte) \<Rightarrow> intset \<Rightarrow> intset_op \<Rightarrow> (intset \<times> intset_res) option" where
  "intset_do junk is (ISAdd v) = map_option (\<lambda>(is, b). (is, ISBool b)) (intsetAdd junk is v)"
| "intset_do junk is (ISRemove v) = map_option (\<lambda>(is, b). (is, ISBool b)) (intsetRemove junk is v)"
| "intset_do junk is (ISFind v) = map_option (\<lambda>b. (is, ISBool b)) (intsetFind is v)"
| "intset_do junk is (ISGet i) = map_option (\<lambda>r. (is, ISVal r)) (intsetGet is i)"
| "intset_do junk is ISLen = Some (is, ISNat (intsetLen is))"

fun set_do :: "int set \<Rightarrow> intset_op \<Rightarrow> int set \<times> intset_res" where
  "set_do S (ISAdd v) = (insert v S, ISBool (v \<notin> S))"
| "set_do S (ISRemove v) = (S - {v}, ISBool (v \<in> S))"
| "set_do S (ISFind v) = (S, ISBool (v \<in> S))"
| "set_do S (ISGet i) = (S, ISVal (if i < card S then Some (sorted_list_of_set S ! i) else None))"
| "set_do S ISLen = (S, ISNat (card S))"

fun set_ok :: "int set \<Rightarrow> intset_op \<Rightarrow> bool" where
  "set_ok S (ISAdd v) = (fits 8 v \<and> card S < intset_max)"
| "set_ok S (ISRemove v) = fits 8 v"
| "set_ok S (ISFind v) = fits 8 v"
| "set_ok S _ = True"

lemma intset_do_sim:
  assumes rep: "intset_rep is vs" and ok: "set_ok (set vs) x"
  shows "\<exists>is' vs'. intset_do junk is x = Some (is', snd (set_do (set vs) x)) \<and> intset_rep is' vs' \<and>
           set vs' = fst (set_do (set vs) x)"
proof -
  have "distinct vs" using rep by (auto simp: intset_rep_def strict_sorted_iff)
  then have card: "card (set vs) = length vs" by (rule distinct_card)
  show ?thesis
  proof (cases x)
    case (ISAdd v)
    then show ?thesis using intsetAdd_rep [OF rep, of v junk] ok card by auto
  next
    case (ISRemove v)
    then show ?thesis using intsetRemove_rep [OF rep, of v junk] ok by auto
  next
    case (ISFind v)
    then show ?thesis using intsetFind_rep [OF rep, of v] ok rep by auto
  next
    case (ISGet i)
    then show ?thesis using intsetGet_rep_pos [OF rep, of i] intset_rep_sorted [OF rep] rep card by auto
  next
    case ISLen
    then show ?thesis using rep card by (auto simp: intsetLen_def intset_rep_def)
  qed
qed

interpretation intset_sim: simulation "\<lambda>is. \<exists>vs. intset_rep is vs" "\<lambda>is. set (intset_elems is)" "intset_do junk" set_do set_ok
proof
  fix "is" :: intset and x
  assume "\<exists>vs. intset_rep is vs" and ok: "set_ok (set (intset_elems is)) x"
  then obtain vs where rep: "intset_rep is vs" by blast
  obtain is' vs' where "intset_do junk is x = Some (is', snd (set_do (set vs) x))" "intset_rep is' vs'"
    "set vs' = fst (set_do (set vs) x)"
    using intset_do_sim [OF rep, of x junk] ok intset_elems_rep [OF rep] by auto
  then show "\<exists>s'. intset_do junk is x = Some (s', snd (set_do (set (intset_elems is)) x)) \<and>
      (\<exists>vs. intset_rep s' vs) \<and> set (intset_elems s') = fst (set_do (set (intset_elems is)) x)"
    using intset_elems_rep [OF rep] intset_elems_rep by metis
qed

lemma intsetNew_rep: "intset_rep intsetNew []"
  by (simp add: intset_rep_def intsetNew_def enc_defs)

section \<open>Properties\<close>

text \<open>
  C9.  Every sequence of \<open>intsetAdd\<close>, \<open>intsetRemove\<close>, \<open>intsetFind\<close>, \<open>intsetGet\<close> and \<open>intsetLen\<close>
  calls on 64-bit values, starting from \<open>intsetNew\<close>, returns what the same operations on a
  mathematical set of integers return (with \<open>intsetGet\<close> indexing the elements in increasing order),
  and never reads or writes outside the allocated block, whatever the fresh bytes of the reallocated
  block contain.
\<close>

theorem intset_refines_set:
  assumes "run_ok set_do set_ok {} ops"
  shows "\<exists>is. run_ops (intset_do junk) intsetNew ops = Some (is, snd (run_spec set_do {} ops)) \<and>
           set (intset_elems is) = fst (run_spec set_do {} ops)"
  using intset_sim.run_sim [of intsetNew ops junk] intsetNew_rep intset_elems_rep [OF intsetNew_rep] assms by auto

theorem intset_refines_set_witness:
  "\<exists>is. run_ops (intset_do (\<lambda>i. 7)) intsetNew [ISAdd 5, ISAdd (-70000), ISAdd 5, ISFind 5, ISRemove 5, ISLen]
     = Some (is, [ISBool True, ISBool True, ISBool False, ISBool True, ISBool True, ISNat 1]) \<and>
     set (intset_elems is) = {-70000}"
  using intset_refines_set [of "[ISAdd 5, ISAdd (-70000), ISAdd 5, ISFind 5, ISRemove 5, ISLen]" "\<lambda>i. 7"]
  by (simp add: fits_def intset_max_def Let_def insert_commute)

text \<open>
  C28.  Binary search: on a set that holds the increasing values \<open>vs\<close>, \<open>intsetSearch\<close> terminates and
  returns the index of the value when it is a member, and otherwise the position that keeps the
  order; the midpoint computed in \<open>unsigned int\<close> does not overflow.
\<close>

theorem intsetSearch_correct:
  assumes "intset_rep is vs"
  shows "\<exists>found pos. intsetSearch is v = Some (found, pos) \<and>
     (if found then pos < length vs \<and> vs ! pos = v
      else pos \<le> length vs \<and> (\<forall>x \<in> set (take pos vs). x < v) \<and> (\<forall>x \<in> set (drop pos vs). v < x))"
  using intsetSearch_Some [OF assms, of v]
  by (force simp: search_ok_def in_set_conv_nth)

theorem intsetSearch_correct_witness:
  "\<exists>found pos. intsetSearch \<lparr>is_encoding = 2, is_length = 2, is_contents = pack 2 [1, 5]\<rparr> 3 = Some (found, pos) \<and>
     (if found then pos < length [1, 5 :: int] \<and> [1, 5] ! pos = (3 :: int)
      else pos \<le> length [1, 5 :: int] \<and> (\<forall>x \<in> set (take pos [1, 5]). x < (3 :: int)) \<and> (\<forall>x \<in> set (drop pos [1, 5]). (3 :: int) < x))"
  by (rule intsetSearch_correct) (simp add: intset_rep_def fits_def intset_max_def)

text \<open>
  C29.  Upgrading the encoding in place: when a value does not fit the current width, every old
  element is rewritten at the new width without being overwritten first, and the value goes to the
  front when it is negative and to the end otherwise, so the block holds exactly the old elements and
  the new one, in order, at the new width.
\<close>

theorem intsetUpgradeAndAdd_correct:
  assumes "intset_rep is vs" "fits 8 v" "\<not> fits (is_encoding is) v" "length vs < intset_max"
  shows "\<exists>is'. intsetUpgradeAndAdd junk is v = Some is' \<and>
           intset_rep is' (if v < 0 then v # vs else vs @ [v]) \<and>
           is_contents is' = pack (intsetValueEncoding_priv v) (if v < 0 then v # vs else vs @ [v])"
proof -
  obtain is' where r: "intsetUpgradeAndAdd junk is v = Some is'" "intset_rep is' (if v < 0 then v # vs else vs @ [v])"
    using intsetUpgradeAndAdd_Some [OF assms] by blast
  have enc: "intsetSet_priv a p x = Some b \<Longrightarrow> is_encoding b = is_encoding a" for a b p x
    by (auto simp: intsetSet_priv_def bind_eq_Some_conv)
  have "intsetUpgrade_loop w p k a = Some b \<Longrightarrow> is_encoding b = is_encoding a" for w p k a b
    by (induction k arbitrary: a) (auto simp: bind_eq_Some_conv dest: enc)
  then have "is_encoding is' = intsetValueEncoding_priv v"
    using r(1) by (auto simp: intsetUpgradeAndAdd_def intsetResize_def Let_def bind_eq_Some_conv split: if_splits dest!: enc)
  then show ?thesis using r by (simp add: intset_rep_def)
qed

theorem intsetUpgradeAndAdd_correct_witness:
  "\<exists>is'. intsetUpgradeAndAdd (\<lambda>i. 7) \<lparr>is_encoding = 2, is_length = 2, is_contents = pack 2 [1, 5]\<rparr> (-70000) = Some is' \<and>
     intset_rep is' [-70000, 1, 5] \<and> is_contents is' = pack 4 [-70000, 1, 5]"
proof -
  have "intset_rep \<lparr>is_encoding = 2, is_length = 2, is_contents = pack 2 [1, 5]\<rparr> [1, 5]"
    by (simp add: intset_rep_def fits_def intset_max_def)
  moreover have "intsetValueEncoding_priv (-70000) = 4" by (simp add: intsetValueEncoding_priv_def enc_defs)
  ultimately show ?thesis
    using intsetUpgradeAndAdd_correct [of "\<lparr>is_encoding = 2, is_length = 2, is_contents = pack 2 [1, 5]\<rparr>" "[1, 5]" "-70000" "\<lambda>i. 7"]
    by (simp add: fits_def intset_max_def)
qed

end
