(* ===== verification/Adlist.thy ===== *)
theory Adlist
  imports Refinement
begin

text \<open>
  The doubly linked lists of \<open>adlist.c\<close> on an explicit heap.  A pointer is an address or NULL
  (\<open>None\<close>), the heap maps the addresses of allocated nodes to their contents, and an access through
  NULL or to a freed node is undefined behaviour.  \<open>alloc\<close> stands for \<open>zmalloc\<close>: the address it
  returns for the next node, a function of the heap; all that is relied on is that it is not in use.
  (\<open>zmalloc\<close> never returns NULL: it aborts the process instead.)  The structures \<open>list\<close> and \<open>listIter\<close>
  are values, and the memory they occupy is accounted for by events: an operation that allocates or
  releases one of them, or calls the \<open>free\<close> method on a value, returns the events in the order in which
  they happen.
\<close>

section \<open>Data\<close>

type_synonym ptr = "nat option"

record 'a listNode =
  nd_prev :: ptr
  nd_next :: ptr
  nd_value :: 'a

type_synonym 'a heap = "nat \<rightharpoonup> 'a listNode"

record 'a adlist =
  l_head :: ptr
  l_tail :: ptr
  l_dup :: "('a \<Rightarrow> 'a option) option"
  l_free :: "('a \<Rightarrow> unit) option"
  l_match :: "('a \<Rightarrow> 'a \<Rightarrow> bool) option"
  l_len :: nat

datatype al_direction = AL_START_HEAD | AL_START_TAIL

record listIter =
  it_next :: ptr
  it_direction :: al_direction

text \<open>
  The events: \<open>zmalloc\<close> and \<open>zfree\<close> of a \<open>list\<close> and of a \<open>listIter\<close>, and a call of the \<open>free\<close> method.
\<close>

datatype 'a mem_event = NewList | FreeList | NewIter | FreeIter | FreeValue 'a

definition call_free :: "'a adlist \<Rightarrow> 'a \<Rightarrow> 'a mem_event list" where
  "call_free l value = (if l_free l \<noteq> None then [FreeValue value] else [])"

text \<open>Access through a pointer: \<open>p->field\<close> and \<open>p->field = v\<close>.\<close>

definition deref :: "'a heap \<Rightarrow> ptr \<Rightarrow> 'a listNode option" where
  "deref h p = (case p of None \<Rightarrow> None | Some a \<Rightarrow> h a)"

definition assign :: "'a heap \<Rightarrow> ptr \<Rightarrow> ('a listNode \<Rightarrow> 'a listNode) \<Rightarrow> 'a heap option" where
  "assign h p f = (case p of None \<Rightarrow> None | Some a \<Rightarrow> map_option (\<lambda>nd. h(a \<mapsto> f nd)) (h a))"

section \<open>The code\<close>

definition listCreate :: "'a adlist \<times> 'a mem_event list" where
  "listCreate = (\<lparr>l_head = None, l_tail = None, l_dup = None, l_free = None, l_match = None, l_len = 0\<rparr>, [NewList])"

text \<open>\<open>while (len--)\<close>: free the nodes from \<open>current\<close> on, and their values if there is a \<open>free\<close> method.\<close>

primrec listRelease_loop :: "'a adlist \<Rightarrow> nat \<Rightarrow> 'a heap \<Rightarrow> ptr \<Rightarrow> ('a heap \<times> 'a mem_event list) option" where
  "listRelease_loop l 0 h current = Some (h, [])"
| "listRelease_loop l (Suc len) h current = do {
     nd \<leftarrow> deref h current;
     r \<leftarrow> listRelease_loop l len (h(the current := None)) (nd_next nd);
     Some (fst r, call_free l (nd_value nd) @ snd r) }"

definition listRelease :: "'a heap \<Rightarrow> 'a adlist \<Rightarrow> ('a heap \<times> 'a mem_event list) option" where
  "listRelease h l = do {
     r \<leftarrow> listRelease_loop l (l_len l) h (l_head l);
     Some (fst r, snd r @ [FreeList]) }"

definition listAddNodeHead ::
    "('a heap \<Rightarrow> nat) \<Rightarrow> 'a heap \<Rightarrow> 'a adlist \<Rightarrow> 'a \<Rightarrow> ('a heap \<times> 'a adlist) option" where
  "listAddNodeHead alloc h l value = do {
     let node = alloc h;
     if l_len l = 0 then
       Some (h(node \<mapsto> \<lparr>nd_prev = None, nd_next = None, nd_value = value\<rparr>),
             l\<lparr>l_head := Some node, l_tail := Some node, l_len := ul_add (l_len l) 1\<rparr>)
     else do {
       let h = h(node \<mapsto> \<lparr>nd_prev = None, nd_next = l_head l, nd_value = value\<rparr>);
       h \<leftarrow> assign h (l_head l) (nd_prev_update (\<lambda>_. Some node));
       Some (h, l\<lparr>l_head := Some node, l_len := ul_add (l_len l) 1\<rparr>) } }"

definition listAddNodeTail ::
    "('a heap \<Rightarrow> nat) \<Rightarrow> 'a heap \<Rightarrow> 'a adlist \<Rightarrow> 'a \<Rightarrow> ('a heap \<times> 'a adlist) option" where
  "listAddNodeTail alloc h l value = do {
     let node = alloc h;
     if l_len l = 0 then
       Some (h(node \<mapsto> \<lparr>nd_prev = None, nd_next = None, nd_value = value\<rparr>),
             l\<lparr>l_head := Some node, l_tail := Some node, l_len := ul_add (l_len l) 1\<rparr>)
     else do {
       let h = h(node \<mapsto> \<lparr>nd_prev = l_tail l, nd_next = None, nd_value = value\<rparr>);
       h \<leftarrow> assign h (l_tail l) (nd_next_update (\<lambda>_. Some node));
       Some (h, l\<lparr>l_tail := Some node, l_len := ul_add (l_len l) 1\<rparr>) } }"

definition listInsertNode ::
    "('a heap \<Rightarrow> nat) \<Rightarrow> 'a heap \<Rightarrow> 'a adlist \<Rightarrow> ptr \<Rightarrow> 'a \<Rightarrow> bool \<Rightarrow> ('a heap \<times> 'a adlist) option" where
  "listInsertNode alloc h l old_node value after = do {
     let node = alloc h;
     old \<leftarrow> deref h old_node;
     let prv = (if after then old_node else nd_prev old);
     let nxt = (if after then nd_next old else old_node);
     let l = (if after
              then (if l_tail l = old_node then l\<lparr>l_tail := Some node\<rparr> else l)
              else (if l_head l = old_node then l\<lparr>l_head := Some node\<rparr> else l));
     let h = h(node \<mapsto> \<lparr>nd_prev = prv, nd_next = nxt, nd_value = value\<rparr>);
     h \<leftarrow> (if prv \<noteq> None then assign h prv (nd_next_update (\<lambda>_. Some node)) else Some h);
     h \<leftarrow> (if nxt \<noteq> None then assign h nxt (nd_prev_update (\<lambda>_. Some node)) else Some h);
     Some (h, l\<lparr>l_len := ul_add (l_len l) 1\<rparr>) }"

definition listDelNode :: "'a heap \<Rightarrow> 'a adlist \<Rightarrow> ptr \<Rightarrow> (('a heap \<times> 'a adlist) \<times> 'a mem_event list) option" where
  "listDelNode h l node = do {
     nd \<leftarrow> deref h node;
     h \<leftarrow> (if nd_prev nd \<noteq> None then assign h (nd_prev nd) (nd_next_update (\<lambda>_. nd_next nd)) else Some h);
     let l = (if nd_prev nd \<noteq> None then l else l\<lparr>l_head := nd_next nd\<rparr>);
     h \<leftarrow> (if nd_next nd \<noteq> None then assign h (nd_next nd) (nd_prev_update (\<lambda>_. nd_prev nd)) else Some h);
     let l = (if nd_next nd \<noteq> None then l else l\<lparr>l_tail := nd_prev nd\<rparr>);
     Some ((h(the node := None), l\<lparr>l_len := ul_sub (l_len l) 1\<rparr>), call_free l (nd_value nd)) }"

definition listGetIterator :: "'a adlist \<Rightarrow> al_direction \<Rightarrow> listIter \<times> 'a mem_event list" where
  "listGetIterator l direction =
     (\<lparr>it_next = (if direction = AL_START_HEAD then l_head l else l_tail l), it_direction = direction\<rparr>, [NewIter])"

definition listReleaseIterator :: "listIter \<Rightarrow> 'a mem_event list" where
  "listReleaseIterator iter = [FreeIter]"

definition listRewind :: "'a adlist \<Rightarrow> listIter" where
  "listRewind l = \<lparr>it_next = l_head l, it_direction = AL_START_HEAD\<rparr>"

definition listRewindTail :: "'a adlist \<Rightarrow> listIter" where
  "listRewindTail l = \<lparr>it_next = l_tail l, it_direction = AL_START_TAIL\<rparr>"

definition listNext :: "'a heap \<Rightarrow> listIter \<Rightarrow> (listIter \<times> ptr) option" where
  "listNext h iter =
     (if it_next iter \<noteq> None then do {
        nd \<leftarrow> deref h (it_next iter);
        Some (iter\<lparr>it_next := (if it_direction iter = AL_START_HEAD then nd_next nd else nd_prev nd)\<rparr>,
              it_next iter) }
      else Some (iter, None))"

text \<open>
  The loop of \<open>listDup\<close>: the result \<open>None\<close> is the early return of NULL when the \<open>dup\<close> callback fails,
  after the copy made so far was released.
\<close>

partial_function (option) listDup_loop ::
    "('a heap \<Rightarrow> nat) \<Rightarrow> 'a heap \<Rightarrow> 'a adlist \<Rightarrow> listIter \<Rightarrow> ('a heap \<times> 'a adlist option \<times> 'a mem_event list) option" where
  "listDup_loop alloc h copy iter = do {
     r \<leftarrow> listNext h iter;
     (case snd r of
        None \<Rightarrow> Some (h, Some copy, listReleaseIterator (fst r))
      | Some a \<Rightarrow> do {
          nd \<leftarrow> h a;
          (case (case l_dup copy of Some f \<Rightarrow> f (nd_value nd) | None \<Rightarrow> Some (nd_value nd)) of
             None \<Rightarrow> do { q \<leftarrow> listRelease h copy; Some (fst q, None, snd q @ listReleaseIterator (fst r)) }
           | Some v \<Rightarrow> do {
               q \<leftarrow> listAddNodeTail alloc h copy v;
               listDup_loop alloc (fst q) (snd q) (fst r) }) }) }"

definition listDup ::
    "('a heap \<Rightarrow> nat) \<Rightarrow> 'a heap \<Rightarrow> 'a adlist \<Rightarrow> ('a heap \<times> 'a adlist option \<times> 'a mem_event list) option" where
  "listDup alloc h orig = do {
     let (copy, ev1) = listCreate;
     let copy = copy\<lparr>l_dup := l_dup orig, l_free := l_free orig, l_match := l_match orig\<rparr>;
     let (iter, ev2) = listGetIterator orig AL_START_HEAD;
     (h, res, ev3) \<leftarrow> listDup_loop alloc h copy iter;
     Some (h, res, ev1 @ ev2 @ ev3) }"

partial_function (option) listSearchKey_loop ::
    "'a heap \<Rightarrow> 'a adlist \<Rightarrow> 'a \<Rightarrow> listIter \<Rightarrow> (ptr \<times> 'a mem_event list) option" where
  "listSearchKey_loop h l key iter = do {
     r \<leftarrow> listNext h iter;
     (case snd r of
        None \<Rightarrow> Some (None, listReleaseIterator (fst r))
      | Some a \<Rightarrow> do {
          nd \<leftarrow> h a;
          if (case l_match l of Some f \<Rightarrow> f (nd_value nd) key | None \<Rightarrow> key = nd_value nd)
          then Some (Some a, listReleaseIterator (fst r)) else listSearchKey_loop h l key (fst r) }) }"

definition listSearchKey :: "'a heap \<Rightarrow> 'a adlist \<Rightarrow> 'a \<Rightarrow> (ptr \<times> 'a mem_event list) option" where
  "listSearchKey h l key = do {
     let (iter, ev) = listGetIterator l AL_START_HEAD;
     (n, ev') \<leftarrow> listSearchKey_loop h l key iter;
     Some (n, ev @ ev') }"

text \<open>\<open>while (index-- && n) n = n->next\<close> (or \<open>prev\<close>).\<close>

primrec listIndex_loop :: "('a listNode \<Rightarrow> ptr) \<Rightarrow> 'a heap \<Rightarrow> nat \<Rightarrow> ptr \<Rightarrow> ptr option" where
  "listIndex_loop dir h 0 n = Some n"
| "listIndex_loop dir h (Suc index) n =
     (if n = None then Some None
      else do { nd \<leftarrow> deref h n; listIndex_loop dir h index (dir nd) })"

definition listIndex :: "'a heap \<Rightarrow> 'a adlist \<Rightarrow> int \<Rightarrow> ptr option" where
  "listIndex h l index =
     (if index < 0 then
        if index = - (2 ^ 63) then None
        else listIndex_loop nd_prev h (nat (- index - 1)) (l_tail l)
      else listIndex_loop nd_next h (nat index) (l_head l))"

definition listRotate :: "'a heap \<Rightarrow> 'a adlist \<Rightarrow> ('a heap \<times> 'a adlist) option" where
  "listRotate h l =
     (let tail = l_tail l in
      if l_len l \<le> 1 then Some (h, l)
      else do {
        t \<leftarrow> deref h tail;
        let l = l\<lparr>l_tail := nd_prev t\<rparr>;
        h \<leftarrow> assign h (l_tail l) (nd_next_update (\<lambda>_. None));
        h \<leftarrow> assign h (l_head l) (nd_prev_update (\<lambda>_. tail));
        h \<leftarrow> assign h tail (nd_prev_update (\<lambda>_. None));
        h \<leftarrow> assign h tail (nd_next_update (\<lambda>_. l_head l));
        Some (h, l\<lparr>l_head := tail\<rparr>) })"

section \<open>Invariant and abstraction\<close>

type_synonym 'a nodes = "(nat \<times> 'a) list"

definition first :: "'a nodes \<Rightarrow> ptr \<Rightarrow> ptr" where
  "first ns d = (case ns of [] \<Rightarrow> d | n # _ \<Rightarrow> Some (fst n))"

definition final :: "'a nodes \<Rightarrow> ptr \<Rightarrow> ptr" where
  "final ns d = (if ns = [] then d else Some (fst (last ns)))"

text \<open>A segment of nodes between the pointers \<open>p\<close> (before) and \<open>q\<close> (behind).\<close>

fun dll :: "'a heap \<Rightarrow> ptr \<Rightarrow> 'a nodes \<Rightarrow> ptr \<Rightarrow> bool" where
  "dll h p [] q = True"
| "dll h p (n # ns) q =
     (h (fst n) = Some \<lparr>nd_prev = p, nd_next = first ns q, nd_value = snd n\<rparr> \<and> dll h (Some (fst n)) ns q)"

definition list_rep :: "'a heap \<Rightarrow> 'a adlist \<Rightarrow> 'a nodes \<Rightarrow> bool" where
  "list_rep h l ns \<longleftrightarrow>
     distinct (map fst ns) \<and> dll h None ns None \<and> l_head l = first ns None \<and> l_tail l = final ns None \<and>
     l_len l = length ns \<and> length ns < 2 ^ 63"

section \<open>Segments\<close>

lemma first_simps [simp]: "first [] d = d" "first (n # ns) d = Some (fst n)" "first (xs @ ys) d = first xs (first ys d)"
  by (auto simp: first_def split: list.splits)

lemma final_simps [simp]: "final [] d = d" "final (ns @ [n]) d = Some (fst n)" "final (xs @ ys) d = final ys (final xs d)"
  by (auto simp: final_def)

lemma final_Cons [simp]: "final (n # ns) d = final ns (Some (fst n))"
  by (auto simp: final_def)

lemma first_eq_None [simp]: "first ns d = None \<longleftrightarrow> ns = [] \<and> d = None"
  by (auto simp: first_def split: list.splits)

lemma final_eq_None [simp]: "final ns d = None \<longleftrightarrow> ns = [] \<and> d = None"
  by (auto simp: final_def)

lemma dll_append: "dll h p (xs @ ys) q \<longleftrightarrow> dll h p xs (first ys q) \<and> dll h (final xs p) ys q"
  by (induction xs arbitrary: p) auto

lemma dll_cong: "(\<And>n. n \<in> set ns \<Longrightarrow> h' (fst n) = h (fst n)) \<Longrightarrow> dll h' p ns q = dll h p ns q"
  by (induction ns arbitrary: p) auto

lemma dll_dom: "dll h p ns q \<Longrightarrow> n \<in> set ns \<Longrightarrow> h (fst n) \<noteq> None"
  by (induction ns arbitrary: p) auto

lemma dll_dom_subset: "dll h p ns q \<Longrightarrow> fst ` set ns \<subseteq> dom h"
  by (induction ns arbitrary: p) auto

lemma dll_frame: "a \<notin> fst ` set ns \<Longrightarrow> dll (h(a := v)) p ns q = dll h p ns q"
  by (rule dll_cong) auto

text \<open>The heap \<open>h'\<close> is \<open>h\<close> with contents of the nodes \<open>ns\<close> changed.\<close>

definition changed :: "'a heap \<Rightarrow> 'a heap \<Rightarrow> 'a nodes \<Rightarrow> bool" where
  "changed h h' ns \<longleftrightarrow> dom h' = dom h \<and> (\<forall>a. a \<notin> fst ` set ns \<longrightarrow> h' a = h a)"

lemma changed_refl [simp]: "changed h h ns"
  by (simp add: changed_def)

lemma changed_dll: "changed h h' ns \<Longrightarrow> fst ` set ns \<inter> fst ` set ms = {} \<Longrightarrow> dll h' p ms q = dll h p ms q"
proof (rule dll_cong)
  fix n assume "changed h h' ns" "fst ` set ns \<inter> fst ` set ms = {}" "n \<in> set ms"
  moreover from this have "fst n \<notin> fst ` set ns" by blast
  ultimately show "h' (fst n) = h (fst n)" by (simp add: changed_def)
qed

lemma patch_next:
  assumes "dll h p xs q" "distinct (map fst xs)" "p = None"
  shows "\<exists>h'. (if final xs p \<noteq> None then assign h (final xs p) (nd_next_update (\<lambda>_. q')) else Some h) = Some h' \<and>
           dll h' p xs q' \<and> changed h h' xs"
proof (cases xs rule: rev_cases)
  case Nil
  then show ?thesis using assms by simp
next
  case (snoc ys n)
  let ?h = "h(fst n \<mapsto> \<lparr>nd_prev = final ys p, nd_next = q', nd_value = snd n\<rparr>)"
  have n: "h (fst n) = Some \<lparr>nd_prev = final ys p, nd_next = q, nd_value = snd n\<rparr>" "dll h p ys (Some (fst n))"
    using assms snoc by (auto simp: dll_append)
  have "fst n \<notin> fst ` set ys" using assms(2) snoc by simp
  then have "dll ?h p xs q'" using n snoc by (simp add: dll_append dll_frame)
  moreover have "changed h ?h xs" using n snoc by (auto simp: changed_def)
  ultimately show ?thesis using n snoc by (simp add: assign_def)
qed

lemma patch_prev:
  assumes "dll h p ys q" "distinct (map fst ys)" "q = None"
  shows "\<exists>h'. (if first ys q \<noteq> None then assign h (first ys q) (nd_prev_update (\<lambda>_. p')) else Some h) = Some h' \<and>
           dll h' p' ys q \<and> changed h h' ys"
proof (cases ys)
  case Nil
  then show ?thesis using assms by simp
next
  case (Cons n ns)
  let ?h = "h(fst n \<mapsto> \<lparr>nd_prev = p', nd_next = first ns q, nd_value = snd n\<rparr>)"
  have "fst n \<notin> fst ` set ns" using assms(2) Cons by auto
  then have "dll ?h p' ys q" using assms Cons by (simp add: dll_frame)
  moreover have "changed h ?h ys" using assms Cons by (auto simp: changed_def)
  ultimately show ?thesis using assms Cons by (simp add: assign_def)
qed

section \<open>Linking and unlinking one node\<close>

lemma link_node:
  assumes d: "dll h None (xs @ ys) None" "distinct (map fst (xs @ ys))" and a: "h a = None"
  shows "\<exists>h1 h2. (if final xs None \<noteq> None
              then assign (h(a \<mapsto> \<lparr>nd_prev = final xs None, nd_next = first ys None, nd_value = v\<rparr>)) (final xs None) (nd_next_update (\<lambda>_. Some a))
              else Some (h(a \<mapsto> \<lparr>nd_prev = final xs None, nd_next = first ys None, nd_value = v\<rparr>))) = Some h1 \<and>
           (if first ys None \<noteq> None then assign h1 (first ys None) (nd_prev_update (\<lambda>_. Some a)) else Some h1) = Some h2 \<and>
           dll h2 None (xs @ (a, v) # ys) None \<and> distinct (map fst (xs @ (a, v) # ys)) \<and> dom h2 = insert a (dom h) \<and>
           (\<forall>b. b \<noteq> a \<longrightarrow> b \<notin> fst ` set (xs @ ys) \<longrightarrow> h2 b = h b)"
proof -
  let ?nd = "\<lparr>nd_prev = final xs None, nd_next = first ys None, nd_value = v\<rparr>"
  let ?h = "h(a \<mapsto> ?nd)"
  have na: "a \<notin> fst ` set xs" "a \<notin> fst ` set ys" using dll_dom_subset [OF d(1)] a by (auto simp: image_Un)
  have dx: "dll ?h None xs (first ys None)" "dll ?h (final xs None) ys None"
    using d(1) na by (auto simp: dll_append dll_frame)
  have dj: "fst ` set xs \<inter> fst ` set ys = {}" "distinct (map fst xs)" "distinct (map fst ys)" using d(2) by auto
  obtain h1 where h1: "(if final xs None \<noteq> None then assign ?h (final xs None) (nd_next_update (\<lambda>_. Some a)) else Some ?h) = Some h1"
    "dll h1 None xs (Some a)" "changed ?h h1 xs"
    using patch_next [OF dx(1) dj(2) refl] by blast
  have "dll h1 (final xs None) ys None" using changed_dll [OF h1(3) dj(1)] dx(2) by simp
  then obtain h2 where h2: "(if first ys None \<noteq> None then assign h1 (first ys None) (nd_prev_update (\<lambda>_. Some a)) else Some h1) = Some h2"
    "dll h2 (Some a) ys None" "changed h1 h2 ys"
    using patch_prev [OF _ dj(3) refl] by blast
  have "fst ` set ys \<inter> fst ` set xs = {}" using dj(1) by auto
  then have "dll h2 None xs (Some a)" using changed_dll [OF h2(3)] h1(2) by simp
  moreover have "h2 a = Some ?nd" using h1(3) h2(3) na by (simp add: changed_def)
  ultimately have "dll h2 None (xs @ (a, v) # ys) None" using h2(2) by (simp add: dll_append)
  moreover have "dom h2 = insert a (dom h)" "\<forall>b. b \<noteq> a \<longrightarrow> b \<notin> fst ` set (xs @ ys) \<longrightarrow> h2 b = h b"
    using h1(3) h2(3) by (auto simp: changed_def image_Un)
  moreover have "distinct (map fst (xs @ (a, v) # ys))" using d(2) na by auto
  ultimately show ?thesis using h1(1) h2(1) by blast
qed

lemma unlink_node:
  assumes d: "dll h None (xs @ n # ys) None" "distinct (map fst (xs @ n # ys))"
  shows "\<exists>h1 h2. (if final xs None \<noteq> None then assign h (final xs None) (nd_next_update (\<lambda>_. first ys None)) else Some h) = Some h1 \<and>
           (if first ys None \<noteq> None then assign h1 (first ys None) (nd_prev_update (\<lambda>_. final xs None)) else Some h1) = Some h2 \<and>
           dll (h2(fst n := None)) None (xs @ ys) None \<and> dom (h2(fst n := None)) = dom h - {fst n} \<and>
           (\<forall>b. b \<notin> fst ` set (xs @ n # ys) \<longrightarrow> h2 b = h b)"
proof -
  have dx: "dll h None xs (Some (fst n))" "dll h (Some (fst n)) ys None" using d(1) by (auto simp: dll_append)
  have dj: "fst ` set xs \<inter> fst ` set ys = {}" "distinct (map fst xs)" "distinct (map fst ys)"
    "fst n \<notin> fst ` set xs" "fst n \<notin> fst ` set ys" using d(2) by auto
  obtain h1 where h1: "(if final xs None \<noteq> None then assign h (final xs None) (nd_next_update (\<lambda>_. first ys None)) else Some h) = Some h1"
    "dll h1 None xs (first ys None)" "changed h h1 xs"
    using patch_next [OF dx(1) dj(2) refl] by blast
  have "dll h1 (Some (fst n)) ys None" using changed_dll [OF h1(3) dj(1)] dx(2) by simp
  then obtain h2 where h2: "(if first ys None \<noteq> None then assign h1 (first ys None) (nd_prev_update (\<lambda>_. final xs None)) else Some h1) = Some h2"
    "dll h2 (final xs None) ys None" "changed h1 h2 ys"
    using patch_prev [OF _ dj(3) refl] by blast
  have "fst ` set ys \<inter> fst ` set xs = {}" using dj(1) by auto
  then have "dll h2 None xs (first ys None)" using changed_dll [OF h2(3)] h1(2) by simp
  then have "dll (h2(fst n := None)) None (xs @ ys) None" using h2(2) dj by (simp add: dll_append dll_frame)
  moreover have "dom (h2(fst n := None)) = dom h - {fst n}" "\<forall>b. b \<notin> fst ` set (xs @ n # ys) \<longrightarrow> h2 b = h b"
    using h1(3) h2(3) by (auto simp: changed_def image_Un)
  ultimately show ?thesis using h1(1) h2(1) by blast
qed

section \<open>The operations\<close>

text \<open>What an operation does to the rest of the heap: nothing outside the nodes of the list.\<close>

definition touches :: "'a heap \<Rightarrow> 'a heap \<Rightarrow> 'a nodes \<Rightarrow> 'a nodes \<Rightarrow> bool" where
  "touches h h' ns ns' \<longleftrightarrow>
     dom h' = (dom h - fst ` set ns) \<union> fst ` set ns' \<and>
     (\<forall>b. b \<notin> fst ` set ns \<longrightarrow> b \<notin> fst ` set ns' \<longrightarrow> h' b = h b)"

lemma list_rep_dom: "list_rep h l ns \<Longrightarrow> fst ` set ns \<subseteq> dom h"
  using dll_dom_subset [of h None ns None] by (simp add: list_rep_def)

lemma listInsert_between:
  assumes rep: "list_rep h l (xs @ ys)" and a: "h (alloc h) = None" and room: "Suc (length (xs @ ys)) < 2 ^ 63"
    and res: "R = Option.bind
        (if final xs None \<noteq> None
         then assign (h(alloc h \<mapsto> \<lparr>nd_prev = final xs None, nd_next = first ys None, nd_value = v\<rparr>)) (final xs None) (nd_next_update (\<lambda>_. Some (alloc h)))
         else Some (h(alloc h \<mapsto> \<lparr>nd_prev = final xs None, nd_next = first ys None, nd_value = v\<rparr>)))
        (\<lambda>h. Option.bind
           (if first ys None \<noteq> None then assign h (first ys None) (nd_prev_update (\<lambda>_. Some (alloc (h0 :: 'a heap)))) else Some h)
           (\<lambda>h. Some (h, l')))" and h0: "h0 = h"
    and l': "l_head l' = first (xs @ [(alloc h, v)]) None" "l_tail l' = final ((alloc h, v) # ys) None"
      "l_len l' = ul_add (l_len l) 1"
  shows "\<exists>h'. R = Some (h', l') \<and> list_rep h' l' (xs @ (alloc h, v) # ys) \<and> touches h h' (xs @ ys) (xs @ (alloc h, v) # ys)"
proof -
  obtain h1 h2 where h: "(if final xs None \<noteq> None
         then assign (h(alloc h \<mapsto> \<lparr>nd_prev = final xs None, nd_next = first ys None, nd_value = v\<rparr>)) (final xs None) (nd_next_update (\<lambda>_. Some (alloc h)))
         else Some (h(alloc h \<mapsto> \<lparr>nd_prev = final xs None, nd_next = first ys None, nd_value = v\<rparr>))) = Some h1"
    "(if first ys None \<noteq> None then assign h1 (first ys None) (nd_prev_update (\<lambda>_. Some (alloc h))) else Some h1) = Some h2"
    "dll h2 None (xs @ (alloc h, v) # ys) None" "distinct (map fst (xs @ (alloc h, v) # ys))" "dom h2 = insert (alloc h) (dom h)"
    "\<forall>b. b \<noteq> alloc h \<longrightarrow> b \<notin> fst ` set (xs @ ys) \<longrightarrow> h2 b = h b"
    using link_node [of h xs ys "alloc h" v] rep a by (auto simp: list_rep_def)
  have "R = Some (h2, l')" unfolding res h0 h(1) using h(2) by simp
  moreover have "list_rep h2 l' (xs @ (alloc h, v) # ys)"
    using rep h(3,4) l' room by (simp add: list_rep_def)
  moreover have "touches h h2 (xs @ ys) (xs @ (alloc h, v) # ys)"
    using h(5,6) list_rep_dom [OF rep] by (auto simp: touches_def)
  ultimately show ?thesis by blast
qed


lemma listAddNodeHead_rep:
  assumes rep: "list_rep h l ns" and a: "h (alloc h) = None" and room: "Suc (length ns) < 2 ^ 63"
  shows "\<exists>h' l'. listAddNodeHead alloc h l v = Some (h', l') \<and> list_rep h' l' ((alloc h, v) # ns) \<and>
           touches h h' ns ((alloc h, v) # ns) \<and> l_dup l' = l_dup l \<and> l_free l' = l_free l \<and> l_match l' = l_match l"
proof -
  let ?l = "(if ns = [] then l\<lparr>l_tail := Some (alloc h)\<rparr> else l)\<lparr>l_head := Some (alloc h), l_len := ul_add (l_len l) 1\<rparr>"
  have len: "l_len l = length ns" "l_head l = first ns None" "l_tail l = final ns None" using rep by (auto simp: list_rep_def)
  have "\<exists>h'. listAddNodeHead alloc h l v = Some (h', ?l) \<and> list_rep h' ?l ([] @ (alloc h, v) # ns) \<and> touches h h' ([] @ ns) ([] @ (alloc h, v) # ns)"
    by (rule listInsert_between [where h0 = h]) (use assms len in \<open>auto simp: listAddNodeHead_def Let_def neq_Nil_conv final_def\<close>)
  then show ?thesis by auto
qed

lemma listAddNodeTail_rep:
  assumes rep: "list_rep h l ns" and a: "h (alloc h) = None" and room: "Suc (length ns) < 2 ^ 63"
  shows "\<exists>h' l'. listAddNodeTail alloc h l v = Some (h', l') \<and> list_rep h' l' (ns @ [(alloc h, v)]) \<and>
           touches h h' ns (ns @ [(alloc h, v)]) \<and> l_dup l' = l_dup l \<and> l_free l' = l_free l \<and> l_match l' = l_match l"
proof -
  let ?l = "(if ns = [] then l\<lparr>l_head := Some (alloc h)\<rparr> else l)\<lparr>l_tail := Some (alloc h), l_len := ul_add (l_len l) 1\<rparr>"
  have len: "l_len l = length ns" "l_head l = first ns None" "l_tail l = final ns None" using rep by (auto simp: list_rep_def)
  have "\<exists>h'. listAddNodeTail alloc h l v = Some (h', ?l) \<and> list_rep h' ?l (ns @ (alloc h, v) # []) \<and> touches h h' (ns @ []) (ns @ (alloc h, v) # [])"
    by (rule listInsert_between [where h0 = h]) (use assms len in \<open>auto simp: listAddNodeTail_def Let_def neq_Nil_conv first_def\<close>)
  then show ?thesis by auto
qed

lemma listInsertNode_rep:
  assumes rep: "list_rep h l (xs @ n # ys)" and a: "h (alloc h) = None" and room: "Suc (length (xs @ n # ys)) < 2 ^ 63"
  shows "\<exists>h' l'. listInsertNode alloc h l (Some (fst n)) v after = Some (h', l') \<and>
           list_rep h' l' (if after then xs @ n # (alloc h, v) # ys else xs @ (alloc h, v) # n # ys) \<and>
           touches h h' (xs @ n # ys) (if after then xs @ n # (alloc h, v) # ys else xs @ (alloc h, v) # n # ys)"
proof -
  have len: "l_len l = length (xs @ n # ys)" "l_head l = first (xs @ n # ys) None" "l_tail l = final (xs @ n # ys) None"
    and d: "distinct (map fst (xs @ n # ys))" using rep by (auto simp: list_rep_def)
  have nd: "h (fst n) = Some \<lparr>nd_prev = final xs None, nd_next = first ys None, nd_value = snd n\<rparr>"
    using rep by (simp add: list_rep_def dll_append)
  have hd: "l_head l = Some (fst n) \<longleftrightarrow> xs = []" using d len by (cases xs) auto
  have tl: "l_tail l = Some (fst n) \<longleftrightarrow> ys = []" using d len by (cases ys rule: rev_cases) auto
  show ?thesis
  proof (cases after)
    case True
    let ?l = "(if ys = [] then l\<lparr>l_tail := Some (alloc h)\<rparr> else l)\<lparr>l_len := ul_add (l_len l) 1\<rparr>"
    have "\<exists>h'. listInsertNode alloc h l (Some (fst n)) v after = Some (h', ?l) \<and> list_rep h' ?l ((xs @ [n]) @ (alloc h, v) # ys) \<and>
         touches h h' ((xs @ [n]) @ ys) ((xs @ [n]) @ (alloc h, v) # ys)"
      by (rule listInsert_between [where h0 = h])
         (use assms len True nd tl in \<open>auto simp: listInsertNode_def deref_def Let_def final_def simp del: not_None_eq cong: if_cong\<close>)
    then show ?thesis using True by auto
  next
    case False
    let ?l = "(if xs = [] then l\<lparr>l_head := Some (alloc h)\<rparr> else l)\<lparr>l_len := ul_add (l_len l) 1\<rparr>"
    have "\<exists>h'. listInsertNode alloc h l (Some (fst n)) v after = Some (h', ?l) \<and> list_rep h' ?l (xs @ (alloc h, v) # n # ys) \<and>
         touches h h' (xs @ n # ys) (xs @ (alloc h, v) # n # ys)"
      by (rule listInsert_between [where h0 = h])
         (use assms len False nd hd in \<open>auto simp: listInsertNode_def deref_def Let_def neq_Nil_conv simp del: not_None_eq cong: if_cong\<close>)
    then show ?thesis using False by auto
  qed
qed

lemma listDelNode_rep:
  assumes rep: "list_rep h l (xs @ n # ys)"
  shows "\<exists>h' l'. listDelNode h l (Some (fst n)) = Some ((h', l'), call_free l (snd n)) \<and> list_rep h' l' (xs @ ys) \<and>
           touches h h' (xs @ n # ys) (xs @ ys)"
proof -
  have len: "l_len l = length (xs @ n # ys)" "l_head l = first (xs @ n # ys) None" "l_tail l = final (xs @ n # ys) None"
    and d: "dll h None (xs @ n # ys) None" "distinct (map fst (xs @ n # ys))" using rep by (auto simp: list_rep_def)
  have nd: "h (fst n) = Some \<lparr>nd_prev = final xs None, nd_next = first ys None, nd_value = snd n\<rparr>"
    using rep by (simp add: list_rep_def dll_append)
  obtain h1 h2 where h: "(if final xs None \<noteq> None then assign h (final xs None) (nd_next_update (\<lambda>_. first ys None)) else Some h) = Some h1"
    "(if first ys None \<noteq> None then assign h1 (first ys None) (nd_prev_update (\<lambda>_. final xs None)) else Some h1) = Some h2"
    "dll (h2(fst n := None)) None (xs @ ys) None" "dom (h2(fst n := None)) = dom h - {fst n}"
    "\<forall>b. b \<notin> fst ` set (xs @ n # ys) \<longrightarrow> h2 b = h b"
    using unlink_node [OF d] by blast
  let ?l1 = "if xs = [] then l\<lparr>l_head := first ys None\<rparr> else l"
  let ?l2 = "(if ys = [] then ?l1\<lparr>l_tail := final xs None\<rparr> else ?l1)\<lparr>l_len := ul_sub (l_len l) 1\<rparr>"
  have l2: "l_len ?l2 = length (xs @ ys)" "l_head ?l2 = first (xs @ ys) None" "l_tail ?l2 = final (xs @ ys) None"
    using len rep by (auto simp: list_rep_def neq_Nil_conv final_def)
  have "listDelNode h l (Some (fst n)) =
      Option.bind (if final xs None \<noteq> None then assign h (final xs None) (nd_next_update (\<lambda>_. first ys None)) else Some h)
        (\<lambda>h. Option.bind (if first ys None \<noteq> None then assign h (first ys None) (nd_prev_update (\<lambda>_. final xs None)) else Some h)
          (\<lambda>h. Some ((h(fst n := None), ?l2), call_free l (snd n))))"
    by (simp add: listDelNode_def deref_def nd Let_def call_free_def cong: if_cong)
  also have "\<dots> = Some ((h2(fst n := None), ?l2), call_free l (snd n))" unfolding h(1) Option.bind.simps h(2) ..
  finally have "listDelNode h l (Some (fst n)) = Some ((h2(fst n := None), ?l2), call_free l (snd n))" .
  moreover have "list_rep (h2(fst n := None)) ?l2 (xs @ ys)"
    using rep h(3) l2 by (simp add: list_rep_def)
  moreover have "touches h (h2(fst n := None)) (xs @ n # ys) (xs @ ys)"
    using h(4,5) list_rep_dom [OF rep] d(2) by (auto simp: touches_def image_Un)
  ultimately show ?thesis by blast
qed

lemma listRotate_rep:
  assumes rep: "list_rep h l ns"
  shows "\<exists>h' l'. listRotate h l = Some (h', l') \<and>
           list_rep h' l' (if ns = [] then [] else last ns # butlast ns) \<and> touches h h' ns ns"
proof (cases "length ns \<le> 1")
  case True
  then have "(if ns = [] then [] else last ns # butlast ns) = ns" by (cases ns) auto
  moreover have "touches h h ns ns" using list_rep_dom [OF rep] by (auto simp: touches_def)
  ultimately show ?thesis using True rep by (auto simp: listRotate_def Let_def list_rep_def)
next
  case False
  then obtain zs t where ns: "ns = zs @ [t]" "zs \<noteq> []" by (cases ns rule: rev_cases) auto
  have len: "l_len l = length ns" "l_head l = first zs None" "l_tail l = Some (fst t)"
    and d: "dll h None zs (Some (fst t))" "distinct (map fst zs)" "fst t \<notin> fst ` set zs"
    and t: "h (fst t) = Some \<lparr>nd_prev = final zs None, nd_next = None, nd_value = snd t\<rparr>"
    using rep ns by (auto simp: list_rep_def dll_append neq_Nil_conv)
  have ne: "final zs None \<noteq> None" "first zs None \<noteq> None" using ns(2) by auto
  obtain h1 where h1: "assign h (final zs None) (nd_next_update (\<lambda>_. None)) = Some h1" "dll h1 None zs None" "changed h h1 zs"
    using patch_next [OF d(1,2) refl, of None] ne by auto
  obtain h2 where h2: "assign h1 (first zs None) (nd_prev_update (\<lambda>_. Some (fst t))) = Some h2" "dll h2 (Some (fst t)) zs None" "changed h1 h2 zs"
    using patch_prev [OF h1(2) d(2) refl, of "Some (fst t)"] ne by auto
  have t2: "h2 (fst t) = Some \<lparr>nd_prev = final zs None, nd_next = None, nd_value = snd t\<rparr>"
    using t h1(3) h2(3) d(3) by (simp add: changed_def)
  let ?h = "h2(fst t \<mapsto> \<lparr>nd_prev = None, nd_next = first zs None, nd_value = snd t\<rparr>)"
  let ?l = "l\<lparr>l_tail := final zs None, l_head := Some (fst t)\<rparr>"
  have "listRotate h l = Some (?h, ?l)"
    using False len t h1(1) h2(1) t2 by (simp add: listRotate_def deref_def Let_def assign_def [of _ "Some (fst t)"])
  moreover have "dll ?h None (t # zs) None" using h2(2) d(3) by (simp add: dll_frame)
  then have "list_rep ?h ?l (t # zs)" using rep ns by (auto simp: list_rep_def final_def)
  moreover have "touches h ?h ns ns"
    using h1(3) h2(3) list_rep_dom [OF rep] ns by (auto simp: touches_def changed_def)
  ultimately show ?thesis using ns by auto
qed


section \<open>Walking a list\<close>

lemma listNext_head:
  assumes "dll h None (xs @ ys) None"
  shows "listNext h \<lparr>it_next = first ys None, it_direction = AL_START_HEAD\<rparr>
       = Some (\<lparr>it_next = first (tl ys) None, it_direction = AL_START_HEAD\<rparr>, first ys None)"
  using assms by (cases ys) (auto simp: listNext_def deref_def dll_append)

lemma listNext_tail:
  assumes "dll h None (xs @ ys) None"
  shows "listNext h \<lparr>it_next = final xs None, it_direction = AL_START_TAIL\<rparr>
       = Some (\<lparr>it_next = final (butlast xs) None, it_direction = AL_START_TAIL\<rparr>, final xs None)"
  using assms by (cases xs rule: rev_cases) (auto simp: listNext_def deref_def dll_append)

text \<open>The pointers that \<open>n\<close> calls of \<open>listNext\<close> return.\<close>

primrec iter_run :: "nat \<Rightarrow> 'a heap \<Rightarrow> listIter \<Rightarrow> ptr list option" where
  "iter_run 0 h iter = Some []"
| "iter_run (Suc n) h iter = do {
     r \<leftarrow> listNext h iter;
     ps \<leftarrow> iter_run n h (fst r);
     Some (snd r # ps) }"

lemma iter_run_head:
  "dll h None (xs @ ys) None \<Longrightarrow>
   iter_run (Suc (length ys)) h \<lparr>it_next = first ys None, it_direction = AL_START_HEAD\<rparr>
     = Some (map (Some \<circ> fst) ys @ [None])"
proof (induction ys arbitrary: xs)
  case Nil
  then show ?case by (simp add: listNext_def)
next
  case (Cons n ys)
  have "iter_run (Suc (length ys)) h \<lparr>it_next = first ys None, it_direction = AL_START_HEAD\<rparr> = Some (map (Some \<circ> fst) ys @ [None])"
    using Cons.IH [of "xs @ [n]"] Cons.prems by simp
  then show ?case using listNext_head [OF Cons.prems]
    by (simp del: iter_run.simps add: iter_run.simps(2) [of "Suc (length ys)"])
qed

lemma iter_run_tail:
  "dll h None (xs @ ys) None \<Longrightarrow>
   iter_run (Suc (length xs)) h \<lparr>it_next = final xs None, it_direction = AL_START_TAIL\<rparr>
     = Some (map (Some \<circ> fst) (rev xs) @ [None])"
proof (induction xs arbitrary: ys rule: rev_induct)
  case Nil
  then show ?case by (simp add: listNext_def)
next
  case (snoc n xs)
  have "iter_run (Suc (length xs)) h \<lparr>it_next = final xs None, it_direction = AL_START_TAIL\<rparr> = Some (map (Some \<circ> fst) (rev xs) @ [None])"
    using snoc.IH [of "n # ys"] snoc.prems by simp
  then show ?case using listNext_tail [OF snoc.prems]
    by (simp del: iter_run.simps add: iter_run.simps(2) [of "Suc (length xs)"])
qed

lemma listIndex_loop_next:
  "dll h None (xs @ ys) None \<Longrightarrow> listIndex_loop nd_next h i (first ys None) = Some (first (drop i ys) None)"
proof (induction i arbitrary: xs ys)
  case (Suc i)
  show ?case
  proof (cases ys)
    case (Cons n ns)
    then show ?thesis using Suc.IH [of "xs @ [n]" ns] Suc.prems by (simp add: deref_def dll_append)
  qed simp
qed simp

lemma listIndex_loop_prev:
  "dll h None (xs @ ys) None \<Longrightarrow> listIndex_loop nd_prev h i (final xs None) = Some (final (take (length xs - i) xs) None)"
proof (induction i arbitrary: xs ys)
  case (Suc i)
  show ?case
  proof (cases xs rule: rev_cases)
    case (snoc ns n)
    then show ?thesis using Suc.IH [of ns "n # ys"] Suc.prems by (simp add: deref_def dll_append)
  qed simp
qed simp

lemma first_drop: "first (drop i ns) None = (if i < length ns then Some (fst (ns ! i)) else None)"
  by (simp flip: Cons_nth_drop_Suc)

lemma final_take: "i \<le> length ns \<Longrightarrow> final (take i ns) None = (if 0 < i then Some (fst (ns ! (i - 1))) else None)"
  by (cases i) (auto simp: take_Suc_conv_app_nth)

lemma listIndex_rep:
  assumes rep: "list_rep h l ns" and i: "- (2 ^ 63) < i"
  shows "listIndex h l i = Some (let j = (if i < 0 then int (length ns) + i else i) in
           if 0 \<le> j \<and> j < int (length ns) then Some (fst (ns ! nat j)) else None)"
proof (cases "i < 0")
  case False
  then show ?thesis using listIndex_loop_next [of h "[]" ns "nat i"] rep
    by (auto simp: listIndex_def list_rep_def first_drop)
next
  case True
  have "listIndex h l i = Some (final (take (length ns - nat (- i - 1)) ns) None)"
    using listIndex_loop_prev [of h ns "[]" "nat (- i - 1)"] rep True i by (simp add: listIndex_def list_rep_def)
  also have "final (take (length ns - nat (- i - 1)) ns) None = (if 0 < length ns - nat (- i - 1) then Some (fst (ns ! (length ns - nat (- i - 1) - 1))) else None)"
    by (rule final_take) simp
  also have "\<dots> = (if 0 \<le> int (length ns) + i then Some (fst (ns ! nat (int (length ns) + i))) else None)"
  proof -
    have "0 < length ns - nat (- i - 1) \<longleftrightarrow> 0 \<le> int (length ns) + i" using True by linarith
    moreover have "length ns - nat (- i - 1) - 1 = nat (int (length ns) + i)" if "0 \<le> int (length ns) + i"
      using True that by linarith
    ultimately show ?thesis by simp
  qed
  finally show ?thesis using True by simp
qed

lemma listSearchKey_loop_rep:
  "dll h None (xs @ ys) None \<Longrightarrow>
   listSearchKey_loop h l key \<lparr>it_next = first ys None, it_direction = AL_START_HEAD\<rparr>
     = Some (map_option fst (find (\<lambda>n. case l_match l of Some f \<Rightarrow> f (snd n) key | None \<Rightarrow> key = snd n) ys), [FreeIter])"
proof (induction ys arbitrary: xs)
  case Nil
  then show ?case by (subst listSearchKey_loop.simps) (simp add: listNext_def listReleaseIterator_def)
next
  case (Cons n ys)
  have "h (fst n) = Some \<lparr>nd_prev = final xs None, nd_next = first ys None, nd_value = snd n\<rparr>"
    using Cons.prems by (simp add: dll_append)
  then show ?case using Cons.IH [of "xs @ [n]"] Cons.prems listNext_head [OF Cons.prems]
    by (subst listSearchKey_loop.simps) (simp add: listReleaseIterator_def cong: option.case_cong)
qed

section \<open>Releasing and copying\<close>

lemma listRelease_loop_rep:
  "dll h p ns None \<Longrightarrow> distinct (map fst ns) \<Longrightarrow>
   listRelease_loop l (length ns) h (first ns None) = Some (\<lambda>b. if b \<in> fst ` set ns then None else h b, concat (map (\<lambda>n. call_free l (snd n)) ns))"
proof (induction ns arbitrary: h p)
  case (Cons n ns)
  have "dll (h(fst n := None)) (Some (fst n)) ns None" using Cons.prems dll_frame [of "fst n" ns] by auto
  then have "listRelease_loop l (length ns) (h(fst n := None)) (first ns None)
      = Some (\<lambda>b. if b \<in> fst ` set ns then None else (h(fst n := None)) b, concat (map (\<lambda>n. call_free l (snd n)) ns))"
    using Cons by simp
  moreover have "(\<lambda>b. if b \<in> fst ` set ns then None else (h(fst n := None)) b)
      = (\<lambda>b. if b \<in> fst ` set (n # ns) then None else h b)" by auto
  ultimately show ?case using Cons.prems by (simp add: deref_def del: fun_upd_apply)
qed simp

lemma call_free_all: "concat (map (\<lambda>n. call_free l (snd n)) ns) = (if l_free l = None then [] else map FreeValue (map snd ns))"
  by (induction ns) (auto simp: call_free_def)

lemma listRelease_rep:
  "list_rep h l ns \<Longrightarrow> listRelease h l = Some (\<lambda>b. if b \<in> fst ` set ns then None else h b,
     (if l_free l = None then [] else map FreeValue (map snd ns)) @ [FreeList])"
  using listRelease_loop_rep [of h None ns l] by (auto simp: listRelease_def list_rep_def call_free_all)

definition alloc_ok :: "('a heap \<Rightarrow> nat) \<Rightarrow> bool" where
  "alloc_ok alloc \<longleftrightarrow> (\<forall>h. finite (dom h) \<longrightarrow> h (alloc h) = None)"

lemma list_rep_touches_other:
  "list_rep h l ns \<Longrightarrow> (\<And>b. b \<in> fst ` set ns \<Longrightarrow> h' b = h b) \<Longrightarrow> list_rep h' l ns"
  using dll_cong [of ns h' h None None] by (auto simp: list_rep_def)

text \<open>What \<open>listDup\<close> puts into the copy for a value; \<open>None\<close> when the \<open>dup\<close> method fails.\<close>

definition dup_value :: "'a adlist \<Rightarrow> 'a \<Rightarrow> 'a option" where
  "dup_value l v = (case l_dup l of Some f \<Rightarrow> f v | None \<Rightarrow> Some v)"

text \<open>
  The result of copying the nodes \<open>ys\<close> behind the nodes \<open>cs\<close> copied already, from a heap \<open>h0\<close> that holds
  none of the copies: the copy, or nothing and all that was allocated released.
\<close>

definition dup_outcome ::
    "'a adlist \<Rightarrow> 'a heap \<Rightarrow> 'a nodes \<Rightarrow> 'a nodes \<Rightarrow> 'a heap \<Rightarrow> 'a adlist option \<Rightarrow> 'a mem_event list \<Rightarrow> bool" where
  "dup_outcome l h0 cs ys h' r ev \<longleftrightarrow>
     (if \<forall>n \<in> set ys. dup_value l (snd n) \<noteq> None
      then \<exists>copy cs'. r = Some copy \<and> list_rep h' copy (cs @ cs') \<and> map snd cs' = map (\<lambda>n. the (dup_value l (snd n))) ys \<and>
             l_dup copy = l_dup l \<and> l_free copy = l_free l \<and> l_match copy = l_match l \<and>
             (\<forall>b. b \<notin> fst ` set (cs @ cs') \<longrightarrow> h' b = h0 b) \<and> fst ` set (cs @ cs') \<inter> dom h0 = {} \<and> ev = [FreeIter]
      else r = None \<and> h' = h0 \<and>
           ev = (if l_free l = None then []
                 else map FreeValue (map snd cs @ map (\<lambda>n. the (dup_value l (snd n))) (takeWhile (\<lambda>n. dup_value l (snd n) \<noteq> None) ys)))
                @ [FreeList, FreeIter])"

lemma dup_value_cong: "l_dup l' = l_dup l \<Longrightarrow> dup_value l' = dup_value l"
  by (simp add: dup_value_def fun_eq_iff)

lemma dup_outcome_step:
  assumes "dup_outcome l' h0 (cs @ [(a, v)]) ys h' r ev" "dup_value l (snd n) = Some v"
    and "l_dup l' = l_dup l" "l_free l' = l_free l" "l_match l' = l_match l"
  shows "dup_outcome l h0 cs (n # ys) h' r ev"
proof (cases "\<forall>m \<in> set ys. dup_value l (snd m) \<noteq> None")
  case True
  then obtain copy cs' where "r = Some copy" "list_rep h' copy (cs @ (a, v) # cs')" "map snd cs' = map (\<lambda>n. the (dup_value l (snd n))) ys"
    "l_dup copy = l_dup l \<and> l_free copy = l_free l \<and> l_match copy = l_match l"
    "\<forall>b. b \<notin> fst ` set (cs @ (a, v) # cs') \<longrightarrow> h' b = h0 b" "fst ` set (cs @ (a, v) # cs') \<inter> dom h0 = {}" "ev = [FreeIter]"
    using assms(1,3-5) unfolding dup_outcome_def dup_value_cong [OF assms(3)] by auto
  moreover have "\<forall>m \<in> set (n # ys). dup_value l (snd m) \<noteq> None" using True assms(2) by simp
  ultimately show ?thesis unfolding dup_outcome_def using assms(2)
    by (simp only: if_P) (intro exI [of _ copy] exI [of _ "(a, v) # cs'"], simp)
next
  case False
  then show ?thesis using assms unfolding dup_outcome_def dup_value_cong [OF assms(3)] by auto
qed

lemma listDup_loop_rep:
  assumes al: "alloc_ok alloc" and fin: "finite (dom h0)"
    and rep: "list_rep h0 orig (xs @ ys)" and cp: "list_rep h copy cs" "length cs + length ys < 2 ^ 63"
    and fr: "\<And>b. b \<notin> fst ` set cs \<Longrightarrow> h b = h0 b" "fst ` set cs \<inter> dom h0 = {}"
  shows "\<exists>h' r ev. listDup_loop alloc h copy \<lparr>it_next = first ys None, it_direction = AL_START_HEAD\<rparr> = Some (h', r, ev) \<and>
     dup_outcome copy h0 cs ys h' r ev"
  using rep cp fr
proof (induction ys arbitrary: xs h copy cs)
  case Nil
  have "listNext h \<lparr>it_next = None, it_direction = AL_START_HEAD\<rparr> = Some (\<lparr>it_next = None, it_direction = AL_START_HEAD\<rparr>, None)"
    by (simp add: listNext_def)
  then show ?case using Nil by (subst listDup_loop.simps) (auto simp: dup_outcome_def listReleaseIterator_def)
next
  case (Cons n ys)
  have dom: "fst ` set (xs @ n # ys) \<subseteq> dom h0" by (rule list_rep_dom [OF Cons.prems(1)])
  have "h b = h0 b" if "b \<in> fst ` set (xs @ n # ys)" for b
  proof -
    have "b \<notin> fst ` set cs" using that dom Cons.prems(5) by (meson disjoint_iff subsetD)
    then show ?thesis by (rule Cons.prems(4))
  qed
  then have "list_rep h orig (xs @ n # ys)" by (rule list_rep_touches_other [OF Cons.prems(1)])
  then have d: "dll h None (xs @ n # ys) None" by (simp add: list_rep_def)
  then have nd: "h (fst n) = Some \<lparr>nd_prev = final xs None, nd_next = first ys None, nd_value = snd n\<rparr>"
    by (simp add: dll_append)
  note nx = listNext_head [OF d, simplified]
  show ?case
  proof (cases "dup_value copy (snd n)")
    case None
    have "(\<lambda>b. if b \<in> fst ` set cs then None else h b) = h0"
      using Cons.prems(4,5) by (auto simp: fun_eq_iff disjoint_iff domIff)
    then have "listDup_loop alloc h copy \<lparr>it_next = first (n # ys) None, it_direction = AL_START_HEAD\<rparr> =
        Some (h0, None, (if l_free copy = None then [] else map FreeValue (map snd cs)) @ [FreeList, FreeIter])"
      using None nd nx listRelease_rep [OF Cons.prems(2)]
      by (subst listDup_loop.simps) (simp add: dup_value_def listReleaseIterator_def cong: option.case_cong)
    then show ?thesis using None by (simp add: dup_outcome_def)
  next
    case (Some v)
    have "finite (fst ` set cs \<union> dom h0)" using fin by simp
    moreover have "dom h \<subseteq> fst ` set cs \<union> dom h0"
    proof
      fix b assume "b \<in> dom h"
      then show "b \<in> fst ` set cs \<union> dom h0" using Cons.prems(4) [of b] by (cases "b \<in> fst ` set cs") (auto simp: domIff)
    qed
    ultimately have "finite (dom h)" using finite_subset by blast
    then have a: "h (alloc h) = None" using al by (simp add: alloc_ok_def)
    have a1: "alloc h \<notin> fst ` set cs" using list_rep_dom [OF Cons.prems(2)] a by (auto simp: subset_iff domIff)
    then have a0: "h0 (alloc h) = None" using Cons.prems(4) [OF a1] a by simp
    obtain h1 c1 where t: "listAddNodeTail alloc h copy v = Some (h1, c1)" "list_rep h1 c1 (cs @ [(alloc h, v)])"
      "touches h h1 cs (cs @ [(alloc h, v)])" "l_dup c1 = l_dup copy" "l_free c1 = l_free copy" "l_match c1 = l_match copy"
      using listAddNodeTail_rep [where alloc = alloc and v = v, OF Cons.prems(2) a] Cons.prems(3) by auto
    have fr1: "\<And>b. b \<notin> fst ` set (cs @ [(alloc h, v)]) \<Longrightarrow> h1 b = h0 b"
      using t(3) Cons.prems(4) by (auto simp: touches_def)
    have dj1: "fst ` set (cs @ [(alloc h, v)]) \<inter> dom h0 = {}"
      using Cons.prems(5) a0 by (auto simp: domIff)
    have eq: "listDup_loop alloc h copy \<lparr>it_next = first (n # ys) None, it_direction = AL_START_HEAD\<rparr>
        = listDup_loop alloc h1 c1 \<lparr>it_next = first ys None, it_direction = AL_START_HEAD\<rparr>"
      using Some nd nx t(1) by (subst listDup_loop.simps) (simp add: dup_value_def cong: option.case_cong)
    obtain h' r ev where "listDup_loop alloc h1 c1 \<lparr>it_next = first ys None, it_direction = AL_START_HEAD\<rparr> = Some (h', r, ev)"
      "dup_outcome c1 h0 (cs @ [(alloc h, v)]) ys h' r ev"
      using Cons.IH [of "xs @ [n]" h1 c1 "cs @ [(alloc h, v)]"] Cons.prems(1,3) t(2) fr1 dj1 by auto
    then show ?thesis unfolding eq using dup_outcome_step [of c1 h0 cs "alloc h" v ys h' r ev copy n] Some t(4-6) by blast
  qed
qed

section \<open>Refinement of sequences\<close>

text \<open>The values of a list, read off the heap.\<close>

primrec list_walk :: "'a heap \<Rightarrow> nat \<Rightarrow> ptr \<Rightarrow> 'a list" where
  "list_walk h 0 p = []"
| "list_walk h (Suc n) p = (case deref h p of None \<Rightarrow> [] | Some nd \<Rightarrow> nd_value nd # list_walk h n (nd_next nd))"

definition list_values :: "'a heap \<times> 'a adlist \<Rightarrow> 'a list" where
  "list_values s = list_walk (fst s) (l_len (snd s)) (l_head (snd s))"

lemma list_walk_dll: "dll h p ns None \<Longrightarrow> list_walk h (length ns) (first ns None) = map snd ns"
  by (induction ns arbitrary: p) (auto simp: deref_def)

lemma list_values_rep: "list_rep h l ns \<Longrightarrow> list_values (h, l) = map snd ns"
  using list_walk_dll [of h None ns] by (simp add: list_values_def list_rep_def)

definition list_inv :: "'a heap \<times> 'a adlist \<Rightarrow> bool" where
  "list_inv s \<longleftrightarrow> finite (dom (fst s)) \<and> (\<exists>ns. list_rep (fst s) (snd s) ns)"

text \<open>Operations on the node at an index, found with \<open>listIndex\<close>.\<close>

datatype 'a list_op = LPushHead 'a | LPushTail 'a | LInsertAt int 'a bool | LDelAt int | LRotate | LLength

datatype list_res = LDone bool | LNat nat

fun adlist_do :: "('a heap \<Rightarrow> nat) \<Rightarrow> 'a heap \<times> 'a adlist \<Rightarrow> 'a list_op \<Rightarrow> (('a heap \<times> 'a adlist) \<times> list_res) option" where
  "adlist_do alloc (h, l) (LPushHead v) = map_option (\<lambda>s. (s, LDone True)) (listAddNodeHead alloc h l v)"
| "adlist_do alloc (h, l) (LPushTail v) = map_option (\<lambda>s. (s, LDone True)) (listAddNodeTail alloc h l v)"
| "adlist_do alloc (h, l) (LInsertAt i v after) = do {
     n \<leftarrow> listIndex h l i;
     if n = None then Some ((h, l), LDone False)
     else map_option (\<lambda>s. (s, LDone True)) (listInsertNode alloc h l n v after) }"
| "adlist_do alloc (h, l) (LDelAt i) = do {
     n \<leftarrow> listIndex h l i;
     if n = None then Some ((h, l), LDone False)
     else map_option (\<lambda>s. (fst s, LDone True)) (listDelNode h l n) }"
| "adlist_do alloc (h, l) LRotate = map_option (\<lambda>s. (s, LDone True)) (listRotate h l)"
| "adlist_do alloc (h, l) LLength = Some ((h, l), LNat (l_len l))"

text \<open>Position of an index that may count from the end.\<close>

definition index_pos :: "'a list \<Rightarrow> int \<Rightarrow> nat option" where
  "index_pos xs i = (let j = (if i < 0 then int (length xs) + i else i) in
     if 0 \<le> j \<and> j < int (length xs) then Some (nat j) else None)"

fun seq_do :: "'a list \<Rightarrow> 'a list_op \<Rightarrow> 'a list \<times> list_res" where
  "seq_do xs (LPushHead v) = (v # xs, LDone True)"
| "seq_do xs (LPushTail v) = (xs @ [v], LDone True)"
| "seq_do xs (LInsertAt i v after) =
     (case index_pos xs i of
        None \<Rightarrow> (xs, LDone False)
      | Some k \<Rightarrow> let k = (if after then Suc k else k) in (take k xs @ v # drop k xs, LDone True))"
| "seq_do xs (LDelAt i) =
     (case index_pos xs i of None \<Rightarrow> (xs, LDone False) | Some k \<Rightarrow> (take k xs @ drop (Suc k) xs, LDone True))"
| "seq_do xs LRotate = ((if xs = [] then [] else last xs # butlast xs), LDone True)"
| "seq_do xs LLength = (xs, LNat (length xs))"

fun seq_ok :: "'a list \<Rightarrow> 'a list_op \<Rightarrow> bool" where
  "seq_ok xs (LPushHead v) = (Suc (length xs) < 2 ^ 63)"
| "seq_ok xs (LPushTail v) = (Suc (length xs) < 2 ^ 63)"
| "seq_ok xs (LInsertAt i v after) = (Suc (length xs) < 2 ^ 63 \<and> - (2 ^ 63) < i)"
| "seq_ok xs (LDelAt i) = (- (2 ^ 63) < i)"
| "seq_ok xs _ = True"

lemma touches_finite: "touches h h' ns ns' \<Longrightarrow> finite (dom h) \<Longrightarrow> finite (dom h')"
  by (simp add: touches_def)

lemma listIndex_pos: "list_rep h l ns \<Longrightarrow> - (2 ^ 63) < i \<Longrightarrow>
   listIndex h l i = Some (map_option (\<lambda>k. fst (ns ! k)) (index_pos (map snd ns) i))"
  by (simp add: listIndex_rep index_pos_def Let_def)

lemma index_pos_lt: "index_pos xs i = Some k \<Longrightarrow> k < length xs"
  by (auto simp: index_pos_def Let_def split: if_splits)

lemma nodes_split: "k < length ns \<Longrightarrow> ns = take k ns @ ns ! k # drop (Suc k) ns"
  by (rule id_take_nth_drop)

lemma list_inv_intro: "list_rep h l ns \<Longrightarrow> finite (dom h) \<Longrightarrow> list_inv (h, l) \<and> list_values (h, l) = map snd ns"
  by (auto simp: list_inv_def list_values_rep)

lemma adlist_do_sim:
  assumes al: "alloc_ok alloc" and fin: "finite (dom h)" and rep: "list_rep h l ns" and ok: "seq_ok (map snd ns) x"
  shows "\<exists>h' l' ns'. adlist_do alloc (h, l) x = Some ((h', l'), snd (seq_do (map snd ns) x)) \<and>
           finite (dom h') \<and> list_rep h' l' ns' \<and> map snd ns' = fst (seq_do (map snd ns) x)"
proof (cases x)
  case (LPushHead v)
  have "h (alloc h) = None" using al fin by (simp add: alloc_ok_def)
  then obtain h' l' where r: "listAddNodeHead alloc h l v = Some (h', l')" "list_rep h' l' ((alloc h, v) # ns)"
    "touches h h' ns ((alloc h, v) # ns)"
    using listAddNodeHead_rep [where alloc = alloc and v = v, OF rep] ok LPushHead by auto
  then show ?thesis using LPushHead touches_finite [OF r(3) fin] by auto
next
  case (LPushTail v)
  have "h (alloc h) = None" using al fin by (simp add: alloc_ok_def)
  then obtain h' l' where r: "listAddNodeTail alloc h l v = Some (h', l')" "list_rep h' l' (ns @ [(alloc h, v)])"
    "touches h h' ns (ns @ [(alloc h, v)])"
    using listAddNodeTail_rep [where alloc = alloc and v = v, OF rep] ok LPushTail by auto
  then show ?thesis using LPushTail touches_finite [OF r(3) fin]
    by (intro exI [of _ h'] exI [of _ l'] exI [of _ "ns @ [(alloc h, v)]"]) simp
next
  case (LInsertAt i v after)
  have a: "h (alloc h) = None" using al fin by (simp add: alloc_ok_def)
  note ix = listIndex_pos [OF rep, of i]
  show ?thesis
  proof (cases "index_pos (map snd ns) i")
    case None
    then show ?thesis using ix ok LInsertAt rep fin by auto
  next
    case (Some k)
    then have k: "k < length ns" using index_pos_lt by fastforce
    let ?ns = "if after then take k ns @ ns ! k # (alloc h, v) # drop (Suc k) ns else take k ns @ (alloc h, v) # ns ! k # drop (Suc k) ns"
    have "list_rep h l (take k ns @ ns ! k # drop (Suc k) ns)" using rep nodes_split [OF k] by simp
    moreover have "Suc (length (take k ns @ ns ! k # drop (Suc k) ns)) < 2 ^ 63" using ok LInsertAt k by (simp, linarith)
    ultimately obtain h' l' where r: "listInsertNode alloc h l (Some (fst (ns ! k))) v after = Some (h', l')"
      "list_rep h' l' ?ns" "touches h h' (take k ns @ ns ! k # drop (Suc k) ns) ?ns"
      using listInsertNode_rep [where alloc = alloc and v = v and after = after and h = h, OF _ a] by blast
    have "map snd ?ns = fst (seq_do (map snd ns) x)"
      using Some LInsertAt k by (simp add: take_Suc_conv_app_nth take_map drop_map flip: Cons_nth_drop_Suc)
    then show ?thesis using ix ok LInsertAt Some r touches_finite [OF r(3) fin]
      by (intro exI [of _ h'] exI [of _ l'] exI [of _ ?ns]) simp
  qed
next
  case (LDelAt i)
  note ix = listIndex_pos [OF rep, of i]
  show ?thesis
  proof (cases "index_pos (map snd ns) i")
    case None
    then show ?thesis using ix ok LDelAt rep fin by auto
  next
    case (Some k)
    then have k: "k < length ns" using index_pos_lt by fastforce
    have "list_rep h l (take k ns @ ns ! k # drop (Suc k) ns)" using rep nodes_split [OF k] by simp
    from listDelNode_rep [OF this]
    obtain h' l' where r: "listDelNode h l (Some (fst (ns ! k))) = Some ((h', l'), call_free l (snd (ns ! k)))"
      "list_rep h' l' (take k ns @ drop (Suc k) ns)" "touches h h' (take k ns @ ns ! k # drop (Suc k) ns) (take k ns @ drop (Suc k) ns)"
      by auto
    then show ?thesis using ix ok LDelAt Some touches_finite [OF r(3) fin]
      by (intro exI [of _ h'] exI [of _ l'] exI [of _ "take k ns @ drop (Suc k) ns"]) (simp add: take_map drop_map)
  qed
next
  case LRotate
  from listRotate_rep [OF rep] obtain h' l' where r: "listRotate h l = Some (h', l')"
    "list_rep h' l' (if ns = [] then [] else last ns # butlast ns)" "touches h h' ns ns" by auto
  then show ?thesis using LRotate touches_finite [OF r(3) fin]
    by (intro exI [of _ h'] exI [of _ l'] exI [of _ "if ns = [] then [] else last ns # butlast ns"])
       (simp add: last_map map_butlast)
next
  case LLength
  then show ?thesis using rep fin by (auto simp: list_rep_def)
qed

text \<open>
  The interface of a sequence that its clients (the client list, \<open>MONITOR\<close>, the slow log) use, over
  any allocator that returns unused addresses.
\<close>

locale allocator =
  fixes alloc :: "'a heap \<Rightarrow> nat"
  assumes fresh: "finite (dom h) \<Longrightarrow> h (alloc h) = None"
begin

lemma alloc_ok: "alloc_ok alloc"
  by (simp add: alloc_ok_def fresh)

lemma step:
  "list_inv s \<Longrightarrow> seq_ok (list_values s) x \<Longrightarrow>
   \<exists>s'. adlist_do alloc s x = Some (s', snd (seq_do (list_values s) x)) \<and> list_inv s' \<and>
        list_values s' = fst (seq_do (list_values s) x)"
proof -
  assume inv: "list_inv s" and ok: "seq_ok (list_values s) x"
  obtain h l where s: "s = (h, l)" by (cases s)
  from inv s obtain ns where rep: "list_rep h l ns" and fin: "finite (dom h)" by (auto simp: list_inv_def)
  have "seq_ok (map snd ns) x" using ok list_values_rep [OF rep] s by simp
  from adlist_do_sim [OF alloc_ok fin rep this] obtain h' l' ns' where r:
    "adlist_do alloc (h, l) x = Some ((h', l'), snd (seq_do (map snd ns) x))" "finite (dom h')" "list_rep h' l' ns'"
    "map snd ns' = fst (seq_do (map snd ns) x)" by blast
  then show ?thesis using list_inv_intro [OF r(3,2)] list_values_rep [OF rep] s by auto
qed

end

sublocale allocator \<subseteq> adlist: simulation list_inv list_values "adlist_do alloc" seq_do seq_ok
  by unfold_locales (rule step)

lemma listCreate_inv: "list_inv (Map.empty, fst listCreate)" "list_values (Map.empty, fst listCreate) = []"
  by (auto simp: list_inv_def list_values_def listCreate_def list_rep_def)

context allocator
begin

lemma runs:
  "run_ok seq_do seq_ok [] ops \<Longrightarrow>
   \<exists>s. run_ops (adlist_do alloc) (Map.empty, fst listCreate) ops = Some (s, snd (run_spec seq_do [] ops)) \<and>
       list_inv s \<and> list_values s = fst (run_spec seq_do [] ops)"
  using adlist.run_sim [of "(Map.empty, fst listCreate)" ops] by (simp add: listCreate_inv)

end

text \<open>An allocator: the least address not in use.\<close>

definition least_free :: "'a heap \<Rightarrow> nat" where
  "least_free h = (LEAST a. h a = None)"

interpretation least_alloc: allocator least_free
proof
  fix h :: "'a heap" assume "finite (dom h)"
  then have "\<exists>a. h a = None" using ex_new_if_finite [OF infinite_UNIV_nat] by (metis domIff)
  then show "h (least_free h) = None" unfolding least_free_def by (rule LeastI_ex)
qed

lemma least_free_ok: "\<forall>h :: 'a heap. finite (dom h) \<longrightarrow> h (least_free h) = None"
  using least_alloc.fresh by blast

section \<open>Properties\<close>

text \<open>
  C8.  Over any allocator that returns unused addresses, every sequence of \<open>listAddNodeHead\<close>,
  \<open>listAddNodeTail\<close>, \<open>listIndex\<close> followed by \<open>listInsertNode\<close> or \<open>listDelNode\<close>, and \<open>listRotate\<close>,
  applied to an empty list, leaves a well-formed doubly linked list with the values that the same
  operations on a mathematical sequence give; no NULL or freed pointer is followed.
\<close>

theorem adlist_refines_sequence:
  assumes "\<forall>h. finite (dom h) \<longrightarrow> h (alloc h) = None" and "run_ok seq_do seq_ok [] ops"
  shows "\<exists>s. run_ops (adlist_do alloc) (Map.empty, fst listCreate) ops = Some (s, snd (run_spec seq_do [] ops)) \<and>
           list_inv s \<and> list_values s = fst (run_spec seq_do [] ops)"
proof -
  have "allocator alloc" using assms(1) by unfold_locales auto
  from allocator.runs [OF this assms(2)] show ?thesis .
qed

theorem adlist_refines_sequence_witness:
  "\<exists>s. run_ops (adlist_do least_free) (Map.empty, fst listCreate)
       [LPushTail 1, LPushTail 2, LPushHead 0, LInsertAt (-1) 7 False, LDelAt 0, LRotate]
     = Some (s, [LDone True, LDone True, LDone True, LDone True, LDone True, LDone True]) \<and>
     list_inv s \<and> list_values s = [2, 1, 7 :: nat]"
  using adlist_refines_sequence [OF least_free_ok, of "[LPushTail (1 :: nat), LPushTail 2, LPushHead 0, LInsertAt (-1) 7 False, LDelAt 0, LRotate]"]
  by (simp add: index_pos_def Let_def del: run_ops.simps adlist_do.simps)

text \<open>
  C30.  What the comment above \<open>listNext\<close> promises: it is valid to remove the element that an iterator
  has just returned.  In both directions the call returns the node, \<open>listDelNode\<close> takes it out of the
  list (its value is handed to the \<open>free\<close> method, if there is one), what is left is a well-formed list of the other
  nodes, and the iterator goes on with exactly the nodes that had not been visited yet and then with NULL, without
  following a freed pointer.
\<close>

theorem listNext_delete_safe:
  assumes "list_rep h l (xs @ n # ys)" "it_next it = Some (fst n)"
  shows "\<exists>it' h' l'. listNext h it = Some (it', Some (fst n)) \<and>
     listDelNode h l (Some (fst n)) = Some ((h', l'), if l_free l = None then [] else [FreeValue (snd n)]) \<and>
     list_rep h' l' (xs @ ys) \<and>
     (let rest = (case it_direction it of AL_START_HEAD \<Rightarrow> ys | AL_START_TAIL \<Rightarrow> rev xs)
      in iter_run (Suc (length rest)) h' it' = Some (map (Some \<circ> fst) rest @ [None]))"
proof -
  obtain h' l' where d: "listDelNode h l (Some (fst n)) = Some ((h', l'), call_free l (snd n))" "list_rep h' l' (xs @ ys)"
    using listDelNode_rep [OF assms(1)] by blast
  have dll: "dll h None (xs @ n # ys) None" "dll h None ((xs @ [n]) @ ys) None" "dll h' None (xs @ ys) None"
    using assms(1) d(2) by (simp_all add: list_rep_def)
  have f: "call_free l (snd n) = (if l_free l = None then [] else [FreeValue (snd n)])" by (simp add: call_free_def)
  show ?thesis
  proof (cases "it_direction it")
    case AL_START_HEAD
    then have "it = \<lparr>it_next = first (n # ys) None, it_direction = AL_START_HEAD\<rparr>" using assms(2) by simp
    then show ?thesis using listNext_head [OF dll(1)] iter_run_head [OF dll(3)] d AL_START_HEAD
      by (simp add: Let_def f del: iter_run.simps)
  next
    case AL_START_TAIL
    then have "it = \<lparr>it_next = final (xs @ [n]) None, it_direction = AL_START_TAIL\<rparr>" using assms(2) by simp
    then show ?thesis using listNext_tail [OF dll(2)] iter_run_tail [OF dll(3)] d AL_START_TAIL
      by (simp add: Let_def f del: iter_run.simps)
  qed
qed

text \<open>A list of three nodes, with a \<open>free\<close> method and a \<open>dup\<close> method that fails for 9.\<close>

definition sample_list :: "nat adlist" where
  "sample_list = \<lparr>l_head = Some 0, l_tail = Some 2, l_dup = Some (\<lambda>v. if v = 9 then None else Some (v + 1)),
     l_free = Some (\<lambda>_. ()), l_match = None, l_len = 3\<rparr>"

definition sample_nodes :: "nat \<Rightarrow> nat heap" where
  "sample_nodes v = [0 \<mapsto> \<lparr>nd_prev = None, nd_next = Some 1, nd_value = 5\<rparr>,
     1 \<mapsto> \<lparr>nd_prev = Some 0, nd_next = Some 2, nd_value = 6\<rparr>, 2 \<mapsto> \<lparr>nd_prev = Some 1, nd_next = None, nd_value = v\<rparr>]"

lemma sample_list_rep: "list_rep (sample_nodes v) sample_list [(0, 5), (1, 6), (2, v)]" "finite (dom (sample_nodes v))"
  by (simp_all add: list_rep_def sample_list_def sample_nodes_def)

theorem listNext_delete_safe_witness:
  "\<exists>it' h' l'. listNext (sample_nodes 7) \<lparr>it_next = Some 1, it_direction = AL_START_TAIL\<rparr> = Some (it', Some 1) \<and>
     listDelNode (sample_nodes 7) sample_list (Some 1) = Some ((h', l'), [FreeValue 6]) \<and>
     list_rep h' l' [(0, 5), (2, 7)] \<and> iter_run 2 h' it' = Some [Some 0, None]"
proof -
  have "list_rep (sample_nodes 7) sample_list ([(0, 5)] @ (1, 6) # [(2, 7)])" using sample_list_rep(1) [of 7] by simp
  from listNext_delete_safe [OF this, of "\<lparr>it_next = Some 1, it_direction = AL_START_TAIL\<rparr>"]
  show ?thesis by (auto simp: sample_list_def eval_nat_numeral simp del: iter_run.simps)
qed

text \<open>
  C31.  \<open>listDup\<close> returns a separate list with the same methods and the duplicated values (or the
  values themselves when there is no \<open>dup\<close> method), leaves the original and the rest of the heap
  unchanged, and releases its iterator.  When \<open>dup\<close> fails for a value, it returns NULL: every node it
  allocated is released again, the values duplicated so far are handed to the \<open>free\<close> method in order
  (when the list has one; without one they are lost), and the list structure and the iterator are
  released, once each.
\<close>

theorem listDup_correct:
  assumes "\<forall>h. finite (dom h) \<longrightarrow> h (alloc h) = None" and "finite (dom h)" "list_rep h l ns"
  shows "\<exists>h' r ev. listDup alloc h l = Some (h', r, ev) \<and>
     (if \<forall>n \<in> set ns. dup_value l (snd n) \<noteq> None
      then \<exists>copy cs. r = Some copy \<and> list_rep h' copy cs \<and> map snd cs = map (\<lambda>n. the (dup_value l (snd n))) ns \<and>
             l_dup copy = l_dup l \<and> l_free copy = l_free l \<and> l_match copy = l_match l \<and>
             (\<forall>b. b \<notin> fst ` set cs \<longrightarrow> h' b = h b) \<and> fst ` set cs \<inter> dom h = {} \<and> ev = [NewList, NewIter, FreeIter]
      else r = None \<and> h' = h \<and>
           ev = [NewList, NewIter] @ (if l_free l = None then []
                  else map FreeValue (map (\<lambda>n. the (dup_value l (snd n))) (takeWhile (\<lambda>n. dup_value l (snd n) \<noteq> None) ns)))
                @ [FreeList, FreeIter])"
proof -
  let ?c = "(fst listCreate)\<lparr>l_dup := l_dup l, l_free := l_free l, l_match := l_match l\<rparr>"
  have c: "dup_value ?c = dup_value l" by (rule dup_value_cong) simp
  have "alloc_ok alloc" using assms(1) by (simp add: alloc_ok_def)
  moreover have "list_rep h ?c []" by (simp add: list_rep_def listCreate_def)
  moreover have "list_rep h l ([] @ ns)" using assms(3) by simp
  moreover have "length ([] :: 'a nodes) + length ns < 2 ^ 63" using assms(3) by (simp add: list_rep_def)
  ultimately have "\<exists>h' r ev. listDup_loop alloc h ?c \<lparr>it_next = first ns None, it_direction = AL_START_HEAD\<rparr> = Some (h', r, ev) \<and>
     dup_outcome ?c h [] ns h' r ev"
    by (intro listDup_loop_rep [where orig = l and xs = "[]"]) (use assms(2) in auto)
  then obtain h' r ev where r: "listDup_loop alloc h ?c \<lparr>it_next = first ns None, it_direction = AL_START_HEAD\<rparr> = Some (h', r, ev)"
    "dup_outcome ?c h [] ns h' r ev" by blast
  have "listDup alloc h l = Some (h', r, [NewList, NewIter] @ ev)"
    using assms(3) r(1) by (simp add: listDup_def listGetIterator_def list_rep_def listCreate_def)
  then show ?thesis using r(2) unfolding dup_outcome_def c
    by (cases "\<forall>n \<in> set ns. dup_value l (snd n) \<noteq> None") (simp_all only: if_P if_not_P if_False, auto)
qed

theorem listDup_correct_witness:
  "(\<exists>h' copy cs. listDup least_free (sample_nodes 7) sample_list = Some (h', Some copy, [NewList, NewIter, FreeIter]) \<and>
     list_rep h' copy cs \<and> map snd cs = [6, 7, 8]) \<and>
   listDup least_free (sample_nodes 9) sample_list =
     Some (sample_nodes 9, None, [NewList, NewIter, FreeValue 6, FreeValue 7, FreeList, FreeIter])"
proof
  have d: "dup_value sample_list v = (if v = 9 then None else Some (v + 1))" for v by (simp add: dup_value_def sample_list_def)
  note c = listDup_correct [OF least_free_ok sample_list_rep(2,1), unfolded d]
  show "\<exists>h' copy cs. listDup least_free (sample_nodes 7) sample_list = Some (h', Some copy, [NewList, NewIter, FreeIter]) \<and>
     list_rep h' copy cs \<and> map snd cs = [6, 7, 8]" using c [of 7] by fastforce
  show "listDup least_free (sample_nodes 9) sample_list =
     Some (sample_nodes 9, None, [NewList, NewIter, FreeValue 6, FreeValue 7, FreeList, FreeIter])"
    using c [of 9] by (simp add: sample_list_def)
qed

text \<open>
  C32.  \<open>listRelease\<close> frees every node of the list exactly once, passes every value to the \<open>free\<close>
  method in order (if there is one), releases the list structure last, and changes nothing else in the heap.
\<close>

theorem listRelease_frees_all:
  assumes "list_rep h l ns"
  shows "listRelease h l = Some (\<lambda>b. if b \<in> fst ` set ns then None else h b,
     (if l_free l = None then [] else map FreeValue (map snd ns)) @ [FreeList])"
  using assms by (rule listRelease_rep)

theorem listRelease_frees_all_witness:
  "listRelease (sample_nodes 7) sample_list = Some (Map.empty, [FreeValue 5, FreeValue 6, FreeValue 7, FreeList])"
proof -
  have "(\<lambda>b. if b \<in> {0, 1, 2} then None else sample_nodes 7 b) = Map.empty" by (auto simp: sample_nodes_def)
  then show ?thesis using listRelease_frees_all [OF sample_list_rep(1) [of 7]] by (simp add: sample_list_def)
qed

end
