(* ===== verification/Sds.thy ===== *)
theory Sds
  imports Memory Numbers Refinement
begin

text \<open>
  Dynamic strings (\<open>sds.c\<close>, \<open>sds.h\<close>).  An sds value is a header with the length and the number of
  free bytes, both 32 bits, followed by the buffer; the buffer is kept with all its allocated bytes.
  A C string argument is the list of bytes readable at the pointer.  Bytes that an allocation
  leaves indeterminate are given by the parameter \<open>junk\<close>, on which no result depends.  The
  allocator never returns \<open>NULL\<close> (it aborts), so the \<open>NULL\<close> tests of its results are not branches
  of the model.  A string passed as an argument does not overlap the destination, as
  \<open>memcpy\<close> requires.
\<close>

section \<open>Representation\<close>

record sdshdr =
  sds_len :: nat
  sds_free :: nat
  sds_buf :: bytes

definition SDS_MAX_PREALLOC :: nat where
  "SDS_MAX_PREALLOC = 1024 * 1024"

definition SDS_LLSTR_SIZE :: nat where
  "SDS_LLSTR_SIZE = 21"

definition sdslen :: "sdshdr \<Rightarrow> nat" where
  "sdslen s = sds_len s"

definition sdsavail :: "sdshdr \<Rightarrow> nat" where
  "sdsavail s = sds_free s"

text \<open>The bytes of \<open>buf\<close> in a block of \<open>sizeof(struct sdshdr)+n+1\<close> bytes.\<close>

definition sds_block :: "nat \<Rightarrow> nat option" where
  "sds_block n = (let tot = ul_add (ul_add 8 n) 1 in if 8 \<le> tot then Some (tot - 8) else None)"

text \<open>An unsigned 32-bit field plus a signed \<open>int\<close>.\<close>

definition ui_addi :: "nat \<Rightarrow> int \<Rightarrow> nat" where
  "ui_addi a i = nat ((int a + i) mod 2 ^ 32)"

section \<open>Creation\<close>

definition sdsnewlen :: "(nat \<Rightarrow> byte) \<Rightarrow> bytes option \<Rightarrow> nat \<Rightarrow> sdshdr option" where
  "sdsnewlen junk init initlen = do {
     n \<leftarrow> sds_block initlen;
     let buf = (case init of Some _ \<Rightarrow> zrealloc junk [] n | None \<Rightarrow> replicate n 0);
     buf \<leftarrow> (case init of
         Some t \<Rightarrow> if initlen \<noteq> 0 then do { bs \<leftarrow> mem_read t 0 initlen; mem_write buf 0 bs } else Some buf
       | None \<Rightarrow> Some buf);
     buf \<leftarrow> arr_set buf initlen 0;
     Some \<lparr>sds_len = initlen mod 2 ^ 32, sds_free = 0, sds_buf = buf\<rparr> }"

definition sdsempty :: "(nat \<Rightarrow> byte) \<Rightarrow> sdshdr option" where
  "sdsempty junk = sdsnewlen junk (Some [0]) 0"

definition sdsnew :: "(nat \<Rightarrow> byte) \<Rightarrow> bytes option \<Rightarrow> sdshdr option" where
  "sdsnew junk init = do {
     initlen \<leftarrow> (case init of None \<Rightarrow> Some 0 | Some t \<Rightarrow> c_strlen t);
     sdsnewlen junk init initlen }"

definition sdsdup :: "(nat \<Rightarrow> byte) \<Rightarrow> sdshdr \<Rightarrow> sdshdr option" where
  "sdsdup junk s = sdsnewlen junk (Some (sds_buf s)) (sdslen s)"

definition sdsupdatelen :: "sdshdr \<Rightarrow> sdshdr option" where
  "sdsupdatelen s = do {
     n \<leftarrow> c_strlen (sds_buf s);
     let reallen = n mod 2 ^ 32;
     Some (s\<lparr>sds_free := ui_add (sds_free s) (ui_sub (sds_len s) reallen), sds_len := reallen\<rparr>) }"

definition sdsclear :: "sdshdr \<Rightarrow> sdshdr option" where
  "sdsclear s = do {
     buf \<leftarrow> arr_set (sds_buf s) 0 0;
     Some \<lparr>sds_len = 0, sds_free = ui_add (sds_free s) (sds_len s), sds_buf = buf\<rparr> }"

section \<open>Space\<close>

definition sds_prealloc :: "nat \<Rightarrow> nat" where
  "sds_prealloc newlen =
     (if newlen < SDS_MAX_PREALLOC then ul_mul newlen 2 else ul_add newlen SDS_MAX_PREALLOC)"

definition sdsMakeRoomFor :: "(nat \<Rightarrow> byte) \<Rightarrow> sdshdr \<Rightarrow> nat \<Rightarrow> sdshdr option" where
  "sdsMakeRoomFor junk s addlen =
     (if addlen \<le> sdsavail s then Some s
      else do {
        let len = sdslen s;
        let newlen = sds_prealloc (ul_add len addlen);
        n \<leftarrow> sds_block newlen;
        Some (s\<lparr>sds_free := ul_sub newlen len mod 2 ^ 32, sds_buf := zrealloc junk (sds_buf s) n\<rparr>) })"

definition sdsRemoveFreeSpace :: "(nat \<Rightarrow> byte) \<Rightarrow> sdshdr \<Rightarrow> sdshdr option" where
  "sdsRemoveFreeSpace junk s = do {
     n \<leftarrow> sds_block (sds_len s);
     Some (s\<lparr>sds_free := 0, sds_buf := zrealloc junk (sds_buf s) n\<rparr>) }"

definition sdsAllocSize :: "sdshdr \<Rightarrow> nat" where
  "sdsAllocSize s = ul_add (ul_add (ul_add 8 (sds_len s)) (sds_free s)) 1"

definition sdsIncrLen :: "sdshdr \<Rightarrow> int \<Rightarrow> sdshdr option" where
  "sdsIncrLen s incr =
     (if (if 0 \<le> incr then nat incr \<le> sds_free s
          else incr \<noteq> - (2 ^ 31) \<and> nat (- incr) \<le> sds_len s)
      then do {
        let len = ui_addi (sds_len s) incr;
        buf \<leftarrow> arr_set (sds_buf s) len 0;
        Some \<lparr>sds_len = len, sds_free = ui_addi (sds_free s) (- incr), sds_buf = buf\<rparr> }
      else None)"

definition sdsgrowzero :: "(nat \<Rightarrow> byte) \<Rightarrow> sdshdr \<Rightarrow> nat \<Rightarrow> sdshdr option" where
  "sdsgrowzero junk s len =
     (let curlen = sds_len s in
      if len \<le> curlen then Some s
      else do {
        s \<leftarrow> sdsMakeRoomFor junk s (ul_sub len curlen);
        buf \<leftarrow> mem_write (sds_buf s) curlen (replicate (ul_add (ul_sub len curlen) 1) 0);
        let totlen = ui_add (sds_len s) (sds_free s);
        Some \<lparr>sds_len = len mod 2 ^ 32, sds_free = ul_sub totlen (len mod 2 ^ 32) mod 2 ^ 32, sds_buf = buf\<rparr> })"

section \<open>Appending and copying\<close>

definition sdscatlen :: "(nat \<Rightarrow> byte) \<Rightarrow> sdshdr \<Rightarrow> bytes \<Rightarrow> nat \<Rightarrow> sdshdr option" where
  "sdscatlen junk s t len = do {
     let curlen = sdslen s;
     s \<leftarrow> sdsMakeRoomFor junk s len;
     bs \<leftarrow> mem_read t 0 len;
     buf \<leftarrow> mem_write (sds_buf s) curlen bs;
     buf \<leftarrow> arr_set buf (ul_add curlen len) 0;
     Some \<lparr>sds_len = ul_add curlen len mod 2 ^ 32, sds_free = ul_sub (sds_free s) len mod 2 ^ 32, sds_buf = buf\<rparr> }"

definition sdscat :: "(nat \<Rightarrow> byte) \<Rightarrow> sdshdr \<Rightarrow> bytes \<Rightarrow> sdshdr option" where
  "sdscat junk s t = do { n \<leftarrow> c_strlen t; sdscatlen junk s t n }"

definition sdscatsds :: "(nat \<Rightarrow> byte) \<Rightarrow> sdshdr \<Rightarrow> sdshdr \<Rightarrow> sdshdr option" where
  "sdscatsds junk s t = sdscatlen junk s (sds_buf t) (sdslen t)"

definition sdscpylen_room :: "(nat \<Rightarrow> byte) \<Rightarrow> sdshdr \<Rightarrow> nat \<Rightarrow> (sdshdr \<times> nat) option" where
  "sdscpylen_room junk s len =
     (let totlen = ui_add (sds_free s) (sds_len s) in
      if totlen < len then do {
        s \<leftarrow> sdsMakeRoomFor junk s (ul_sub len (sds_len s));
        Some (s, ui_add (sds_free s) (sds_len s)) }
      else Some (s, totlen))"

definition sdscpylen :: "(nat \<Rightarrow> byte) \<Rightarrow> sdshdr \<Rightarrow> bytes \<Rightarrow> nat \<Rightarrow> sdshdr option" where
  "sdscpylen junk s t len = do {
     (s, totlen) \<leftarrow> sdscpylen_room junk s len;
     bs \<leftarrow> mem_read t 0 len;
     buf \<leftarrow> mem_write (sds_buf s) 0 bs;
     buf \<leftarrow> arr_set buf len 0;
     Some \<lparr>sds_len = len mod 2 ^ 32, sds_free = ul_sub totlen len mod 2 ^ 32, sds_buf = buf\<rparr> }"

definition sdscpy :: "(nat \<Rightarrow> byte) \<Rightarrow> sdshdr \<Rightarrow> bytes \<Rightarrow> sdshdr option" where
  "sdscpy junk s t = do { n \<leftarrow> c_strlen t; sdscpylen junk s t n }"

section \<open>Trimming, ranges, case and comparison\<close>

text \<open>\<open>strchr\<close> also finds the terminator itself.\<close>

fun c_strchr :: "bytes \<Rightarrow> byte \<Rightarrow> bool option" where
  "c_strchr [] c = None"
| "c_strchr (b # s) c = (if b = c then Some True else if b = 0 then Some False else c_strchr s c)"

function sdstrim_left :: "bytes \<Rightarrow> bytes \<Rightarrow> int \<Rightarrow> int \<Rightarrow> int option" where
  "sdstrim_left buf cset sp en =
     (if sp \<le> en then do {
        c \<leftarrow> arr_get buf (nat sp);
        m \<leftarrow> c_strchr cset c;
        if m then sdstrim_left buf cset (sp + 1) en else Some sp }
      else Some sp)"
  by pat_completeness auto
termination by (relation "measure (\<lambda>(buf, cset, sp, en). nat (en - sp + 1))") auto

function sdstrim_right :: "bytes \<Rightarrow> bytes \<Rightarrow> int \<Rightarrow> int option" where
  "sdstrim_right buf cset ep =
     (if 0 < ep then do {
        c \<leftarrow> arr_get buf (nat ep);
        m \<leftarrow> c_strchr cset c;
        if m then sdstrim_right buf cset (ep - 1) else Some ep }
      else Some ep)"
  by pat_completeness auto
termination by (relation "measure (\<lambda>(buf, cset, ep). nat ep)") auto

declare sdstrim_left.simps [simp del] sdstrim_right.simps [simp del]

definition sdstrim_newlen :: "int \<Rightarrow> int \<Rightarrow> nat" where
  "sdstrim_newlen sp ep = (if ep < sp then 0 else nat (ep - sp + 1))"

definition sdstrim_cut :: "sdshdr \<Rightarrow> int \<Rightarrow> nat \<Rightarrow> sdshdr option" where
  "sdstrim_cut s sp len = do {
     buf \<leftarrow> (if sp \<noteq> 0 then mem_move (sds_buf s) 0 (nat sp) len else Some (sds_buf s));
     buf \<leftarrow> arr_set buf len 0;
     Some \<lparr>sds_len = len mod 2 ^ 32,
           sds_free = ul_add (sds_free s) (ul_sub (sds_len s) len) mod 2 ^ 32, sds_buf = buf\<rparr> }"

definition sdstrim :: "sdshdr \<Rightarrow> bytes \<Rightarrow> sdshdr option" where
  "sdstrim s cset = do {
     let en = int (sdslen s) - 1;
     sp \<leftarrow> sdstrim_left (sds_buf s) cset 0 en;
     ep \<leftarrow> sdstrim_right (sds_buf s) cset en;
     sdstrim_cut s sp (sdstrim_newlen sp ep) }"

text \<open>
  \<open>sdsrange\<close> with the clamping of its two \<open>int\<close> arguments.  Signed overflow in \<open>(end-start)+1\<close> is
  undefined behaviour.
\<close>

definition sdsrange_neg :: "nat \<Rightarrow> int \<Rightarrow> int" where
  "sdsrange_neg len i =
     (if i < 0 then (let i = int_of_ulong (nat ((int len + i) mod 2 ^ 64)) in if i < 0 then 0 else i) else i)"

definition sdsrange_count :: "int \<Rightarrow> int \<Rightarrow> nat option" where
  "sdsrange_count start en =
     (if en < start then Some 0
      else if en - start + 1 < 2 ^ 31 then Some (nat (en - start + 1)) else None)"

definition sdsrange_clip :: "nat \<Rightarrow> int \<Rightarrow> int \<Rightarrow> (int \<times> nat) option" where
  "sdsrange_clip len start en = do {
     newlen \<leftarrow> sdsrange_count start en;
     if newlen \<noteq> 0 then
       (if int_of_ulong len \<le> start then Some (start, 0)
        else if int_of_ulong len \<le> en then do {
          newlen \<leftarrow> sdsrange_count start (int_of_ulong (ul_sub len 1));
          Some (start, newlen) }
        else Some (start, newlen))
     else Some (0, newlen) }"

definition sdsrange :: "sdshdr \<Rightarrow> int \<Rightarrow> int \<Rightarrow> sdshdr option" where
  "sdsrange s start en =
     (let len = sdslen s in
      if len = 0 then Some s
      else do {
        (start, newlen) \<leftarrow> sdsrange_clip len (sdsrange_neg len start) (sdsrange_neg len en);
        buf \<leftarrow> (if start \<noteq> 0 \<and> newlen \<noteq> 0 then mem_move (sds_buf s) 0 (nat start) newlen
                 else Some (sds_buf s));
        buf \<leftarrow> arr_set buf newlen 0;
        Some \<lparr>sds_len = newlen mod 2 ^ 32,
              sds_free = ul_add (sds_free s) (ul_sub (sds_len s) newlen) mod 2 ^ 32, sds_buf = buf\<rparr> })"

text \<open>The loops \<open>for (j = 0; j < len; j++) s[j] = f(s[j])\<close>.\<close>

function sds_map_loop :: "(byte \<Rightarrow> byte option) \<Rightarrow> bytes \<Rightarrow> nat \<Rightarrow> nat \<Rightarrow> bytes option" where
  "sds_map_loop f buf len j =
     (if j < len then do {
        c \<leftarrow> arr_get buf j;
        c \<leftarrow> f c;
        buf \<leftarrow> arr_set buf j c;
        sds_map_loop f buf len (j + 1) }
      else Some buf)"
  by pat_completeness auto
termination by (relation "measure (\<lambda>(f, buf, len, j). len - j)") auto

declare sds_map_loop.simps [simp del]

definition sdstolower :: "sdshdr \<Rightarrow> sdshdr option" where
  "sdstolower s = do {
     buf \<leftarrow> sds_map_loop (\<lambda>c. Some (word_of_int (c_tolower (cval c)))) (sds_buf s) (nat (int_of_ulong (sdslen s))) 0;
     Some (s\<lparr>sds_buf := buf\<rparr>) }"

definition sdstoupper :: "sdshdr \<Rightarrow> sdshdr option" where
  "sdstoupper s = do {
     buf \<leftarrow> sds_map_loop (\<lambda>c. Some (word_of_int (c_toupper (cval c)))) (sds_buf s) (nat (int_of_ulong (sdslen s))) 0;
     Some (s\<lparr>sds_buf := buf\<rparr>) }"

function sdsmapchars_lookup :: "bytes \<Rightarrow> bytes \<Rightarrow> nat \<Rightarrow> nat \<Rightarrow> byte \<Rightarrow> byte option" where
  "sdsmapchars_lookup from to setlen i c =
     (if i < setlen then do {
        x \<leftarrow> arr_get from i;
        if c = x then arr_get to i else sdsmapchars_lookup from to setlen (i + 1) c }
      else Some c)"
  by pat_completeness auto
termination by (relation "measure (\<lambda>(from, to, setlen, i, c). setlen - i)") auto

declare sdsmapchars_lookup.simps [simp del]

definition sdsmapchars :: "sdshdr \<Rightarrow> bytes \<Rightarrow> bytes \<Rightarrow> nat \<Rightarrow> sdshdr option" where
  "sdsmapchars s from to setlen = do {
     buf \<leftarrow> sds_map_loop (sdsmapchars_lookup from to setlen 0) (sds_buf s) (sdslen s) 0;
     Some (s\<lparr>sds_buf := buf\<rparr>) }"

text \<open>\<open>memcmp\<close>, of which only the sign is specified, compares unsigned bytes.\<close>

fun c_memcmp :: "bytes \<Rightarrow> bytes \<Rightarrow> nat \<Rightarrow> int option" where
  "c_memcmp a b 0 = Some 0"
| "c_memcmp (x # a) (y # b) (Suc n) =
     (if x = y then c_memcmp a b n else Some (if unat x < unat y then - 1 else 1))"
| "c_memcmp _ _ (Suc n) = None"

definition sdscmp :: "sdshdr \<Rightarrow> sdshdr \<Rightarrow> int option" where
  "sdscmp s1 s2 = do {
     let l1 = sdslen s1;
     let l2 = sdslen s2;
     let minlen = (if l1 < l2 then l1 else l2);
     cmp \<leftarrow> c_memcmp (sds_buf s1) (sds_buf s2) minlen;
     Some (if cmp = 0 then int_of_ulong (ul_sub l1 l2) else cmp) }"

section \<open>The string a value holds\<close>

definition sdsval :: "sdshdr \<Rightarrow> bytes" where
  "sdsval s = take (sds_len s) (sds_buf s)"

text \<open>
  The invariant: the block has room for the length, the free bytes and the terminator, the
  terminator is in place and the sizes fit an \<open>int\<close>.
\<close>

definition sds_inv :: "sdshdr \<Rightarrow> bool" where
  "sds_inv s \<longleftrightarrow> length (sds_buf s) = sds_len s + sds_free s + 1 \<and> sds_buf s ! sds_len s = 0 \<and>
     sds_len s + sds_free s < 2 ^ 31"

definition sds_is :: "bytes \<Rightarrow> sdshdr \<Rightarrow> bool" where
  "sds_is xs s \<longleftrightarrow> sds_inv s \<and> sdsval s = xs"

text \<open>The longest string the development considers: growing past it would reach the \<open>int\<close> range.\<close>

definition sds_max :: nat where
  "sds_max = 2 ^ 30"

definition sds_of :: "bytes \<Rightarrow> bytes \<Rightarrow> sdshdr" where
  "sds_of xs rest = \<lparr>sds_len = length xs, sds_free = length rest, sds_buf = xs @ 0 # rest\<rparr>"

lemma sds_of_sel [simp]:
  "sds_len (sds_of xs rest) = length xs" "sds_free (sds_of xs rest) = length rest"
  "sds_buf (sds_of xs rest) = xs @ 0 # rest" "sdslen (sds_of xs rest) = length xs"
  "sdsavail (sds_of xs rest) = length rest" "sdsval (sds_of xs rest) = xs"
  by (simp_all add: sds_of_def sdslen_def sdsavail_def sdsval_def)

lemma sds_ofI: "sds_len s = length xs \<Longrightarrow> sds_free s = length rest \<Longrightarrow> sds_buf s = xs @ 0 # rest \<Longrightarrow> s = sds_of xs rest"
  by (simp add: sds_of_def)

lemma sds_inv_of: "sds_inv (sds_of xs rest) \<longleftrightarrow> length xs + length rest < 2 ^ 31"
  by (simp add: sds_inv_def)

lemma sds_is_of [simp]: "sds_is ys (sds_of xs rest) \<longleftrightarrow> ys = xs \<and> length xs + length rest < 2 ^ 31"
  by (auto simp: sds_is_def sds_inv_of)

lemma sds_is_iff: "sds_is xs s \<longleftrightarrow> (\<exists>rest. s = sds_of xs rest \<and> length xs + length rest < 2 ^ 31)"
proof
  assume "sds_is xs s"
  then have l: "length (sds_buf s) = sds_len s + sds_free s + 1" "sds_buf s ! sds_len s = 0"
    "sds_len s + sds_free s < 2 ^ 31" "xs = take (sds_len s) (sds_buf s)"
    by (auto simp: sds_is_def sds_inv_def sdsval_def)
  let ?rest = "drop (Suc (sds_len s)) (sds_buf s)"
  have "sds_buf s = xs @ 0 # ?rest"
    using l id_take_nth_drop [of "sds_len s" "sds_buf s"] by simp
  moreover have "length xs = sds_len s" "length ?rest = sds_free s" using l by auto
  ultimately have "s = sds_of xs ?rest" using sds_ofI [of s xs ?rest] by simp
  then show "\<exists>rest. s = sds_of xs rest \<and> length xs + length rest < 2 ^ 31"
    using l(3) \<open>length xs = sds_len s\<close> \<open>length ?rest = sds_free s\<close> by metis
qed auto

lemma sds_isE:
  assumes "sds_is xs s"
  obtains rest where "s = sds_of xs rest" "length xs + length rest < 2 ^ 31"
  using assms by (auto simp: sds_is_iff)

lemma sds_is_len: "sds_is xs s \<Longrightarrow> sds_len s = length xs \<and> sdslen s = length xs"
  by (auto elim: sds_isE)

lemma sds_is_val: "sds_is xs s \<Longrightarrow> sdsval s = xs"
  by (simp add: sds_is_def)

lemma sds_block_Some [simp]: "n < 2 ^ 32 \<Longrightarrow> sds_block n = Some (Suc n)"
  by (simp add: sds_block_def Let_def)

lemma c_strlen_Some [simp]: "0 \<notin> set t \<Longrightarrow> c_strlen (t @ 0 # u) = Some (length t)"
  by (induction t) auto

lemma zrealloc_eq: "length buf \<le> n \<Longrightarrow> zrealloc junk buf n = buf @ map junk [length buf..<n]"
  by (simp add: zrealloc_def)

lemma mem_write_append:
  "length bs + k = length buf \<Longrightarrow> mem_write (pre @ buf) (length pre) bs = Some (pre @ bs @ drop (length bs) buf)"
  by (simp add: mem_write_def)

lemma arr_set_append: "arr_set (pre @ x # buf) (length pre) y = Some (pre @ y # buf)"
  by (simp add: arr_set_def)

section \<open>Every operation on the held string\<close>

lemma sdsnewlen_Some:
  assumes "n \<le> length t" "n < 2 ^ 31"
  shows "sdsnewlen junk (Some t) n = Some (sds_of (take n t) [])"
proof -
  define buf where "buf = zrealloc junk [] (Suc n)"
  have l: "length buf = Suc n" by (simp add: buf_def)
  then have "drop n buf = [buf ! n]" by (simp add: Cons_nth_drop_Suc [symmetric])
  then have "(take n t @ drop n buf)[n := 0] = take n t @ [0]" using assms by (simp add: list_update_append)
  moreover have "(zrealloc junk [] (Suc 0))[0 := 0] = [0]" by (simp add: zrealloc_def)
  ultimately show ?thesis using assms l
    by (simp add: sdsnewlen_def sds_of_def Let_def min_absorb2 mem_write_def flip: buf_def)
qed

lemma sdsnewlen_None: "n < 2 ^ 31 \<Longrightarrow> sdsnewlen junk None n = Some (sds_of (replicate n 0) [])"
proof -
  assume "n < 2 ^ 31"
  moreover from this have "n mod 2 ^ 32 = n" by simp
  ultimately show ?thesis using arr_set_append [of "replicate n 0" 0 "[]" 0]
    by (simp add: sdsnewlen_def sds_of_def Let_def replicate_append_same)
qed

lemma sdsempty_Some [simp]: "sdsempty junk = Some (sds_of [] [])"
  by (simp add: sdsempty_def sdsnewlen_Some)

lemma sdsnew_Some: "0 \<notin> set t \<Longrightarrow> length t < 2 ^ 31 \<Longrightarrow> sdsnew junk (Some (t @ 0 # u)) = Some (sds_of t [])"
  by (simp add: sdsnew_def sdsnewlen_Some)

lemma sdsdup_Some: "sds_is xs s \<Longrightarrow> sdsdup junk s = Some (sds_of xs [])"
  by (auto simp: sdsdup_def sdsnewlen_Some elim!: sds_isE)

lemma c_strlen_takeWhile: "0 \<in> set t \<Longrightarrow> c_strlen t = Some (length (takeWhile (\<lambda>b. b \<noteq> 0) t))"
  by (induction t) auto

lemma sdsupdatelen_Some:
  assumes "sds_is xs s"
  shows "ensures (sdsupdatelen s) (sds_is (takeWhile (\<lambda>b. b \<noteq> 0) xs))"
proof -
  obtain rest where r: "s = sds_of xs rest" "length xs + length rest < 2 ^ 31" using assms by (rule sds_isE)
  let ?t = "takeWhile (\<lambda>b. b \<noteq> 0) xs" and ?d = "dropWhile (\<lambda>b. b \<noteq> 0) xs"
  have le: "length ?t \<le> length xs" by (rule length_takeWhile_le)
  have split: "xs = ?t @ ?d" by simp
  show ?thesis
  proof (cases ?d)
    case Nil
    then have "\<forall>b \<in> set xs. b \<noteq> 0" by (simp add: dropWhile_eq_Nil_conv)
    then have z: "0 \<notin> set xs" "?t = xs" by (auto simp: takeWhile_eq_all_conv)
    have "ensures (sdsupdatelen s) (sds_is xs)"
      using r z(1) by (simp add: sdsupdatelen_def Let_def sds_is_def sds_inv_def sdsval_def)
    then show ?thesis by (simp only: z(2))
  next
    case (Cons z d)
    then have z: "z = 0" using hd_dropWhile [of "\<lambda>b. b \<noteq> 0" xs] by force
    have x: "xs = ?t @ 0 # d" using split Cons z by simp
    then have n: "0 \<in> set xs" by (metis in_set_conv_decomp)
    let ?r = "d @ 0 # rest"
    have "length xs = length ?t + Suc (length d)" using x by (metis length_append length_Cons)
    moreover have "c_strlen (xs @ 0 # rest) = Some (length ?t)"
      using c_strlen_takeWhile [of "xs @ 0 # rest"] n by (simp add: takeWhile_append1)
    ultimately have "sdsupdatelen s = Some (sds_of ?t ?r)"
      using r x by (simp add: sdsupdatelen_def Let_def sds_of_def)
    then show ?thesis using r(2) \<open>length xs = _\<close> by simp
  qed
qed

lemma sdsclear_Some: "sds_is xs s \<Longrightarrow> ensures (sdsclear s) (sds_is [])"
  by (erule sds_isE) (auto simp: sdsclear_def sds_is_def sds_inv_def sdsval_def)

lemma sdsMakeRoomFor_Some:
  assumes "sds_is xs s" "length xs + n < sds_max"
  shows "ensures (sdsMakeRoomFor junk s n) (\<lambda>s'. sds_is xs s' \<and> n \<le> sds_free s')"
proof -
  obtain rest where r: "s = sds_of xs rest" "length xs + length rest < 2 ^ 31" using assms(1) by (rule sds_isE)
  show ?thesis
  proof (cases "n \<le> length rest")
    case True
    then show ?thesis using r by (simp add: sdsMakeRoomFor_def)
  next
    case False
    define m where "m = sds_prealloc (length xs + n)"
    have m: "length xs + n \<le> m" "m < 2 ^ 31" using assms(2)
      by (auto simp: m_def sds_prealloc_def SDS_MAX_PREALLOC_def sds_max_def)
    let ?rest = "rest @ map junk [Suc (length xs + length rest)..<Suc m]"
    have e: "zrealloc junk (xs @ 0 # rest) (Suc m) = xs @ 0 # ?rest"
      using False m by (subst zrealloc_eq) (auto simp: add.commute)
    have l: "length ?rest = m - length xs" using m False by simp
    have "sdsMakeRoomFor junk s n = Some (s\<lparr>sds_free := m - length xs, sds_buf := xs @ 0 # ?rest\<rparr>)"
      using False r m e assms(2) by (simp add: sdsMakeRoomFor_def Let_def sds_max_def flip: m_def)
    moreover have "s\<lparr>sds_free := m - length xs, sds_buf := xs @ 0 # ?rest\<rparr> = sds_of xs ?rest"
      using r l by (simp add: sds_of_def)
    ultimately show ?thesis using l m by simp
  qed
qed

lemma sdsRemoveFreeSpace_Some: "sds_is xs s \<Longrightarrow> sdsRemoveFreeSpace junk s = Some (sds_of xs [])"
  by (erule sds_isE) (simp add: sdsRemoveFreeSpace_def zrealloc_shrink sds_of_def)

lemma sdsAllocSize_eq: "sds_is xs s \<Longrightarrow> sdsAllocSize s = 8 + length (sds_buf s)"
  by (erule sds_isE) (simp add: sdsAllocSize_def)

lemma sdsgrowzero_Some:
  assumes "sds_is xs s" "n < sds_max"
  shows "ensures (sdsgrowzero junk s n) (sds_is (xs @ replicate (n - length xs) 0))"
proof (cases "n \<le> length xs")
  case True
  then show ?thesis using assms sds_is_len [OF assms(1)] by (simp add: sdsgrowzero_def Let_def)
next
  case False
  have l: "sds_len s = length xs" using sds_is_len [OF assms(1)] by simp
  have n: "ul_sub n (length xs) = n - length xs" using False assms(2) by (simp add: sds_max_def)
  have "ensures (sdsMakeRoomFor junk s (n - length xs)) (\<lambda>s'. sds_is xs s' \<and> n - length xs \<le> sds_free s')"
    using assms False by (intro sdsMakeRoomFor_Some) auto
  then obtain s' where s': "sdsMakeRoomFor junk s (n - length xs) = Some s'" "sds_is xs s'" "n - length xs \<le> sds_free s'"
    by (rule ensuresE) auto
  obtain rest where r: "s' = sds_of xs rest" "length xs + length rest < 2 ^ 31" using s'(2) by (rule sds_isE)
  let ?z = "replicate (n - length xs) (0 :: byte)"
  have k: "n - length xs \<le> length rest" using s' r by simp
  have e: "xs @ replicate (Suc (n - length xs)) 0 @ drop (n - length xs) rest = (xs @ ?z) @ 0 # drop (n - length xs) rest"
    by (simp add: replicate_app_Cons_same)
  have d: "n \<le> length xs + length rest" "drop (Suc n - length xs) (0 # rest) = drop (n - length xs) rest"
    using k False by (auto simp: Suc_diff_le)
  have "sdsgrowzero junk s n = Some (sds_of (xs @ ?z) (drop (n - length xs) rest))"
    using False assms(2) s' l k n r e d
    by (simp add: sdsgrowzero_def Let_def mem_write_def sds_of_def sds_max_def add.commute del: replicate_Suc)
  then show ?thesis using r k False by simp
qed

lemma sdscatlen_Some:
  assumes "sds_is xs s" "n \<le> length t" "length xs + n < sds_max"
  shows "ensures (sdscatlen junk s t n) (sds_is (xs @ take n t))"
proof -
  have l: "sdslen s = length xs" using sds_is_len [OF assms(1)] by simp
  obtain s' where s': "sdsMakeRoomFor junk s n = Some s'" "sds_is xs s'" "n \<le> sds_free s'"
    using sdsMakeRoomFor_Some [OF assms(1,3)] by (rule ensuresE) auto
  obtain rest where r: "s' = sds_of xs rest" "length xs + length rest < 2 ^ 31" using s'(2) by (rule sds_isE)
  have k: "n \<le> length rest" using s' r by simp
  have "(take n t @ drop n (0 # rest))[n := 0] = take n t @ 0 # drop n rest"
  proof (cases n)
    case (Suc m)
    have "drop m rest = rest ! m # drop (Suc m) rest" using k Suc by (simp add: Cons_nth_drop_Suc)
    then show ?thesis using Suc assms(2) by (simp add: list_update_append min_absorb2)
  qed simp
  then have e: "(xs @ take n t @ drop n (0 # rest))[length xs + n := 0] = (xs @ take n t) @ 0 # drop n rest"
    by (simp add: list_update_append)
  have "sdscatlen junk s t n = Some (sds_of (xs @ take n t) (drop n rest))"
    using s' l k r e assms(2,3)
    by (simp add: sdscatlen_def Let_def mem_write_def min_absorb2 sds_of_def sds_max_def)
  then show ?thesis using r k assms(2) by simp
qed

lemma sdscat_Some:
  "sds_is xs s \<Longrightarrow> 0 \<notin> set t \<Longrightarrow> length xs + length t < sds_max \<Longrightarrow> ensures (sdscat junk s (t @ 0 # u)) (sds_is (xs @ t))"
  using sdscatlen_Some [of xs s "length t" "t @ 0 # u" junk] by (simp add: sdscat_def)

lemma sdscatsds_Some:
  "sds_is xs s \<Longrightarrow> sds_is ys t \<Longrightarrow> length xs + length ys < sds_max \<Longrightarrow> ensures (sdscatsds junk s t) (sds_is (xs @ ys))"
  using sdscatlen_Some [of xs s "length ys" "sds_buf t" junk] by (auto simp: sdscatsds_def elim: sds_isE)

lemma sdscpylen_room_Some:
  assumes "sds_is xs s" "n < sds_max"
  shows "ensures (sdscpylen_room junk s n) (\<lambda>(s', totlen).
    sds_is xs s' \<and> totlen = length xs + sds_free s' \<and> n \<le> totlen)"
proof -
  obtain rest where r: "s = sds_of xs rest" "length xs + length rest < 2 ^ 31" using assms(1) by (rule sds_isE)
  show ?thesis
  proof (cases "length rest + length xs < n")
    case True
    then have n: "ul_sub n (length xs) = n - length xs" using assms(2) by (simp add: sds_max_def)
    have "ensures (sdsMakeRoomFor junk s (n - length xs)) (\<lambda>s'. sds_is xs s' \<and> n - length xs \<le> sds_free s')"
      using assms True by (intro sdsMakeRoomFor_Some) auto
    then have "ensures (do { s' \<leftarrow> sdsMakeRoomFor junk s (n - length xs); Some (s', ui_add (sds_free s') (sds_len s')) })
      (\<lambda>(s', totlen). sds_is xs s' \<and> totlen = length xs + sds_free s' \<and> n \<le> totlen)"
      by (rule ensures_bindI) (auto elim!: sds_isE)
    then show ?thesis using True r n by (simp add: sdscpylen_room_def)
  qed (use r in \<open>auto simp: sdscpylen_room_def Let_def\<close>)
qed

lemma sdscpylen_Some:
  assumes "sds_is xs s" "n \<le> length t" "n < sds_max"
  shows "ensures (sdscpylen junk s t n) (sds_is (take n t))"
  unfolding sdscpylen_def
proof (rule ensures_bindI [OF sdscpylen_room_Some [OF assms(1,3)]])
  fix x assume x: "case x of (s', totlen) \<Rightarrow> sds_is xs s' \<and> totlen = length xs + sds_free s' \<and> n \<le> totlen"
  obtain rest where r: "x = (sds_of xs rest, length xs + length rest)" "length xs + length rest < 2 ^ 31" "n \<le> length xs + length rest"
    using x by (auto elim!: sds_isE split: prod.splits)
  let ?b = "xs @ 0 # rest"
  have "drop n ?b = ?b ! n # drop (Suc n) ?b" using r(3) by (subst Cons_nth_drop_Suc) auto
  then have e: "(take n t @ drop n ?b)[n := 0] = take n t @ 0 # drop (Suc n) ?b"
    using assms(2) by (simp add: list_update_append min_absorb2 del: drop_append)
  have "\<lparr>sds_len = n, sds_free = length xs + length rest - n, sds_buf = take n t @ 0 # drop (Suc n) ?b\<rparr> =
    sds_of (take n t) (drop (Suc n) ?b)" using assms(2) by (simp add: sds_of_def)
  then have "sds_is (take n t) \<lparr>sds_len = n, sds_free = length xs + length rest - n, sds_buf = take n t @ 0 # drop (Suc n) ?b\<rparr>"
    using r assms(2) by (simp only: sds_is_of) simp
  then show "ensures (case x of (s, totlen) \<Rightarrow> do {
     bs \<leftarrow> mem_read t 0 n;
     buf \<leftarrow> mem_write (sds_buf s) 0 bs;
     buf \<leftarrow> arr_set buf n 0;
     Some \<lparr>sds_len = n mod 2 ^ 32, sds_free = ul_sub totlen n mod 2 ^ 32, sds_buf = buf\<rparr> }) (sds_is (take n t))"
    using r e assms(2,3) by (simp add: mem_write_def min_absorb2 sds_max_def del: drop_append)
qed

lemma sdscpy_Some:
  "sds_is xs s \<Longrightarrow> 0 \<notin> set t \<Longrightarrow> length t < sds_max \<Longrightarrow> ensures (sdscpy junk s (t @ 0 # u)) (sds_is t)"
  using sdscpylen_Some [of xs s "length t" "t @ 0 # u" junk] by (simp add: sdscpy_def)


lemma sds_is_raw:
  assumes "length buf = Suc (n + f)" "buf ! n = 0" "n + f < 2 ^ 31"
  shows "sds_is (take n buf) \<lparr>sds_len = n, sds_free = f, sds_buf = buf\<rparr>"
  using assms by (simp add: sds_is_def sds_inv_def sdsval_def)

lemma sdsIncrLen_Some:
  assumes "sds_is xs s" "- int (sds_len s) \<le> incr" "incr \<le> int (sds_free s)"
  shows "ensures (sdsIncrLen s incr) (sds_is (take (nat (int (sds_len s) + incr)) (sds_buf s)))"
proof -
  obtain rest where r: "s = sds_of xs rest" "length xs + length rest < 2 ^ 31" using assms(1) by (rule sds_isE)
  define n where "n = nat (int (length xs) + incr)"
  have n: "int n = int (length xs) + incr" "n \<le> length xs + length rest" using assms r by (auto simp: n_def)
  have "ui_addi (length xs) incr = n" using n r(2) by (simp add: ui_addi_def)
  moreover have "ui_addi (length rest) (- incr) = length xs + length rest - n"
    using n r(2) by (simp add: ui_addi_def nat_diff_distrib)
  ultimately have e: "sdsIncrLen s incr = Some \<lparr>sds_len = n, sds_free = length xs + length rest - n, sds_buf = (xs @ 0 # rest)[n := 0]\<rparr>"
    using r assms n(2) by (auto simp: sdsIncrLen_def Let_def)
  have "sds_is (take n ((xs @ 0 # rest)[n := 0])) \<lparr>sds_len = n, sds_free = length xs + length rest - n, sds_buf = (xs @ 0 # rest)[n := 0]\<rparr>"
    by (rule sds_is_raw) (use n r in auto)
  then show ?thesis using e r by (simp add: n_def)
qed

lemma sdsIncrLen_None:
  "incr < - int (sds_len s) \<or> int (sds_free s) < incr \<Longrightarrow> sdsIncrLen s incr = None"
  by (auto simp: sdsIncrLen_def)

subsection \<open>Trimming\<close>

definition trim :: "('a \<Rightarrow> bool) \<Rightarrow> 'a list \<Rightarrow> 'a list" where
  "trim P xs = rev (dropWhile P (rev (dropWhile P xs)))"

lemma c_strchr_Some: "0 \<notin> set cset \<Longrightarrow> c_strchr (cset @ 0 # u) c = Some (c \<in> set cset \<or> c = 0)"
  by (induction cset) auto

lemma sdstrim_left_Some:
  assumes "0 \<notin> set cset"
  shows "k \<le> length xs \<Longrightarrow> sdstrim_left (xs @ zs) (cset @ 0 # u) (int k) (int (length xs) - 1) =
    Some (int (length xs) - int (length (dropWhile (\<lambda>c. c \<in> set cset \<or> c = 0) (drop k xs))))"
proof (induction "length xs - k" arbitrary: k)
  case 0
  then show ?case by (subst sdstrim_left.simps) simp
next
  case (Suc m)
  then have k: "k < length xs" by simp
  then have d: "drop k xs = xs ! k # drop (Suc k) xs" by (simp add: Cons_nth_drop_Suc)
  have "sdstrim_left (xs @ zs) (cset @ 0 # u) (int k + 1) (int (length xs) - 1) =
    Some (int (length xs) - int (length (dropWhile (\<lambda>c. c \<in> set cset \<or> c = 0) (drop (Suc k) xs))))"
    using Suc.hyps(1) [of "Suc k"] Suc.hyps(2) k by (simp add: add.commute)
  then show ?case using k d
    by (subst sdstrim_left.simps) (simp add: c_strchr_Some [OF assms] nth_append of_nat_diff)
qed

lemma sdstrim_right_Some:
  assumes "0 \<notin> set cset"
  shows "k < length xs \<Longrightarrow> sdstrim_right (xs @ zs) (cset @ 0 # u) (int k) =
    Some (int (length (dropWhile (\<lambda>c. c \<in> set cset \<or> c = 0) (rev (take (Suc k) xs))) - 1))"
proof (induction k)
  case 0
  then show ?case by (subst sdstrim_right.simps) (cases xs; simp)
next
  case (Suc k)
  then have "rev (take (Suc (Suc k)) xs) = xs ! Suc k # rev (take (Suc k) xs)"
    by (simp add: take_Suc_conv_app_nth)
  moreover have "sdstrim_right (xs @ zs) (cset @ 0 # u) (int (Suc k) - 1) =
    Some (int (length (dropWhile (\<lambda>c. c \<in> set cset \<or> c = 0) (rev (take (Suc k) xs))) - 1))"
    using Suc by simp
  moreover have "arr_get (xs @ zs) (Suc k) = Some (xs ! Suc k)" using Suc.prems by (simp add: nth_append)
  moreover have "length (rev (take (Suc k) xs)) = Suc k" using Suc.prems by simp
  ultimately show ?case using Suc.prems
    by (subst sdstrim_right.simps) (simp add: c_strchr_Some [OF assms] del: of_nat_Suc rev_take)
qed

lemma sdstrim_cut_Some:
  assumes "sds_is xs s" "a + n \<le> length xs"
  shows "ensures (sdstrim_cut s (int a) n) (sds_is (take n (drop a xs)))"
proof -
  obtain rest where r: "s = sds_of xs rest" "length xs + length rest < 2 ^ 31" using assms(1) by (rule sds_isE)
  let ?b = "xs @ 0 # rest"
  define b where "b = (if a \<noteq> 0 then take n (drop a ?b) @ drop n ?b else ?b)"
  have b: "length b = Suc (length xs + length rest)" "take n b = take n (drop a xs)"
    using assms(2) by (auto simp: b_def min_absorb2)
  have "sdstrim_cut s (int a) n = Some \<lparr>sds_len = n, sds_free = length xs + length rest - n, sds_buf = b[n := 0]\<rparr>"
    using b assms(2) r by (cases "a = 0") (simp_all add: sdstrim_cut_def add.commute b_def)
  moreover have "sds_is (take n (b[n := 0])) \<lparr>sds_len = n, sds_free = length xs + length rest - n, sds_buf = b[n := 0]\<rparr>"
    by (rule sds_is_raw) (use b assms r in auto)
  ultimately show ?thesis using b by simp
qed

lemma sdstrim_Some:
  assumes "sds_is xs s" "0 \<notin> set cset"
  shows "ensures (sdstrim s (cset @ 0 # u)) (sds_is (trim (\<lambda>c. c \<in> set cset \<or> c = 0) xs))"
proof -
  obtain rest where r: "s = sds_of xs rest" "length xs + length rest < 2 ^ 31" using assms(1) by (rule sds_isE)
  let ?P = "\<lambda>c. c \<in> set cset \<or> c = 0"
  define mid where "mid = dropWhile ?P xs"
  define a where "a = length xs - length mid"
  define t where "t = trim ?P xs"
  have mid: "length mid \<le> length xs" "mid = drop a xs" "length mid + a = length xs"
    by (auto simp: mid_def a_def length_dropWhile_le) (simp add: dropWhile_eq_drop length_takeWhile_le dropWhile_eq_drop)
  have left: "sdstrim_left (xs @ 0 # rest) (cset @ 0 # u) 0 (int (length xs) - 1) = Some (int a)"
    using sdstrim_left_Some [OF assms(2), of 0 xs "0 # rest" u] mid by (simp add: mid_def a_def of_nat_diff)
  have tp: "take (length t) mid = t"
  proof -
    have "mid = rev (takeWhile ?P (rev mid) @ dropWhile ?P (rev mid))" by simp
    then have "mid = t @ rev (takeWhile ?P (rev mid))" by (simp only: rev_append t_def trim_def mid_def)
    then show ?thesis by (metis append_eq_conv_conj)
  qed
  have right: "\<exists>ep. sdstrim_right (xs @ 0 # rest) (cset @ 0 # u) (int (length xs) - 1) = Some ep \<and>
    sdstrim_newlen (int a) ep = length t"
  proof (cases "mid = []")
    case True
    have a: "a = length xs" using True mid(3) by simp
    have t: "t = []" using True by (simp only: t_def trim_def flip: mid_def) simp
    show ?thesis
    proof (cases "xs = []")
      case True
      then show ?thesis using t a by (subst sdstrim_right.simps) (simp add: sdstrim_newlen_def)
    next
      case False
      have "length (dropWhile ?P (rev xs)) = 0" using True by (simp add: mid_def dropWhile_eq_Nil_conv)
      then show ?thesis using False t a sdstrim_right_Some [OF assms(2), of "length xs - 1" xs "0 # rest" u]
        by (simp add: sdstrim_newlen_def of_nat_diff Suc_le_eq del: length_0_conv)
    qed
  next
    case False
    then obtain x m where x: "mid = x # m" by (cases mid) auto
    then have "\<not> ?P x" using hd_dropWhile [of ?P xs] by (force simp: mid_def)
    moreover have "x \<in> set (rev mid)" using x by simp
    ultimately have "dropWhile ?P (rev mid @ rev (take a xs)) = dropWhile ?P (rev mid) @ rev (take a xs)"
      by (rule dropWhile_append1 [rotated])
    moreover have "rev xs = rev mid @ rev (take a xs)" using mid(2) by (metis append_take_drop_id rev_append)
    ultimately have "length (dropWhile ?P (rev xs)) = length t + a"
      using mid by (simp add: t_def trim_def mid_def)
    moreover have "0 < length t" using \<open>\<not> ?P x\<close> \<open>x \<in> set (rev mid)\<close>
      by (auto simp: t_def trim_def dropWhile_eq_Nil_conv simp flip: mid_def)
    moreover have "0 < length xs" using False mid by (cases xs) auto
    ultimately show ?thesis using sdstrim_right_Some [OF assms(2), of "length xs - 1" xs "0 # rest" u]
      by (simp add: sdstrim_newlen_def of_nat_diff Suc_le_eq)
  qed
  then obtain ep where ep: "sdstrim_right (xs @ 0 # rest) (cset @ 0 # u) (int (length xs) - 1) = Some ep"
    "sdstrim_newlen (int a) ep = length t" by blast
  have "length t + a \<le> length xs" using tp mid by (metis add_le_mono1 length_take min.cobounded1)
  then have "ensures (sdstrim_cut s (int a) (length t)) (sds_is t)"
    using sdstrim_cut_Some [OF assms(1), of a "length t"] tp mid(2) by (simp add: add.commute)
  moreover have "sdstrim s (cset @ 0 # u) = sdstrim_cut s (int a) (length t)"
    using left ep r by (simp add: sdstrim_def)
  ultimately show ?thesis by (simp add: t_def)
qed

subsection \<open>Ranges\<close>

text \<open>An index counts from the end when it is negative and is clamped at the beginning.\<close>

definition range_index :: "nat \<Rightarrow> int \<Rightarrow> int" where
  "range_index n i = (if i < 0 then max 0 (int n + i) else i)"

definition range_slice :: "int \<Rightarrow> int \<Rightarrow> 'a list \<Rightarrow> 'a list" where
  "range_slice start en xs =
     (let st = range_index (length xs) start; e = range_index (length xs) en in
      take (nat (e - st + 1)) (drop (nat st) xs))"

definition is_int32 :: "int \<Rightarrow> bool" where
  "is_int32 i \<longleftrightarrow> - (2 ^ 31) \<le> i \<and> i < 2 ^ 31"

lemma int_of_ulong_signed:
  assumes "is_int32 i" shows "int_of_ulong (nat (i mod 2 ^ 64)) = i"
proof -
  have "signed_take_bit 31 (i mod 2 ^ 64) = signed_take_bit 31 i"
    by (rule signed_take_bit_eq_iff_take_bit_eq [THEN iffD2])
       (simp add: take_bit_eq_mod mod_mod_cancel)
  also have "\<dots> = i" using assms by (simp add: is_int32_def signed_take_bit_int_eq_self)
  finally show ?thesis
    by (simp add: int_of_ulong_def signed_of_int)
qed

lemma sdsrange_neg_eq: "is_int32 i \<Longrightarrow> n < 2 ^ 31 \<Longrightarrow> sdsrange_neg n i = range_index n i"
  using int_of_ulong_signed [of "int n + i"]
  by (auto simp: sdsrange_neg_def range_index_def Let_def is_int32_def)

lemma sdsrange_clip_Some:
  assumes "0 \<le> st" "0 \<le> e" "e < 2 ^ 31 - 1" "xs \<noteq> []" "length xs < 2 ^ 31"
    and t: "t = take (nat (e - st + 1)) (drop (nat st) xs)"
  shows "\<exists>k \<ge> 0. sdsrange_clip (length xs) st e = Some (k, length t) \<and>
    t = take (length t) (drop (nat k) xs) \<and> (t = [] \<or> nat k + length t \<le> length xs)"
proof -
  have n: "int_of_ulong (length xs) = int (length xs)" "int_of_ulong (ul_sub (length xs) 1) = int (length xs) - 1"
    using assms by (auto simp: of_nat_diff Suc_le_eq)
  have c: "sdsrange_count st e = Some (nat (e - st + 1))"
    "st < int (length xs) \<Longrightarrow> sdsrange_count st (int (length xs) - 1) = Some (nat (int (length xs) - st))"
    using assms by (auto simp: sdsrange_count_def)
  consider "e < st" | "st \<le> e" "int (length xs) \<le> st" | "st \<le> e" "st < int (length xs)" "int (length xs) \<le> e"
    | "st \<le> e" "e < int (length xs)" by linarith
  then show ?thesis
  proof cases
    case 1
    then show ?thesis using c t by (simp add: sdsrange_clip_def)
  next
    case 2
    then show ?thesis using c n t assms(1) by (simp add: sdsrange_clip_def)
  next
    case 3
    then have "length t = nat (int (length xs) - st)" using t assms by auto
    then show ?thesis using c n t assms(1) 3 by (auto simp: sdsrange_clip_def)
  next
    case 4
    then have "length t = nat (e - st + 1)" using t assms by auto
    then show ?thesis using c n t assms(1) 4 by (auto simp: sdsrange_clip_def)
  qed
qed

lemma sdsrange_Some:
  assumes "sds_is xs s" "is_int32 start" "is_int32 en" "en < 2 ^ 31 - 1"
  shows "ensures (sdsrange s start en) (sds_is (range_slice start en xs))"
proof -
  obtain rest where r: "s = sds_of xs rest" "length xs + length rest < 2 ^ 31" using assms(1) by (rule sds_isE)
  show ?thesis
  proof (cases "xs = []")
    case True
    then show ?thesis using r by (simp add: sdsrange_def Let_def range_slice_def)
  next
    case False
    define st where "st = range_index (length xs) start"
    define e where "e = range_index (length xs) en"
    define t where "t = range_slice start en xs"
    have p: "0 \<le> st" "0 \<le> e" "e < 2 ^ 31 - 1" "length xs < 2 ^ 31"
      using assms r by (auto simp: st_def e_def range_index_def is_int32_def)
    have t: "t = take (nat (e - st + 1)) (drop (nat st) xs)" by (simp add: t_def st_def e_def range_slice_def Let_def)
    obtain k where k: "0 \<le> k" "sdsrange_clip (length xs) st e = Some (k, length t)"
      "t = take (length t) (drop (nat k) xs)" "t = [] \<or> nat k + length t \<le> length xs"
      using sdsrange_clip_Some [OF p(1-3) False p(4) t] by blast
    let ?b = "xs @ 0 # rest"
    define buf where "buf = (if k \<noteq> 0 \<and> length t \<noteq> 0 then take (length t) (drop (nat k) ?b) @ drop (length t) ?b else ?b)"
    have tl: "length t \<le> length xs" using k by auto
    have bl: "length buf = Suc (length xs + length rest)" using tl k by (auto simp: buf_def min_absorb2)
    have bt: "take (length t) buf = t" using tl k by (cases "k = 0"; cases "t = []") (auto simp: buf_def)
    have "sdsrange s start en = Some \<lparr>sds_len = length t, sds_free = length xs + length rest - length t, sds_buf = buf[length t := 0]\<rparr>"
      using False r assms p k(2,4) bl tl
      by (cases "k = 0 \<or> t = []")
        (auto simp: sdsrange_def buf_def sdsrange_neg_eq add.commute simp flip: st_def e_def)
    moreover have "sds_is (take (length t) (buf[length t := 0])) \<lparr>sds_len = length t, sds_free = length xs + length rest - length t, sds_buf = buf[length t := 0]\<rparr>"
      by (rule sds_is_raw) (use bl tl r in auto)
    ultimately show ?thesis using bt by (simp add: t_def)
  qed
qed


subsection \<open>Loops over the bytes and comparison\<close>

lemma sds_map_loop_Some:
  assumes "\<And>c. c \<in> set xs \<Longrightarrow> f c = Some (g c)"
  shows "sds_map_loop f (ys @ xs @ zs) (length ys + length xs) (length ys) = Some (ys @ map g xs @ zs)"
  using assms
proof (induction xs arbitrary: ys)
  case Nil
  then show ?case by (subst sds_map_loop.simps) simp
next
  case (Cons x xs)
  have "sds_map_loop f ((ys @ [g x]) @ xs @ zs) (length (ys @ [g x]) + length xs) (length (ys @ [g x])) =
    Some ((ys @ [g x]) @ map g xs @ zs)"
    by (rule Cons.IH) (simp add: Cons.prems)
  moreover have "f x = Some (g x)" using Cons.prems by simp
  ultimately show ?case by (subst sds_map_loop.simps) (simp add: nth_append)
qed

lemma sds_of_update [simp]:
  "length ys = length xs \<Longrightarrow> (sds_of xs rest)\<lparr>sds_buf := ys @ 0 # rest\<rparr> = sds_of ys rest"
  by (simp add: sds_of_def)

lemma sds_map_buf:
  assumes "sds_is xs s" "\<And>c. f c = Some (g c)"
  shows "ensures (do { buf \<leftarrow> sds_map_loop f (sds_buf s) (length xs) 0; Some (s\<lparr>sds_buf := buf\<rparr>) }) (sds_is (map g xs))"
proof -
  obtain rest where r: "s = sds_of xs rest" "length xs + length rest < 2 ^ 31" using assms(1) by (rule sds_isE)
  then show ?thesis using sds_map_loop_Some [of xs f g "[]" "0 # rest"] assms(2) by simp
qed

lemma sdstolower_Some: "sds_is xs s \<Longrightarrow> ensures (sdstolower s) (sds_is (map (\<lambda>c. word_of_int (c_tolower (cval c))) xs))"
  using sds_map_buf [of xs s "\<lambda>c. Some (word_of_int (c_tolower (cval c)))"] sds_is_len [of xs s]
  by (auto simp: sdstolower_def elim: sds_isE)

lemma sdstoupper_Some: "sds_is xs s \<Longrightarrow> ensures (sdstoupper s) (sds_is (map (\<lambda>c. word_of_int (c_toupper (cval c))) xs))"
  using sds_map_buf [of xs s "\<lambda>c. Some (word_of_int (c_toupper (cval c)))"] sds_is_len [of xs s]
  by (auto simp: sdstoupper_def elim: sds_isE)

text \<open>The image of a byte under the first pair of the two arrays that mentions it.\<close>

definition map_char :: "bytes \<Rightarrow> bytes \<Rightarrow> byte \<Rightarrow> byte" where
  "map_char from to c = (case map_of (zip from to) c of None \<Rightarrow> c | Some d \<Rightarrow> d)"

lemma sdsmapchars_lookup_Some:
  assumes "n \<le> length from" "n \<le> length to"
  shows "i \<le> n \<Longrightarrow> sdsmapchars_lookup from to n i c = Some (map_char (drop i (take n from)) (drop i (take n to)) c)"
proof (induction "n - i" arbitrary: i)
  case 0
  then show ?case by (subst sdsmapchars_lookup.simps) (simp add: map_char_def)
next
  case (Suc m)
  then have i: "i < n" by simp
  then have d: "drop i (take n from) = from ! i # drop (Suc i) (take n from)" "drop i (take n to) = to ! i # drop (Suc i) (take n to)"
    using assms Cons_nth_drop_Suc [of i "take n from"] Cons_nth_drop_Suc [of i "take n to"] by simp_all
  show ?case
    by (subst sdsmapchars_lookup.simps) (use i assms Suc.hyps(1) [of "Suc i"] Suc.hyps(2) in \<open>simp add: d map_char_def del: drop_take\<close>)
qed

lemma sdsmapchars_Some:
  "sds_is xs s \<Longrightarrow> n \<le> length from \<Longrightarrow> n \<le> length to \<Longrightarrow>
   ensures (sdsmapchars s from to n) (sds_is (map (map_char (take n from) (take n to)) xs))"
  using sds_map_buf [of xs s "sdsmapchars_lookup from to n 0"] sds_is_len [of xs s] sdsmapchars_lookup_Some [of n "from" to 0]
  by (simp add: sdsmapchars_def)

lemma c_memcmp_Some:
  assumes "n = min (length xs) (length ys)"
  shows "ensures (c_memcmp (xs @ a) (ys @ b) n) (\<lambda>r.
    if r = 0 then take n xs = take n ys else
    \<exists>k < n. take k xs = take k ys \<and> (if r < 0 then xs ! k < ys ! k else ys ! k < xs ! k))"
  using assms
proof (induction n arbitrary: xs ys)
  case (Suc n)
  then obtain x xs' y ys' where e: "xs = x # xs'" "ys = y # ys'" by (cases xs; cases ys) auto
  have n: "n = min (length xs') (length ys')" using Suc.prems e by simp
  show ?case
  proof (cases "x = y")
    case True
    have "ensures (c_memcmp (xs' @ a) (ys' @ b) n) (\<lambda>r.
      if r = 0 then take (Suc n) xs = take (Suc n) ys else
      \<exists>k < Suc n. take k xs = take k ys \<and> (if r < 0 then xs ! k < ys ! k else ys ! k < xs ! k))"
      by (rule ensures_mono [OF Suc.IH [OF n]])
        (use e True in \<open>auto split: if_splits intro: exI [of _ "Suc k" for k]\<close>)
    then show ?thesis using e True by simp
  next
    case False
    then have "unat x < unat y \<or> unat y < unat x" by (metis linorder_neqE_nat word_unat_eq_iff)
    then show ?thesis using e False by (auto simp: word_less_nat_alt intro!: exI [of _ 0])
  qed
qed simp

lemma lexordp_nth:
  "take k xs = take k ys \<Longrightarrow> k < length xs \<Longrightarrow> k < length ys \<Longrightarrow> xs ! k < ys ! k \<Longrightarrow> ord_class.lexordp xs ys"
  for xs :: "'a :: linorder list"
proof (induction k arbitrary: xs ys)
  case 0
  then show ?case by (cases xs; cases ys) auto
next
  case (Suc k)
  obtain x xs' y ys' where "xs = x # xs'" "ys = y # ys'"
    using Suc.prems(2,3) by (cases xs rule: list.exhaust; cases ys rule: list.exhaust) auto
  then show ?case using Suc by simp
qed

lemma lexordp_prefix: "ord_class.lexordp xs (xs @ y # ys)"
  for xs :: "'a :: linorder list"
  by (induction xs) auto

text \<open>The comparison of \<open>sdscmp\<close> and \<open>compareStringObjects\<close>: the common part, then the lengths.\<close>

lemma length_diff_int:
  assumes l: "m < 2 ^ 31" "n < 2 ^ 31"
  shows "int_of_ulong (ul_sub m n) = int m - int n"
proof -
  have "int (ul_sub m n) = (int m + 2 ^ 64 - int n) mod 2 ^ 64"
    using l by (simp add: ul_sub_def zmod_int of_nat_diff)
  also have "\<dots> = (int m - int n) mod 2 ^ 64"
    by (metis add_diff_eq diff_add_eq mod_add_self2)
  finally have "ul_sub m n = nat ((int m - int n) mod 2 ^ 64)" by simp
  moreover have "is_int32 (int m - int n)" using l by (auto simp: is_int32_def)
  ultimately show ?thesis using int_of_ulong_signed by simp
qed

lemma memcmp_order:
  assumes l: "length xs < 2 ^ 31" "length ys < 2 ^ 31"
  shows "ensures (do { r \<leftarrow> c_memcmp (xs @ a) (ys @ b) (if length xs < length ys then length xs else length ys);
      Some (if r = 0 then int_of_ulong (ul_sub (length xs) (length ys)) else r) })
    (\<lambda>r. (r < 0 \<longleftrightarrow> ord_class.lexordp xs ys) \<and> (r = 0 \<longleftrightarrow> xs = ys) \<and> (0 < r \<longleftrightarrow> ord_class.lexordp ys xs))" (is "ensures ?m _")
proof -
  let ?n = "min (length xs) (length ys)"
  have mn: "(if length xs < length ys then length xs else length ys) = ?n" by simp
  note d = length_diff_int [OF l]
  have "ensures ?m (\<lambda>r. (r < 0 \<longrightarrow> ord_class.lexordp xs ys) \<and> (r = 0 \<longrightarrow> xs = ys) \<and> (0 < r \<longrightarrow> ord_class.lexordp ys xs))"
  proof (rule ensuresE [OF c_memcmp_Some [of ?n xs ys a b]])
    fix r assume m: "c_memcmp (xs @ a) (ys @ b) ?n = Some r"
      and p: "if r = 0 then take ?n xs = take ?n ys else
        \<exists>k < ?n. take k xs = take k ys \<and> (if r < 0 then xs ! k < ys ! k else ys ! k < xs ! k)"
    have "ord_class.lexordp xs ys" if "r = 0" "length xs < length ys"
      using p that lexordp_prefix [of xs "ys ! length xs" "drop (Suc (length xs)) ys"] id_take_nth_drop [of "length xs" ys] by simp
    moreover have "ord_class.lexordp ys xs" if "r = 0" "length ys < length xs"
      using p that lexordp_prefix [of ys "xs ! length ys" "drop (Suc (length ys)) xs"] id_take_nth_drop [of "length ys" xs] by simp
    moreover have "xs = ys" if "r = 0" "length xs = length ys" using p that by simp
    moreover have "ord_class.lexordp xs ys" if "r < 0" using p that by (auto intro: lexordp_nth)
    moreover have "ord_class.lexordp ys xs" if pos: "0 < r"
    proof -
      obtain k where "k < ?n" "take k ys = take k xs" "ys ! k < xs ! k" using p pos by auto
      then show ?thesis by (intro lexordp_nth [of k]) auto
    qed
    ultimately show ?thesis using m d by (simp add: mn)
  qed simp
  then show ?thesis using lexordp_antisym [of xs ys] lexordp_irreflexive' [of xs]
    by (elim ensures_mono) (metis less_irrefl linorder_neqE_linordered_idom order_less_asym)
qed

lemma sdscmp_Some:
  assumes "sds_is xs s" "sds_is ys t"
  shows "ensures (sdscmp s t) (\<lambda>r. (r < 0 \<longleftrightarrow> ord_class.lexordp xs ys) \<and> (r = 0 \<longleftrightarrow> xs = ys) \<and> (0 < r \<longleftrightarrow> ord_class.lexordp ys xs))"
proof -
  obtain r1 where r1: "s = sds_of xs r1" "length xs + length r1 < 2 ^ 31" using assms(1) by (rule sds_isE)
  obtain r2 where r2: "t = sds_of ys r2" "length ys + length r2 < 2 ^ 31" using assms(2) by (rule sds_isE)
  show ?thesis using memcmp_order [of xs ys "0 # r1" "0 # r2"] r1 r2 by (simp add: sdscmp_def Let_def)
qed

end
