(* ===== verification/Sds_Text.thy ===== *)
theory Sds_Text
  imports Sds "HOL-Library.Sublist"
begin

text \<open>
  The rest of \<open>sds.c\<close>: number conversions, formatted output, splitting and joining, the quoted
  representation and the splitting of command lines, and the properties of the strings.
\<close>

section \<open>Numbers\<close>

text \<open>The digits, least significant first, and the reversal in place.\<close>

function sdsll2str_digits :: "bytes \<Rightarrow> nat \<Rightarrow> nat \<Rightarrow> (bytes \<times> nat) option" where
  "sdsll2str_digits s p v = do {
     s \<leftarrow> arr_set s p (48 + of_nat (v mod 10));
     if v div 10 = 0 then Some (s, Suc p) else sdsll2str_digits s (Suc p) (v div 10) }"
  by pat_completeness auto
termination by (relation "measure (\<lambda>(s, p, v). v)") auto

function sdsll2str_reverse :: "bytes \<Rightarrow> nat \<Rightarrow> nat \<Rightarrow> bytes option" where
  "sdsll2str_reverse s i p =
     (if i < p then do {
        aux \<leftarrow> arr_get s i;
        x \<leftarrow> arr_get s p;
        s \<leftarrow> arr_set s i x;
        s \<leftarrow> arr_set s p aux;
        sdsll2str_reverse s (Suc i) (p - 1) }
      else Some s)"
  by pat_completeness auto
termination by (relation "measure (\<lambda>(s, i, p). p - i)") auto

declare sdsll2str_digits.simps [simp del] sdsll2str_reverse.simps [simp del]

text \<open>
  The conversion proper, on the sign and the absolute value \<open>v\<close>, an \<open>unsigned long long\<close>, and the
  function: \<open>v = (value < 0) ? -value : value\<close> negates a \<open>long long\<close>, which is undefined when the result
  is no \<open>long long\<close>.
\<close>

definition sdsll2str_conv :: "bytes \<Rightarrow> bool \<Rightarrow> nat \<Rightarrow> (bytes \<times> nat) option" where
  "sdsll2str_conv s neg v = do {
     (s, p) \<leftarrow> sdsll2str_digits s 0 v;
     (s, p) \<leftarrow> (if neg then do { s \<leftarrow> arr_set s p 45; Some (s, Suc p) } else Some (s, p));
     s \<leftarrow> arr_set s p 0;
     s \<leftarrow> sdsll2str_reverse s 0 (p - 1);
     Some (s, p) }"

definition llong_neg :: "int \<Rightarrow> int option" where
  "llong_neg v = (if is_llong (- v) then Some (- v) else None)"

definition sdsll2str :: "bytes \<Rightarrow> int \<Rightarrow> (bytes \<times> nat) option" where
  "sdsll2str s value = do {
     v \<leftarrow> (if value < 0 then llong_neg value else Some value);
     sdsll2str_conv s (value < 0) (unat (word_of_int v :: 64 word)) }"

definition sdsull2str :: "bytes \<Rightarrow> nat \<Rightarrow> (bytes \<times> nat) option" where
  "sdsull2str s v = do {
     (s, p) \<leftarrow> sdsll2str_digits s 0 v;
     s \<leftarrow> arr_set s p 0;
     s \<leftarrow> sdsll2str_reverse s 0 (p - 1);
     Some (s, p) }"

definition sdsfromlonglong :: "(nat \<Rightarrow> byte) \<Rightarrow> int \<Rightarrow> sdshdr option" where
  "sdsfromlonglong junk v = do {
     (buf, len) \<leftarrow> sdsll2str (map junk [0..<SDS_LLSTR_SIZE]) v;
     sdsnewlen junk (Some buf) len }"

section \<open>Formatted output\<close>

text \<open>
  \<open>sdscatvprintf\<close>, where \<open>out\<close> is the text the format and its arguments denote: \<open>vsnprintf\<close> stores
  its first \<open>buflen-1\<close> bytes and a terminator.  The buffer doubles until the text fits.
\<close>

definition vsnprintf_out :: "bytes \<Rightarrow> nat \<Rightarrow> bytes \<Rightarrow> bytes option" where
  "vsnprintf_out buf buflen out = mem_write buf 0 (take (buflen - 1) out @ [0])"

lemma vsnprintf_out_truncated:
  assumes "vsnprintf_out (buf[n - 2 := 0]) n out = Some b'" "arr_get b' (n - 2) = Some c" "c \<noteq> 0" "2 \<le> n" "length buf = n"
  shows "n - 2 < length out"
proof (rule ccontr)
  assume a: "\<not> n - 2 < length out"
  define b where "b = buf[n - 2 := 0]"
  have b: "length b = n" "b ! (n - 2) = 0" "n - 2 < length b" using assms(4,5) by (auto simp: b_def)
  have "take (n - 1) out = out" using a assms(4) by simp
  then have b': "b' = out @ 0 # drop (Suc (length out)) b"
    using assms(1) by (auto simp: b_def vsnprintf_out_def mem_write_def split: if_splits)
  have "b' ! (n - 2) = 0"
  proof (cases "length out = n - 2")
    case True
    then show ?thesis using b' by (simp add: nth_append)
  next
    case False
    then obtain k where "n - 2 = Suc (length out + k)" using a by (metis less_natE linorder_neqE_nat)
    then show ?thesis using b' b by (simp add: nth_append)
  qed
  then show False using assms(2,3) by (simp add: arr_get_eq_Some_iff)
qed

function sdscatvprintf_loop :: "(nat \<Rightarrow> byte) \<Rightarrow> nat \<Rightarrow> bytes \<Rightarrow> bytes option" where
  "sdscatvprintf_loop junk buflen out =
     (if buflen < 2 then None
      else do {
        buf \<leftarrow> arr_set (map junk [0..<buflen]) (buflen - 2) 0;
        buf \<leftarrow> vsnprintf_out buf buflen out;
        c \<leftarrow> arr_get buf (buflen - 2);
        if c \<noteq> 0 then sdscatvprintf_loop junk (buflen * 2) out else Some buf })"
  by pat_completeness auto
termination
  by (relation "measure (\<lambda>(junk, buflen, out). length out + 2 - buflen)")
    (auto dest!: vsnprintf_out_truncated)

declare sdscatvprintf_loop.simps [simp del]

definition sdscatvprintf :: "(nat \<Rightarrow> byte) \<Rightarrow> sdshdr \<Rightarrow> bytes \<Rightarrow> bytes \<Rightarrow> sdshdr option" where
  "sdscatvprintf junk s fmt out = do {
     n \<leftarrow> c_strlen fmt;
     let buflen = ul_mul n 2;
     buf \<leftarrow> sdscatvprintf_loop junk (if 1024 < buflen then buflen else 1024) out;
     sdscat junk s buf }"

definition sdscatprintf :: "(nat \<Rightarrow> byte) \<Rightarrow> sdshdr \<Rightarrow> bytes \<Rightarrow> bytes \<Rightarrow> sdshdr option" where
  "sdscatprintf junk s fmt out = sdscatvprintf junk s fmt out"

text \<open>The variadic arguments of \<open>sdscatfmt\<close>; reading one at another type is undefined.\<close>

datatype fmt_arg = ArgStr bytes | ArgSds sdshdr | ArgInt int | ArgLL int | ArgUInt nat | ArgULL nat

text \<open>Making room for \<open>l\<close> bytes, storing them at \<open>s+i\<close> and adjusting the header.\<close>

definition sdscatfmt_room :: "(nat \<Rightarrow> byte) \<Rightarrow> sdshdr \<Rightarrow> nat \<Rightarrow> sdshdr option" where
  "sdscatfmt_room junk s l = (if sds_free s < l then sdsMakeRoomFor junk s l else Some s)"

definition sdscatfmt_space :: "(nat \<Rightarrow> byte) \<Rightarrow> sdshdr \<Rightarrow> sdshdr option" where
  "sdscatfmt_space junk s = (if sds_free s = 0 then sdsMakeRoomFor junk s 1 else Some s)"

definition sdscatfmt_put :: "sdshdr \<Rightarrow> nat \<Rightarrow> bytes \<Rightarrow> (sdshdr \<times> nat) option" where
  "sdscatfmt_put s i bs =
     (if i < 2 ^ 31 then do {
        buf \<leftarrow> mem_write (sds_buf s) i bs;
        let l = length bs mod 2 ^ 32;
        Some (\<lparr>sds_len = ui_add (sds_len s) l, sds_free = ui_sub (sds_free s) l, sds_buf = buf\<rparr>, i + length bs) }
      else None)"

definition sdscatfmt_text :: "(nat \<Rightarrow> byte) \<Rightarrow> byte \<Rightarrow> fmt_arg \<Rightarrow> bytes option" where
  "sdscatfmt_text junk c arg =
     (let tmp = map junk [0..<SDS_LLSTR_SIZE] in
      case arg of
        ArgStr t \<Rightarrow> if c = byte_of CHR ''s'' then do { l \<leftarrow> c_strlen t; mem_read t 0 l } else None
      | ArgSds t \<Rightarrow> do {
          l \<leftarrow> (if c = byte_of CHR ''s'' then c_strlen (sds_buf t)
                else if c = byte_of CHR ''S'' then Some (sdslen t) else None);
          mem_read (sds_buf t) 0 l }
      | ArgInt v \<Rightarrow> if c = byte_of CHR ''i'' then do { (b, l) \<leftarrow> sdsll2str tmp v; mem_read b 0 l } else None
      | ArgLL v \<Rightarrow> if c = byte_of CHR ''I'' then do { (b, l) \<leftarrow> sdsll2str tmp v; mem_read b 0 l } else None
      | ArgUInt v \<Rightarrow> if c = byte_of CHR ''u'' then do { (b, l) \<leftarrow> sdsull2str tmp v; mem_read b 0 l } else None
      | ArgULL v \<Rightarrow> if c = byte_of CHR ''U'' then do { (b, l) \<leftarrow> sdsull2str tmp v; mem_read b 0 l } else None)"

definition sdscatfmt_spec :: "byte \<Rightarrow> bool" where
  "sdscatfmt_spec c \<longleftrightarrow> c \<in> set (str ''sSiIuU'')"

fun sdscatfmt_loop :: "(nat \<Rightarrow> byte) \<Rightarrow> sdshdr \<Rightarrow> nat \<Rightarrow> bytes \<Rightarrow> fmt_arg list \<Rightarrow> (sdshdr \<times> nat) option" where
  "sdscatfmt_loop junk s i [] ap = None"
| "sdscatfmt_loop junk s i (c # f) ap =
     (if c = 0 then Some (s, i)
      else do {
        s \<leftarrow> sdscatfmt_space junk s;
        if c = byte_of CHR ''%'' then
          (case f of
             [] \<Rightarrow> None
           | next # f \<Rightarrow>
               if sdscatfmt_spec next then
                 (case ap of
                    [] \<Rightarrow> None
                  | a # ap \<Rightarrow> do {
                      t \<leftarrow> sdscatfmt_text junk next a;
                      s \<leftarrow> sdscatfmt_room junk s (length t);
                      (s, i) \<leftarrow> sdscatfmt_put s i t;
                      sdscatfmt_loop junk s i f ap })
               else do {
                 (s, i) \<leftarrow> sdscatfmt_put s i [next];
                 sdscatfmt_loop junk s i f ap })
        else do {
          (s, i) \<leftarrow> sdscatfmt_put s i [c];
          sdscatfmt_loop junk s i f ap } })"

definition sdscatfmt :: "(nat \<Rightarrow> byte) \<Rightarrow> sdshdr \<Rightarrow> bytes \<Rightarrow> fmt_arg list \<Rightarrow> sdshdr option" where
  "sdscatfmt junk s fmt ap = do {
     (s, i) \<leftarrow> sdscatfmt_loop junk s (sdslen s) fmt ap;
     buf \<leftarrow> arr_set (sds_buf s) i 0;
     Some (s\<lparr>sds_buf := buf\<rparr>) }"

section \<open>Splitting and joining\<close>

text \<open>
  The token array of \<open>sdssplitlen\<close> with its capacity; \<open>elements\<close> is the length of the list.
\<close>

definition sdssplit_slots :: "nat \<Rightarrow> nat \<Rightarrow> nat option" where
  "sdssplit_slots slots elements =
     (if slots < elements + 2 then (if slots * 2 < 2 ^ 31 then Some (slots * 2) else None) else Some slots)"

definition sdssplit_add :: "(nat \<Rightarrow> byte) \<Rightarrow> bytes \<Rightarrow> nat \<Rightarrow> sdshdr list \<Rightarrow> nat \<Rightarrow> nat \<Rightarrow> sdshdr list option" where
  "sdssplit_add junk s slots tokens start n =
     (if length tokens < slots \<and> start \<le> length s then do {
        t \<leftarrow> sdsnewlen junk (Some (drop start s)) n;
        Some (tokens @ [t]) }
      else None)"

definition sdssplit_match :: "bytes \<Rightarrow> nat \<Rightarrow> bytes \<Rightarrow> nat \<Rightarrow> bool option" where
  "sdssplit_match s j sep seplen = do {
     one \<leftarrow> (if seplen = 1 then do { a \<leftarrow> arr_get s j; b \<leftarrow> arr_get sep 0; Some (a = b) } else Some False);
     if one then Some True else do { r \<leftarrow> c_memcmp (drop j s) sep seplen; Some (r = 0) } }"

text \<open>The caller has checked that \<open>seplen\<close> is positive; \<open>j = j+seplen-1\<close> is followed by \<open>j++\<close>.\<close>

function sdssplitlen_loop ::
  "(nat \<Rightarrow> byte) \<Rightarrow> bytes \<Rightarrow> nat \<Rightarrow> bytes \<Rightarrow> nat \<Rightarrow> nat \<Rightarrow> nat \<Rightarrow> nat \<Rightarrow> sdshdr list \<Rightarrow> (nat \<times> nat \<times> sdshdr list) option" where
  "sdssplitlen_loop junk s len sep seplen j start slots tokens =
     (if 1 \<le> seplen \<and> int j < int len - (int seplen - 1) then do {
        slots \<leftarrow> sdssplit_slots slots (length tokens);
        m \<leftarrow> sdssplit_match s j sep seplen;
        if m then do {
          tokens \<leftarrow> sdssplit_add junk s slots tokens start (j - start);
          sdssplitlen_loop junk s len sep seplen (j + seplen) (j + seplen) slots tokens }
        else sdssplitlen_loop junk s len sep seplen (j + 1) start slots tokens }
      else Some (start, slots, tokens))"
  by pat_completeness auto
termination
  by (relation "measure (\<lambda>(junk, s, len, sep, seplen, j, start, slots, tokens). (len + 1) - j)") auto

declare sdssplitlen_loop.simps [simp del]

definition sdssplitlen :: "(nat \<Rightarrow> byte) \<Rightarrow> bytes \<Rightarrow> int \<Rightarrow> bytes \<Rightarrow> int \<Rightarrow> sdshdr list option option" where
  "sdssplitlen junk s len sep seplen =
     (if seplen < 1 \<or> len < 0 then Some None
      else if len = 0 then Some (Some [])
      else do {
        (start, slots, tokens) \<leftarrow> sdssplitlen_loop junk s (nat len) sep (nat seplen) 0 0 5 [];
        tokens \<leftarrow> sdssplit_add junk s slots tokens start (nat len - start);
        Some (Some tokens) })"

fun sdsjoin_loop :: "(nat \<Rightarrow> byte) \<Rightarrow> sdshdr \<Rightarrow> bytes list \<Rightarrow> bytes \<Rightarrow> sdshdr option" where
  "sdsjoin_loop junk join [] sep = Some join"
| "sdsjoin_loop junk join (a # argv) sep = do {
     join \<leftarrow> sdscat junk join a;
     join \<leftarrow> (if argv \<noteq> [] then sdscat junk join sep else Some join);
     sdsjoin_loop junk join argv sep }"

definition sdsjoin :: "(nat \<Rightarrow> byte) \<Rightarrow> bytes list \<Rightarrow> bytes \<Rightarrow> sdshdr option" where
  "sdsjoin junk argv sep = do { join \<leftarrow> sdsempty junk; sdsjoin_loop junk join argv sep }"

section \<open>Quoted representation and argument splitting\<close>

definition c_isprint :: "int \<Rightarrow> bool" where
  "c_isprint c \<longleftrightarrow> 32 \<le> c \<and> c \<le> 126"

definition c_isspace :: "int \<Rightarrow> bool" where
  "c_isspace c \<longleftrightarrow> c = 32 \<or> 9 \<le> c \<and> c \<le> 13"

definition hex_char :: "nat \<Rightarrow> byte" where
  "hex_char n = (if n < 10 then 48 + of_nat n else 87 + of_nat n)"

text \<open>The text of \<open>"\\x%02x"\<close> for a byte.\<close>

definition fmt_x02 :: "byte \<Rightarrow> bytes" where
  "fmt_x02 b = [92, 120, hex_char (unat b div 16), hex_char (unat b mod 16)]"

definition sdscatrepr_char :: "(nat \<Rightarrow> byte) \<Rightarrow> sdshdr \<Rightarrow> byte \<Rightarrow> sdshdr option" where
  "sdscatrepr_char junk s c =
     (if c = 92 \<or> c = 34 then sdscatprintf junk s (92 # str ''%c'' @ [0]) [92, c]
      else if c = 10 then sdscatlen junk s (92 # str ''n'' @ [0]) 2
      else if c = 13 then sdscatlen junk s (92 # str ''r'' @ [0]) 2
      else if c = 9 then sdscatlen junk s (92 # str ''t'' @ [0]) 2
      else if c = 7 then sdscatlen junk s (92 # str ''a'' @ [0]) 2
      else if c = 8 then sdscatlen junk s (92 # str ''b'' @ [0]) 2
      else if c_isprint (cval c) then sdscatprintf junk s (str ''%c'' @ [0]) [c]
      else sdscatprintf junk s (92 # str ''x%02x'' @ [0]) (fmt_x02 c))"

fun sdscatrepr_loop :: "(nat \<Rightarrow> byte) \<Rightarrow> sdshdr \<Rightarrow> bytes \<Rightarrow> nat \<Rightarrow> sdshdr option" where
  "sdscatrepr_loop junk s p 0 = Some s"
| "sdscatrepr_loop junk s [] (Suc n) = None"
| "sdscatrepr_loop junk s (c # p) (Suc n) = do {
     s \<leftarrow> sdscatrepr_char junk s c;
     sdscatrepr_loop junk s p n }"

definition sdscatrepr :: "(nat \<Rightarrow> byte) \<Rightarrow> sdshdr \<Rightarrow> bytes \<Rightarrow> nat \<Rightarrow> sdshdr option" where
  "sdscatrepr junk s p len = do {
     s \<leftarrow> sdscatlen junk s [34, 0] 1;
     s \<leftarrow> sdscatrepr_loop junk s p len;
     sdscatlen junk s [34, 0] 1 }"

definition is_hex_digit :: "byte \<Rightarrow> bool" where
  "is_hex_digit c \<longleftrightarrow> (48 \<le> cval c \<and> cval c \<le> 57) \<or> (97 \<le> cval c \<and> cval c \<le> 102) \<or> (65 \<le> cval c \<and> cval c \<le> 70)"

definition hex_digit_to_int :: "byte \<Rightarrow> nat" where
  "hex_digit_to_int c =
     (if c = byte_of CHR ''0'' then 0 else if c = byte_of CHR ''1'' then 1
      else if c = byte_of CHR ''2'' then 2 else if c = byte_of CHR ''3'' then 3
      else if c = byte_of CHR ''4'' then 4 else if c = byte_of CHR ''5'' then 5
      else if c = byte_of CHR ''6'' then 6 else if c = byte_of CHR ''7'' then 7
      else if c = byte_of CHR ''8'' then 8 else if c = byte_of CHR ''9'' then 9
      else if c = byte_of CHR ''a'' \<or> c = byte_of CHR ''A'' then 10
      else if c = byte_of CHR ''b'' \<or> c = byte_of CHR ''B'' then 11
      else if c = byte_of CHR ''c'' \<or> c = byte_of CHR ''C'' then 12
      else if c = byte_of CHR ''d'' \<or> c = byte_of CHR ''D'' then 13
      else if c = byte_of CHR ''e'' \<or> c = byte_of CHR ''E'' then 14
      else if c = byte_of CHR ''f'' \<or> c = byte_of CHR ''F'' then 15
      else 0)"

text \<open>
  A pointer into the line is the rest of the line with its terminator.  A token step has three
  outcomes besides undefined behaviour: an error, the end of the token, or the next state.
\<close>

datatype quote_mode = Plain | InQ | InSQ

datatype arg_step = ArgErr | ArgDone | ArgNext quote_mode nat sdshdr

definition escape_char :: "byte \<Rightarrow> byte" where
  "escape_char c =
     (if c = byte_of CHR ''n'' then 10 else if c = byte_of CHR ''r'' then 13
      else if c = byte_of CHR ''t'' then 9 else if c = byte_of CHR ''b'' then 8
      else if c = byte_of CHR ''a'' then 7 else c)"

definition hex_escape :: "bytes \<Rightarrow> bool option" where
  "hex_escape p = do {
     c0 \<leftarrow> arr_get p 0;
     if c0 \<noteq> 92 then Some False else do {
       c1 \<leftarrow> arr_get p 1;
       if c1 \<noteq> 120 then Some False else do {
         c2 \<leftarrow> arr_get p 2;
         if \<not> is_hex_digit c2 then Some False else do {
           c3 \<leftarrow> arr_get p 3;
           Some (is_hex_digit c3) } } } }"

text \<open>The closing quote must be followed by a space or by nothing.\<close>

definition close_quote :: "bytes \<Rightarrow> arg_step option" where
  "close_quote p = do {
     c1 \<leftarrow> arr_get p 1;
     Some (if c1 \<noteq> 0 \<and> \<not> c_isspace (cval c1) then ArgErr else ArgDone) }"

definition append_char :: "(nat \<Rightarrow> byte) \<Rightarrow> sdshdr \<Rightarrow> byte \<Rightarrow> quote_mode \<Rightarrow> nat \<Rightarrow> arg_step option" where
  "append_char junk current c mode k = do {
     current \<leftarrow> sdscatlen junk current [c] 1;
     Some (ArgNext mode k current) }"

text \<open>One iteration of the token loop: the number in \<open>ArgNext\<close> is how far \<open>p\<close> advances.\<close>

definition arg_step_inq :: "(nat \<Rightarrow> byte) \<Rightarrow> bytes \<Rightarrow> sdshdr \<Rightarrow> arg_step option" where
  "arg_step_inq junk p current = do {
     c0 \<leftarrow> arr_get p 0;
     hex \<leftarrow> hex_escape p;
     if hex then do {
       c2 \<leftarrow> arr_get p 2;
       c3 \<leftarrow> arr_get p 3;
       append_char junk current (of_nat (hex_digit_to_int c2 * 16 + hex_digit_to_int c3)) InQ 4 }
     else do {
       esc \<leftarrow> (if c0 = 92 then do { c1 \<leftarrow> arr_get p 1; Some (c1 \<noteq> 0) } else Some False);
       if esc then do {
         c1 \<leftarrow> arr_get p 1;
         append_char junk current (escape_char c1) InQ 2 }
       else if c0 = 34 then close_quote p
       else if c0 = 0 then Some ArgErr
       else append_char junk current c0 InQ 1 } }"

definition arg_step_insq :: "(nat \<Rightarrow> byte) \<Rightarrow> bytes \<Rightarrow> sdshdr \<Rightarrow> arg_step option" where
  "arg_step_insq junk p current = do {
     c0 \<leftarrow> arr_get p 0;
     esc \<leftarrow> (if c0 = 92 then do { c1 \<leftarrow> arr_get p 1; Some (c1 = 39) } else Some False);
     if esc then append_char junk current 39 InSQ 2
     else if c0 = 39 then close_quote p
     else if c0 = 0 then Some ArgErr
     else append_char junk current c0 InSQ 1 }"

definition arg_step_plain :: "(nat \<Rightarrow> byte) \<Rightarrow> bytes \<Rightarrow> sdshdr \<Rightarrow> arg_step option" where
  "arg_step_plain junk p current = do {
     c0 \<leftarrow> arr_get p 0;
     if c0 = 32 \<or> c0 = 10 \<or> c0 = 13 \<or> c0 = 9 \<or> c0 = 0 then Some ArgDone
     else if c0 = 34 then Some (ArgNext InQ 1 current)
     else if c0 = 39 then Some (ArgNext InSQ 1 current)
     else append_char junk current c0 Plain 1 }"

definition arg_step_of :: "(nat \<Rightarrow> byte) \<Rightarrow> quote_mode \<Rightarrow> bytes \<Rightarrow> sdshdr \<Rightarrow> arg_step option" where
  "arg_step_of junk mode p current =
     (case mode of
        Plain \<Rightarrow> arg_step_plain junk p current
      | InQ \<Rightarrow> arg_step_inq junk p current
      | InSQ \<Rightarrow> arg_step_insq junk p current)"

lemma append_char_next: "append_char junk current c m k = Some (ArgNext m' n cur') \<Longrightarrow> n = k \<and> m' = m"
  by (auto simp: append_char_def split: bind_splits)

lemma arg_step_next:
  assumes "arg_step_of junk mode p current = Some (ArgNext m n cur')"
  shows "0 < n \<and> p \<noteq> []"
proof -
  have "p \<noteq> []" using assms
    by (auto simp: arg_step_of_def arg_step_plain_def arg_step_inq_def arg_step_insq_def arr_get_def split: quote_mode.splits)
  moreover have "0 < n" using assms
    by (auto simp: arg_step_of_def arg_step_plain_def arg_step_inq_def arg_step_insq_def close_quote_def
      split: quote_mode.splits bind_splits if_splits dest: append_char_next)
  ultimately show ?thesis by simp
qed

text \<open>
  The token loop.  An advance by \<open>n\<close> is \<open>n-1\<close> increments in the body and the final
  \<open>if (*p) p++\<close>, whose byte is never the terminator here.
\<close>

function sdssplitargs_token :: "(nat \<Rightarrow> byte) \<Rightarrow> quote_mode \<Rightarrow> bytes \<Rightarrow> sdshdr \<Rightarrow> (sdshdr \<times> bytes) option option" where
  "sdssplitargs_token junk mode p current =
     (case arg_step_of junk mode p current of
        None \<Rightarrow> None
      | Some ArgErr \<Rightarrow> Some None
      | Some ArgDone \<Rightarrow> do {
          c \<leftarrow> arr_get p 0;
          Some (Some (current, if c \<noteq> 0 then drop 1 p else p)) }
      | Some (ArgNext mode n current) \<Rightarrow> sdssplitargs_token junk mode (drop n p) current)"
  by pat_completeness auto
termination
  by (relation "measure (\<lambda>(junk, mode, p, current). length p)") (auto dest!: arg_step_next)

declare sdssplitargs_token.simps [simp del]

fun sdssplitargs_skip :: "bytes \<Rightarrow> bytes option" where
  "sdssplitargs_skip [] = None"
| "sdssplitargs_skip (c # p) = (if c \<noteq> 0 \<and> c_isspace (cval c) then sdssplitargs_skip p else Some (c # p))"

lemma sdssplitargs_skip_length: "sdssplitargs_skip p = Some q \<Longrightarrow> length q \<le> length p \<and> q \<noteq> []"
  by (induction p) (auto split: if_splits)

lemma sdssplitargs_token_length:
  "sdssplitargs_token junk mode p current = Some (Some (cur', q)) \<Longrightarrow>
   length q \<le> length p \<and> (p \<noteq> [] \<longrightarrow> hd p \<noteq> 0 \<longrightarrow> length q < length p)"
proof (induction junk mode p current rule: sdssplitargs_token.induct)
  case (1 junk mode p current)
  show ?case
  proof (cases "arg_step_of junk mode p current")
    case None
    then show ?thesis using 1(2) by (subst (asm) sdssplitargs_token.simps) simp
  next
    case (Some st)
    show ?thesis
    proof (cases st)
      case (ArgNext m n c)
      have "0 < n" "p \<noteq> []" using arg_step_next Some ArgNext by blast+
      moreover have "sdssplitargs_token junk m (drop n p) c = Some (Some (cur', q))"
        using 1(2) Some ArgNext by (subst (asm) sdssplitargs_token.simps) simp
      then have "length q \<le> length (drop n p)" using 1(1) [OF Some ArgNext] by simp
      moreover have "0 < length p" using \<open>p \<noteq> []\<close> by simp
      ultimately have "length q < length p" by (simp only: length_drop)
      then show ?thesis by simp
    next
      case ArgDone
      then have "do { c \<leftarrow> arr_get p 0; Some (Some (current, if c \<noteq> 0 then drop 1 p else p)) } = Some (Some (cur', q))"
        using 1(2) Some by (subst (asm) sdssplitargs_token.simps) simp
      then show ?thesis by (cases p) (auto simp: arr_get_def split: if_splits)
    next
      case ArgErr
      then show ?thesis using 1(2) Some by (subst (asm) sdssplitargs_token.simps) simp
    qed
  qed
qed

function sdssplitargs_loop :: "(nat \<Rightarrow> byte) \<Rightarrow> bytes \<Rightarrow> sdshdr list \<Rightarrow> sdshdr list option option" where
  "sdssplitargs_loop junk p vector =
     (case sdssplitargs_skip p of
        None \<Rightarrow> None
      | Some p \<Rightarrow>
          if hd p \<noteq> 0 then
            (case sdsempty junk of
               None \<Rightarrow> None
             | Some current \<Rightarrow>
                 (case sdssplitargs_token junk Plain p current of
                    None \<Rightarrow> None
                  | Some None \<Rightarrow> Some None
                  | Some (Some (current, p)) \<Rightarrow> sdssplitargs_loop junk p (vector @ [current])))
          else Some (Some vector))"
  by pat_completeness auto
termination
  by (relation "measure (\<lambda>(junk, p, vector). length p)")
    (auto dest!: sdssplitargs_skip_length sdssplitargs_token_length)

declare sdssplitargs_loop.simps [simp del]

definition sdssplitargs :: "(nat \<Rightarrow> byte) \<Rightarrow> bytes \<Rightarrow> sdshdr list option option" where
  "sdssplitargs junk line = sdssplitargs_loop junk line []"


section \<open>Correctness of the conversions and of formatted output\<close>

lemma sdsll2str_digits_Some:
  "p + length (dec v) \<le> length s \<Longrightarrow>
   sdsll2str_digits s p v = Some (take p s @ rev (dec v) @ drop (p + length (dec v)) s, p + length (dec v))"
proof (induction s p v rule: sdsll2str_digits.induct)
  case (1 s p v)
  let ?d = "48 + of_nat (v mod 10) :: byte"
  have p: "p < length s" using 1(2) length_dec_pos [of v] by linarith
  have u: "take p s @ ?d # drop (Suc p) s = s[p := ?d]" using p by (simp add: upd_conv_take_nth_drop)
  show ?case
  proof (cases "v < 10")
    case True
    then have "dec v = [?d]" by (subst dec.simps) simp
    then show ?thesis using True p u by (subst sdsll2str_digits.simps) simp
  next
    case False
    then have d: "dec v = dec (v div 10) @ [?d]" by (subst dec.simps) simp
    have "sdsll2str_digits (s[p := ?d]) (Suc p) (v div 10) =
      Some (take (Suc p) (s[p := ?d]) @ rev (dec (v div 10)) @ drop (Suc p + length (dec (v div 10))) (s[p := ?d]), Suc p + length (dec (v div 10)))"
      by (rule 1(1)) (use 1(2) p d False in auto)
    moreover have "take (Suc p) (s[p := ?d]) = take p s @ [?d]" using p by (simp add: take_Suc_conv_app_nth)
    ultimately show ?thesis using p d False by (subst sdsll2str_digits.simps) simp
  qed
qed

lemma sdsll2str_reverse_Some:
  "sdsll2str_reverse (pre @ mid @ post) (length pre) (length pre + length mid - 1) = Some (pre @ rev mid @ post)"
proof (induction "length mid" arbitrary: pre mid post rule: less_induct)
  case less
  show ?case
  proof (cases "length mid < 2")
    case True
    then have "mid = [] \<or> (\<exists>x. mid = [x])" by (cases mid; cases "tl mid") auto
    then show ?thesis by (subst sdsll2str_reverse.simps) auto
  next
    case False
    then obtain x m where x: "mid = x # m" "m \<noteq> []" by (cases mid; cases "tl mid") auto
    then obtain n y where y: "m = n @ [y]" by (cases m rule: rev_cases) auto
    have mid: "mid = x # n @ [y]" using x y by simp
    have "sdsll2str_reverse ((pre @ [y]) @ n @ (x # post)) (length (pre @ [y])) (length (pre @ [y]) + length n - 1) =
      Some ((pre @ [y]) @ rev n @ (x # post))"
      by (rule less) (simp add: mid)
    then show ?thesis
      by (subst sdsll2str_reverse.simps) (simp add: mid nth_append list_update_append)
  qed
qed

lemma arr_set_at: "k = length pre \<Longrightarrow> k < length s \<Longrightarrow> arr_set (pre @ drop k s) k x = Some (pre @ x # drop (Suc k) s)"
  by (simp add: arr_set_def list_update_append Cons_nth_drop_Suc [symmetric])

lemma sdsll2str_finish:
  assumes "length pre < length s" "0 < length pre"
  shows "do { s \<leftarrow> arr_set (rev pre @ drop (length pre) s) (length pre) 0;
              s \<leftarrow> sdsll2str_reverse s 0 (length pre - 1);
              Some (s, length pre) } = Some (pre @ 0 # drop (Suc (length pre)) s, length pre)"
  using assms sdsll2str_reverse_Some [of "[]" "rev pre" "0 # drop (Suc (length pre)) s"] arr_set_at [of "length pre" "rev pre" s 0]
  by simp

lemma sdsull2str_Some:
  assumes "length (dec v) < length s"
  shows "sdsull2str s v = Some (dec v @ 0 # drop (Suc (length (dec v))) s, length (dec v))"
  using assms sdsll2str_finish [OF assms] sdsll2str_digits_Some [of 0 v s] by (simp add: sdsull2str_def)

lemma length_dec_ulong: "v < 2 ^ 64 \<Longrightarrow> length (dec v) \<le> 20"
  by (subst length_dec_le_iff) auto

lemma length_dec_int_llong: "is_llong v \<Longrightarrow> length (dec_int v) \<le> 20"
  using length_dec_llong [of v] length_dec_int [of v] by auto

lemma sdsll2str_conv_Some:
  assumes "length (dec_int v) < length s"
  shows "sdsll2str_conv s (v < 0) (nat \<bar>v\<bar>) = Some (dec_int v @ 0 # drop (Suc (length (dec_int v))) s, length (dec_int v))"
proof (cases "v < 0")
  case False
  then show ?thesis using assms sdsll2str_finish [of "dec (nat v)" s] sdsll2str_digits_Some [of 0 "nat v" s]
    by (simp add: sdsll2str_conv_def dec_int_def)
next
  case True
  let ?d = "dec (nat (- v))"
  have l: "Suc (length ?d) < length s" using assms True by (simp add: dec_int_def)
  have "arr_set (rev ?d @ drop (length ?d) s) (length ?d) 45 = Some (rev (45 # ?d) @ drop (length (45 # ?d)) s)"
    using arr_set_at [of "length ?d" "rev ?d" s 45] l by simp
  then show ?thesis using True assms l sdsll2str_finish [of "45 # ?d" s] sdsll2str_digits_Some [of 0 "nat (- v)" s]
    by (simp add: sdsll2str_conv_def dec_int_def)
qed

text \<open>The absolute value in two's complement, the one of the least \<open>long long\<close> included.\<close>

lemma unat_llong: "0 \<le> v \<Longrightarrow> v \<le> 2 ^ 63 \<Longrightarrow> unat (word_of_int v :: 64 word) = nat v"
  by (simp add: unsigned_of_int take_bit_int_eq_self)

lemma twos_complement_abs:
  assumes "is_llong v"
  shows "unat (if v < 0 then - word_of_int v else word_of_int v :: 64 word) = nat \<bar>v\<bar>"
proof (cases "v < 0")
  case True
  then show ?thesis using unat_llong [of "- v"] assms by (simp add: is_llong_def)
qed (use unat_llong [of v] assms in \<open>simp add: is_llong_def\<close>)

lemma sdsll2str_Some:
  assumes "is_llong v" "length (dec_int v) < length s" "v \<noteq> - (2 ^ 63)"
  shows "sdsll2str s v = Some (dec_int v @ 0 # drop (Suc (length (dec_int v))) s, length (dec_int v))"
  using sdsll2str_conv_Some [OF assms(2)] unat_llong [of "\<bar>v\<bar>"] assms(1,3)
  by (auto simp: sdsll2str_def llong_neg_def is_llong_def)

lemma sdsfromlonglong_Some:
  "is_llong v \<Longrightarrow> v \<noteq> - (2 ^ 63) \<Longrightarrow> sdsfromlonglong junk v = Some (sds_of (dec_int v) [])"
  using length_dec_int_llong [of v]
  by (simp add: sdsfromlonglong_def sdsll2str_Some SDS_LLSTR_SIZE_def sdsnewlen_Some)

subsection \<open>printf-like output\<close>

lemma sdscatvprintf_loop_Some:
  "2 \<le> buflen \<Longrightarrow> 0 \<notin> set out \<Longrightarrow> ensures (sdscatvprintf_loop junk buflen out) (\<lambda>buf. \<exists>rest. buf = out @ 0 # rest)"
proof (induction junk buflen out rule: sdscatvprintf_loop.induct)
  case (1 junk buflen out)
  let ?b = "(map junk [0..<buflen])[buflen - 2 := 0]"
  let ?o = "take (buflen - 1) out @ [0]"
  define b' where "b' = ?o @ drop (length ?o) ?b"
  have v: "vsnprintf_out ?b buflen out = Some b'"
    using 1(2) by (auto simp: vsnprintf_out_def b'_def)
  have l: "length b' = buflen" using 1(2) by (auto simp: b'_def)
  show ?case
  proof (cases "b' ! (buflen - 2) = 0")
    case True
    have "length out \<le> buflen - 2"
    proof (rule ccontr)
      assume a: "\<not> length out \<le> buflen - 2"
      have "buflen - 2 < buflen - 1" using 1(2) by linarith
      then have "b' ! (buflen - 2) = out ! (buflen - 2)" using a by (simp add: b'_def nth_append)
      moreover have "out ! (buflen - 2) \<in> set out" using a by simp
      ultimately show False using True 1(3) by simp
    qed
    then have "b' = out @ 0 # drop (Suc (length out)) ?b" using 1(2) by (simp add: b'_def)
    then show ?thesis using 1(2) v True l by (subst sdscatvprintf_loop.simps) auto
  next
    case False
    have "ensures (sdscatvprintf_loop junk (buflen * 2) out) (\<lambda>buf. \<exists>rest. buf = out @ 0 # rest)"
      by (rule 1(1) [of ?b b' "b' ! (buflen - 2)"]) (use 1(2,3) v False l in auto)
    then show ?thesis using 1(2) v False l by (subst sdscatvprintf_loop.simps) simp
  qed
qed

lemma sdscatvprintf_Some:
  assumes "sds_is xs s" "0 \<notin> set out" "length xs + length out < sds_max" "0 \<in> set fmt"
  shows "ensures (sdscatvprintf junk s fmt out) (sds_is (xs @ out))"
proof -
  have "ensures (do { buf \<leftarrow> sdscatvprintf_loop junk n out; sdscat junk s buf }) (sds_is (xs @ out))" if "2 \<le> n" for n
    by (rule ensures_bindI [OF sdscatvprintf_loop_Some [OF that assms(2)]]) (use assms in \<open>auto intro: sdscat_Some\<close>)
  then show ?thesis using c_strlen_takeWhile [OF assms(4)] by (simp add: sdscatvprintf_def Let_def)
qed

lemmas sdscatprintf_Some = sdscatvprintf_Some [folded sdscatprintf_def]


subsection \<open>The format of \<open>sdscatfmt\<close>\<close>

text \<open>The text of an argument, and of a format without its terminator.\<close>

fun fmt_text :: "byte \<Rightarrow> fmt_arg \<Rightarrow> bytes option" where
  "fmt_text c (ArgStr t) = (if c = 115 then Some (takeWhile (\<lambda>b. b \<noteq> 0) t) else None)"
| "fmt_text c (ArgSds t) = (if c = 115 then Some (takeWhile (\<lambda>b. b \<noteq> 0) (sdsval t)) else if c = 83 then Some (sdsval t) else None)"
| "fmt_text c (ArgInt v) = (if c = 105 then Some (dec_int v) else None)"
| "fmt_text c (ArgLL v) = (if c = 73 then Some (dec_int v) else None)"
| "fmt_text c (ArgUInt v) = (if c = 117 then Some (dec v) else None)"
| "fmt_text c (ArgULL v) = (if c = 85 then Some (dec v) else None)"

fun fmt_out :: "bytes \<Rightarrow> fmt_arg list \<Rightarrow> bytes option" where
  "fmt_out [] ap = Some []"
| "fmt_out [c] ap = (if c = 37 then None else Some [c])"
| "fmt_out (c # d # f) ap =
     (if c \<noteq> 37 then map_option ((#) c) (fmt_out (d # f) ap)
      else if d \<in> set (str ''sSiIuU'') then
        (case ap of
           [] \<Rightarrow> None
         | a # ap \<Rightarrow> (case fmt_text d a of None \<Rightarrow> None | Some t \<Rightarrow> map_option (append t) (fmt_out f ap)))
      else map_option ((#) d) (fmt_out f ap))"

text \<open>Arguments as the calling convention passes them.\<close>

fun wf_arg :: "fmt_arg \<Rightarrow> bool" where
  "wf_arg (ArgStr t) \<longleftrightarrow> 0 \<in> set t"
| "wf_arg (ArgSds t) \<longleftrightarrow> sds_inv t"
| "wf_arg (ArgInt v) \<longleftrightarrow> is_int32 v"
| "wf_arg (ArgLL v) \<longleftrightarrow> is_llong v \<and> v \<noteq> - (2 ^ 63)"
| "wf_arg (ArgUInt v) \<longleftrightarrow> v < 2 ^ 32"
| "wf_arg (ArgULL v) \<longleftrightarrow> v < 2 ^ 64"

lemma take_length_takeWhile [simp]: "take (length (takeWhile P xs)) xs = takeWhile P xs"
  by (metis takeWhile_eq_take)

lemma sdscatfmt_text_Some:
  assumes "wf_arg a" "fmt_text c a = Some t"
  shows "sdscatfmt_text junk c a = Some t"
proof (cases a)
  case (ArgStr u)
  then show ?thesis using assms ArgStr c_strlen_takeWhile [of u]
    by (auto simp: sdscatfmt_text_def length_takeWhile_le split: if_splits)
next
  case (ArgSds u)
  then have "sds_is (sdsval u) u" using assms by (simp add: sds_is_def)
  then obtain rest where u: "u = sds_of (sdsval u) rest" by (rule sds_isE)
  define v where "v = sdsval u"
  have e: "takeWhile (\<lambda>b. b \<noteq> 0) (v @ 0 # rest) = takeWhile (\<lambda>b. b \<noteq> 0) v"
    by (cases "0 \<in> set v") (auto simp: takeWhile_append1 takeWhile_tail)
  have "length (takeWhile (\<lambda>b. b \<noteq> 0) v) \<le> length v" by (rule length_takeWhile_le)
  moreover have "u = sds_of v rest" using u by (simp add: v_def)
  ultimately show ?thesis using assms ArgSds c_strlen_takeWhile [of "v @ 0 # rest"] e
    by (auto simp: sdscatfmt_text_def split: if_splits)
next
  case (ArgInt v)
  then have "is_llong v" "v \<noteq> - (2 ^ 63)" using assms(1) by (auto simp: is_int32_def is_llong_def)
  then show ?thesis using assms ArgInt length_dec_int_llong [of v]
    by (auto simp: sdscatfmt_text_def sdsll2str_Some SDS_LLSTR_SIZE_def split: if_splits)
next
  case (ArgLL v)
  then show ?thesis using assms length_dec_int_llong [of v]
    by (auto simp: sdscatfmt_text_def sdsll2str_Some SDS_LLSTR_SIZE_def split: if_splits)
next
  case (ArgUInt v)
  then show ?thesis using assms length_dec_ulong [of v]
    by (auto simp: sdscatfmt_text_def sdsull2str_Some SDS_LLSTR_SIZE_def split: if_splits)
next
  case (ArgULL v)
  then show ?thesis using assms length_dec_ulong [of v]
    by (auto simp: sdscatfmt_text_def sdsull2str_Some SDS_LLSTR_SIZE_def split: if_splits)
qed

text \<open>
  While the loop runs, the terminator is not in place: the header and the stored bytes are right
  all the same.
\<close>

definition sds_part :: "bytes \<Rightarrow> sdshdr \<Rightarrow> bool" where
  "sds_part xs s \<longleftrightarrow> (\<exists>rest. s = \<lparr>sds_len = length xs, sds_free = length rest - 1, sds_buf = xs @ rest\<rparr> \<and>
     rest \<noteq> [] \<and> length xs + length rest \<le> 2 ^ 31)"

lemma sds_is_part: "sds_is xs s \<Longrightarrow> sds_part xs s"
  by (auto simp: sds_part_def sds_of_def elim!: sds_isE)

lemma sdsMakeRoomFor_part:
  assumes "sds_part xs s" "length xs + n < sds_max"
  shows "ensures (sdsMakeRoomFor junk s n) (\<lambda>s'. sds_part xs s' \<and> n \<le> sds_free s')"
proof -
  obtain rest where r: "s = \<lparr>sds_len = length xs, sds_free = length rest - 1, sds_buf = xs @ rest\<rparr>"
    "rest \<noteq> []" "length xs + length rest \<le> 2 ^ 31" using assms(1) by (auto simp: sds_part_def)
  show ?thesis
  proof (cases "n \<le> length rest - 1")
    case True
    then show ?thesis using assms r by (simp add: sdsMakeRoomFor_def sdsavail_def)
  next
    case False
    define m where "m = sds_prealloc (length xs + n)"
    have m: "length xs + n \<le> m" "m < 2 ^ 31" using assms(2)
      by (auto simp: m_def sds_prealloc_def SDS_MAX_PREALLOC_def sds_max_def)
    define rest' where "rest' = rest @ map junk [length xs + length rest..<Suc m]"
    have e: "zrealloc junk (xs @ rest) (Suc m) = xs @ rest'"
      using False m r(2) by (subst zrealloc_eq) (auto simp: rest'_def)
    have "length xs + length rest \<le> Suc m" using m False r(2) by (cases rest) auto
    then have l: "length rest' = Suc m - length xs" by (auto simp: rest'_def)
    have "sdsMakeRoomFor junk s n = Some \<lparr>sds_len = length xs, sds_free = m - length xs, sds_buf = xs @ rest'\<rparr>"
      using False r m e assms(2) by (simp add: sdsMakeRoomFor_def Let_def sds_max_def sdslen_def sdsavail_def flip: m_def)
    moreover have "sds_part xs \<lparr>sds_len = length xs, sds_free = m - length xs, sds_buf = xs @ rest'\<rparr>"
      unfolding sds_part_def using l m by (intro exI [of _ rest']) auto
    ultimately show ?thesis using m l by simp
  qed
qed

lemma sdscatfmt_put_Some:
  assumes "sds_part xs s" "length t \<le> sds_free s"
  shows "ensures (sdscatfmt_put s (length xs) t) (\<lambda>(s', i). sds_part (xs @ t) s' \<and> i = length (xs @ t))"
proof -
  obtain rest where r: "s = \<lparr>sds_len = length xs, sds_free = length rest - 1, sds_buf = xs @ rest\<rparr>"
    "rest \<noteq> []" "length xs + length rest \<le> 2 ^ 31" using assms(1) by (auto simp: sds_part_def)
  have l: "length t < length rest" using assms(2) r by (cases rest) auto
  then have "length xs < 2 ^ 31" "length t < 2 ^ 32" using r(3) by auto
  then have "sdscatfmt_put s (length xs) t =
    Some (\<lparr>sds_len = length (xs @ t), sds_free = length (drop (length t) rest) - 1, sds_buf = (xs @ t) @ drop (length t) rest\<rparr>, length (xs @ t))"
    using r l by (simp add: sdscatfmt_put_def Let_def)
  moreover have "sds_part (xs @ t) \<lparr>sds_len = length (xs @ t), sds_free = length (drop (length t) rest) - 1, sds_buf = (xs @ t) @ drop (length t) rest\<rparr>"
    unfolding sds_part_def using r l by (intro exI [of _ "drop (length t) rest"]) auto
  ultimately show ?thesis by simp
qed

lemma sdscatfmt_room_Some:
  "sds_part xs s \<Longrightarrow> length xs + n < sds_max \<Longrightarrow> ensures (sdscatfmt_room junk s n) (\<lambda>s'. sds_part xs s' \<and> n \<le> sds_free s')"
  using sdsMakeRoomFor_part by (auto simp: sdscatfmt_room_def)

lemma sdscatfmt_space_Some:
  "sds_part xs s \<Longrightarrow> length xs + 1 < sds_max \<Longrightarrow> ensures (sdscatfmt_space junk s) (\<lambda>s'. sds_part xs s' \<and> 1 \<le> sds_free s')"
  using sdsMakeRoomFor_part [of xs s 1 junk] by (auto simp: sdscatfmt_space_def)

lemma sdscatfmt_loop_steps:
  "sdscatfmt_loop junk s i (0 # u) ap = Some (s, i)"
  "c \<noteq> 0 \<Longrightarrow> c \<noteq> 37 \<Longrightarrow> sdscatfmt_loop junk s i (c # f) ap =
     do { s \<leftarrow> sdscatfmt_space junk s; (s, i) \<leftarrow> sdscatfmt_put s i [c]; sdscatfmt_loop junk s i f ap }"
  "d \<in> set (str ''sSiIuU'') \<Longrightarrow> sdscatfmt_loop junk s i (37 # d # f) (a # ap) =
     do { s \<leftarrow> sdscatfmt_space junk s; t \<leftarrow> sdscatfmt_text junk d a; s \<leftarrow> sdscatfmt_room junk s (length t);
          (s, i) \<leftarrow> sdscatfmt_put s i t; sdscatfmt_loop junk s i f ap }"
  "d \<notin> set (str ''sSiIuU'') \<Longrightarrow> sdscatfmt_loop junk s i (37 # d # f) ap =
     do { s \<leftarrow> sdscatfmt_space junk s; (s, i) \<leftarrow> sdscatfmt_put s i [d]; sdscatfmt_loop junk s i f ap }"
  by (simp_all add: sdscatfmt_spec_def)

declare sdscatfmt_loop.simps [simp del]

text \<open>Storing one chunk and going on.\<close>

lemma sdscatfmt_chunk:
  assumes "sds_part xs s" "length xs + length t < sds_max"
    and "\<And>s'. sds_part (xs @ t) s' \<Longrightarrow> ensures (sdscatfmt_loop junk s' (length (xs @ t)) f ap) Q"
  shows "ensures (do { s \<leftarrow> sdscatfmt_room junk s (length t); (s, i) \<leftarrow> sdscatfmt_put s (length xs) t; sdscatfmt_loop junk s i f ap }) Q"
proof (rule ensures_bindI [OF sdscatfmt_room_Some [OF assms(1,2)]])
  fix s' assume "sds_part xs s' \<and> length t \<le> sds_free s'"
  then show "ensures (do { (s, i) \<leftarrow> sdscatfmt_put s' (length xs) t; sdscatfmt_loop junk s i f ap }) Q"
    by (intro ensures_bindI [OF sdscatfmt_put_Some]) (use assms(3) in auto)
qed

lemma sdscatfmt_char:
  assumes "sds_part xs s" "length xs + 1 < sds_max"
    and "\<And>s'. sds_part (xs @ [c]) s' \<Longrightarrow> ensures (sdscatfmt_loop junk s' (length (xs @ [c])) f ap) Q"
  shows "ensures (do { s \<leftarrow> sdscatfmt_space junk s; (s, i) \<leftarrow> sdscatfmt_put s (length xs) [c]; sdscatfmt_loop junk s i f ap }) Q"
proof (rule ensures_bindI [OF sdscatfmt_space_Some [OF assms(1,2)]])
  fix s' assume "sds_part xs s' \<and> 1 \<le> sds_free s'"
  then show "ensures (do { (s, i) \<leftarrow> sdscatfmt_put s' (length xs) [c]; sdscatfmt_loop junk s i f ap }) Q"
    by (intro ensures_bindI [OF sdscatfmt_put_Some]) (use assms(3) in auto)
qed

text \<open>A format without a terminator: no NUL at a place where the loop looks for the end.\<close>

fun fmt_open :: "bytes \<Rightarrow> bool" where
  "fmt_open [] = True"
| "fmt_open [c] = (c \<noteq> 0)"
| "fmt_open (c # d # f) = (if c = 37 then fmt_open f else c \<noteq> 0 \<and> fmt_open (d # f))"

lemma fmt_open_nonzero: "0 \<notin> set f \<Longrightarrow> fmt_open f"
  by (induction f rule: fmt_open.induct) auto

lemma fmt_out_plain: "37 \<notin> set q \<Longrightarrow> fmt_out q ap = Some q"
  by (induction q ap rule: fmt_out.induct) auto

lemma fmt_percent_end:
  assumes "37 \<notin> set q" "0 \<notin> set q"
  shows "fmt_out p ap = Some t \<Longrightarrow> 0 \<notin> set p \<Longrightarrow> fmt_open (p @ 37 # 0 # q) \<and> fmt_out (p @ 37 # 0 # q) ap = Some (t @ 0 # q)"
  using assms
proof (induction p ap arbitrary: t rule: fmt_out.induct)
  case (3 c d f ap)
  show ?case
  proof (cases "c = 37")
    case False
    then obtain o1 where "fmt_out (d # f) ap = Some o1" "t = c # o1" using 3(4) by auto
    then show ?thesis using 3(1) [of o1] False 3(5-7) by simp
  next
    case True
    show ?thesis
    proof (cases "d \<in> set (str ''sSiIuU'')")
      case spec: True
      obtain a ap' u o1 where o: "ap = a # ap'" "fmt_text d a = Some u" "fmt_out f ap' = Some o1" "t = u @ o1"
        using 3(4) True spec by (simp only: fmt_out.simps) (auto split: list.splits option.splits)
      then have "fmt_open (f @ 37 # 0 # q) \<and> fmt_out (f @ 37 # 0 # q) ap' = Some (o1 @ 0 # q)"
        using 3(2) [of a ap' u o1] True spec 3(5-7) by simp
      then show ?thesis using True spec o by simp
    next
      case other: False
      then obtain o1 where "fmt_out f ap = Some o1" "t = d # o1" using 3(4) True by (simp only: fmt_out.simps) auto
      then show ?thesis using 3(3) [of o1] True other 3(5-7) by simp
    qed
  qed
qed (auto simp: fmt_out_plain fmt_open_nonzero split: if_splits)

lemma sdscatfmt_loop_open: "fmt_open f \<Longrightarrow> sdscatfmt_loop junk s i f ap = None"
proof (induction f arbitrary: s i ap rule: fmt_open.induct)
  case (3 c d f)
  have n: "(do { (s, i) \<leftarrow> m; sdscatfmt_loop junk s i g ap }) = None" if "\<And>s i. sdscatfmt_loop junk s i g ap = None" for m g ap
    using that by (cases m) auto
  show ?case
  proof (cases "c = 37")
    case True
    then have IH: "sdscatfmt_loop junk s i f ap = None" for s i ap using 3 by simp
    show ?thesis using n [OF IH] True
      by (simp add: sdscatfmt_loop.simps bind_eq_None_conv split: list.splits)
  next
    case False
    then have "sdscatfmt_loop junk s i (d # f) ap = None" for s i using 3 by simp
    from n [OF this] show ?thesis using False 3(3) by (simp add: sdscatfmt_loop_steps(2) bind_eq_None_conv)
  qed
qed (auto simp: sdscatfmt_loop.simps bind_eq_None_conv)

lemma sdscatfmt_loop_Some:
  "sds_part xs s \<Longrightarrow> fmt_out f ap = Some out \<Longrightarrow> fmt_open f \<Longrightarrow> \<forall>a \<in> set ap. wf_arg a \<Longrightarrow>
   length xs + length out + 1 < sds_max \<Longrightarrow>
   ensures (sdscatfmt_loop junk s (length xs) (f @ 0 # u) ap) (\<lambda>(s', i). sds_part (xs @ out) s' \<and> i = length (xs @ out))"
proof (induction f ap arbitrary: xs s out rule: fmt_out.induct)
  case (1 ap)
  then show ?case by (simp add: sdscatfmt_loop_steps)
next
  case (2 c ap)
  then have c: "c \<noteq> 37" "c \<noteq> 0" "out = [c]" by (auto split: if_splits)
  show ?case unfolding append_Cons append_Nil sdscatfmt_loop_steps(2) [OF c(2,1)]
    by (rule sdscatfmt_char) (use 2(1,5) c in \<open>auto simp: sdscatfmt_loop_steps\<close>)
next
  case (3 c d f ap)
  show ?case
  proof (cases "c = 37")
    case False
    then obtain o1 where o: "fmt_out (d # f) ap = Some o1" "out = c # o1" using 3(5) by auto
    have "ensures (sdscatfmt_loop junk s' (length (xs @ [c])) ((d # f) @ 0 # u) ap)
      (\<lambda>(s', i). sds_part ((xs @ [c]) @ o1) s' \<and> i = length ((xs @ [c]) @ o1))" if "sds_part (xs @ [c]) s'" for s'
      by (rule 3(1)) (use False o that 3 in auto)
    moreover have "c \<noteq> 0" using 3(6) False by auto
    ultimately show ?thesis unfolding append_Cons sdscatfmt_loop_steps(2) [OF \<open>c \<noteq> 0\<close> False]
      by (intro sdscatfmt_char) (use o 3(4,8) in auto)
  next
    case True
    show ?thesis
    proof (cases "d \<in> set (str ''sSiIuU'')")
      case spec: True
      obtain a ap' t o1 where o: "ap = a # ap'" "fmt_text d a = Some t" "fmt_out f ap' = Some o1" "out = t @ o1"
        using 3(5) True spec by (auto split: list.splits option.splits)
      have t: "sdscatfmt_text junk d a = Some t" using o 3(7) by (intro sdscatfmt_text_Some) auto
      have "ensures (sdscatfmt_loop junk s' (length (xs @ t)) (f @ 0 # u) ap')
        (\<lambda>(s', i). sds_part ((xs @ t) @ o1) s' \<and> i = length ((xs @ t) @ o1))" if "sds_part (xs @ t) s'" for s'
        by (rule 3(2) [of a ap' t]) (use True spec o that 3 in auto)
      then have "ensures (do { s \<leftarrow> sdscatfmt_room junk s' (length t); (s, i) \<leftarrow> sdscatfmt_put s (length xs) t; sdscatfmt_loop junk s i (f @ 0 # u) ap' })
        (\<lambda>(s', i). sds_part (xs @ out) s' \<and> i = length (xs @ out))" if "sds_part xs s'" for s'
        by (intro sdscatfmt_chunk [OF that]) (use 3(8) o in auto)
      then show ?thesis unfolding append_Cons True o(1) sdscatfmt_loop_steps(3) [OF spec]
        by (intro ensures_bindI [OF sdscatfmt_space_Some [OF 3(4)]]) (use 3(8) t in auto)
    next
      case other: False
      then obtain o1 where o: "fmt_out f ap = Some o1" "out = d # o1" using 3(5) True by auto
      have "ensures (sdscatfmt_loop junk s' (length (xs @ [d])) (f @ 0 # u) ap)
        (\<lambda>(s', i). sds_part ((xs @ [d]) @ o1) s' \<and> i = length ((xs @ [d]) @ o1))" if "sds_part (xs @ [d]) s'" for s'
        by (rule 3(3)) (use True other o that 3 in auto)
      then show ?thesis unfolding append_Cons True sdscatfmt_loop_steps(4) [OF other]
        by (intro sdscatfmt_char) (use o 3(4,8) in auto)
    qed
  qed
qed

lemma sdscatfmt_Some:
  assumes "sds_is xs s" "fmt_out f ap = Some out" "fmt_open f" "\<forall>a \<in> set ap. wf_arg a" "length xs + length out + 1 < sds_max"
  shows "ensures (sdscatfmt junk s (f @ 0 # u) ap) (sds_is (xs @ out))"
proof -
  have l: "sdslen s = length xs" using sds_is_len [OF assms(1)] by simp
  have fin: "ensures (do { buf \<leftarrow> arr_set (sds_buf s') (length ys) 0; Some (s'\<lparr>sds_buf := buf\<rparr>) }) (sds_is ys)"
    if part: "sds_part ys s'" for s' ys
  proof -
    obtain b rest where r: "s' = \<lparr>sds_len = length ys, sds_free = length rest, sds_buf = ys @ b # rest\<rparr>" "length ys + length rest < 2 ^ 31"
      using part by (auto simp: sds_part_def neq_Nil_conv)
    then have "s'\<lparr>sds_buf := ys @ 0 # rest\<rparr> = sds_of ys rest" by (simp add: sds_of_def)
    then show ?thesis using r by (simp add: sds_of_def [symmetric])
  qed
  show ?thesis unfolding sdscatfmt_def l
    by (rule ensures_bindI [OF sdscatfmt_loop_Some [OF sds_is_part [OF assms(1)] assms(2-5)]])
      (auto dest!: fin)
qed


section \<open>Correctness of splitting and joining\<close>

function split_on :: "bytes \<Rightarrow> bytes \<Rightarrow> bytes \<Rightarrow> bytes list" where
  "split_on sep acc xs =
     (if sep = [] \<or> length xs < length sep then [acc @ xs]
      else if take (length sep) xs = sep then acc # split_on sep [] (drop (length sep) xs)
      else split_on sep (acc @ [hd xs]) (tl xs))"
  by pat_completeness auto
termination
proof (relation "measure (\<lambda>(sep, acc, xs). length xs)", goal_cases)
  case (2 sep acc xs)
  then have "0 < length sep" "length sep \<le> length xs" by auto
  then have "length (drop (length sep) xs) < length xs" unfolding length_drop by linarith
  then show ?case by simp
next
  case (3 sep acc xs)
  then have "0 < length sep" "length sep \<le> length xs" by auto
  then have "0 < length xs" by linarith
  then show ?case by simp
qed simp

declare split_on.simps [simp del]

fun join_with :: "bytes \<Rightarrow> bytes list \<Rightarrow> bytes" where
  "join_with sep [] = []"
| "join_with sep [t] = t"
| "join_with sep (t # u # ts) = t @ sep @ join_with sep (u # ts)"

lemma split_on_nonempty: "split_on sep acc xs \<noteq> []"
  by (induction sep acc xs rule: split_on.induct) (subst split_on.simps, auto)

lemma join_split_on: "join_with sep (split_on sep acc xs) = acc @ xs"
proof (induction sep acc xs rule: split_on.induct)
  case (1 sep acc xs)
  let ?m = "length sep"
  consider "sep = [] \<or> length xs < ?m" | "sep \<noteq> []" "?m \<le> length xs" "take ?m xs = sep" | "sep \<noteq> []" "?m \<le> length xs" "take ?m xs \<noteq> sep"
    by linarith
  then show ?case
  proof cases
    case 1
    then show ?thesis by (subst split_on.simps) simp
  next
    case 2
    obtain u us where u: "split_on sep [] (drop ?m xs) = u # us" using split_on_nonempty by (cases "split_on sep [] (drop ?m xs)") auto
    have "join_with sep (u # us) = drop ?m xs" using 1(1) 2 u by auto
    then show ?thesis using 2 u by (subst split_on.simps) (simp, metis append_take_drop_id)
  next
    case 3
    then have "xs \<noteq> []" by auto
    then show ?thesis using 3 1(2) by (subst split_on.simps) auto
  qed
qed

lemma split_on_no_sep:
  "sep \<noteq> [] \<Longrightarrow> \<forall>k < length acc. take (length sep) (drop k (acc @ xs)) \<noteq> sep \<Longrightarrow>
   t \<in> set (split_on sep acc xs) \<Longrightarrow> \<not> sublist sep t"
proof (induction sep acc xs rule: split_on.induct)
  case (1 sep acc xs)
  let ?m = "length sep"
  have pos: "0 < ?m" using 1(3) by simp
  consider "length xs < ?m" | "?m \<le> length xs" "take ?m xs = sep" | "?m \<le> length xs" "take ?m xs \<noteq> sep"
    by linarith
  then show ?case
  proof cases
    case A: 1
    then have t: "t = acc @ xs" using 1(5) by (subst (asm) split_on.simps) simp
    show ?thesis
    proof
      assume "sublist sep t"
      then obtain ps ss where p: "acc @ xs = ps @ sep @ ss" using t by (auto simp: sublist_def)
      have "length acc + length xs = length ps + (?m + length ss)" using arg_cong [OF p, of length] by simp
      then have "length ps < length acc" using A by linarith
      then have "take ?m (drop (length ps) (acc @ xs)) \<noteq> sep" using 1(4) by blast
      then show False using p by simp
    qed
  next
    case A: 2
    then have "t = acc \<or> t \<in> set (split_on sep [] (drop ?m xs))" using 1(3,5) by (subst (asm) split_on.simps) auto
    then show ?thesis
    proof
      assume t: "t = acc"
      show ?thesis
      proof
        assume "sublist sep t"
        then obtain ps ss where p: "acc = ps @ sep @ ss" using t by (auto simp: sublist_def)
        then have "length ps < length acc" using pos by simp
        then have "take ?m (drop (length ps) (acc @ xs)) \<noteq> sep" using 1(4) by blast
        then show False using p by simp
      qed
    next
      assume "t \<in> set (split_on sep [] (drop ?m xs))"
      then show ?thesis using 1(1,3) A by simp
    qed
  next
    case A: 3
    then have x: "xs = hd xs # tl xs" using pos by (cases xs) auto
    then have e: "(acc @ [hd xs]) @ tl xs = acc @ xs" by simp
    have "\<forall>k < length (acc @ [hd xs]). take ?m (drop k ((acc @ [hd xs]) @ tl xs)) \<noteq> sep"
      unfolding e using 1(4) A(2) by (auto simp: less_Suc_eq)
    moreover have "t \<in> set (split_on sep (acc @ [hd xs]) (tl xs))"
      using 1(3,5) A by (subst (asm) split_on.simps) auto
    ultimately show ?thesis using 1(2,3) A by auto
  qed
qed

lemma c_memcmp_eq: "n \<le> length a \<Longrightarrow> n \<le> length b \<Longrightarrow> \<exists>r. c_memcmp a b n = Some r \<and> (r = 0 \<longleftrightarrow> take n a = take n b)"
proof (induction n arbitrary: a b)
  case (Suc n)
  then obtain x a' y b' where "a = x # a'" "b = y # b'" by (cases a; cases b) auto
  then show ?case using Suc by auto
qed simp

lemma sdssplit_match_Some:
  assumes "j + n \<le> length s" "n \<le> length sep" "0 < n"
  shows "sdssplit_match s j sep n = Some (take n (drop j s) = take n sep)"
proof -
  obtain r where r: "c_memcmp (drop j s) sep n = Some r" "r = 0 \<longleftrightarrow> take n (drop j s) = take n sep"
    using c_memcmp_eq [of n "drop j s" sep] assms by (auto simp: le_diff_conv2 add.commute)
  have "take 1 (drop j s) = [s ! j] \<and> take 1 sep = [sep ! 0]" if "n = 1"
    using assms that by (cases "drop j s"; cases sep) (auto simp: nth_via_drop)
  moreover have "arr_get s j = Some (s ! j)" "arr_get sep 0 = Some (sep ! 0)"
    using assms by (auto intro!: arr_get_Some)
  ultimately show ?thesis using r assms by (auto simp: sdssplit_match_def)
qed

lemma sdssplit_add_Some:
  "length tokens < slots \<Longrightarrow> start + n \<le> length s \<Longrightarrow> n < 2 ^ 31 \<Longrightarrow>
   sdssplit_add junk s slots tokens start n = Some (tokens @ [sds_of (take n (drop start s)) []])"
  by (simp add: sdssplit_add_def sdsnewlen_Some)

definition sdssplit_finish where
  "sdssplit_finish junk s len = (\<lambda>(start, slots, tokens). sdssplit_add junk s slots tokens start (len - start))"

lemma sdssplitlen_loop_Some:
  assumes "len \<le> length s" "len < sds_max - 1" "seplen \<le> length sep" "0 < seplen"
  shows "length tokens \<le> start \<Longrightarrow> start \<le> j \<Longrightarrow> j \<le> len \<Longrightarrow> length tokens < slots \<Longrightarrow>
    sdssplitlen_loop junk s len sep seplen j start slots tokens \<bind> sdssplit_finish junk s len =
    Some (tokens @ map (\<lambda>t. sds_of t []) (split_on (take seplen sep) (take (j - start) (drop start s)) (drop j (take len s))))"
proof (induction "len - j" arbitrary: j start slots tokens rule: less_induct)
  case less
  let ?sep = "take seplen sep" and ?acc = "take (j - start) (drop start s)" and ?xs = "drop j (take len s)"
  have m: "length ?sep = seplen" "?sep \<noteq> []" using assms by auto
  have x: "length ?xs = len - j" using assms by simp
  show ?case
  proof (cases "j + seplen \<le> len")
    case False
    then have c: "\<not> int j < int len - (int seplen - 1)" by linarith
    have "?acc @ ?xs = take (len - start) (drop start s)"
    proof -
      have "?xs = take (len - j) (drop (j - start) (drop start s))" using less.prems by (simp add: drop_take)
      moreover have "len - start = (j - start) + (len - j)" using less.prems by simp
      ultimately show ?thesis by (simp only: take_add)
    qed
    moreover have "split_on ?sep ?acc ?xs = [?acc @ ?xs]" using False x m by (subst split_on.simps) auto
    moreover have "sdssplit_finish junk s len (start, slots, tokens) = Some (tokens @ [sds_of (take (len - start) (drop start s)) []])"
      unfolding sdssplit_finish_def using less.prems assms by (simp add: sdssplit_add_Some sds_max_def)
    ultimately show ?thesis using c by (subst sdssplitlen_loop.simps) simp
  next
    case True
    then have c: "int j < int len - (int seplen - 1)" by linarith
    define slots' where "slots' = (if slots < length tokens + 2 then slots * 2 else slots)"
    have s': "sdssplit_slots slots (length tokens) = Some slots'" "Suc (length tokens) < slots'"
      using less.prems assms by (auto simp: slots'_def sdssplit_slots_def sds_max_def)
    have mt: "sdssplit_match s j sep seplen = Some (take seplen (drop j s) = ?sep)"
      using True assms by (intro sdssplit_match_Some) auto
    have tk: "take seplen (drop j s) = take seplen ?xs" using True by (simp add: drop_take)
    show ?thesis
    proof (cases "take seplen ?xs = ?sep")
      case eq: True
      have "split_on ?sep ?acc ?xs = ?acc # split_on ?sep [] (drop (j + seplen) (take len s))"
        using eq m x True assms(1) by (subst split_on.simps) (auto simp: add.commute)
      moreover have "sdssplit_add junk s slots' tokens start (j - start) = Some (tokens @ [sds_of ?acc []])"
        using less.prems s' assms by (intro sdssplit_add_Some) (auto simp: sds_max_def)
      moreover have "sdssplitlen_loop junk s len sep seplen (j + seplen) (j + seplen) slots' (tokens @ [sds_of ?acc []]) \<bind> sdssplit_finish junk s len =
        Some ((tokens @ [sds_of ?acc []]) @ map (\<lambda>t. sds_of t []) (split_on ?sep (take (j + seplen - (j + seplen)) (drop (j + seplen) s)) (drop (j + seplen) (take len s))))"
        by (rule less.hyps) (use less.prems True assms s' in auto)
      ultimately show ?thesis using c s' mt tk eq assms(4) by (subst sdssplitlen_loop.simps) simp
    next
      case neq: False
      have xc: "?xs = s ! j # drop (Suc j) (take len s)" using True assms by (subst Cons_nth_drop_Suc [symmetric]) auto
      have "split_on ?sep ?acc ?xs = split_on ?sep (?acc @ [hd ?xs]) (tl ?xs)"
        using neq m x True assms(1) by (subst split_on.simps) auto
      moreover have "?acc @ [hd ?xs] = take (Suc j - start) (drop start s)" using xc less.prems True assms
        by (simp add: Suc_diff_le take_Suc_conv_app_nth del: drop_take)
      moreover have "tl ?xs = drop (Suc j) (take len s)" using xc by simp
      moreover have "sdssplitlen_loop junk s len sep seplen (Suc j) start slots' tokens \<bind> sdssplit_finish junk s len =
        Some (tokens @ map (\<lambda>t. sds_of t []) (split_on ?sep (take (Suc j - start) (drop start s)) (drop (Suc j) (take len s))))"
        by (rule less.hyps) (use less.prems True assms s' in auto)
      ultimately show ?thesis using c s' mt tk neq assms(4) by (subst sdssplitlen_loop.simps) simp
    qed
  qed
qed

lemma sdssplitlen_Some:
  assumes "len \<le> length s" "0 < len" "len < sds_max - 1" "n \<le> length sep" "0 < n"
  shows "sdssplitlen junk s (int len) sep (int n) = Some (Some (map (\<lambda>t. sds_of t []) (split_on (take n sep) [] (take len s))))"
proof -
  have "sdssplitlen_loop junk s len sep n 0 0 5 [] \<bind> sdssplit_finish junk s len =
    Some ([] @ map (\<lambda>t. sds_of t []) (split_on (take n sep) (take (0 - 0) (drop 0 s)) (drop 0 (take len s))))"
    by (rule sdssplitlen_loop_Some) (use assms in auto)
  then show ?thesis using assms
    by (auto simp: sdssplitlen_def sdssplit_finish_def bind_eq_Some_conv)
qed

lemma sdsjoin_loop_Some:
  assumes "0 \<notin> set sep"
  shows "sds_is xs s \<Longrightarrow> \<forall>t \<in> set ts. 0 \<notin> set t \<Longrightarrow> length xs + length (join_with sep ts) < sds_max \<Longrightarrow>
    ensures (sdsjoin_loop junk s (map (\<lambda>t. t @ [0]) ts) (sep @ [0])) (sds_is (xs @ join_with sep ts))"
proof (induction ts arbitrary: xs s)
  case (Cons t ts)
  have t: "0 \<notin> set t" "length xs + length t < sds_max" using Cons.prems by (auto, cases ts) auto
  show ?case
  proof (cases ts)
    case Nil
    then show ?thesis using sdscat_Some [OF Cons.prems(1) t, of junk "[]"] by (auto elim!: ensuresE)
  next
    case (Cons u us)
    have j: "join_with sep (t # ts) = t @ sep @ join_with sep ts" using Cons by simp
    have "ensures (do { s2 \<leftarrow> sdscat junk s1 (sep @ [0]); sdsjoin_loop junk s2 (map (\<lambda>t. t @ [0]) ts) (sep @ [0]) })
      (sds_is (xs @ join_with sep (t # ts)))" if "sds_is (xs @ t) s1" for s1
      by (rule ensures_bindI [OF sdscat_Some [OF that assms]])
        (use Cons.IH [of "(xs @ t) @ sep"] Cons.prems j in \<open>auto simp: add.assoc\<close>)
    then show ?thesis using Cons by (auto intro!: ensures_bindI [OF sdscat_Some [OF Cons.prems(1) t]])
  qed
qed simp

lemma sdsjoin_Some:
  "0 \<notin> set sep \<Longrightarrow> \<forall>t \<in> set ts. 0 \<notin> set t \<Longrightarrow> length (join_with sep ts) < sds_max \<Longrightarrow>
   ensures (sdsjoin junk (map (\<lambda>t. t @ [0]) ts) (sep @ [0])) (sds_is (join_with sep ts))"
  using sdsjoin_loop_Some [of sep "[]" "sds_of [] []" ts junk] by (simp add: sdsjoin_def)


section \<open>Correctness of the quoted representation\<close>

definition repr_char :: "byte \<Rightarrow> bytes" where
  "repr_char c =
     (if c = 92 \<or> c = 34 then [92, c] else if c = 10 then [92, 110] else if c = 13 then [92, 114]
      else if c = 9 then [92, 116] else if c = 7 then [92, 97] else if c = 8 then [92, 98]
      else if c_isprint (cval c) then [c] else fmt_x02 c)"

definition repr :: "bytes \<Rightarrow> bytes" where
  "repr x = 34 # concat (map repr_char x) @ [34]"

lemma length_repr_char: "length (repr_char c) \<le> 4"
  by (simp add: repr_char_def fmt_x02_def)

lemma length_concat_repr: "length (concat (map repr_char x)) \<le> 4 * length x"
  by (induction x) (use length_repr_char in \<open>auto intro: add_le_mono\<close>)

lemma lt16_cases:
  assumes "n < (16 :: nat)"
  shows "n \<in> {0, 1, 2, 3, 4, 5, 6, 7, 8, 9, 10, 11, 12, 13, 14, 15}"
  using assms by simp presburger

lemma hex_char_digit:
  assumes "n < 16"
  shows "is_hex_digit (hex_char n) \<and> hex_digit_to_int (hex_char n) = n \<and> hex_char n \<noteq> 0"
  using lt16_cases [OF assms]
  by (elim insertE) (simp_all add: hex_char_def is_hex_digit_def hex_digit_to_int_def)

lemma unat_byte_lt [simp]: "unat (b :: byte) div 16 < 16"
  using unsigned_less [of b, where ?'a = nat] by simp

lemma length_fmt_x02: "length (fmt_x02 c) = 4"
  by (simp add: fmt_x02_def)

lemma sdscatrepr_char_Some:
  assumes "sds_is xs s" "length xs + 4 < sds_max"
  shows "ensures (sdscatrepr_char junk s c) (sds_is (xs @ repr_char c))"
proof -
  have c2: "ensures (sdscatlen junk s [a, b, 0] 2) (sds_is (xs @ [a, b]))" for a b
    using sdscatlen_Some [OF assms(1), of 2 "[a, b, 0]" junk] assms(2) by (simp add: numeral_2_eq_2)
  have pf: "ensures (sdscatprintf junk s fmt out) (sds_is (xs @ out))" if "0 \<notin> set out" "length out \<le> 4" "0 \<in> set fmt" for fmt out
    by (rule sdscatprintf_Some) (use assms that in auto)
  have hx: "0 \<notin> set (fmt_x02 c)" "length (fmt_x02 c) \<le> 4"
    using hex_char_digit [of "unat c div 16"] hex_char_digit [of "unat c mod 16"] by (auto simp: fmt_x02_def)
  have z: "0 \<notin> set [c]" if "c_isprint (cval c)" using that by (auto simp: c_isprint_def)
  show ?thesis
    using c2 pf hx z by (simp add: sdscatrepr_char_def repr_char_def)
qed

lemma sdscatrepr_loop_Some:
  "sds_is xs s \<Longrightarrow> length xs + 4 * length x + 4 < sds_max \<Longrightarrow>
   ensures (sdscatrepr_loop junk s (x @ u) (length x)) (sds_is (xs @ concat (map repr_char x)))"
proof (induction x arbitrary: xs s)
  case (Cons c x)
  have "ensures (sdscatrepr_loop junk s' (x @ u) (length x)) (sds_is (xs @ concat (map repr_char (c # x))))"
    if "sds_is (xs @ repr_char c) s'" for s'
    using Cons.IH [OF that] Cons.prems(2) length_repr_char [of c] by simp
  then show ?case using Cons.prems by (auto intro!: ensures_bindI [OF sdscatrepr_char_Some])
qed simp

lemma sdscatrepr_Some:
  assumes "sds_is xs s" "length xs + 4 * length x + 6 < sds_max"
  shows "ensures (sdscatrepr junk s (x @ u) (length x)) (sds_is (xs @ repr x))"
  unfolding sdscatrepr_def
proof (rule ensures_bindI [OF sdscatlen_Some [OF assms(1)]])
  fix s1 assume "sds_is (xs @ take 1 [34, 0]) s1"
  then have s1: "sds_is (xs @ [34]) s1" by simp
  have b: "length ((xs @ [34]) @ concat (map repr_char x)) + 1 < sds_max" using assms(2) length_concat_repr [of x] by simp
  show "ensures (do { s \<leftarrow> sdscatrepr_loop junk s1 (x @ u) (length x); sdscatlen junk s [34, 0] 1 }) (sds_is (xs @ repr x))"
  proof (rule ensures_bindI [OF sdscatrepr_loop_Some [OF s1]])
    fix s2 assume s2: "sds_is ((xs @ [34]) @ concat (map repr_char x)) s2"
    show "ensures (sdscatlen junk s2 [34, 0] 1) (sds_is (xs @ repr x))"
      using sdscatlen_Some [OF s2 _ b, of "[34, 0]" junk] by (simp add: repr_def)
  qed (use assms in simp)
qed (use assms in auto)

subsection \<open>Reading it back\<close>

lemma append_char_Some:
  "sds_is xs cur \<Longrightarrow> length xs + 1 < sds_max \<Longrightarrow>
   \<exists>cur'. append_char junk cur c mode k = Some (ArgNext mode k cur') \<and> sds_is (xs @ [c]) cur'"
  using sdscatlen_Some [of xs cur 1 "[c]" junk] by (auto simp: append_char_def elim!: ensuresE)

lemma arg_step_repr:
  assumes "sds_is xs cur" "length xs + 1 < sds_max" "p \<noteq> []"
  shows "\<exists>cur'. arg_step_of junk InQ (repr_char c @ p) cur = Some (ArgNext InQ (length (repr_char c)) cur') \<and> sds_is (xs @ [c]) cur'"
proof -
  note ac = append_char_Some [OF assms(1,2)]
  have esc: "arg_step_inq junk (92 # d # p) cur = append_char junk cur (escape_char d) InQ 2" if "d \<noteq> 120" "d \<noteq> 0" for d
    using that by (simp add: arg_step_inq_def hex_escape_def)
  have plain: "arg_step_inq junk (d # p) cur = append_char junk cur d InQ 1" if "d \<noteq> 92" "d \<noteq> 34" "d \<noteq> 0" for d
    using that by (simp add: arg_step_inq_def hex_escape_def)
  have hex: "arg_step_inq junk (fmt_x02 c @ p) cur = append_char junk cur c InQ 4"
  proof -
    have h: "is_hex_digit (hex_char (unat c div 16))" "is_hex_digit (hex_char (unat c mod 16))"
      "hex_digit_to_int (hex_char (unat c div 16)) = unat c div 16" "hex_digit_to_int (hex_char (unat c mod 16)) = unat c mod 16"
      using hex_char_digit [of "unat c div 16"] hex_char_digit [of "unat c mod 16"] by auto
    have "of_nat (unat c div 16 * 16 + unat c mod 16) = c" by (simp only: div_mult_mod_eq) simp
    then show ?thesis using h
      by (simp add: arg_step_inq_def hex_escape_def fmt_x02_def numeral_2_eq_2 numeral_3_eq_3 del: of_nat_add of_nat_mult)
  qed
  have z: "c \<noteq> 0" if "c_isprint (cval c)" using that by (auto simp: c_isprint_def)
  have two: "Suc (Suc 0) = 2" by simp
  have "arg_step_inq junk (repr_char c @ p) cur = append_char junk cur c InQ (length (repr_char c))"
  proof (cases "c \<in> {92, 34, 10, 13, 9, 7, 8}")
    case True
    then show ?thesis by (elim insertE) (simp_all add: repr_char_def esc escape_char_def two)
  next
    case False
    then show ?thesis using plain [of c] hex z by (auto simp: repr_char_def length_fmt_x02)
  qed
  then show ?thesis using ac by (simp add: arg_step_of_def)
qed

lemma sdssplitargs_token_step:
  "arg_step_of junk mode p cur = Some (ArgNext m n cur') \<Longrightarrow>
   sdssplitargs_token junk mode p cur = sdssplitargs_token junk m (drop n p) cur'"
  by (subst sdssplitargs_token.simps) simp

lemma sdssplitargs_token_repr:
  assumes "b = 0 \<or> c_isspace (cval b)"
  shows "sds_is xs cur \<Longrightarrow> length xs + length x < sds_max \<Longrightarrow>
    ensures (sdssplitargs_token junk InQ (concat (map repr_char x) @ 34 # b # p) cur)
      (\<lambda>r. \<exists>t. r = Some (t, b # p) \<and> sds_is (xs @ x) t)"
proof (induction x arbitrary: xs cur)
  case Nil
  have "arg_step_of junk InQ (34 # b # p) cur = Some ArgDone"
    using assms by (auto simp: arg_step_of_def arg_step_inq_def hex_escape_def close_quote_def)
  then show ?case using Nil by (subst sdssplitargs_token.simps) simp
next
  case (Cons c x)
  obtain cur' where c: "arg_step_of junk InQ (repr_char c @ concat (map repr_char x) @ 34 # b # p) cur = Some (ArgNext InQ (length (repr_char c)) cur')"
    "sds_is (xs @ [c]) cur'"
    using arg_step_repr [OF Cons.prems(1), of "concat (map repr_char x) @ 34 # b # p" junk c] Cons.prems(2) by auto
  have "ensures (sdssplitargs_token junk InQ (concat (map repr_char x) @ 34 # b # p) cur')
      (\<lambda>r. \<exists>t. r = Some (t, b # p) \<and> sds_is ((xs @ [c]) @ x) t)"
    by (rule Cons.IH) (use c Cons.prems in auto)
  then show ?case using sdssplitargs_token_step [OF c(1)] by simp
qed

text \<open>A line of quoted arguments separated by single spaces.\<close>

fun repr_line :: "bytes list \<Rightarrow> bytes" where
  "repr_line [] = []"
| "repr_line [x] = repr x"
| "repr_line (x # y # xs) = repr x @ 32 # repr_line (y # xs)"

lemma sdssplitargs_loop_one:
  assumes "b = 0 \<or> c_isspace (cval b)" "length x < sds_max"
  shows "\<exists>t. sdssplitargs_loop junk (repr x @ b # p) vec = sdssplitargs_loop junk (b # p) (vec @ [t]) \<and> sds_is x t"
proof -
  have s: "sdssplitargs_skip (repr x @ b # p) = Some (repr x @ b # p)" "hd (repr x @ b # p) = 34"
    by (simp_all add: repr_def c_isspace_def)
  have "arg_step_of junk Plain (repr x @ b # p) (sds_of [] []) = Some (ArgNext InQ 1 (sds_of [] []))"
    by (simp add: arg_step_of_def arg_step_plain_def repr_def)
  then have "sdssplitargs_token junk Plain (repr x @ b # p) (sds_of [] []) =
    sdssplitargs_token junk InQ (concat (map repr_char x) @ 34 # b # p) (sds_of [] [])"
    by (simp add: sdssplitargs_token_step repr_def)
  moreover obtain t where "sdssplitargs_token junk InQ (concat (map repr_char x) @ 34 # b # p) (sds_of [] []) = Some (Some (t, b # p))" "sds_is x t"
    using sdssplitargs_token_repr [OF assms(1), of "[]" "sds_of [] []" x junk p] assms(2) by (auto elim!: ensuresE)
  ultimately show ?thesis using s by (subst sdssplitargs_loop.simps) auto
qed

lemma sdssplitargs_repr_loop:
  "\<forall>x \<in> set xs. length x < sds_max \<Longrightarrow> \<exists>ts. sdssplitargs_loop junk (repr_line xs @ [0]) vec = Some (Some (vec @ ts)) \<and> list_all2 sds_is xs ts"
proof (induction xs arbitrary: vec rule: repr_line.induct)
  case 1
  then show ?case by (subst sdssplitargs_loop.simps) simp
next
  case (2 x)
  obtain t where t: "sdssplitargs_loop junk (repr x @ [0]) vec = sdssplitargs_loop junk [0] (vec @ [t])" "sds_is x t"
    using sdssplitargs_loop_one [of 0 x junk "[]" vec] 2 by auto
  have "sdssplitargs_loop junk [0] (vec @ [t]) = Some (Some (vec @ [t]))" by (subst sdssplitargs_loop.simps) simp
  then show ?case using t by (intro exI [of _ "[t]"]) simp
next
  case (3 x y xs)
  have sp: "(32 :: byte) = 0 \<or> c_isspace (cval 32)" by (simp add: c_isspace_def)
  obtain t where t: "sdssplitargs_loop junk (repr x @ 32 # repr_line (y # xs) @ [0]) vec =
      sdssplitargs_loop junk (32 # repr_line (y # xs) @ [0]) (vec @ [t])" "sds_is x t"
    using sdssplitargs_loop_one [OF sp, of x junk "repr_line (y # xs) @ [0]" vec] 3 by auto
  have "sdssplitargs_loop junk (32 # repr_line (y # xs) @ [0]) v = sdssplitargs_loop junk (repr_line (y # xs) @ [0]) v" for v
    by (subst (1 2) sdssplitargs_loop.simps) (simp add: c_isspace_def)
  moreover obtain ts where "sdssplitargs_loop junk (repr_line (y # xs) @ [0]) (vec @ [t]) = Some (Some ((vec @ [t]) @ ts))" "list_all2 sds_is (y # xs) ts"
    using 3 by (metis list.set_intros(2))
  ultimately show ?case using t by (intro exI [of _ "t # ts"]) simp
qed


section \<open>Strings as a refinement of byte sequences\<close>

datatype sds_op = OpCat bytes | OpCpy bytes | OpTrim bytes | OpRange int int | OpGrowZero nat | OpClear
  | OpMakeRoom nat | OpRemoveFreeSpace | OpLower | OpUpper | OpMapChars bytes bytes | OpUpdateLen
  | OpFmt bytes "fmt_arg list"

fun sds_apply :: "(nat \<Rightarrow> byte) \<Rightarrow> sdshdr \<Rightarrow> sds_op \<Rightarrow> sdshdr option" where
  "sds_apply junk s (OpCat t) = sdscatlen junk s t (length t)"
| "sds_apply junk s (OpCpy t) = sdscpylen junk s t (length t)"
| "sds_apply junk s (OpTrim cset) = sdstrim s (cset @ [0])"
| "sds_apply junk s (OpRange i j) = sdsrange s i j"
| "sds_apply junk s (OpGrowZero n) = sdsgrowzero junk s n"
| "sds_apply junk s OpClear = sdsclear s"
| "sds_apply junk s (OpMakeRoom n) = sdsMakeRoomFor junk s n"
| "sds_apply junk s OpRemoveFreeSpace = sdsRemoveFreeSpace junk s"
| "sds_apply junk s OpLower = sdstolower s"
| "sds_apply junk s OpUpper = sdstoupper s"
| "sds_apply junk s (OpMapChars a b) = sdsmapchars s a b (length a)"
| "sds_apply junk s OpUpdateLen = sdsupdatelen s"
| "sds_apply junk s (OpFmt f ap) = sdscatfmt junk s (f @ [0]) ap"

definition sds_step :: "(nat \<Rightarrow> byte) \<Rightarrow> sdshdr \<Rightarrow> sds_op \<Rightarrow> (sdshdr \<times> nat) option" where
  "sds_step junk s x = do { s \<leftarrow> sds_apply junk s x; Some (s, sdslen s) }"

fun sds_effect :: "bytes \<Rightarrow> sds_op \<Rightarrow> bytes" where
  "sds_effect xs (OpCat t) = xs @ t"
| "sds_effect xs (OpCpy t) = t"
| "sds_effect xs (OpTrim cset) = trim (\<lambda>c. c \<in> set cset \<or> c = 0) xs"
| "sds_effect xs (OpRange i j) = range_slice i j xs"
| "sds_effect xs (OpGrowZero n) = xs @ replicate (n - length xs) 0"
| "sds_effect xs OpClear = []"
| "sds_effect xs (OpMakeRoom n) = xs"
| "sds_effect xs OpRemoveFreeSpace = xs"
| "sds_effect xs OpLower = map (\<lambda>c. word_of_int (c_tolower (cval c))) xs"
| "sds_effect xs OpUpper = map (\<lambda>c. word_of_int (c_toupper (cval c))) xs"
| "sds_effect xs (OpMapChars a b) = map (map_char a b) xs"
| "sds_effect xs OpUpdateLen = takeWhile (\<lambda>c. c \<noteq> 0) xs"
| "sds_effect xs (OpFmt f ap) = xs @ the (fmt_out f ap)"

definition sds_spec :: "bytes \<Rightarrow> sds_op \<Rightarrow> bytes \<times> nat" where
  "sds_spec xs x = (sds_effect xs x, length (sds_effect xs x))"

text \<open>Sizes stay below the limit, and arguments are what their C types and the callee require.\<close>

fun sds_ok :: "bytes \<Rightarrow> sds_op \<Rightarrow> bool" where
  "sds_ok xs (OpCat t) \<longleftrightarrow> length xs + length t < sds_max"
| "sds_ok xs (OpCpy t) \<longleftrightarrow> length t < sds_max"
| "sds_ok xs (OpTrim cset) \<longleftrightarrow> 0 \<notin> set cset"
| "sds_ok xs (OpRange i j) \<longleftrightarrow> is_int32 i \<and> is_int32 j \<and> j < 2 ^ 31 - 1"
| "sds_ok xs (OpGrowZero n) \<longleftrightarrow> n < sds_max"
| "sds_ok xs (OpMakeRoom n) \<longleftrightarrow> length xs + n < sds_max"
| "sds_ok xs (OpMapChars a b) \<longleftrightarrow> length a = length b"
| "sds_ok xs (OpFmt f ap) \<longleftrightarrow> 0 \<notin> set f \<and> list_all wf_arg ap \<and>
     (case fmt_out f ap of None \<Rightarrow> False | Some t \<Rightarrow> length xs + length t + 1 < sds_max)"
| "sds_ok xs _ \<longleftrightarrow> True"

lemma sds_apply_Some: "sds_is xs s \<Longrightarrow> sds_ok xs x \<Longrightarrow> ensures (sds_apply junk s x) (sds_is (sds_effect xs x))"
proof (cases x)
  case (OpCat t)
  then show "sds_is xs s \<Longrightarrow> sds_ok xs x \<Longrightarrow> ?thesis" using sdscatlen_Some [of xs s "length t" t junk] by simp
next
  case (OpCpy t)
  then show "sds_is xs s \<Longrightarrow> sds_ok xs x \<Longrightarrow> ?thesis" using sdscpylen_Some [of xs s "length t" t junk] by simp
next
  case (OpMakeRoom n)
  then show "sds_is xs s \<Longrightarrow> sds_ok xs x \<Longrightarrow> ?thesis" using ensures_mono [OF sdsMakeRoomFor_Some [of xs s n junk]] by simp
next
  case (OpMapChars a b)
  then show "sds_is xs s \<Longrightarrow> sds_ok xs x \<Longrightarrow> ?thesis" using sdsmapchars_Some [of xs s "length a" a b] by simp
next
  case (OpFmt f ap)
  then show "sds_is xs s \<Longrightarrow> sds_ok xs x \<Longrightarrow> ?thesis"
    using sdscatfmt_Some [of xs s f ap _ junk "[]"] by (auto simp: list_all_iff fmt_open_nonzero split: option.splits)
qed (auto simp: sdstrim_Some sdsrange_Some sdsgrowzero_Some sdsclear_Some sdsRemoveFreeSpace_Some
  sdstolower_Some sdstoupper_Some sdsupdatelen_Some elim: sds_isE)

lemma sds_step_sim:
  assumes "sds_inv s" "sds_ok (sdsval s) x"
  shows "\<exists>s'. sds_step junk s x = Some (s', snd (sds_spec (sdsval s) x)) \<and> sds_inv s' \<and> sdsval s' = fst (sds_spec (sdsval s) x)"
proof -
  have "sds_is (sdsval s) s" using assms(1) by (simp add: sds_is_def)
  then obtain s' where s': "sds_apply junk s x = Some s'" "sds_is (sds_effect (sdsval s) x) s'"
    using sds_apply_Some [OF _ assms(2), of s junk] by (auto elim!: ensuresE)
  then show ?thesis using sds_is_len [OF s'(2)] by (auto simp: sds_step_def sds_spec_def sds_is_def)
qed

interpretation sds: simulation sds_inv sdsval "sds_step junk" sds_spec sds_ok for junk
  by unfold_locales (rule sds_step_sim)

text \<open>
  C7: every sequence of string operations whose sizes stay below the limit runs without undefined
  behaviour, whatever the allocator leaves in fresh memory: the value always has its terminator, its
  length and free counters describe the block, and the bytes it holds are those of the same
  operations on a plain byte sequence.
\<close>

theorem sds_refines_bytes:
  "sds_inv s \<Longrightarrow> run_ok sds_spec sds_ok (sdsval s) ops \<Longrightarrow>
   \<exists>s'. run_ops (sds_step junk) s ops = Some (s', snd (run_spec sds_spec (sdsval s) ops)) \<and>
        sds_inv s' \<and> sdsval s' = fst (run_spec sds_spec (sdsval s) ops)"
  by (rule sds.run_sim)

theorem sds_refines_bytes_witness:
  "\<exists>s'. run_ops (sds_step (\<lambda>i. 255)) (sds_of (str '' Hi '') [])
          [OpCat (str ''there''), OpTrim (str '' ''), OpRange 1 (- 2), OpUpper] = Some (s', [9, 8, 6, 6]) \<and>
        sds_inv s' \<and> sdsval s' = str ''I THER''"
proof -
  let ?ops = "[OpCat (str ''there''), OpTrim (str '' ''), OpRange 1 (- 2), OpUpper]"
  have r: "run_spec sds_spec (str '' Hi '') ?ops = (str ''I THER'', [9, 8, 6, 6])"
    by (simp add: sds_spec_def trim_def range_slice_def range_index_def Let_def c_toupper_def nat_diff_distrib)
  have ok: "run_ok sds_spec sds_ok (str '' Hi '') ?ops"
    by (simp add: sds_spec_def trim_def range_slice_def range_index_def Let_def sds_max_def is_int32_def)
  show ?thesis
    using sds_refines_bytes [of "sds_of (str '' Hi '') []" ?ops "\<lambda>i. 255"] r ok by (simp add: sds_inv_of)
qed

text \<open>
  C33: \<open>sdscmp\<close> is the lexicographic order of the two byte strings (bytes unsigned, a proper prefix
  is smaller).
\<close>

theorem sdscmp_lexicographic:
  assumes "sds_inv s" "sds_inv t"
  shows "\<exists>r. sdscmp s t = Some r \<and> (r < 0 \<longleftrightarrow> ord_class.lexordp (sdsval s) (sdsval t)) \<and>
    (r = 0 \<longleftrightarrow> sdsval s = sdsval t) \<and> (0 < r \<longleftrightarrow> ord_class.lexordp (sdsval t) (sdsval s))"
  using sdscmp_Some [of "sdsval s" s "sdsval t" t] assms by (auto simp: sds_is_def elim!: ensuresE)

theorem sdscmp_lexicographic_witness:
  "\<exists>r. sdscmp (sds_of [1, 2] []) (sds_of [1, 200] [7]) = Some r \<and> r < 0"
  using sdscmp_lexicographic [of "sds_of [1, 2] []" "sds_of [1, 200] [7]"] by (auto simp: sds_inv_of)

text \<open>
  C34: the number conversions write exactly the decimal notation and a terminator and keep the rest
  of the buffer.  For \<open>sdsull2str\<close> this holds of every \<open>unsigned long long\<close>; for \<open>sdsll2str\<close> of every
  \<open>long long\<close> whose negation does not overflow.  On the least \<open>long long\<close> the C standard leaves
  \<open>-value\<close> undefined, and the rest of the function prints the right text (which the unit test of \<open>sds.c\<close>
  expects) exactly because it goes on with the two's complement value: with that value it
  is correct for every \<open>long long\<close>.
\<close>

theorem sdsll2str_correct:
  assumes "SDS_LLSTR_SIZE \<le> length buf" "is_llong v" "n < 2 ^ 64"
  shows "sdsull2str buf n = Some (dec n @ 0 # drop (length (dec n) + 1) buf, length (dec n)) \<and>
    sdsll2str buf v = (if 0 \<le> v \<or> is_llong (- v)
      then Some (dec_int v @ 0 # drop (length (dec_int v) + 1) buf, length (dec_int v)) else None) \<and>
    sdsll2str_conv buf (v < 0) (unat (if v < 0 then - word_of_int v else word_of_int v :: 64 word)) =
      Some (dec_int v @ 0 # drop (length (dec_int v) + 1) buf, length (dec_int v))"
proof -
  have l: "length (dec_int v) < length buf" using length_dec_int_llong [OF assms(2)] assms(1) by (simp add: SDS_LLSTR_SIZE_def)
  have "sdsull2str buf n = Some (dec n @ 0 # drop (length (dec n) + 1) buf, length (dec n))"
    using assms length_dec_ulong [of n] by (simp add: sdsull2str_Some SDS_LLSTR_SIZE_def)
  moreover have "sdsll2str buf v = Some (dec_int v @ 0 # drop (length (dec_int v) + 1) buf, length (dec_int v))"
    if "0 \<le> v \<or> is_llong (- v)"
    using sdsll2str_Some [OF assms(2) l] that by (auto simp: is_llong_def)
  moreover have "sdsll2str buf v = None" if "\<not> (0 \<le> v \<or> is_llong (- v))"
    using that by (simp add: sdsll2str_def llong_neg_def)
  moreover have "sdsll2str_conv buf (v < 0) (unat (if v < 0 then - word_of_int v else word_of_int v :: 64 word)) =
      Some (dec_int v @ 0 # drop (length (dec_int v) + 1) buf, length (dec_int v))"
    unfolding twos_complement_abs [OF assms(2)] using sdsll2str_conv_Some [OF l] by simp
  ultimately show ?thesis by auto
qed

theorem sdsll2str_correct_witness:
  "sdsll2str (replicate 21 7) (- 120) = Some (str ''-120'' @ 0 # replicate 16 7, 4) \<and>
   sdsll2str_conv (replicate 21 7) True (unat (- word_of_int (- (2 ^ 63)) :: 64 word)) = Some (str ''-9223372036854775808'' @ [0], 20) \<and>
   sdsull2str (replicate 21 7) 42 = Some (str ''42'' @ 0 # replicate 18 7, 2)"
proof -
  have d: "dec 120 = str ''120''" "dec 42 = str ''42''" "dec 9223372036854775808 = str ''9223372036854775808''"
    by (simp_all add: dec.simps)
  then show ?thesis
    using sdsll2str_correct [of "replicate 21 7" "- 120" 42] sdsll2str_correct [of "replicate 21 7" "- (2 ^ 63)" 42]
    by (simp add: SDS_LLSTR_SIZE_def is_llong_def dec_int_def)
qed

text \<open>
  C21: \<open>sdscatfmt\<close> appends exactly the text its format and arguments denote, making room as it goes,
  and restores the terminator.
\<close>

theorem sdscatfmt_correct:
  assumes "sds_inv s" "0 \<notin> set f" "list_all wf_arg ap" "fmt_out f ap = Some t" "length (sdsval s) + length t + 1 < sds_max"
  shows "\<exists>s'. sdscatfmt junk s (f @ [0]) ap = Some s' \<and> sds_inv s' \<and> sdsval s' = sdsval s @ t"
  using sdscatfmt_Some [of "sdsval s" s f ap t junk "[]"] assms fmt_open_nonzero [of f]
  by (auto simp: sds_is_def list_all_iff elim!: ensuresE)

theorem sdscatfmt_correct_witness:
  "\<exists>s'. sdscatfmt (\<lambda>i. 9) (sds_of (str ''n='') []) (str ''%i/%U%%'' @ [0]) [ArgInt (- 5), ArgULL 17] = Some s' \<and>
     sds_inv s' \<and> sdsval s' = str ''n=-5/17%''"
proof -
  have "fmt_out (str ''%i/%U%%'') [ArgInt (- 5), ArgULL 17] = Some (str ''-5/17%'')"
    by (simp add: dec_int_def dec.simps)
  then show ?thesis
    using sdscatfmt_correct [of "sds_of (str ''n='') []" "str ''%i/%U%%''" "[ArgInt (- 5), ArgULL 17]" "str ''-5/17%''" "\<lambda>i. 9"]
    by (simp add: sds_inv_of is_int32_def sds_max_def)
qed

text \<open>
  C35: a format that ends in a lone \<open>%\<close> makes \<open>sdscatfmt\<close> copy the terminator of the format into the
  string and go on reading behind the format, whatever comes before the \<open>%\<close>: when the memory ends there the behaviour is
  undefined, and when it holds another NUL-terminated text, that text is appended as well.
\<close>

theorem sdscatfmt_trailing_percent:
  assumes "sds_inv s" "0 \<notin> set p" "list_all wf_arg ap" "fmt_out p ap = Some t" "0 \<notin> set q" "37 \<notin> set q"
    and "length (sdsval s) + length t + length q + 2 < sds_max"
  shows "sdscatfmt junk s (p @ [37, 0]) ap = None \<and>
    (\<exists>s'. sdscatfmt junk s (p @ [37, 0] @ q @ [0]) ap = Some s' \<and> sds_inv s' \<and> sdsval s' = sdsval s @ t @ [0] @ q)"
proof
  show "sdscatfmt junk s (p @ [37, 0]) ap = None"
    using sdscatfmt_loop_open [of "p @ [37, 0]"] fmt_percent_end [OF _ _ assms(4,2), of "[]"] by (simp add: sdscatfmt_def)
  have "fmt_open (p @ 37 # 0 # q)" "fmt_out (p @ 37 # 0 # q) ap = Some (t @ 0 # q)"
    using fmt_percent_end [OF assms(6,5,4,2)] by auto
  then show "\<exists>s'. sdscatfmt junk s (p @ [37, 0] @ q @ [0]) ap = Some s' \<and> sds_inv s' \<and> sdsval s' = sdsval s @ t @ [0] @ q"
    using sdscatfmt_Some [of "sdsval s" s "p @ 37 # 0 # q" ap "t @ 0 # q" junk "[]"] assms
    by (auto simp: sds_is_def list_all_iff elim!: ensuresE)
qed

theorem sdscatfmt_trailing_percent_witness:
  "sdscatfmt (\<lambda>i. 9) (sds_of [] []) (str ''%i of 100%'' @ [0]) [ArgInt 7] = None \<and>
   (\<exists>s'. sdscatfmt (\<lambda>i. 9) (sds_of [] []) (str ''%i of 100%'' @ [0] @ str ''secret'' @ [0]) [ArgInt 7] = Some s' \<and>
     sdsval s' = str ''7 of 100'' @ [0] @ str ''secret'')"
proof -
  have "fmt_out (str ''%i of 100'') [ArgInt 7] = Some (str ''7 of 100'')" by (simp add: dec_int_def dec.simps)
  then show ?thesis
    using sdscatfmt_trailing_percent [of "sds_of [] []" "str ''%i of 100''" "[ArgInt 7]" "str ''7 of 100''" "str ''secret''" "\<lambda>i. 9"]
    by (auto simp: sds_inv_of is_int32_def sds_max_def)
qed

text \<open>
  C36: splitting a string at a separator and joining the tokens gives the string back, no token
  contains the separator, and the token array never overflows its capacity.
\<close>

theorem sdssplitlen_sdsjoin:
  assumes "0 < length s" "length s < sds_max - 1" "sep \<noteq> []"
  shows "\<exists>ts. sdssplitlen junk (s @ u) (int (length s)) (sep @ v) (int (length sep)) = Some (Some ts) \<and>
      list_all sds_inv ts \<and> (\<forall>t \<in> set ts. \<not> sublist sep (sdsval t)) \<and> join_with sep (map sdsval ts) = s \<and>
      (0 \<notin> set s \<and> 0 \<notin> set sep \<longrightarrow>
        (\<exists>j. sdsjoin junk (map (\<lambda>t. sdsval t @ [0]) ts) (sep @ [0]) = Some j \<and> sds_inv j \<and> sdsval j = s))"
proof -
  let ?ts = "split_on sep [] s"
  have e: "sdssplitlen junk (s @ u) (int (length s)) (sep @ v) (int (length sep)) = Some (Some (map (\<lambda>t. sds_of t []) ?ts))"
    using sdssplitlen_Some [of "length s" "s @ u" "length sep" "sep @ v" junk] assms by simp
  have j: "join_with sep ?ts = s" by (simp add: join_split_on)
  have in_join: "set t \<subseteq> set (join_with sep ts) \<and> length t \<le> length (join_with sep ts)" if "t \<in> set ts" for t ts
    using that by (induction sep ts rule: join_with.induct) auto
  then have t: "set t \<subseteq> set s \<and> length t \<le> length s" if "t \<in> set ?ts" for t using that j by metis
  have "list_all sds_inv (map (\<lambda>t. sds_of t []) ?ts)"
    using t assms(2) by (force simp: list_all_iff sds_inv_of sds_max_def)
  moreover have "\<not> sublist sep t" if "t \<in> set ?ts" for t
    using split_on_no_sep [OF assms(3), of "[]" s t] that by simp
  moreover have "\<exists>j. sdsjoin junk (map (\<lambda>t. t @ [0]) ?ts) (sep @ [0]) = Some j \<and> sds_inv j \<and> sdsval j = s"
    if "0 \<notin> set s" "0 \<notin> set sep"
  proof -
    have "\<forall>t \<in> set ?ts. 0 \<notin> set t" "length s < sds_max" using t that(1) assms(2) by auto
    then show ?thesis using sdsjoin_Some [OF that(2), of ?ts junk] j by (auto simp: sds_is_def elim!: ensuresE)
  qed
  ultimately show ?thesis using e j
    by (intro exI [of _ "map (\<lambda>t. sds_of t []) ?ts"]) (auto simp: comp_def)
qed

theorem sdssplitlen_sdsjoin_witness:
  "\<exists>ts. sdssplitlen (\<lambda>i. 3) (str ''foo_-_bar'') 9 (str ''_-_'') 3 = Some (Some ts) \<and>
     join_with (str ''_-_'') (map sdsval ts) = str ''foo_-_bar''"
  using sdssplitlen_sdsjoin [of "str ''foo_-_bar''" "str ''_-_''" "\<lambda>i. 3" "[]" "[]"] by (auto simp: sds_max_def)

text \<open>
  C18: \<open>sdssplitargs\<close> reads back what \<open>sdscatrepr\<close> writes: the quoted representation of any byte
  string, appended to a line of quoted arguments and a space, is read as exactly those arguments.
\<close>

theorem sdssplitargs_sdscatrepr:
  assumes "sds_is (repr_line xs @ (if xs = [] then [] else [32])) s"
    "list_all (\<lambda>x. length x < sds_max) xs" "sds_len s + 4 * length y + 6 < sds_max"
  shows "\<exists>s' ts. sdscatrepr junk s (y @ u) (length y) = Some s' \<and> sds_is (repr_line (xs @ [y])) s' \<and>
    sdssplitargs junk (sdsval s' @ [0]) = Some (Some ts) \<and> list_all2 sds_is (xs @ [y]) ts"
proof -
  have line: "repr_line (xs @ [y]) = (repr_line xs @ (if xs = [] then [] else [32])) @ repr y"
    by (induction xs rule: repr_line.induct) auto
  have l: "sds_len s = length (repr_line xs @ (if xs = [] then [] else [32]))" using sds_is_len [OF assms(1)] by simp
  obtain s' where s': "sdscatrepr junk s (y @ u) (length y) = Some s'" "sds_is (repr_line (xs @ [y])) s'"
    using sdscatrepr_Some [OF assms(1), of y junk u] assms(3) l line by (auto elim!: ensuresE)
  have "\<forall>x \<in> set (xs @ [y]). length x < sds_max" using assms(2,3) by (auto simp: list_all_iff)
  then obtain ts where "sdssplitargs junk (repr_line (xs @ [y]) @ [0]) = Some (Some ts)" "list_all2 sds_is (xs @ [y]) ts"
    using sdssplitargs_repr_loop [of "xs @ [y]" junk "[]"] by (auto simp: sdssplitargs_def)
  then show ?thesis using s' by (auto simp: sds_is_val)
qed

theorem sdssplitargs_sdscatrepr_witness:
  "\<exists>s' ts. sdscatrepr (\<lambda>i. 1) (sds_of [] []) [255, 34, 10, 65] 4 = Some s' \<and> sds_is (repr_line [[255, 34, 10, 65]]) s' \<and>
    sdssplitargs (\<lambda>i. 1) (sdsval s' @ [0]) = Some (Some ts) \<and> list_all2 sds_is [[255, 34, 10, 65]] ts"
proof -
  have l: "length [255, 34, 10, 65 :: byte] = 4" by simp
  show ?thesis
    using sdssplitargs_sdscatrepr [of "[]" "sds_of [] []" "[255, 34, 10, 65]" "\<lambda>i. 1" "[]", unfolded l]
    by (simp add: sds_max_def)
qed

end
