(* ===== verification/Crc64.thy ===== *)
theory Crc64
  imports Memory
begin

text \<open>
  The CRC-64 of the RDB format (\<open>crc64.c\<close>): the table of 256 words and the table-driven loop,
  against the bitwise definition with the reflected Jones polynomial.
\<close>

section \<open>The program\<close>

definition crc64_tab :: "64 word list" where
  "crc64_tab = [
     0x0000000000000000, 0x7ad870c830358979, 0xf5b0e190606b12f2, 0x8f689158505e9b8b,
     0xc038e5739841b68f, 0xbae095bba8743ff6, 0x358804e3f82aa47d, 0x4f50742bc81f2d04,
     0xab28ecb46814fe75, 0xd1f09c7c5821770c, 0x5e980d24087fec87, 0x24407dec384a65fe,
     0x6b1009c7f05548fa, 0x11c8790fc060c183, 0x9ea0e857903e5a08, 0xe478989fa00bd371,
     0x7d08ff3b88be6f81, 0x07d08ff3b88be6f8, 0x88b81eabe8d57d73, 0xf2606e63d8e0f40a,
     0xbd301a4810ffd90e, 0xc7e86a8020ca5077, 0x4880fbd87094cbfc, 0x32588b1040a14285,
     0xd620138fe0aa91f4, 0xacf86347d09f188d, 0x2390f21f80c18306, 0x594882d7b0f40a7f,
     0x1618f6fc78eb277b, 0x6cc0863448deae02, 0xe3a8176c18803589, 0x997067a428b5bcf0,
     0xfa11fe77117cdf02, 0x80c98ebf2149567b, 0x0fa11fe77117cdf0, 0x75796f2f41224489,
     0x3a291b04893d698d, 0x40f16bccb908e0f4, 0xcf99fa94e9567b7f, 0xb5418a5cd963f206,
     0x513912c379682177, 0x2be1620b495da80e, 0xa489f35319033385, 0xde51839b2936bafc,
     0x9101f7b0e12997f8, 0xebd98778d11c1e81, 0x64b116208142850a, 0x1e6966e8b1770c73,
     0x8719014c99c2b083, 0xfdc17184a9f739fa, 0x72a9e0dcf9a9a271, 0x08719014c99c2b08,
     0x4721e43f0183060c, 0x3df994f731b68f75, 0xb29105af61e814fe, 0xc849756751dd9d87,
     0x2c31edf8f1d64ef6, 0x56e99d30c1e3c78f, 0xd9810c6891bd5c04, 0xa3597ca0a188d57d,
     0xec09088b6997f879, 0x96d1784359a27100, 0x19b9e91b09fcea8b, 0x636199d339c963f2,
     0xdf7adabd7a6e2d6f, 0xa5a2aa754a5ba416, 0x2aca3b2d1a053f9d, 0x50124be52a30b6e4,
     0x1f423fcee22f9be0, 0x659a4f06d21a1299, 0xeaf2de5e82448912, 0x902aae96b271006b,
     0x74523609127ad31a, 0x0e8a46c1224f5a63, 0x81e2d7997211c1e8, 0xfb3aa75142244891,
     0xb46ad37a8a3b6595, 0xceb2a3b2ba0eecec, 0x41da32eaea507767, 0x3b024222da65fe1e,
     0xa2722586f2d042ee, 0xd8aa554ec2e5cb97, 0x57c2c41692bb501c, 0x2d1ab4dea28ed965,
     0x624ac0f56a91f461, 0x1892b03d5aa47d18, 0x97fa21650afae693, 0xed2251ad3acf6fea,
     0x095ac9329ac4bc9b, 0x7382b9faaaf135e2, 0xfcea28a2faafae69, 0x8632586aca9a2710,
     0xc9622c4102850a14, 0xb3ba5c8932b0836d, 0x3cd2cdd162ee18e6, 0x460abd1952db919f,
     0x256b24ca6b12f26d, 0x5fb354025b277b14, 0xd0dbc55a0b79e09f, 0xaa03b5923b4c69e6,
     0xe553c1b9f35344e2, 0x9f8bb171c366cd9b, 0x10e3202993385610, 0x6a3b50e1a30ddf69,
     0x8e43c87e03060c18, 0xf49bb8b633338561, 0x7bf329ee636d1eea, 0x012b592653589793,
     0x4e7b2d0d9b47ba97, 0x34a35dc5ab7233ee, 0xbbcbcc9dfb2ca865, 0xc113bc55cb19211c,
     0x5863dbf1e3ac9dec, 0x22bbab39d3991495, 0xadd33a6183c78f1e, 0xd70b4aa9b3f20667,
     0x985b3e827bed2b63, 0xe2834e4a4bd8a21a, 0x6debdf121b863991, 0x1733afda2bb3b0e8,
     0xf34b37458bb86399, 0x8993478dbb8deae0, 0x06fbd6d5ebd3716b, 0x7c23a61ddbe6f812,
     0x3373d23613f9d516, 0x49aba2fe23cc5c6f, 0xc6c333a67392c7e4, 0xbc1b436e43a74e9d,
     0x95ac9329ac4bc9b5, 0xef74e3e19c7e40cc, 0x601c72b9cc20db47, 0x1ac40271fc15523e,
     0x5594765a340a7f3a, 0x2f4c0692043ff643, 0xa02497ca54616dc8, 0xdafce7026454e4b1,
     0x3e847f9dc45f37c0, 0x445c0f55f46abeb9, 0xcb349e0da4342532, 0xb1eceec59401ac4b,
     0xfebc9aee5c1e814f, 0x8464ea266c2b0836, 0x0b0c7b7e3c7593bd, 0x71d40bb60c401ac4,
     0xe8a46c1224f5a634, 0x927c1cda14c02f4d, 0x1d148d82449eb4c6, 0x67ccfd4a74ab3dbf,
     0x289c8961bcb410bb, 0x5244f9a98c8199c2, 0xdd2c68f1dcdf0249, 0xa7f41839ecea8b30,
     0x438c80a64ce15841, 0x3954f06e7cd4d138, 0xb63c61362c8a4ab3, 0xcce411fe1cbfc3ca,
     0x83b465d5d4a0eece, 0xf96c151de49567b7, 0x76048445b4cbfc3c, 0x0cdcf48d84fe7545,
     0x6fbd6d5ebd3716b7, 0x15651d968d029fce, 0x9a0d8ccedd5c0445, 0xe0d5fc06ed698d3c,
     0xaf85882d2576a038, 0xd55df8e515432941, 0x5a3569bd451db2ca, 0x20ed197575283bb3,
     0xc49581ead523e8c2, 0xbe4df122e51661bb, 0x3125607ab548fa30, 0x4bfd10b2857d7349,
     0x04ad64994d625e4d, 0x7e7514517d57d734, 0xf11d85092d094cbf, 0x8bc5f5c11d3cc5c6,
     0x12b5926535897936, 0x686de2ad05bcf04f, 0xe70573f555e26bc4, 0x9ddd033d65d7e2bd,
     0xd28d7716adc8cfb9, 0xa85507de9dfd46c0, 0x273d9686cda3dd4b, 0x5de5e64efd965432,
     0xb99d7ed15d9d8743, 0xc3450e196da80e3a, 0x4c2d9f413df695b1, 0x36f5ef890dc31cc8,
     0x79a59ba2c5dc31cc, 0x037deb6af5e9b8b5, 0x8c157a32a5b7233e, 0xf6cd0afa9582aa47,
     0x4ad64994d625e4da, 0x300e395ce6106da3, 0xbf66a804b64ef628, 0xc5bed8cc867b7f51,
     0x8aeeace74e645255, 0xf036dc2f7e51db2c, 0x7f5e4d772e0f40a7, 0x05863dbf1e3ac9de,
     0xe1fea520be311aaf, 0x9b26d5e88e0493d6, 0x144e44b0de5a085d, 0x6e963478ee6f8124,
     0x21c640532670ac20, 0x5b1e309b16452559, 0xd476a1c3461bbed2, 0xaeaed10b762e37ab,
     0x37deb6af5e9b8b5b, 0x4d06c6676eae0222, 0xc26e573f3ef099a9, 0xb8b627f70ec510d0,
     0xf7e653dcc6da3dd4, 0x8d3e2314f6efb4ad, 0x0256b24ca6b12f26, 0x788ec2849684a65f,
     0x9cf65a1b368f752e, 0xe62e2ad306bafc57, 0x6946bb8b56e467dc, 0x139ecb4366d1eea5,
     0x5ccebf68aecec3a1, 0x2616cfa09efb4ad8, 0xa97e5ef8cea5d153, 0xd3a62e30fe90582a,
     0xb0c7b7e3c7593bd8, 0xca1fc72bf76cb2a1, 0x45775673a732292a, 0x3faf26bb9707a053,
     0x70ff52905f188d57, 0x0a2722586f2d042e, 0x854fb3003f739fa5, 0xff97c3c80f4616dc,
     0x1bef5b57af4dc5ad, 0x61372b9f9f784cd4, 0xee5fbac7cf26d75f, 0x9487ca0fff135e26,
     0xdbd7be24370c7322, 0xa10fceec0739fa5b, 0x2e675fb4576761d0, 0x54bf2f7c6752e8a9,
     0xcdcf48d84fe75459, 0xb71738107fd2dd20, 0x387fa9482f8c46ab, 0x42a7d9801fb9cfd2,
     0x0df7adabd7a6e2d6, 0x772fdd63e7936baf, 0xf8474c3bb7cdf024, 0x829f3cf387f8795d,
     0x66e7a46c27f3aa2c, 0x1c3fd4a417c62355, 0x935745fc4798b8de, 0xe98f353477ad31a7,
     0xa6df411fbfb21ca3, 0xdc0731d78f8795da, 0x536fa08fdfd90e51, 0x29b7d047efec8728]"

text \<open>\<open>s\<close> is the memory at the pointer, of which \<open>l\<close> bytes are read.\<close>

function crc64_loop :: "64 word \<Rightarrow> bytes \<Rightarrow> nat \<Rightarrow> nat \<Rightarrow> 64 word option" where
  "crc64_loop crc s l j =
     (if j < l then do {
        b \<leftarrow> arr_get s j;
        e \<leftarrow> arr_get crc64_tab (unat ((ucast crc :: byte) XOR b));
        crc64_loop (e XOR drop_bit 8 crc) s l (j + 1) }
      else Some crc)"
  by pat_completeness auto
termination by (relation "measure (\<lambda>(crc, s, l, j). l - j)") auto

declare crc64_loop.simps [simp del]

definition crc64 :: "64 word \<Rightarrow> bytes \<Rightarrow> nat \<Rightarrow> 64 word option" where
  "crc64 crc s l = crc64_loop crc s l 0"

section \<open>The polynomial\<close>

definition crc_step :: "64 word \<Rightarrow> 64 word" where
  "crc_step c = (if bit c 0 then drop_bit 1 c XOR 0x95ac9329ac4bc9b5 else drop_bit 1 c)"

definition crc_byte :: "64 word \<Rightarrow> byte \<Rightarrow> 64 word" where
  "crc_byte c b = (crc_step ^^ 8) (c XOR ucast b)"

definition crc_bytes :: "64 word \<Rightarrow> bytes \<Rightarrow> 64 word" where
  "crc_bytes = foldl crc_byte"

subsection \<open>Linearity\<close>

lemma bit_ext64: "(\<And>n. n < 64 \<Longrightarrow> bit a n = bit b n) \<Longrightarrow> a = b" for a b :: "64 word"
  by (rule bit_word_eqI) simp

lemma xor_zeroD: "a XOR b = 0 \<Longrightarrow> a = b" for a b :: "64 word"
  by (metis xor.assoc xor_self_eq xor.left_neutral xor.right_neutral)

lemma crc_step_xor: "crc_step (a XOR b) = crc_step a XOR crc_step b"
  by (auto simp: crc_step_def bit_xor_iff xor.assoc drop_bit_xor intro!: bit_word_eqI)

lemma crc_steps_xor: "(crc_step ^^ n) (a XOR b) = (crc_step ^^ n) a XOR (crc_step ^^ n) b"
  by (induction n) (simp_all add: crc_step_xor)

lemma crc_step_0 [simp]: "crc_step 0 = 0"
  by (simp add: crc_step_def)

lemma crc_steps_0 [simp]: "(crc_step ^^ n) 0 = 0"
  by (induction n) simp_all

lemma crc_steps_high: "(\<And>k. k < n \<Longrightarrow> \<not> bit a k) \<Longrightarrow> (crc_step ^^ n) a = drop_bit n a"
proof (induction n arbitrary: a)
  case (Suc n)
  have "\<not> bit a 0" using Suc.prems [of 0] by simp
  then have "crc_step a = drop_bit 1 a" by (simp add: crc_step_def)
  moreover have "(crc_step ^^ n) (drop_bit 1 a) = drop_bit n (drop_bit 1 a)"
    by (rule Suc.IH) (use Suc.prems in \<open>auto simp: bit_drop_bit_eq\<close>)
  ultimately show ?case by (simp add: funpow_swap1 del: drop_bit_Suc)
qed simp

subsection \<open>The table\<close>

text \<open>Doubling a table: the entries of the upper half differ from the lower half by one constant.\<close>

primrec tab_of :: "64 word list \<Rightarrow> 64 word list" where
  "tab_of [] = [0]"
| "tab_of (e # es) = tab_of es @ map (\<lambda>x. e XOR x) (tab_of es)"

lemma tab_of_steps:
  "k \<le> 8 \<Longrightarrow> tab_of (map (\<lambda>i. (crc_step ^^ 8) (2 ^ i)) (rev [0..<k])) = map (\<lambda>i. (crc_step ^^ 8) (of_nat i)) [0..<2 ^ k]"
proof (induction k)
  case (Suc k)
  have x: "word_of_nat (2 ^ k + i) = (2 ^ k XOR word_of_nat i :: 64 word)" if "i < 2 ^ k" for i
  proof -
    have "\<not> bit i k" using that by (metis bit_take_bit_iff less_irrefl take_bit_nat_eq_self)
    then have "(2 ^ k :: 64 word) AND word_of_nat i = 0"
      by (auto intro!: bit_word_eqI simp: bit_and_iff bit_exp_iff bit_of_nat_iff)
    then have "(2 ^ k :: 64 word) + word_of_nat i = 2 ^ k XOR word_of_nat i" by (rule disjunctive_add_eq_xor)
    then show ?thesis by simp
  qed
  have "[0..<2 ^ Suc k] = [0..<2 ^ k] @ map (\<lambda>i. 2 ^ k + i) [0..<2 ^ k]"
    by (simp add: upt_add_eq_append [of 0 "2 ^ k" "2 ^ k", simplified] map_add_upt mult_2 add.commute)
  then show ?case using Suc x by (simp add: comp_def crc_steps_xor)
qed simp

lemma crc_steps8:
  "(crc_step ^^ 8) c = crc_step (crc_step (crc_step (crc_step (crc_step (crc_step (crc_step (crc_step c)))))))"
  by (simp add: eval_nat_numeral)

lemma crc64_basis:
  "(crc_step ^^ 8) 0x80 = 0x95ac9329ac4bc9b5" "(crc_step ^^ 8) 0x40 = 0xdf7adabd7a6e2d6f"
  "(crc_step ^^ 8) 0x20 = 0xfa11fe77117cdf02" "(crc_step ^^ 8) 0x10 = 0x7d08ff3b88be6f81"
  "(crc_step ^^ 8) 0x08 = 0xab28ecb46814fe75" "(crc_step ^^ 8) 0x04 = 0xc038e5739841b68f"
  "(crc_step ^^ 8) 0x02 = 0xf5b0e190606b12f2" "(crc_step ^^ 8) 0x01 = 0x7ad870c830358979"
  by (simp_all only: crc_steps8) (simp_all add: crc_step_def)

lemma crc64_tab_eq: "crc64_tab = map (\<lambda>i. (crc_step ^^ 8) (of_nat i)) [0..<256]"
proof -
  have "rev [0..<8] = [7, 6, 5, 4, 3, 2, 1, 0 :: nat]" by (simp add: upt_rec)
  then have "map (\<lambda>i. (crc_step ^^ 8) (2 ^ i)) (rev [0..<8]) =
    [0x95ac9329ac4bc9b5, 0xdf7adabd7a6e2d6f, 0xfa11fe77117cdf02, 0x7d08ff3b88be6f81,
     0xab28ecb46814fe75, 0xc038e5739841b68f, 0xf5b0e190606b12f2, 0x7ad870c830358979]"
    by (simp add: crc64_basis)
  then have "map (\<lambda>i. (crc_step ^^ 8) (of_nat i)) [0..<256] =
    tab_of [0x95ac9329ac4bc9b5, 0xdf7adabd7a6e2d6f, 0xfa11fe77117cdf02, 0x7d08ff3b88be6f81,
     0xab28ecb46814fe75, 0xc038e5739841b68f, 0xf5b0e190606b12f2, 0x7ad870c830358979]"
    using tab_of_steps [of 8] by simp
  also have "\<dots> = crc64_tab" by (simp add: crc64_tab_def)
  finally show ?thesis by simp
qed

subsection \<open>The loop computes the polynomial\<close>

lemma bit_below: "i < 2 ^ k \<Longrightarrow> bit i n \<Longrightarrow> n < k" for i :: nat
  by (metis bit_take_bit_iff take_bit_nat_eq_self)

lemma byte_disjoint:
  assumes "i < 256" shows "word_of_nat (i + 256 * r) = (word_of_nat i XOR word_of_nat (256 * r) :: 64 word)"
proof -
  have "256 * r = push_bit 8 r" by (simp add: push_bit_eq_mult)
  then have "\<not> bit i n \<or> \<not> bit (256 * r) n" for n
    using bit_below [of i 8 n] assms by (auto simp: bit_push_bit_iff)
  then have "(word_of_nat i :: 64 word) AND word_of_nat (256 * r) = 0"
    by (auto intro!: bit_word_eqI simp: bit_and_iff bit_of_nat_iff simp del: of_nat_mult)
  then show ?thesis by (simp only: of_nat_add disjunctive_add_eq_xor)
qed

lemma drop_byte: "r < 2 ^ 56 \<Longrightarrow> drop_bit 8 (word_of_nat (256 * r) :: 64 word) = word_of_nat r"
proof (rule bit_word_eqI)
  fix n assume r: "r < 2 ^ 56" "n < LENGTH(64)"
  have "256 * r = push_bit 8 r" by (simp add: push_bit_eq_mult)
  then show "bit (drop_bit 8 (word_of_nat (256 * r) :: 64 word)) n = bit (word_of_nat r :: 64 word) n"
    using r(2) bit_below [OF r(1), of n]
    by (auto simp: bit_drop_bit_eq bit_of_nat_iff bit_push_bit_iff simp del: of_nat_mult)
qed

lemma crc_steps8_split:
  assumes "r < 2 ^ 56" "i < 256"
  shows "(crc_step ^^ 8) (word_of_nat (i + 256 * r)) = (crc_step ^^ 8) (word_of_nat i) XOR word_of_nat r"
proof -
  have "256 * r = push_bit 8 r" by (simp add: push_bit_eq_mult)
  then have "(crc_step ^^ 8) (word_of_nat (256 * r)) = drop_bit 8 (word_of_nat (256 * r))"
    by (intro crc_steps_high) (simp only: bit_of_nat_iff bit_push_bit_iff, simp)
  then show ?thesis using drop_byte [OF assms(1)] byte_disjoint [OF assms(2), of r]
    by (simp only: crc_steps_xor)
qed

lemma crc_byte_table:
  "arr_get crc64_tab (unat ((ucast c :: byte) XOR b)) = Some (crc_byte c b XOR drop_bit 8 c)"
proof -
  let ?x = "c XOR ucast b" and ?i = "unat ((ucast c :: byte) XOR b)"
  have i: "?i < 256" using unsigned_less [of "(ucast c :: byte) XOR b", where ?'a = nat] by simp
  have low: "?i = unat ?x mod 256"
  proof -
    have "(ucast c :: byte) XOR b = ucast ?x"
      by (rule bit_word_eqI) (simp add: bit_xor_iff bit_ucast_iff)
    then have "?i = unat (ucast ?x :: byte)" by simp
    also have "\<dots> = unat ?x mod 256" by (simp add: unsigned_ucast_eq take_bit_eq_mod)
    finally show ?thesis .
  qed
  have high: "unat ?x div 256 = unat (drop_bit 8 c)"
  proof -
    have "\<not> bit b (8 + n)" for n using bit_imp_le_length [of b "8 + n"] by auto
    then have "drop_bit 8 ?x = drop_bit 8 c"
      by (intro bit_word_eqI) (simp add: bit_drop_bit_eq bit_xor_iff bit_ucast_iff)
    then have "unat (drop_bit 8 ?x) = unat (drop_bit 8 c)" by simp
    then show ?thesis by (simp add: drop_bit_eq_div unat_div)
  qed
  have r: "unat ?x div 256 < 2 ^ 56" using unsigned_less [of ?x, where ?'a = nat] by (intro less_mult_imp_div_less) simp
  have "?x = word_of_nat (?i + 256 * (unat ?x div 256))" unfolding low by simp
  then have "crc_byte c b = (crc_step ^^ 8) (word_of_nat ?i) XOR word_of_nat (unat ?x div 256)"
    unfolding crc_byte_def using crc_steps8_split [OF r i] by metis
  then have "crc_byte c b = crc64_tab ! ?i XOR drop_bit 8 c" using i high by (simp add: crc64_tab_eq)
  then have "crc64_tab ! ?i = crc_byte c b XOR drop_bit 8 c" by (simp add: xor.assoc)
  moreover have "?i < length crc64_tab" using i by (simp add: crc64_tab_eq)
  ultimately show ?thesis by simp
qed

lemma crc64_loop_Some:
  "l \<le> length s \<Longrightarrow> j \<le> l \<Longrightarrow> crc64_loop crc s l j = Some (crc_bytes crc (drop j (take l s)))"
proof (induction crc s l j rule: crc64_loop.induct)
  case (1 crc s l j)
  show ?case
  proof (cases "j < l")
    case True
    then have d: "drop j (take l s) = s ! j # drop (Suc j) (take l s)"
      using 1(2) by (subst Cons_nth_drop_Suc [symmetric]) auto
    have g: "arr_get s j = Some (s ! j)" using True 1(2) by simp
    have "crc64_loop ((crc_byte crc (s ! j) XOR drop_bit 8 crc) XOR drop_bit 8 crc) s l (j + 1) =
      Some (crc_bytes ((crc_byte crc (s ! j) XOR drop_bit 8 crc) XOR drop_bit 8 crc) (drop (j + 1) (take l s)))"
      by (rule 1(1) [OF True g crc_byte_table]) (use True 1(2) in auto)
    then show ?thesis using True g d crc_byte_table [of crc "s ! j"]
      by (subst crc64_loop.simps) (simp add: xor.assoc crc_bytes_def del: drop_take)
  next
    case False
    then show ?thesis using 1(3) by (subst crc64_loop.simps) (simp add: crc_bytes_def)
  qed
qed

lemma crc64_Some: "l \<le> length s \<Longrightarrow> crc64 crc s l = Some (crc_bytes crc (take l s))"
  by (simp add: crc64_def crc64_loop_Some)

subsection \<open>Error detection\<close>

lemma crc_step_eq_0: "crc_step c = 0 \<Longrightarrow> c = 0"
proof -
  assume a: "crc_step c = 0"
  show "c = 0"
  proof (cases "bit c 0")
    case True
    then have "drop_bit 1 c XOR 0x95ac9329ac4bc9b5 = 0" using a by (simp only: crc_step_def if_True)
    then have "drop_bit 1 c = 0x95ac9329ac4bc9b5" by (rule xor_zeroD)
    moreover have "bit (0x95ac9329ac4bc9b5 :: 64 word) 63"
      by (simp add: bit_iff_odd)
    moreover have "\<not> bit (drop_bit 1 c) 63" using bit_imp_le_length [of c 64] by (auto simp: bit_drop_bit_eq)
    ultimately show ?thesis by metis
  next
    case False
    then have d: "drop_bit 1 c = 0" using a by (simp add: crc_step_def)
    show ?thesis
    proof (rule bit_word_eqI)
      fix n assume "n < LENGTH(64)"
      show "bit c n = bit 0 n"
      proof (cases n)
        case (Suc m)
        have "bit (drop_bit 1 c) m = bit c n" using Suc by (simp add: bit_drop_bit_eq)
        then show ?thesis using d by simp
      qed (use False in simp)
    qed
  qed
qed

lemma crc_steps_inj: "(crc_step ^^ n) a = (crc_step ^^ n) b \<Longrightarrow> a = b"
proof -
  assume "(crc_step ^^ n) a = (crc_step ^^ n) b"
  then have "(crc_step ^^ n) (a XOR b) = 0" by (simp add: crc_steps_xor)
  then have "a XOR b = 0" by (induction n) (auto dest: crc_step_eq_0)
  then show "a = b" by (rule xor_zeroD)
qed

lemma crc_bytes_inj: "crc_bytes a s = crc_bytes b s \<Longrightarrow> a = b"
proof (induction s arbitrary: a b)
  case (Cons x s)
  then have "crc_byte a x = crc_byte b x" by (simp add: crc_bytes_def)
  then have "a XOR ucast x = b XOR ucast x" unfolding crc_byte_def by (rule crc_steps_inj)
  then have "(a XOR ucast x) XOR ucast x = (b XOR ucast x) XOR ucast x" by simp
  then show ?case by (simp add: xor.assoc)
qed (simp add: crc_bytes_def)

lemma crc_bytes_short:
  "length s \<le> 8 \<Longrightarrow> crc_bytes c s = (crc_step ^^ (8 * length s)) (c XOR word_of_nat (nat_of_le s))"
proof (induction s arbitrary: c)
  case (Cons x s)
  have r: "nat_of_le s < 2 ^ 56"
  proof -
    have "(256 :: nat) ^ length s \<le> 256 ^ 7" using Cons.prems by (intro power_increasing) auto
    then show ?thesis using nat_of_le_bound [of s] by simp
  qed
  have x: "unat x < 256" using unsigned_less [of x, where ?'a = nat] by simp
  have "(crc_step ^^ 8) (c XOR word_of_nat (nat_of_le (x # s))) =
    (crc_step ^^ 8) c XOR ((crc_step ^^ 8) (word_of_nat (unat x)) XOR word_of_nat (nat_of_le s))"
    unfolding nat_of_le.simps crc_steps_xor crc_steps8_split [OF r x] ..
  also have "\<dots> = crc_byte c x XOR word_of_nat (nat_of_le s)"
    by (simp add: crc_byte_def crc_steps_xor xor.assoc)
  finally have e: "(crc_step ^^ 8) (c XOR word_of_nat (nat_of_le (x # s))) = crc_byte c x XOR word_of_nat (nat_of_le s)" .
  have f: "(crc_step ^^ (8 * length (x # s))) y = (crc_step ^^ (8 * length s)) ((crc_step ^^ 8) y)" for y
    by (simp only: list.size add_mult_distrib2 funpow_add) (simp add: comp_def)
  have "crc_bytes c (x # s) = (crc_step ^^ (8 * length s)) (crc_byte c x XOR word_of_nat (nat_of_le s))"
    using Cons.IH [of "crc_byte c x"] Cons.prems by (simp add: crc_bytes_def)
  then show ?case unfolding f e .
qed (simp add: crc_bytes_def)

lemma crc_bytes_burst:
  assumes "length x = length y" "length x \<le> 8" "x \<noteq> y"
  shows "crc_bytes c (a @ x @ z) \<noteq> crc_bytes c (a @ y @ z)"
proof
  assume e: "crc_bytes c (a @ x @ z) = crc_bytes c (a @ y @ z)"
  define d where "d = crc_bytes c a"
  have "crc_bytes (crc_bytes d x) z = crc_bytes (crc_bytes d y) z" using e by (simp add: d_def crc_bytes_def)
  then have "crc_bytes d x = crc_bytes d y" by (rule crc_bytes_inj)
  then have "d XOR word_of_nat (nat_of_le x) = d XOR word_of_nat (nat_of_le y)"
    using crc_bytes_short [of x d] crc_bytes_short [of y d] assms crc_steps_inj by metis
  then have "(word_of_nat (nat_of_le x) :: 64 word) = word_of_nat (nat_of_le y)"
    by (metis xor.assoc xor_self_eq xor.left_neutral)
  moreover have "nat_of_le x < 2 ^ 64" "nat_of_le y < 2 ^ 64"
  proof -
    have "(256 :: nat) ^ length x \<le> 256 ^ 8" using assms by (intro power_increasing) auto
    then show "nat_of_le x < 2 ^ 64" "nat_of_le y < 2 ^ 64"
      using nat_of_le_bound [of x] nat_of_le_bound [of y] assms(1) by auto
  qed
  moreover have "unat (word_of_nat n :: 64 word) = n" if "n < 2 ^ 64" for n
    using that by (simp add: unat_of_nat)
  ultimately have "nat_of_le x = nat_of_le y" by metis
  then show False using assms(1,3) le_of_nat_of_le by metis
qed

section \<open>Properties\<close>

text \<open>
  C17: the table-driven loop computes the CRC of the Jones polynomial, bit by bit, without leaving
  the table or the buffer, and can be continued: the CRC of a concatenation is the CRC of the
  second part started from that of the first.
\<close>

theorem crc64_correct:
  assumes "s = a @ b @ u"
  shows "crc64 c s (length a + length b) = Some (foldl (\<lambda>c b. (crc_step ^^ 8) (c XOR ucast b)) c (a @ b)) \<and>
    crc64 c s (length a + length b) = crc64 c s (length a) \<bind> (\<lambda>d. crc64 d (b @ u) (length b))"
proof
  have f: "crc_bytes = foldl (\<lambda>c b. (crc_step ^^ 8) (c XOR ucast b))"
    by (simp add: crc_bytes_def crc_byte_def [abs_def])
  show "crc64 c s (length a + length b) = Some (foldl (\<lambda>c b. (crc_step ^^ 8) (c XOR ucast b)) c (a @ b))"
    using assms crc64_Some [of "length a + length b" s c] by (simp add: f)
  show "crc64 c s (length a + length b) = crc64 c s (length a) \<bind> (\<lambda>d. crc64 d (b @ u) (length b))"
    using assms by (simp add: crc64_Some) (simp add: crc_bytes_def)
qed

theorem crc64_correct_witness:
  "crc64 0 [49, 50] 2 = crc64 0 [49, 50] 1 \<bind> (\<lambda>d. crc64 d [50] 1)"
proof -
  have l: "length [49 :: byte] + length [50 :: byte] = 2" "length [49 :: byte] = 1" "length [50 :: byte] = 1" by simp_all
  have "crc64 0 ([49] @ [50] @ []) (length [49 :: byte] + length [50 :: byte]) =
    crc64 0 ([49] @ [50] @ []) (length [49 :: byte]) \<bind> (\<lambda>d. crc64 d ([50] @ []) (length [50 :: byte]))"
    by (rule crc64_correct [THEN conjunct2]) simp
  then show ?thesis unfolding l append_Cons append_Nil append_Nil2 one_add_one .
qed

text \<open>
  C37: the checksum detects every corruption confined to eight consecutive bytes.
\<close>

theorem crc64_detects_bursts:
  assumes "length x = length y" "length x \<le> 8" "x \<noteq> y"
  shows "crc64 c (a @ x @ z) (length (a @ x @ z)) \<noteq> crc64 c (a @ y @ z) (length (a @ y @ z))"
  using crc_bytes_burst [OF assms, of c a z] by (simp add: crc64_Some)

theorem crc64_detects_bursts_witness: "crc64 0 [1, 2, 3] 3 \<noteq> crc64 0 [1, 7, 3] 3"
proof -
  have "length ([1, 2, 3] :: bytes) = 3" "length ([1, 7, 3] :: bytes) = 3" by simp_all
  then show ?thesis using crc64_detects_bursts [of "[2]" "[7]" 0 "[1]" "[3]"] by (simp only: append_Cons append_Nil) simp
qed

end
