(* ===== verification/Lzf.thy ===== *)
theory Lzf
  imports Memory
begin

text \<open>
  The LZF compressor and decompressor (\<open>lzf_c.c\<close>, \<open>lzf_d.c\<close>, configured by \<open>lzfP.h\<close> with
  \<open>VERY_FAST\<close>, \<open>CHECK_INPUT\<close> and no \<open>INIT_HTAB\<close>).  Pointers are offsets from the beginning of
  their buffer.  The hash table is an uninitialised array on the stack: its initial contents are a
  parameter, an arbitrary offset for every slot, which the code filters before it follows one.
\<close>

section \<open>Compression\<close>

definition HLOG :: nat where "HLOG = 16"
definition MAX_LIT :: nat where "MAX_LIT = 2 ^ 5"
definition MAX_OFF :: nat where "MAX_OFF = 2 ^ 13"
definition MAX_REF :: nat where "MAX_REF = 2 ^ 8 + 2 ^ 3"

definition lzf_FRST :: "bytes \<Rightarrow> nat \<Rightarrow> 32 word option" where
  "lzf_FRST s p = do {
     a \<leftarrow> arr_get s p;
     b \<leftarrow> arr_get s (p + 1);
     Some (push_bit 8 (ucast a) OR ucast b) }"

definition lzf_NEXT :: "bytes \<Rightarrow> 32 word \<Rightarrow> nat \<Rightarrow> 32 word option" where
  "lzf_NEXT s v p = do {
     c \<leftarrow> arr_get s (p + 2);
     Some (push_bit 8 v OR ucast c) }"

definition lzf_IDX :: "32 word \<Rightarrow> nat" where
  "lzf_IDX h = unat ((drop_bit (3 * 8 - HLOG) h - h * 5) AND (2 ^ HLOG - 1))"

record lzf_state =
  lz_ip :: nat
  lz_op :: nat
  lz_lit :: nat
  lz_hval :: "32 word"
  lz_htab :: "nat \<Rightarrow> int"
  lz_out :: bytes

text \<open>\<open>op [- lit - 1] = lit - 1\<close>, the header of the current run of literals.\<close>

definition lzf_stop_run :: "lzf_state \<Rightarrow> bytes option" where
  "lzf_stop_run st =
     (if lz_lit st + 1 \<le> lz_op st
      then arr_set (lz_out st) (lz_op st - lz_lit st - 1) (word_of_int (int (lz_lit st) - 1))
      else None)"

text \<open>The test for a match at \<open>ref\<close>.\<close>

definition lzf_match :: "bytes \<Rightarrow> nat \<Rightarrow> nat \<Rightarrow> int \<Rightarrow> bool option" where
  "lzf_match s in_len ip ref =
     (if ulong_of_int (int ip - ref - 1) < MAX_OFF \<and> ip + 4 < in_len \<and> 0 < ref then do {
        r \<leftarrow> mem_read s (nat ref) 2;
        i \<leftarrow> mem_read s ip 2;
        if r = i then do {
          r2 \<leftarrow> arr_get s (nat ref + 2);
          i2 \<leftarrow> arr_get s (ip + 2);
          Some (r2 = i2) }
        else Some False }
      else Some False)"

text \<open>The sixteen unrolled comparisons, with whether one of them left the loop, and the rest.\<close>

fun lzf_len_16 :: "bytes \<Rightarrow> nat \<Rightarrow> nat \<Rightarrow> nat \<Rightarrow> nat \<Rightarrow> (nat \<times> bool) option" where
  "lzf_len_16 s ref ip len 0 = Some (len, False)"
| "lzf_len_16 s ref ip len (Suc k) = do {
     let len = len + 1;
     r \<leftarrow> arr_get s (ref + len);
     i \<leftarrow> arr_get s (ip + len);
     if r \<noteq> i then Some (len, True) else lzf_len_16 s ref ip len k }"

function lzf_len_rest :: "bytes \<Rightarrow> nat \<Rightarrow> nat \<Rightarrow> nat \<Rightarrow> nat \<Rightarrow> nat option" where
  "lzf_len_rest s ref ip maxlen len =
     (if len + 1 < maxlen then do {
        r \<leftarrow> arr_get s (ref + (len + 1));
        i \<leftarrow> arr_get s (ip + (len + 1));
        if r = i then lzf_len_rest s ref ip maxlen (len + 1) else Some (len + 1) }
      else Some (len + 1))"
  by pat_completeness auto
termination by (relation "measure (\<lambda>(s, ref, ip, maxlen, len). maxlen - len)") auto

declare lzf_len_rest.simps [simp del]

definition lzf_match_len :: "bytes \<Rightarrow> nat \<Rightarrow> nat \<Rightarrow> nat \<Rightarrow> nat option" where
  "lzf_match_len s ref ip maxlen = do {
     (len, broke) \<leftarrow> (if 16 < maxlen then lzf_len_16 s ref ip 2 16 else Some (2, False));
     if broke then Some len else lzf_len_rest s ref ip maxlen len }"

datatype lzf_iter_res = LzfFail bytes | LzfBreak lzf_state | LzfNext lzf_state

text \<open>Writing the back reference of \<open>len+2\<close> bytes; the results are the buffer and the new \<open>op\<close>.\<close>

definition lzf_put_ref :: "bytes \<Rightarrow> nat \<Rightarrow> nat \<Rightarrow> nat \<Rightarrow> (bytes \<times> nat) option" where
  "lzf_put_ref out op off len = do {
     (out, op) \<leftarrow> (if len < 7 then do {
         out \<leftarrow> arr_set out op (of_nat (off div 256 + len * 32));
         Some (out, op + 1) }
       else do {
         out \<leftarrow> arr_set out op (of_nat (off div 256 + 7 * 32));
         out \<leftarrow> arr_set out (op + 1) (of_nat (len - 7));
         Some (out, op + 2) });
     out \<leftarrow> arr_set out op (of_nat off);
     Some (out, op + 1) }"

text \<open>Entering the two positions before \<open>ip\<close> into the hash table.\<close>

definition lzf_rehash :: "bytes \<Rightarrow> lzf_state \<Rightarrow> lzf_state option" where
  "lzf_rehash s st = do {
     let ip = lz_ip st - 2;
     hval \<leftarrow> lzf_FRST s ip;
     hval \<leftarrow> lzf_NEXT s hval ip;
     let htab = (lz_htab st)(lzf_IDX hval := int ip);
     let ip = ip + 1;
     hval \<leftarrow> lzf_NEXT s hval ip;
     let htab = htab(lzf_IDX hval := int ip);
     Some (st\<lparr>lz_ip := ip + 1, lz_hval := hval, lz_htab := htab\<rparr>) }"

definition lzf_backref :: "bytes \<Rightarrow> nat \<Rightarrow> nat \<Rightarrow> nat \<Rightarrow> lzf_state \<Rightarrow> lzf_iter_res option" where
  "lzf_backref s in_len out_len ref st = do {
     let ip = lz_ip st;
     let off = ip - ref - 1;
     let maxlen = (if MAX_REF < in_len - ip - 2 then MAX_REF else in_len - ip - 2);
     out \<leftarrow> lzf_stop_run st;
     let op = (if lz_lit st = 0 then lz_op st - 1 else lz_op st);
     if out_len \<le> op + 3 + 1 then Some (LzfFail out)
     else do {
       n \<leftarrow> lzf_match_len s ref ip maxlen;
       let len = n - 2;
       (out, op) \<leftarrow> lzf_put_ref out op off len;
       let st = st\<lparr>lz_ip := ip + 1 + (len + 1), lz_op := op + 1, lz_lit := 0, lz_out := out\<rparr>;
       if int in_len - 2 \<le> int (lz_ip st) then Some (LzfBreak st)
       else do { st \<leftarrow> lzf_rehash s st; Some (LzfNext st) } } }"

definition lzf_flush :: "lzf_state \<Rightarrow> lzf_state option" where
  "lzf_flush st =
     (if lz_lit st = MAX_LIT then do {
        out \<leftarrow> lzf_stop_run st;
        Some (st\<lparr>lz_lit := 0, lz_op := lz_op st + 1, lz_out := out\<rparr>) }
      else Some st)"

text \<open>\<open>lit++; *op++ = *ip++\<close> and the end of a full run.\<close>

definition lzf_copy_lit :: "bytes \<Rightarrow> lzf_state \<Rightarrow> lzf_state option" where
  "lzf_copy_lit s st = do {
     c \<leftarrow> arr_get s (lz_ip st);
     out \<leftarrow> arr_set (lz_out st) (lz_op st) c;
     lzf_flush (st\<lparr>lz_lit := lz_lit st + 1, lz_op := lz_op st + 1, lz_ip := lz_ip st + 1, lz_out := out\<rparr>) }"

definition lzf_literal :: "bytes \<Rightarrow> nat \<Rightarrow> lzf_state \<Rightarrow> lzf_iter_res option" where
  "lzf_literal s out_len st =
     (if out_len \<le> lz_op st then Some (LzfFail (lz_out st))
      else do { st \<leftarrow> lzf_copy_lit s st; Some (LzfNext st) })"

definition lzf_iter :: "bytes \<Rightarrow> nat \<Rightarrow> nat \<Rightarrow> lzf_state \<Rightarrow> lzf_iter_res option" where
  "lzf_iter s in_len out_len st = do {
     let ip = lz_ip st;
     hval \<leftarrow> lzf_NEXT s (lz_hval st) ip;
     let idx = lzf_IDX hval;
     let ref = lz_htab st idx;
     let st = st\<lparr>lz_hval := hval, lz_htab := (lz_htab st)(idx := int ip)\<rparr>;
     m \<leftarrow> lzf_match s in_len ip ref;
     if m then lzf_backref s in_len out_len (nat ref) st else lzf_literal s out_len st }"

lemma lzf_flush_ip: "lzf_flush st = Some st' \<Longrightarrow> lz_ip st' = lz_ip st"
  by (auto simp: lzf_flush_def split: if_splits bind_splits)

lemma lzf_iter_ip: "lzf_iter s in_len out_len st = Some (LzfNext st') \<Longrightarrow> lz_ip st < lz_ip st'"
  by (auto simp: lzf_iter_def lzf_literal_def lzf_copy_lit_def lzf_backref_def lzf_rehash_def Let_def
    split: if_splits bind_splits prod.splits dest!: lzf_flush_ip)

function lzf_loop :: "bytes \<Rightarrow> nat \<Rightarrow> nat \<Rightarrow> lzf_state \<Rightarrow> lzf_iter_res option" where
  "lzf_loop s in_len out_len st =
     (if int (lz_ip st) < int in_len - 2 then
        (case lzf_iter s in_len out_len st of
           Some (LzfNext st) \<Rightarrow> lzf_loop s in_len out_len st
         | r \<Rightarrow> r)
      else Some (LzfBreak st))"
  by pat_completeness auto
termination
  by (relation "measure (\<lambda>(s, in_len, out_len, st). in_len - lz_ip st)") (auto dest!: lzf_iter_ip)

declare lzf_loop.simps [simp del]

text \<open>The bytes left at the end.\<close>

function lzf_tail :: "bytes \<Rightarrow> nat \<Rightarrow> lzf_state \<Rightarrow> lzf_state option" where
  "lzf_tail s in_len st =
     (if lz_ip st < in_len then
        (case lzf_copy_lit s st of None \<Rightarrow> None | Some st \<Rightarrow> lzf_tail s in_len st)
      else Some st)"
  by pat_completeness auto
termination
  by (relation "measure (\<lambda>(s, in_len, st). in_len - lz_ip st)")
    (auto simp: lzf_copy_lit_def split: bind_splits dest!: lzf_flush_ip)

declare lzf_tail.simps [simp del]

text \<open>The result is the output buffer and the number of bytes used, 0 when they do not fit.\<close>

definition lzf_compress :: "(nat \<Rightarrow> int) \<Rightarrow> bytes \<Rightarrow> nat \<Rightarrow> bytes \<Rightarrow> nat \<Rightarrow> (bytes \<times> nat) option" where
  "lzf_compress htab s in_len out out_len =
     (if in_len = 0 \<or> out_len = 0 then Some (out, 0)
      else do {
        hval \<leftarrow> lzf_FRST s 0;
        r \<leftarrow> lzf_loop s in_len out_len
               \<lparr>lz_ip = 0, lz_op = 1, lz_lit = 0, lz_hval = hval, lz_htab = htab, lz_out = out\<rparr>;
        case r of
          LzfBreak st \<Rightarrow>
            if out_len < lz_op st + 3 then Some (lz_out st, 0)
            else do {
              st \<leftarrow> lzf_tail s in_len st;
              out \<leftarrow> lzf_stop_run st;
              Some (out, if lz_lit st = 0 then lz_op st - 1 else lz_op st) }
        | LzfFail out \<Rightarrow> Some (out, 0)
        | LzfNext st \<Rightarrow> None })"

section \<open>Decompression\<close>

datatype lzf_errno = E2BIG | EINVAL

text \<open>The byte-by-byte copy inside the output, which may overlap itself.\<close>

fun lzf_copy_ref :: "bytes \<Rightarrow> nat \<Rightarrow> nat \<Rightarrow> nat \<Rightarrow> bytes option" where
  "lzf_copy_ref out op ref 0 = Some out"
| "lzf_copy_ref out op ref (Suc n) = do {
     c \<leftarrow> arr_get out ref;
     out \<leftarrow> arr_set out op c;
     lzf_copy_ref out (op + 1) (ref + 1) n }"

definition lzf_d_literal ::
  "bytes \<Rightarrow> nat \<Rightarrow> bytes \<Rightarrow> nat \<Rightarrow> nat \<Rightarrow> nat \<Rightarrow> nat \<Rightarrow> (lzf_errno + bytes \<times> nat \<times> nat) option" where
  "lzf_d_literal s in_len out out_len ip op ctrl =
     (let ctrl = ctrl + 1 in
      if out_len < op + ctrl then Some (Inl E2BIG)
      else if in_len < ip + ctrl then Some (Inl EINVAL)
      else do {
        bs \<leftarrow> mem_read s ip ctrl;
        out \<leftarrow> mem_write out op bs;
        Some (Inr (out, ip + ctrl, op + ctrl)) })"

definition lzf_d_copy ::
  "bytes \<Rightarrow> bytes \<Rightarrow> nat \<Rightarrow> nat \<Rightarrow> nat \<Rightarrow> int \<Rightarrow> nat \<Rightarrow> (lzf_errno + bytes \<times> nat \<times> nat) option" where
  "lzf_d_copy s out out_len ip op ref len = do {
     b \<leftarrow> arr_get s ip;
     let ref = ref - int (unat b);
     if out_len < op + len + 2 then Some (Inl E2BIG)
     else if ref < 0 then Some (Inl EINVAL)
     else do {
       out \<leftarrow> lzf_copy_ref out op (nat ref) (len + 2);
       Some (Inr (out, ip + 1, op + len + 2)) } }"

definition lzf_d_backref ::
  "bytes \<Rightarrow> nat \<Rightarrow> bytes \<Rightarrow> nat \<Rightarrow> nat \<Rightarrow> nat \<Rightarrow> nat \<Rightarrow> (lzf_errno + bytes \<times> nat \<times> nat) option" where
  "lzf_d_backref s in_len out out_len ip op ctrl =
     (let len = ctrl div 32; ref = int op - int (ctrl mod 32 * 256) - 1 in
      if in_len \<le> ip then Some (Inl EINVAL)
      else if len = 7 then do {
        b \<leftarrow> arr_get s ip;
        if in_len \<le> ip + 1 then Some (Inl EINVAL)
        else lzf_d_copy s out out_len (ip + 1) op ref (len + unat b) }
      else lzf_d_copy s out out_len ip op ref len)"

definition lzf_d_step ::
  "bytes \<Rightarrow> nat \<Rightarrow> bytes \<Rightarrow> nat \<Rightarrow> nat \<Rightarrow> nat \<Rightarrow> (lzf_errno + bytes \<times> nat \<times> nat) option" where
  "lzf_d_step s in_len out out_len ip op = do {
     ctrl \<leftarrow> arr_get s ip;
     if unat ctrl < 32 then lzf_d_literal s in_len out out_len (ip + 1) op (unat ctrl)
     else lzf_d_backref s in_len out out_len (ip + 1) op (unat ctrl) }"

lemma lzf_d_step_ip:
  "lzf_d_step s in_len out out_len ip op = Some (Inr (out', ip', op')) \<Longrightarrow> ip < ip'"
  by (auto simp: lzf_d_step_def lzf_d_literal_def lzf_d_backref_def lzf_d_copy_def Let_def
    split: if_splits bind_splits)

function lzf_d_loop :: "bytes \<Rightarrow> nat \<Rightarrow> bytes \<Rightarrow> nat \<Rightarrow> nat \<Rightarrow> nat \<Rightarrow> (lzf_errno + bytes \<times> nat) option" where
  "lzf_d_loop s in_len out out_len ip op =
     (case lzf_d_step s in_len out out_len ip op of
        None \<Rightarrow> None
      | Some (Inl e) \<Rightarrow> Some (Inl e)
      | Some (Inr (out, ip, op)) \<Rightarrow>
          if ip < in_len then lzf_d_loop s in_len out out_len ip op else Some (Inr (out, op)))"
  by pat_completeness auto
termination
  by (relation "measure (\<lambda>(s, in_len, out, out_len, ip, op). in_len - ip)") (auto dest!: lzf_d_step_ip)

declare lzf_d_loop.simps [simp del]

definition lzf_decompress :: "bytes \<Rightarrow> nat \<Rightarrow> bytes \<Rightarrow> nat \<Rightarrow> (lzf_errno + bytes \<times> nat) option" where
  "lzf_decompress s in_len out out_len = lzf_d_loop s in_len out out_len 0 0"

section \<open>The compressed format\<close>

datatype lz_tok = TLit bytes | TRef nat nat

text \<open>\<open>TRef off n\<close> repeats \<open>n\<close> bytes from \<open>off+1\<close> bytes back.\<close>

primrec copy_back :: "bytes \<Rightarrow> nat \<Rightarrow> nat \<Rightarrow> bytes" where
  "copy_back acc d 0 = acc"
| "copy_back acc d (Suc n) = copy_back (acc @ [acc ! (length acc - d)]) d n"

fun tok_run :: "bytes \<Rightarrow> lz_tok \<Rightarrow> bytes" where
  "tok_run acc (TLit bs) = acc @ bs"
| "tok_run acc (TRef off n) = copy_back acc (off + 1) n"

fun tok_bytes :: "lz_tok \<Rightarrow> bytes" where
  "tok_bytes (TLit bs) = of_nat (length bs - 1) # bs"
| "tok_bytes (TRef off n) =
     (if n - 2 < 7 then [of_nat (off div 256 + (n - 2) * 32), of_nat off]
      else [of_nat (off div 256 + 7 * 32), of_nat (n - 2 - 7), of_nat off])"

fun tok_wf :: "bytes \<Rightarrow> lz_tok \<Rightarrow> bool" where
  "tok_wf acc (TLit bs) \<longleftrightarrow> 0 < length bs \<and> length bs \<le> 32"
| "tok_wf acc (TRef off n) \<longleftrightarrow> off < length acc \<and> off < 8192 \<and> 3 \<le> n \<and> n \<le> 264"

fun toks_wf :: "bytes \<Rightarrow> lz_tok list \<Rightarrow> bool" where
  "toks_wf acc [] \<longleftrightarrow> True"
| "toks_wf acc (t # ts) \<longleftrightarrow> tok_wf acc t \<and> toks_wf (tok_run acc t) ts"

definition toks_run :: "bytes \<Rightarrow> lz_tok list \<Rightarrow> bytes" where
  "toks_run = foldl tok_run"

definition toks_bytes :: "lz_tok list \<Rightarrow> bytes" where
  "toks_bytes ts = concat (map tok_bytes ts)"

lemma toks_simps [simp]:
  "toks_run acc [] = acc" "toks_run acc (t # ts) = toks_run (tok_run acc t) ts"
  "toks_run acc (ts @ us) = toks_run (toks_run acc ts) us"
  "toks_bytes [] = []" "toks_bytes (t # ts) = tok_bytes t @ toks_bytes ts"
  "toks_bytes (ts @ us) = toks_bytes ts @ toks_bytes us"
  by (simp_all add: toks_run_def toks_bytes_def)

lemma toks_wf_append [simp]: "toks_wf acc (ts @ us) \<longleftrightarrow> toks_wf acc ts \<and> toks_wf (toks_run acc ts) us"
  by (induction ts arbitrary: acc) auto

lemma length_copy_back [simp]: "length (copy_back acc d n) = length acc + n"
  by (induction n arbitrary: acc) auto

lemma length_tok_run: "tok_wf acc t \<Longrightarrow> length acc < length (tok_run acc t)"
  by (cases t) auto

lemma length_toks_run: "toks_wf acc ts \<Longrightarrow> length acc \<le> length (toks_run acc ts)"
proof (induction ts arbitrary: acc)
  case (Cons t ts)
  then have "length acc < length (tok_run acc t)" "length (tok_run acc t) \<le> length (toks_run (tok_run acc t) ts)"
    by (simp_all add: length_tok_run)
  then show ?case by simp
qed simp

subsection \<open>Decompression of a token stream\<close>

lemma lzf_copy_ref_Some:
  "length acc + n \<le> length (acc @ rest) \<Longrightarrow> 0 < d \<Longrightarrow> d \<le> length acc \<Longrightarrow>
   lzf_copy_ref (acc @ rest) (length acc) (length acc - d) n = Some (copy_back acc d n @ drop n rest)"
proof (induction n arbitrary: acc rest)
  case (Suc n)
  then obtain x r where r: "rest = x # r" by (cases rest) auto
  have "length acc - d < length acc" using Suc.prems by simp
  then have g: "(acc @ rest) ! (length acc - d) = acc ! (length acc - d)" by (simp add: nth_append)
  have e: "length acc - d + 1 = length (acc @ [y]) - d" for y using Suc.prems by simp
  have "lzf_copy_ref ((acc @ [acc ! (length acc - d)]) @ r) (length (acc @ [acc ! (length acc - d)]))
    (length (acc @ [acc ! (length acc - d)]) - d) n = Some (copy_back (acc @ [acc ! (length acc - d)]) d n @ drop n r)"
    by (rule Suc.IH) (use Suc.prems r in auto)
  moreover have "arr_set (acc @ rest) (length acc) y = Some ((acc @ [y]) @ r)" for y using r by (simp add: arr_set_def)
  ultimately show ?case using Suc.prems r g e by simp
qed simp

lemma byte_nat: "n < 256 \<Longrightarrow> unat (of_nat n :: byte) = n"
  by (simp add: unat_of_nat)

lemma lzf_d_step_tok:
  assumes "tok_wf acc t" "length (tok_run acc t) \<le> out_len" "out_len \<le> length (acc @ rest)"
    "length pre + length (tok_bytes t) \<le> in_len" "in_len \<le> length (pre @ tok_bytes t @ post)"
  shows "lzf_d_step (pre @ tok_bytes t @ post) in_len (acc @ rest) out_len (length pre) (length acc) =
    Some (Inr (tok_run acc t @ drop (length (tok_run acc t) - length acc) rest,
      length pre + length (tok_bytes t), length (tok_run acc t)))"
proof (cases t)
  case (TLit bs)
  then have l: "0 < length bs" "length bs \<le> 32" using assms(1) by auto
  have c: "unat (word_of_nat (length bs - 1) :: byte) = length bs - 1" "length bs - 1 < 32" "length bs - 1 + 1 = length bs"
    using l by (auto simp: byte_nat)
  have a: "arr_get (pre @ (word_of_nat (length bs - 1) # bs) @ post) (length pre) = Some (word_of_nat (length bs - 1))" by simp
  have "lzf_d_literal (pre @ (word_of_nat (length bs - 1) # bs) @ post) in_len (acc @ rest) out_len (length pre + 1) (length acc) (length bs - 1) =
    Some (Inr (acc @ bs @ drop (length bs) rest, length pre + 1 + length bs, length acc + length bs))"
    using assms TLit l by (simp add: lzf_d_literal_def c(3) Let_def mem_read_def)
  then show ?thesis using TLit a c unfolding lzf_d_step_def by simp
next
  case (TRef off n)
  then have w: "off < length acc" "off < 8192" "3 \<le> n" "n \<le> 264" using assms(1) by auto
  have q: "off div 256 < 32" using w by auto
  have copy: "lzf_copy_ref (acc @ rest) (length acc) (length acc - (off + 1)) (n - 2 + 2) = Some (copy_back acc (off + 1) n @ drop n rest)"
  proof -
    have "n - 2 + 2 = n" using w by simp
    then show ?thesis using lzf_copy_ref_Some [of acc n rest "off + 1"] assms TRef w by simp
  qed
  have ref: "int (length acc) - int (off div 256 * 256) - 1 - int (off mod 256) = int (length acc - (off + 1))"
  proof -
    have "int (off div 256 * 256) + int (off mod 256) = int off" by (simp only: flip: of_nat_add) simp
    moreover have "int (length acc - (off + 1)) = int (length acc) - int off - 1" using w by simp
    ultimately show ?thesis by linarith
  qed
  have m: "unat (word_of_nat off :: byte) = off mod 256" by (simp add: unat_of_nat)
  let ?s = "pre @ tok_bytes t @ post"
  have dc: "lzf_d_copy ?s (acc @ rest) out_len ip (length acc) (int (length acc) - int (off div 256 * 256) - 1) (n - 2) =
    Some (Inr (copy_back acc (off + 1) n @ drop n rest, ip + 1, length acc + n))"
    if "arr_get ?s ip = Some (word_of_nat off)" for ip
  proof -
    have n: "Suc (Suc (length acc + n - 2)) = length acc + n" "Suc (Suc (n - 2)) = n" using w by simp_all
    have u: "uint (word_of_nat off :: byte) = int (off mod 256)" using m by (metis of_nat_unat)
    have r: "int (length acc) - int (off div 256) * 256 - 1 - int (off mod 256) = int (length acc - Suc off)" using ref by simp
    then have "\<not> int (length acc) - int (off div 256) * 256 - 1 < int (off mod 256)" by linarith
    moreover have "nat (int (length acc) - (1 + int off)) = length acc - Suc off" using w by linarith
    ultimately show ?thesis using that copy assms(2) TRef w unfolding lzf_d_copy_def
      by (simp add: Let_def n u r del: of_nat_mod)
  qed
  show ?thesis
  proof (cases "n - 2 < 7")
    case True
    let ?c = "off div 256 + (n - 2) * 32"
    have c: "?c < 256" "?c div 32 = n - 2" "?c mod 32 = off div 256" "\<not> ?c < 32" using True q w by auto
    have s: "?s = pre @ [word_of_nat ?c, word_of_nat off] @ post" using TRef True by simp
    have g: "arr_get ?s (length pre) = Some (word_of_nat ?c)" "arr_get ?s (length pre + 1) = Some (word_of_nat off)"
      unfolding s by (simp_all add: nth_append)
    have "lzf_d_backref ?s in_len (acc @ rest) out_len (length pre + 1) (length acc) ?c =
      Some (Inr (copy_back acc (off + 1) n @ drop n rest, length pre + 1 + 1, length acc + n))"
      using dc [OF g(2)] c True assms(4) TRef by (simp add: lzf_d_backref_def Let_def)
    then show ?thesis using g(1) c byte_nat [OF c(1)] TRef True unfolding lzf_d_step_def by simp
  next
    case False
    let ?c = "off div 256 + 7 * 32"
    have c: "?c < 256" "?c div 32 = 7" "?c mod 32 = off div 256" "\<not> ?c < 32"
      using q by (auto simp: mod_add_right_eq [symmetric, of _ 224])
    have l1: "unat (word_of_nat (n - 2 - 7) :: byte) = n - 2 - 7" by (rule byte_nat) (use w in auto)
    have l: "unat (word_of_nat (n - 2 - 7) :: byte) = n - 2 - 7" "7 + (n - 2 - 7) = n - 2" by (rule l1) (use False in auto)
    have s: "?s = pre @ [word_of_nat ?c, word_of_nat (n - 2 - 7), word_of_nat off] @ post" using TRef False by simp
    have g: "arr_get ?s (length pre) = Some (word_of_nat ?c)" "arr_get ?s (length pre + 1) = Some (word_of_nat (n - 2 - 7))"
      "arr_get ?s (length pre + 1 + 1) = Some (word_of_nat off)"
      unfolding s by (simp_all add: nth_append)
    have "lzf_d_backref ?s in_len (acc @ rest) out_len (length pre + 1) (length acc) ?c =
      Some (Inr (copy_back acc (off + 1) n @ drop n rest, length pre + 1 + 1 + 1, length acc + n))"
      using dc [OF g(3)] c l g(2) False assms(4) TRef unfolding lzf_d_backref_def by (simp add: Let_def)
    then show ?thesis using g(1) c byte_nat [OF c(1)] TRef False unfolding lzf_d_step_def by simp
  qed
qed

lemma tok_bytes_nonempty [simp]: "tok_bytes t \<noteq> []" "0 < length (tok_bytes t)"
  by (cases t; simp)+

lemma lzf_d_loop_toks:
  "ts \<noteq> [] \<Longrightarrow> toks_wf acc ts \<Longrightarrow> length (toks_run acc ts) \<le> out_len \<Longrightarrow> out_len \<le> length (acc @ rest) \<Longrightarrow>
   \<exists>rest'. lzf_d_loop (pre @ toks_bytes ts @ post) (length (pre @ toks_bytes ts)) (acc @ rest) out_len (length pre) (length acc) =
     Some (Inr (toks_run acc ts @ rest', length (toks_run acc ts)))"
proof (induction ts arbitrary: acc rest pre)
  case (Cons t ts)
  have le: "length (tok_run acc t) \<le> length (toks_run acc (t # ts))" using length_toks_run [of "tok_run acc t" ts] Cons.prems(2) by simp
  let ?n = "length (tok_run acc t) - length acc"
  have step: "lzf_d_step (pre @ tok_bytes t @ toks_bytes ts @ post) (length (pre @ toks_bytes (t # ts))) (acc @ rest) out_len (length pre) (length acc) =
    Some (Inr (tok_run acc t @ drop ?n rest, length pre + length (tok_bytes t), length (tok_run acc t)))"
    by (rule lzf_d_step_tok) (use Cons.prems le in auto)
  show ?case
  proof (cases "ts = []")
    case True
    then show ?thesis using step by (subst lzf_d_loop.simps) auto
  next
    case False
    have "0 < length (toks_bytes ts)" using False by (cases ts) auto
    moreover have "\<exists>rest'. lzf_d_loop ((pre @ tok_bytes t) @ toks_bytes ts @ post) (length ((pre @ tok_bytes t) @ toks_bytes ts))
      (tok_run acc t @ drop ?n rest) out_len (length (pre @ tok_bytes t)) (length (tok_run acc t)) =
      Some (Inr (toks_run (tok_run acc t) ts @ rest', length (toks_run (tok_run acc t) ts)))"
      by (rule Cons.IH) (use Cons.prems False le length_tok_run [of acc t] in auto)
    ultimately show ?thesis using step by (subst lzf_d_loop.simps) (simp add: add.assoc)
  qed
qed simp

lemma lzf_decompress_toks:
  assumes "ts \<noteq> []" "toks_wf [] ts" "length (toks_run [] ts) \<le> out_len" "out_len \<le> length out"
  shows "\<exists>rest. lzf_decompress (toks_bytes ts @ post) (length (toks_bytes ts)) out out_len =
    Some (Inr (toks_run [] ts @ rest, length (toks_run [] ts)))"
  using lzf_d_loop_toks [OF assms(1,2,3), of out "[]" post] assms(4) by (simp add: lzf_decompress_def)


section \<open>The compressor writes the format\<close>

text \<open>
  The invariant: finished tokens that decode to the input before the current run, the literals of
  the current run behind its header, and positions inside both buffers.  The output buffer needs
  one byte more than \<open>out_len\<close>.
\<close>

definition lzf_inv :: "bytes \<Rightarrow> nat \<Rightarrow> lzf_state \<Rightarrow> bool" where
  "lzf_inv s out_len st \<longleftrightarrow> (\<exists>ts. toks_wf [] ts \<and> toks_run [] ts = take (lz_ip st - lz_lit st) s \<and>
     take (lz_op st - lz_lit st - 1) (lz_out st) = toks_bytes ts) \<and>
     take (lz_lit st) (drop (lz_op st - lz_lit st) (lz_out st)) = drop (lz_ip st - lz_lit st) (take (lz_ip st) s) \<and>
     lz_lit st < 32 \<and> lz_lit st \<le> lz_ip st \<and> lz_ip st \<le> length s \<and> lz_lit st + 1 \<le> lz_op st \<and>
     lz_op st \<le> out_len + 1 \<and> (0 < lz_lit st \<longrightarrow> lz_op st \<le> out_len) \<and> out_len < length (lz_out st)"

lemma lzf_invE:
  assumes "lzf_inv s out_len st"
  obtains ts hdr rest where "toks_wf [] ts" "toks_run [] ts = take (lz_ip st - lz_lit st) s"
    "lz_out st = toks_bytes ts @ hdr # drop (lz_ip st - lz_lit st) (take (lz_ip st) s) @ rest"
    "lz_op st = length (toks_bytes ts) + 1 + lz_lit st"
    "lz_lit st < 32" "lz_lit st \<le> lz_ip st" "lz_ip st \<le> length s"
    "lz_op st \<le> out_len + 1" "out_len < length (lz_out st)" "0 < lz_lit st \<longrightarrow> lz_op st \<le> out_len"
proof -
  obtain ts where t: "toks_wf [] ts" "toks_run [] ts = take (lz_ip st - lz_lit st) s"
    "take (lz_op st - lz_lit st - 1) (lz_out st) = toks_bytes ts"
    "take (lz_lit st) (drop (lz_op st - lz_lit st) (lz_out st)) = drop (lz_ip st - lz_lit st) (take (lz_ip st) s)"
    "lz_lit st < 32" "lz_lit st \<le> lz_ip st" "lz_ip st \<le> length s" "lz_lit st + 1 \<le> lz_op st"
    "lz_op st \<le> out_len + 1" "out_len < length (lz_out st)" "0 < lz_lit st \<longrightarrow> lz_op st \<le> out_len"
    using assms by (auto simp: lzf_inv_def)
  define h where "h = lz_op st - lz_lit st - 1"
  have h: "h < length (lz_out st)" "lz_op st - lz_lit st = Suc h" using t by (auto simp: h_def)
  define x where "x = lz_out st ! h"
  define r where "r = drop (lz_lit st) (drop (Suc h) (lz_out st))"
  have a: "take h (lz_out st) = toks_bytes ts" using t(3) by (simp only: h_def)
  have b: "take (lz_lit st) (drop (Suc h) (lz_out st)) = drop (lz_ip st - lz_lit st) (take (lz_ip st) s)"
    using t(4) unfolding h(2) .
  have c: "drop (Suc h) (lz_out st) = take (lz_lit st) (drop (Suc h) (lz_out st)) @ r"
    unfolding r_def by (rule append_take_drop_id [symmetric])
  have o: "lz_out st = toks_bytes ts @ x # drop (lz_ip st - lz_lit st) (take (lz_ip st) s) @ r"
    using id_take_nth_drop [OF h(1)] unfolding a c [unfolded b] x_def [symmetric] .
  have "length (toks_bytes ts) = h" using t(3) h by (metis h_def length_take min_absorb2 less_imp_le)
  moreover have "lz_op st = Suc (h + lz_lit st)" using h(2) t(8) by linarith
  ultimately show ?thesis using that [OF t(1,2) o] t by simp
qed

lemma lzf_invI:
  assumes "toks_wf [] ts" "toks_run [] ts = take (lz_ip st - lz_lit st) s"
    "lz_out st = toks_bytes ts @ hdr # drop (lz_ip st - lz_lit st) (take (lz_ip st) s) @ rest"
    "lz_op st = length (toks_bytes ts) + 1 + lz_lit st"
    "lz_lit st < 32" "lz_lit st \<le> lz_ip st" "lz_ip st \<le> length s" "lz_op st \<le> out_len + 1" "out_len < length (lz_out st)"
    "0 < lz_lit st \<longrightarrow> lz_op st \<le> out_len"
  shows "lzf_inv s out_len st"
  using assms unfolding lzf_inv_def by (auto intro!: exI [of _ ts])

lemma lzf_inv_cong: "lzf_inv s out_len st \<Longrightarrow> lz_ip st' = lz_ip st \<Longrightarrow> lz_op st' = lz_op st \<Longrightarrow>
  lz_lit st' = lz_lit st \<Longrightarrow> lz_out st' = lz_out st \<Longrightarrow> lzf_inv s out_len st'"
  by (simp add: lzf_inv_def)

text \<open>Closing the current run: its literals become a token, if there are any.\<close>

lemma lzf_stop_run_Some:
  assumes "lz_out st = toks_bytes ts @ hdr # lits @ rest" "lz_op st = length (toks_bytes ts) + 1 + lz_lit st"
    "length lits = lz_lit st"
  shows "lzf_stop_run st = Some (toks_bytes ts @ word_of_int (int (lz_lit st) - 1) # lits @ rest)"
  using assms by (simp add: lzf_stop_run_def)

definition lits_tok :: "bytes \<Rightarrow> lz_tok list" where
  "lits_tok lits = (if lits = [] then [] else [TLit lits])"

lemma header_byte: "0 < n \<Longrightarrow> word_of_int (int n - 1) = (word_of_nat (n - 1) :: byte)"
  by (simp add: of_nat_diff)

lemma lzf_flush_inv:
  assumes "toks_wf [] ts" "toks_run [] ts = take (lz_ip st - lz_lit st) s"
    "lz_out st = toks_bytes ts @ hdr # drop (lz_ip st - lz_lit st) (take (lz_ip st) s) @ rest"
    "lz_op st = length (toks_bytes ts) + 1 + lz_lit st" "0 < lz_lit st" "lz_lit st \<le> 32" "lz_lit st \<le> lz_ip st"
    "lz_ip st \<le> length s" "lz_op st \<le> out_len" "out_len < length (lz_out st)"
  shows "ensures (lzf_flush st) (\<lambda>st'. lzf_inv s out_len st' \<and> lz_ip st' = lz_ip st \<and> lz_op st' \<le> lz_op st + 1)"
proof (cases "lz_lit st = 32")
  case False
  have "lzf_inv s out_len st"
    using lzf_invI [OF assms(1-4) _ assms(7,8) _ assms(10)] assms(6,9) False by simp
  then show ?thesis using False by (simp add: lzf_flush_def MAX_LIT_def)
next
  case True
  let ?lits = "drop (lz_ip st - 32) (take (lz_ip st) s)"
  have l: "length ?lits = 32" using assms True by simp
  have "rest \<noteq> []"
  proof
    assume "rest = []"
    then have "length (lz_out st) = lz_op st" using assms(3,4) l True by simp
    then show False using assms(9,10) by simp
  qed
  then obtain x r where r: "rest = x # r" by (cases rest) auto
  have run: "lzf_stop_run st = Some (toks_bytes (ts @ [TLit ?lits]) @ x # r)"
    using lzf_stop_run_Some [of st ts hdr ?lits rest] assms(3,4) True l r by simp
  have d: "take (lz_ip st - 32) s @ ?lits = take (lz_ip st) s"
  proof -
    have "take (lz_ip st - 32) (take (lz_ip st) s) @ ?lits = take (lz_ip st) s" by (rule append_take_drop_id)
    then show ?thesis by simp
  qed
  have "lzf_inv s out_len (st\<lparr>lz_lit := 0, lz_op := lz_op st + 1, lz_out := toks_bytes (ts @ [TLit ?lits]) @ x # r\<rparr>)"
    by (rule lzf_invI [where ts = "ts @ [TLit ?lits]" and hdr = x and rest = r])
      (use assms True l r d in auto)
  then show ?thesis using run True by (simp add: lzf_flush_def MAX_LIT_def)
qed

lemma lzf_copy_lit_inv:
  assumes "lzf_inv s out_len st" "lz_ip st < length s" "lz_op st < out_len"
  shows "ensures (lzf_copy_lit s st) (\<lambda>st'. lzf_inv s out_len st' \<and> lz_ip st' = lz_ip st + 1 \<and> lz_op st' \<le> lz_op st + 2)"
proof -
  obtain ts hdr rest where i: "toks_wf [] ts" "toks_run [] ts = take (lz_ip st - lz_lit st) s"
    "lz_out st = toks_bytes ts @ hdr # drop (lz_ip st - lz_lit st) (take (lz_ip st) s) @ rest"
    "lz_op st = length (toks_bytes ts) + 1 + lz_lit st" "lz_lit st < 32" "lz_lit st \<le> lz_ip st" "lz_ip st \<le> length s"
    "lz_op st \<le> out_len + 1" "out_len < length (lz_out st)"
    using assms(1) by (rule lzf_invE)
  let ?lits = "drop (lz_ip st - lz_lit st) (take (lz_ip st) s)"
  have l: "length ?lits = lz_lit st" using i by simp
  have "rest \<noteq> []"
  proof
    assume "rest = []"
    then have "length (lz_out st) = lz_op st" using i(3,4) l by simp
    then show False using assms(3) i(9) by simp
  qed
  then obtain x r where r: "rest = x # r" by (cases rest) auto
  let ?c = "s ! lz_ip st"
  define st' where "st' = st\<lparr>lz_lit := lz_lit st + 1, lz_op := lz_op st + 1, lz_ip := lz_ip st + 1,
    lz_out := toks_bytes ts @ hdr # (?lits @ [?c]) @ r\<rparr>"
  have set: "arr_set (lz_out st) (lz_op st) ?c = Some (toks_bytes ts @ hdr # (?lits @ [?c]) @ r)"
    using i(3,4) l r by (simp add: arr_set_def list_update_append)
  have lits: "drop (lz_ip st' - lz_lit st') (take (lz_ip st') s) = ?lits @ [?c]"
    using i assms(2) by (simp add: st'_def take_Suc_conv_app_nth)
  have "ensures (lzf_flush st') (\<lambda>st2. lzf_inv s out_len st2 \<and> lz_ip st2 = lz_ip st' \<and> lz_op st2 \<le> lz_op st' + 1)"
    by (rule lzf_flush_inv [where ts = ts and hdr = hdr and rest = r])
      (use i assms(2,3) r in \<open>simp_all add: lits\<close>, simp_all add: st'_def)
  then have "ensures (lzf_flush st') (\<lambda>st2. lzf_inv s out_len st2 \<and> lz_ip st2 = lz_ip st + 1 \<and> lz_op st2 \<le> lz_op st + 2)"
    by (rule ensures_mono) (simp add: st'_def)
  then show ?thesis using set assms(2) by (simp add: lzf_copy_lit_def st'_def)
qed


subsection \<open>Matches\<close>

text \<open>
  What the code relies on for the contents of the hash table: no slot holds an address that wraps
  around to a position just before the input, that is, the input does not lie in the first 16 KB
  of the address space.
\<close>

definition htab_ok :: "(nat \<Rightarrow> int) \<Rightarrow> bool" where
  "htab_ok htab \<longleftrightarrow> (\<forall>i. htab i < 2 ^ 64 - 2 ^ 14)"

definition matches :: "bytes \<Rightarrow> nat \<Rightarrow> nat \<Rightarrow> nat \<Rightarrow> bool" where
  "matches s ref ip n \<longleftrightarrow> (\<forall>k < n. s ! (ref + k) = s ! (ip + k))"

lemma matches_Suc: "matches s ref ip (Suc n) \<longleftrightarrow> matches s ref ip n \<and> s ! (ref + n) = s ! (ip + n)"
  by (auto simp: matches_def less_Suc_eq)

lemma ulong_of_int_small:
  assumes "ulong_of_int (int ip - ref - 1) < MAX_OFF" "0 < ref" "ref < 2 ^ 64 - 2 ^ 14" "ip < 2 ^ 32"
  shows "ref < int ip \<and> int ip - ref - 1 < int MAX_OFF"
proof -
  have m: "(int ip - ref - 1) mod 2 ^ 64 < 8192" using assms(1) by (simp add: ulong_of_int_def MAX_OFF_def)
  have "0 \<le> int ip - ref - 1"
  proof (rule ccontr)
    assume n: "\<not> 0 \<le> int ip - ref - 1"
    have "(int ip - ref - 1) mod 2 ^ 64 = (int ip - ref - 1 + 2 ^ 64) mod 2 ^ 64" by (rule mod_add_self2 [symmetric])
    also have "\<dots> = int ip - ref - 1 + 2 ^ 64" using n assms(3,4) by (intro mod_pos_pos_trivial) auto
    finally show False using m assms(3) by simp
  qed
  moreover from this have "(int ip - ref - 1) mod 2 ^ 64 = int ip - ref - 1" using assms(2,4) by (intro mod_pos_pos_trivial) auto
  ultimately show ?thesis using m by (simp add: MAX_OFF_def)
qed

lemma lzf_match_Some:
  assumes "ref < 2 ^ 64 - 2 ^ 14" "int ip < int (length s) - 2" "length s < 2 ^ 32"
  shows "ensures (lzf_match s (length s) ip ref) (\<lambda>m. m \<longrightarrow>
    0 < ref \<and> nat ref < ip \<and> ip - nat ref - 1 < 8192 \<and> ip + 4 < length s \<and> matches s (nat ref) ip 3)"
proof (cases "ulong_of_int (int ip - ref - 1) < MAX_OFF \<and> ip + 4 < length s \<and> 0 < ref")
  case True
  then have r: "ref < int ip" "int ip - ref - 1 < int MAX_OFF" using ulong_of_int_small [of ip ref] assms by auto
  then have n: "nat ref < ip" "ip - nat ref - 1 < 8192" using True by (auto simp: MAX_OFF_def)
  have two: "take 2 (drop k s) = [s ! k, s ! (k + 1)]" if "k + 1 < length s" for k
    using that by (simp add: numeral_2_eq_2 take_Suc_conv_app_nth)
  have l: "nat ref + 2 < length s" "ip + 2 < length s" using n True by auto
  have "s ! (nat ref + k) = s ! (ip + k)"
    if "take 2 (drop (nat ref) s) = take 2 (drop ip s)" "s ! (nat ref + 2) = s ! (ip + 2)" "k < 3" for k
  proof -
    have "k = 0 \<or> k = 1 \<or> k = 2" using that(3) by linarith
    then show ?thesis using that two [of "nat ref"] two [of ip] l by auto
  qed
  then show ?thesis using True n l by (auto simp: lzf_match_def matches_def)
next
  case False
  then have "lzf_match s (length s) ip ref = Some False" by (simp only: lzf_match_def if_False)
  then show ?thesis by simp
qed

lemma lzf_len_16_Some:
  "matches s ref ip (len + 1) \<Longrightarrow> ip + len + k < length s \<Longrightarrow> ref < ip \<Longrightarrow>
   ensures (lzf_len_16 s ref ip len k) (\<lambda>(n, broke). if broke then len < n \<and> n \<le> len + k \<and> matches s ref ip n
     else n = len + k \<and> matches s ref ip (n + 1))"
proof (induction k arbitrary: len)
  case (Suc k)
  show ?case
  proof (cases "s ! (ref + (len + 1)) = s ! (ip + (len + 1))")
    case True
    have "ensures (lzf_len_16 s ref ip (len + 1) k) (\<lambda>(n, broke). if broke then len + 1 < n \<and> n \<le> len + 1 + k \<and> matches s ref ip n
      else n = len + 1 + k \<and> matches s ref ip (n + 1))"
      by (rule Suc.IH) (use Suc.prems True in \<open>auto simp: matches_Suc\<close>)
    then have "ensures (lzf_len_16 s ref ip (len + 1) k) (\<lambda>(n, broke). if broke then len < n \<and> n \<le> len + Suc k \<and> matches s ref ip n
      else n = len + Suc k \<and> matches s ref ip (n + 1))"
      by (rule ensures_mono) auto
    then show ?thesis using True Suc.prems by simp
  next
    case False
    then show ?thesis using Suc.prems by simp
  qed
qed simp

lemma lzf_len_rest_Some:
  "matches s ref ip (len + 1) \<Longrightarrow> ip + maxlen \<le> length s \<Longrightarrow> ref < ip \<Longrightarrow>
   ensures (lzf_len_rest s ref ip maxlen len) (\<lambda>n. len < n \<and> n \<le> max maxlen (len + 1) \<and> matches s ref ip n)"
proof (induction s ref ip maxlen len rule: lzf_len_rest.induct)
  case (1 s ref ip maxlen len)
  show ?case
  proof (cases "len + 1 < maxlen")
    case True
    have g: "arr_get s (ref + (len + 1)) = Some (s ! (ref + (len + 1)))" "arr_get s (ip + (len + 1)) = Some (s ! (ip + (len + 1)))"
      using True 1 by auto
    show ?thesis
    proof (cases "s ! (ref + (len + 1)) = s ! (ip + (len + 1))")
      case eq: True
      have "ensures (lzf_len_rest s ref ip maxlen (len + 1)) (\<lambda>n. len + 1 < n \<and> n \<le> max maxlen (len + 1 + 1) \<and> matches s ref ip n)"
        by (rule 1(1) [OF True g eq]) (use 1 eq in \<open>auto simp: matches_Suc\<close>)
      then have "ensures (lzf_len_rest s ref ip maxlen (len + 1)) (\<lambda>n. len < n \<and> n \<le> max maxlen (len + 1) \<and> matches s ref ip n)"
        by (rule ensures_mono) (use True in auto)
      then show ?thesis using True g eq by (subst lzf_len_rest.simps) simp
    next
      case False
      then show ?thesis using True g 1(2) by (subst lzf_len_rest.simps) simp
    qed
  next
    case False
    then show ?thesis using 1(2) by (subst lzf_len_rest.simps) simp
  qed
qed

lemma lzf_match_len_Some:
  assumes "matches s ref ip 3" "ref < ip" "ip + 4 < length s"
    "maxlen = (if MAX_REF < length s - ip - 2 then MAX_REF else length s - ip - 2)"
  shows "ensures (lzf_match_len s ref ip maxlen) (\<lambda>n. 3 \<le> n \<and> n \<le> 264 \<and> ip + n \<le> length s \<and> matches s ref ip n)"
proof -
  have m: "maxlen \<le> 264" "3 \<le> maxlen" "ip + maxlen + 2 \<le> length s" using assms(3,4) by (auto simp: MAX_REF_def)
  show ?thesis
  proof (cases "16 < maxlen")
    case False
    have "ensures (lzf_len_rest s ref ip maxlen 2) (\<lambda>n. 2 < n \<and> n \<le> max maxlen (2 + 1) \<and> matches s ref ip n)"
      by (rule lzf_len_rest_Some) (use assms m in auto)
    then have "ensures (lzf_len_rest s ref ip maxlen 2) (\<lambda>n. 3 \<le> n \<and> n \<le> 264 \<and> ip + n \<le> length s \<and> matches s ref ip n)"
      by (rule ensures_mono) (use m in auto)
    then show ?thesis using False by (simp add: lzf_match_len_def)
  next
    case True
    have "ensures (lzf_len_16 s ref ip 2 16 \<bind> (\<lambda>(len, broke). if broke then Some len else lzf_len_rest s ref ip maxlen len))
      (\<lambda>n. 3 \<le> n \<and> n \<le> 264 \<and> ip + n \<le> length s \<and> matches s ref ip n)"
    proof (rule ensures_bindI [OF lzf_len_16_Some])
      fix x assume x: "case x of (n, broke) \<Rightarrow> if broke then 2 < n \<and> n \<le> 2 + 16 \<and> matches s ref ip n
        else n = 2 + 16 \<and> matches s ref ip (n + 1)"
      show "ensures (case x of (len, broke) \<Rightarrow> if broke then Some len else lzf_len_rest s ref ip maxlen len)
        (\<lambda>n. 3 \<le> n \<and> n \<le> 264 \<and> ip + n \<le> length s \<and> matches s ref ip n)"
      proof (cases x)
        case (Pair n broke)
        have "ensures (lzf_len_rest s ref ip maxlen 18) (\<lambda>n. 3 \<le> n \<and> n \<le> 264 \<and> ip + n \<le> length s \<and> matches s ref ip n)"
          if "matches s ref ip (18 + 1)"
          by (rule ensures_mono [OF lzf_len_rest_Some [OF that]]) (use m True assms(2) in auto)
        then show ?thesis using x Pair m True by (cases broke) auto
      qed
    qed (use assms m True in \<open>auto\<close>)
    then show ?thesis using True by (simp add: lzf_match_len_def)
  qed
qed

lemma copy_back_matches:
  "matches s ref ip n \<Longrightarrow> ref < ip \<Longrightarrow> ip + n \<le> length s \<Longrightarrow> copy_back (take ip s) (ip - ref) n = take (ip + n) s"
proof (induction n arbitrary: ref ip)
  case (Suc n)
  have m: "s ! (ref + k) = s ! (ip + k)" if "k < Suc n" for k using Suc.prems(1) that by (simp add: matches_def)
  have "take ip s @ [take ip s ! (ip - (ip - ref))] = take (Suc ip) s"
    using Suc.prems m [of 0] by (simp add: take_Suc_conv_app_nth)
  moreover have "matches s (Suc ref) (Suc ip) n" using m [of "Suc k" for k] by (auto simp: matches_def)
  then have "copy_back (take (Suc ip) s) (Suc ip - Suc ref) n = take (Suc ip + n) s"
    by (rule Suc.IH) (use Suc.prems in auto)
  ultimately show ?case using Suc.prems by simp
qed simp


lemma lzf_put_ref_Some:
  assumes "length rest = length (tok_bytes (TRef off n)) + k" "3 \<le> n"
  shows "lzf_put_ref (pre @ rest) (length pre) off (n - 2) =
    Some (pre @ tok_bytes (TRef off n) @ drop (length (tok_bytes (TRef off n))) rest, length pre + length (tok_bytes (TRef off n)))"
proof (cases "n - 2 < 7")
  case True
  then obtain a b r where "rest = a # b # r" using assms(1) by (cases rest; cases "tl rest") auto
  then show ?thesis using True by (simp add: lzf_put_ref_def arr_set_def list_update_append)
next
  case False
  then obtain a b c r where "rest = a # b # c # r" using assms(1) by (cases rest; cases "tl rest"; cases "tl (tl rest)") auto
  then show ?thesis using False by (simp add: lzf_put_ref_def arr_set_def list_update_append)
qed

lemma length_tok_ref: "length (tok_bytes (TRef off n)) \<le> 3"
  by simp

text \<open>Closing the run before a back reference: the tokens now cover the input up to \<open>ip\<close>.\<close>

lemma lzf_close_run:
  assumes "lzf_inv s out_len st"
  shows "\<exists>ts rest. lzf_stop_run st = Some (toks_bytes ts @ rest) \<and> toks_wf [] ts \<and> toks_run [] ts = take (lz_ip st) s \<and>
    length (toks_bytes ts) = (if lz_lit st = 0 then lz_op st - 1 else lz_op st) \<and> length (toks_bytes ts) \<le> out_len \<and>
    out_len < length (toks_bytes ts @ rest)"
proof -
  obtain ts hdr rest where i: "toks_wf [] ts" "toks_run [] ts = take (lz_ip st - lz_lit st) s"
    "lz_out st = toks_bytes ts @ hdr # drop (lz_ip st - lz_lit st) (take (lz_ip st) s) @ rest"
    "lz_op st = length (toks_bytes ts) + 1 + lz_lit st" "lz_lit st < 32" "lz_lit st \<le> lz_ip st" "lz_ip st \<le> length s"
    "lz_op st \<le> out_len + 1" "out_len < length (lz_out st)" "0 < lz_lit st \<longrightarrow> lz_op st \<le> out_len"
    using assms by (rule lzf_invE)
  let ?lits = "drop (lz_ip st - lz_lit st) (take (lz_ip st) s)"
  have l: "length ?lits = lz_lit st" using i by simp
  have run: "lzf_stop_run st = Some (toks_bytes ts @ word_of_int (int (lz_lit st) - 1) # ?lits @ rest)"
    using i(3,4) l by (intro lzf_stop_run_Some)
  have olen: "length (lz_out st) = length (toks_bytes ts @ word_of_int (int (lz_lit st) - 1) # ?lits @ rest)"
    unfolding i(3) by simp
  show ?thesis
  proof (cases "lz_lit st = 0")
    case True
    then show ?thesis using run i olen
      by (intro exI [of _ ts] exI [of _ "word_of_int (int (lz_lit st) - 1) # ?lits @ rest"]) simp
  next
    case False
    have d: "take (lz_ip st - lz_lit st) s @ ?lits = take (lz_ip st) s"
    proof -
      have "take (lz_ip st - lz_lit st) (take (lz_ip st) s) @ ?lits = take (lz_ip st) s" by (rule append_take_drop_id)
      then show ?thesis by simp
    qed
    have e: "toks_bytes (ts @ [TLit ?lits]) @ rest = toks_bytes ts @ word_of_int (int (lz_lit st) - 1) # ?lits @ rest"
      using False header_byte [of "lz_lit st"] l by simp
    then show ?thesis using run i olen d l False
      by (intro exI [of _ "ts @ [TLit ?lits]"] exI [of _ rest]) auto
  qed
qed

definition lzf_ok :: "bytes \<Rightarrow> nat \<Rightarrow> lzf_state \<Rightarrow> bool" where
  "lzf_ok s out_len st \<longleftrightarrow> lzf_inv s out_len st \<and> htab_ok (lz_htab st)"

lemma lzf_rehash_ok:
  assumes "lzf_ok s out_len st" "2 \<le> lz_ip st" "int (lz_ip st) < int (length s) - 2" "length s < 2 ^ 32"
  shows "ensures (lzf_rehash s st) (lzf_ok s out_len)"
proof -
  have "lz_ip st + 2 < length s" using assms(3) by linarith
  then have "ensures (lzf_rehash s st) (\<lambda>st'. lz_ip st' = lz_ip st \<and> lz_op st' = lz_op st \<and> lz_lit st' = lz_lit st \<and>
    lz_out st' = lz_out st \<and> htab_ok (lz_htab st'))"
    using assms by (simp add: lzf_rehash_def lzf_FRST_def lzf_NEXT_def Let_def htab_ok_def lzf_ok_def)
  then show ?thesis using assms(1) by (elim ensures_mono) (auto simp: lzf_ok_def intro: lzf_inv_cong)
qed

definition lzf_result_ok :: "bytes \<Rightarrow> nat \<Rightarrow> lzf_iter_res \<Rightarrow> bool" where
  "lzf_result_ok s out_len r \<longleftrightarrow> (case r of
     LzfFail out \<Rightarrow> True
   | LzfBreak st \<Rightarrow> lzf_ok s out_len st \<and> int (length s) - 2 \<le> int (lz_ip st)
   | LzfNext st \<Rightarrow> lzf_ok s out_len st)"

lemma lzf_backref_ok:
  assumes "lzf_ok s out_len st" "matches s ref (lz_ip st) 3" "0 < ref" "ref < lz_ip st" "lz_ip st - ref - 1 < 8192"
    "lz_ip st + 4 < length s" "length s < 2 ^ 32"
  shows "ensures (lzf_backref s (length s) out_len ref st) (lzf_result_ok s out_len)"
proof -
  let ?ip = "lz_ip st"
  let ?maxlen = "if MAX_REF < length s - ?ip - 2 then MAX_REF else length s - ?ip - 2"
  obtain ts rest where c: "lzf_stop_run st = Some (toks_bytes ts @ rest)" "toks_wf [] ts" "toks_run [] ts = take ?ip s"
    "length (toks_bytes ts) = (if lz_lit st = 0 then lz_op st - 1 else lz_op st)" "out_len < length (toks_bytes ts @ rest)"
    using lzf_close_run [of s out_len st] assms(1) by (auto simp: lzf_ok_def)
  define op where "op = (if lz_lit st = 0 then lz_op st - 1 else lz_op st)"
  have op: "op = length (toks_bytes ts)" using c(4) by (simp add: op_def)
  show ?thesis
  proof (cases "out_len \<le> op + 3 + 1")
    case True
    then show ?thesis using c by (simp add: lzf_backref_def Let_def lzf_result_ok_def flip: op_def)
  next
    case False
    obtain n where n: "lzf_match_len s ref ?ip ?maxlen = Some n" "3 \<le> n" "n \<le> 264" "?ip + n \<le> length s" "matches s ref ?ip n"
      using lzf_match_len_Some [OF assms(2,4,6), of ?maxlen] by (auto elim!: ensuresE)
    define off where "off = ?ip - ref - 1"
    define t where "t = TRef off n"
    have t3: "length (tok_bytes t) \<le> 3" using length_tok_ref by (simp only: t_def)
    have ro: "length rest = length (tok_bytes t) + (length rest - length (tok_bytes t))" "0 < length rest - length (tok_bytes t)"
      using c(5) False op t3 by auto
    obtain x r where r: "drop (length (tok_bytes t)) rest = x # r" using ro(2) by (cases "drop (length (tok_bytes t)) rest") auto
    have put: "lzf_put_ref (toks_bytes ts @ rest) op off (n - 2) =
      Some (toks_bytes (ts @ [t]) @ x # r, length (toks_bytes (ts @ [t])))"
      using lzf_put_ref_Some [OF ro(1) [unfolded t_def] n(2), of "toks_bytes ts"] r op by (simp add: t_def del: tok_bytes.simps)
    define st' where "st' = st\<lparr>lz_ip := ?ip + n, lz_op := length (toks_bytes (ts @ [t])) + 1, lz_lit := 0, lz_out := toks_bytes (ts @ [t]) @ x # r\<rparr>"
    have wf: "tok_wf (take ?ip s) t" using assms n by (auto simp: t_def off_def)
    have "tok_run (take ?ip s) t = take (?ip + n) s"
      using copy_back_matches [OF n(5) assms(4) n(4)] assms(4) by (simp add: t_def off_def Suc_diff_Suc)
    then have run: "toks_run [] (ts @ [t]) = take (?ip + n) s" using c(3) by simp
    have ll: "length (toks_bytes ts @ rest) = length (toks_bytes (ts @ [t]) @ x # r)"
      using arg_cong [OF r, of length] ro by simp
    have inv: "lzf_inv s out_len st'"
      by (rule lzf_invI [where ts = "ts @ [t]" and hdr = x and rest = r])
        (use c wf run n False op t3 ll in \<open>auto simp: st'_def\<close>)
    then have ok: "lzf_ok s out_len st'" using assms(1) by (simp add: lzf_ok_def st'_def)
    have ipn: "?ip + 1 + (n - 2 + 1) = ?ip + n" using n by simp
    have "lzf_backref s (length s) out_len ref st =
      (if int (length s) - 2 \<le> int (lz_ip st') then Some (LzfBreak st') else do { st \<leftarrow> lzf_rehash s st'; Some (LzfNext st) })"
      unfolding lzf_backref_def Let_def c(1) bind.bind_lunit op_def [symmetric] off_def [symmetric]
      using False n(1) put ipn by (simp add: st'_def del: One_nat_def cong: if_cong)
    moreover have "ensures (do { st \<leftarrow> lzf_rehash s st'; Some (LzfNext st) }) (lzf_result_ok s out_len)" if "\<not> int (length s) - 2 \<le> int (lz_ip st')"
      by (rule ensures_bindI [OF lzf_rehash_ok [OF ok]]) (use that n assms in \<open>auto simp: st'_def lzf_result_ok_def\<close>)
    ultimately show ?thesis using ok by (auto simp: lzf_result_ok_def)
  qed
qed

lemma lzf_iter_ok:
  assumes "lzf_ok s out_len st" "int (lz_ip st) < int (length s) - 2" "length s < 2 ^ 32"
  shows "ensures (lzf_iter s (length s) out_len st) (lzf_result_ok s out_len)"
proof -
  let ?ip = "lz_ip st"
  have ip: "?ip + 2 < length s" using assms(2) by linarith
  obtain hval where h: "lzf_NEXT s (lz_hval st) ?ip = Some hval" using ip by (auto simp: lzf_NEXT_def)
  define ref where "ref = lz_htab st (lzf_IDX hval)"
  define st' where "st' = st\<lparr>lz_hval := hval, lz_htab := (lz_htab st)(lzf_IDX hval := int ?ip)\<rparr>"
  have ok: "lzf_ok s out_len st'" using assms ip by (auto simp: lzf_ok_def st'_def htab_ok_def elim: lzf_inv_cong)
  have r: "ref < 2 ^ 64 - 2 ^ 14" using assms(1) by (simp add: ref_def lzf_ok_def htab_ok_def)
  have lit: "ensures (lzf_literal s out_len st') (lzf_result_ok s out_len)"
  proof (cases "out_len \<le> lz_op st'")
    case True
    then show ?thesis by (simp add: lzf_literal_def lzf_result_ok_def)
  next
    case False
    have "ensures (lzf_copy_lit s st') (\<lambda>st2. lzf_inv s out_len st2 \<and> lz_ip st2 = lz_ip st' + 1 \<and> lz_op st2 \<le> lz_op st' + 2)"
      by (rule lzf_copy_lit_inv) (use ok ip False in \<open>auto simp: lzf_ok_def st'_def\<close>)
    moreover have "lz_htab st2 = lz_htab st'" if "lzf_copy_lit s st' = Some st2" for st2
      using that by (auto simp: lzf_copy_lit_def lzf_flush_def split: bind_splits if_splits)
    ultimately show ?thesis using False ok by (auto simp: lzf_literal_def lzf_result_ok_def lzf_ok_def elim!: ensuresE)
  qed
  have "lzf_iter s (length s) out_len st =
    lzf_match s (length s) ?ip ref \<bind> (\<lambda>m. if m then lzf_backref s (length s) out_len (nat ref) st' else lzf_literal s out_len st')"
    unfolding lzf_iter_def Let_def h bind.bind_lunit ref_def st'_def ..
  moreover have "ensures \<dots> (lzf_result_ok s out_len)"
  proof (rule ensures_bindI [OF lzf_match_Some [OF r assms(2,3)]])
    fix m assume m: "m \<longrightarrow> 0 < ref \<and> nat ref < ?ip \<and> ?ip - nat ref - 1 < 8192 \<and> ?ip + 4 < length s \<and> matches s (nat ref) ?ip 3"
    show "ensures (if m then lzf_backref s (length s) out_len (nat ref) st' else lzf_literal s out_len st') (lzf_result_ok s out_len)"
    proof (cases m)
      case True
      have "ensures (lzf_backref s (length s) out_len (nat ref) st') (lzf_result_ok s out_len)"
        by (rule lzf_backref_ok [OF ok]) (use m True assms in \<open>auto simp: st'_def\<close>)
      then show ?thesis using True by simp
    qed (use lit in simp)
  qed
  ultimately show ?thesis by simp
qed

lemma lzf_loop_ok:
  assumes "length s < 2 ^ 32"
  shows "lzf_ok s out_len st \<Longrightarrow>
    ensures (lzf_loop s (length s) out_len st) (\<lambda>r. lzf_result_ok s out_len r \<and> (\<forall>st'. r \<noteq> LzfNext st'))"
proof (induction "length s - lz_ip st" arbitrary: st rule: less_induct)
  case less
  show ?case
  proof (cases "int (lz_ip st) < int (length s) - 2")
    case True
    obtain r where r: "lzf_iter s (length s) out_len st = Some r" "lzf_result_ok s out_len r"
      using lzf_iter_ok [OF less.prems True assms] by (auto elim!: ensuresE)
    show ?thesis
    proof (cases r)
      case (LzfNext st')
      have "lz_ip st < lz_ip st'" using r(1) LzfNext lzf_iter_ip by blast
      then have "ensures (lzf_loop s (length s) out_len st') (\<lambda>r. lzf_result_ok s out_len r \<and> (\<forall>st'. r \<noteq> LzfNext st'))"
        by (intro less.hyps) (use True r(2) LzfNext in \<open>auto simp: lzf_result_ok_def\<close>)
      then show ?thesis using True r LzfNext by (subst lzf_loop.simps) simp
    qed (use True r in \<open>subst lzf_loop.simps, simp\<close>)+
  next
    case False
    then show ?thesis using less.prems by (subst lzf_loop.simps) (simp add: lzf_result_ok_def)
  qed
qed

lemma lzf_tail_ok:
  assumes "lzf_inv s out_len st" "lz_op st + 3 \<le> out_len" "int (length s) - 2 \<le> int (lz_ip st)"
  shows "ensures (lzf_tail s (length s) st) (\<lambda>st'. lzf_inv s out_len st' \<and> lz_ip st' = length s)"
proof -
  have le: "lz_ip st \<le> length s" using assms(1) by (simp add: lzf_inv_def)
  have base: "ensures (lzf_tail s (length s) st) (\<lambda>st'. lzf_inv s out_len st' \<and> lz_ip st' = length s)"
    if "lzf_inv s out_len st" "lz_ip st = length s" for st
    using that by (subst lzf_tail.simps) simp
  have one: "ensures (lzf_tail s (length s) st) (\<lambda>st'. lzf_inv s out_len st' \<and> lz_ip st' = length s)"
    if st: "lzf_inv s out_len st" "Suc (lz_ip st) = length s" "lz_op st < out_len" for st
  proof -
    obtain st' where "lzf_copy_lit s st = Some st'" "lzf_inv s out_len st'" "lz_ip st' = lz_ip st + 1"
      using lzf_copy_lit_inv [OF st(1) _ st(3)] st(2) by (auto elim!: ensuresE)
    then show ?thesis using st base [of st'] by (subst lzf_tail.simps) simp
  qed
  consider "lz_ip st = length s" | "Suc (lz_ip st) = length s" | "Suc (Suc (lz_ip st)) = length s" using assms(3) le by linarith
  then show ?thesis
  proof cases
    case 3
    obtain st' where "lzf_copy_lit s st = Some st'" "lzf_inv s out_len st'" "lz_ip st' = lz_ip st + 1" "lz_op st' \<le> lz_op st + 2"
      using lzf_copy_lit_inv [OF assms(1)] assms(2) 3 by (auto elim!: ensuresE)
    then show ?thesis using 3 assms(2) one [of st'] by (subst lzf_tail.simps) simp
  qed (use assms base one in auto)
qed

lemma lzf_compress_toks:
  assumes "2 \<le> length s" "length s < 2 ^ 32" "out_len < length out" "htab_ok htab"
  shows "ensures (lzf_compress htab s (length s) out out_len) (\<lambda>(out', n). n = 0 \<or>
    (n \<le> out_len \<and> (\<exists>ts. ts \<noteq> [] \<and> toks_wf [] ts \<and> toks_run [] ts = s \<and> take n out' = toks_bytes ts \<and> n = length (toks_bytes ts))))"
    (is "ensures _ ?P")
proof (cases "out_len = 0")
  case True
  then show ?thesis by (simp add: lzf_compress_def)
next
  case False
  have "0 < length s" "1 < length s" using assms(1) by auto
  then obtain hval where h: "lzf_FRST s 0 = Some hval" by (auto simp: lzf_FRST_def)
  let ?st = "\<lparr>lz_ip = 0, lz_op = 1, lz_lit = 0, lz_hval = hval, lz_htab = htab, lz_out = out\<rparr>"
  obtain x o1 where o: "out = x # o1" using assms(3) by (cases out) auto
  have inv: "lzf_inv s out_len ?st"
    by (rule lzf_invI [where ts = "[]" and hdr = x and rest = o1]) (use assms o False in auto)
  then have ok: "lzf_ok s out_len ?st" using assms(4) by (simp add: lzf_ok_def)
  obtain r where r: "lzf_loop s (length s) out_len ?st = Some r" "lzf_result_ok s out_len r" "\<forall>st'. r \<noteq> LzfNext st'"
    using lzf_loop_ok [OF assms(2) ok] by (auto elim!: ensuresE)
  have e: "lzf_compress htab s (length s) out out_len = (case r of
          LzfBreak st \<Rightarrow>
            if out_len < lz_op st + 3 then Some (lz_out st, 0)
            else do {
              st \<leftarrow> lzf_tail s (length s) st;
              out \<leftarrow> lzf_stop_run st;
              Some (out, if lz_lit st = 0 then lz_op st - 1 else lz_op st) }
        | LzfFail out \<Rightarrow> Some (out, 0)
        | LzfNext st \<Rightarrow> None)"
    using assms(1) False h r(1) by (auto simp: lzf_compress_def)
  show ?thesis
  proof (cases r)
    case (LzfBreak st)
    show ?thesis
    proof (cases "out_len < lz_op st + 3")
      case small: False
      have "ensures (lzf_tail s (length s) st \<bind> (\<lambda>st. lzf_stop_run st \<bind> (\<lambda>out.
          Some (out, if lz_lit st = 0 then lz_op st - 1 else lz_op st)))) ?P"
      proof (rule ensures_bindI [OF lzf_tail_ok])
        fix st' assume st': "lzf_inv s out_len st' \<and> lz_ip st' = length s"
        then obtain ts rest where c: "lzf_stop_run st' = Some (toks_bytes ts @ rest)" "toks_wf [] ts" "toks_run [] ts = s"
          "length (toks_bytes ts) = (if lz_lit st' = 0 then lz_op st' - 1 else lz_op st')" "length (toks_bytes ts) \<le> out_len"
          using lzf_close_run [of s out_len st'] by auto
        have "ts \<noteq> []" using c(3) assms(1) by auto
        then show "ensures (lzf_stop_run st' \<bind> (\<lambda>out. Some (out, if lz_lit st' = 0 then lz_op st' - 1 else lz_op st'))) ?P"
          using c unfolding c(4) [symmetric] by auto
      qed (use r LzfBreak small in \<open>auto simp: lzf_result_ok_def lzf_ok_def\<close>)
      then show ?thesis using e LzfBreak small by simp
    qed (use e LzfBreak in simp)
  qed (use e r(3) in auto)
qed

section \<open>Properties\<close>

text \<open>
  C11: whatever the uninitialised hash table contains, \<open>lzf_compress\<close> terminates inside its
  buffers (the output needs one byte more than \<open>out_len\<close>), and when it reports success
  \<open>lzf_decompress\<close> restores exactly the input.
\<close>

theorem lzf_roundtrip:
  assumes "2 \<le> length s" "length s < 2 ^ 32" "out_len < length out" "htab_ok htab"
    "length s \<le> len2" "len2 \<le> length out2"
  shows "\<exists>out' n. lzf_compress htab s (length s) out out_len = Some (out', n) \<and> n \<le> out_len \<and>
    (n \<noteq> 0 \<longrightarrow> (\<exists>rest. lzf_decompress out' n out2 len2 = Some (Inr (s @ rest, length s))))"
proof -
  obtain out' n where c: "lzf_compress htab s (length s) out out_len = Some (out', n)" "n = 0 \<or>
    (n \<le> out_len \<and> (\<exists>ts. ts \<noteq> [] \<and> toks_wf [] ts \<and> toks_run [] ts = s \<and> take n out' = toks_bytes ts \<and> n = length (toks_bytes ts)))"
    using lzf_compress_toks [OF assms(1-4)] by (auto elim!: ensuresE)
  have "\<exists>rest. lzf_decompress out' n out2 len2 = Some (Inr (s @ rest, length s))" if nz: "n \<noteq> 0"
  proof -
    obtain ts where t: "ts \<noteq> []" "toks_wf [] ts" "toks_run [] ts = s" "take n out' = toks_bytes ts" "n = length (toks_bytes ts)"
      using c(2) nz by blast
    have e: "toks_bytes ts @ drop n out' = out'" using append_take_drop_id [of n out'] t(4) by simp
    obtain rest where "lzf_decompress (toks_bytes ts @ drop n out') (length (toks_bytes ts)) out2 len2 =
        Some (Inr (toks_run [] ts @ rest, length (toks_run [] ts)))"
      using lzf_decompress_toks [OF t(1,2), of len2 out2 "drop n out'"] t(3) assms(5,6) by auto
    then show ?thesis unfolding e t(3) t(5) [symmetric] by blast
  qed
  then show ?thesis using c by auto
qed

theorem lzf_roundtrip_witness:
  "\<exists>out' n. lzf_compress (\<lambda>i. - 5) [7, 7, 7, 7, 7, 7, 7, 7] 8 (replicate 9 0) 8 = Some (out', n) \<and> n \<le> 8 \<and>
    (n \<noteq> 0 \<longrightarrow> (\<exists>rest. lzf_decompress out' n (replicate 8 0) 8 = Some (Inr ([7, 7, 7, 7, 7, 7, 7, 7] @ rest, 8))))"
proof -
  have l: "length [7, 7, 7, 7, 7, 7, 7, 7 :: byte] = 8" by simp
  show ?thesis
    by (rule lzf_roundtrip [of "[7, 7, 7, 7, 7, 7, 7, 7]" 8 "replicate 9 0" "\<lambda>i. - 5" 8 "replicate 8 0", unfolded l])
      (simp_all add: htab_ok_def)
qed

end
