(* ===== verification/Server.thy ===== *)
theory Server
  imports Numbers Refinement "HOL-Library.Signed_Division"
begin

text \<open>
  The state of the server that commands work on (\<open>redis.h\<close>), and the execution of a command by \<open>call\<close> of
  \<open>redis.c\<close> with the propagation to the append only file and to the slaves.  Clients live in a heap indexed by their address, so a stale pointer is an
  undefined access.  Keys, channels and arguments are byte strings; a dictionary is a map, which
  the hash tables implement.  A set of bit flags is a set.  Calls that leave the modelled part (the command
  procedures behind their function pointers, the eviction of keys, the clients blocked on lists, the order in
  which an iterator meets the keys of a dictionary) are functions of the record \<open>hooks\<close>; what the server sends to monitors, the append only file, the
  slaves and the slow log is recorded as a sequence of events.
\<close>

section \<open>State\<close>

type_synonym cid = nat
type_synonym dbid = nat

datatype client_flag = REDIS_SLAVE | REDIS_MASTER | REDIS_MONITOR | REDIS_MULTI | REDIS_BLOCKED | REDIS_DIRTY_CAS
  | REDIS_CLOSE_AFTER_REPLY | REDIS_UNBLOCKED | REDIS_LUA_CLIENT | REDIS_ASKING | REDIS_CLOSE_ASAP
  | REDIS_UNIX_SOCKET | REDIS_DIRTY_EXEC | REDIS_MASTER_FORCE_REPLY | REDIS_FORCE_AOF | REDIS_FORCE_REPL
  | REDIS_PRE_PSYNC | REDIS_READONLY | REDIS_PUBSUB

datatype cmd_flag = REDIS_CMD_WRITE | REDIS_CMD_READONLY | REDIS_CMD_DENYOOM | REDIS_CMD_NOT_USED_1
  | REDIS_CMD_ADMIN | REDIS_CMD_PUBSUB | REDIS_CMD_NOSCRIPT | REDIS_CMD_RANDOM | REDIS_CMD_SORT_FOR_SCRIPT
  | REDIS_CMD_LOADING | REDIS_CMD_STALE | REDIS_CMD_SKIP_MONITOR | REDIS_CMD_ASKING | REDIS_CMD_FAST

text \<open>The command procedures that the code compares with, and all others.\<close>

datatype command_proc = Auth_proc | Ping_proc | Subscribe_proc | Unsubscribe_proc | Psubscribe_proc
  | Punsubscribe_proc | Replconf_proc | Shutdown_proc | Script_proc | Exec_proc | Discard_proc | Multi_proc
  | Watch_proc | Other_proc nat

record redisCommand =
  cmd_name :: bytes
  cmd_proc :: command_proc
  cmd_arity :: int
  cmd_flags :: "cmd_flag set"

datatype call_flag = REDIS_CALL_SLOWLOG | REDIS_CALL_STATS | REDIS_CALL_PROPAGATE

datatype propagate_flag = REDIS_PROPAGATE_AOF | REDIS_PROPAGATE_REPL

definition REDIS_CALL_FULL :: "call_flag set" where
  "REDIS_CALL_FULL = {REDIS_CALL_SLOWLOG, REDIS_CALL_STATS, REDIS_CALL_PROPAGATE}"

text \<open>
  A reply is a shared reply object by name, an error message, an error format with the text of its
  argument, or a piece of a multi bulk reply.
\<close>

datatype reply = Shared string | ReplyError string | ReplyErrorFormat string bytes | Bulk bytes | IntReply int | MultiBulkLen nat

datatype req_type = REQ_UNKNOWN | REDIS_REQ_INLINE | REDIS_REQ_MULTIBULK

text \<open>The query buffer is the byte sequence its dynamic string denotes.\<close>

record redisClient =
  c_flags :: "client_flag set"
  c_db :: dbid
  c_argv :: "bytes list"
  c_cmd :: "redisCommand option"
  c_lastcmd :: "redisCommand option"
  c_authenticated :: bool
  c_mstate :: "(redisCommand \<times> bytes list) list"
  c_watched_keys :: "(dbid \<times> bytes) list"
  c_pubsub_channels :: "bytes list"
  c_pubsub_patterns :: "bytes list"
  c_reply :: "reply list"
  c_querybuf :: bytes
  c_querybuf_peak :: nat
  c_reqtype :: req_type
  c_multibulklen :: int
  c_bulklen :: int
  c_repl_ack_time :: int
  c_lastinteraction :: int
  c_reploff :: int

record redisOp =
  op_cmd :: redisCommand
  op_dbid :: dbid
  op_argv :: "bytes list"
  op_target :: "propagate_flag set"

datatype event = EvMonitor cid dbid "bytes list" | EvAof redisCommand dbid "bytes list" | EvRepl dbid "bytes list"
  | EvLatency string int | EvSlowlog "bytes list" int | EvProc cid redisCommand "bytes list"

record 'v redisServer =
  s_mem :: "cid \<rightharpoonup> redisClient"
  s_clients :: "cid list"
  s_dict :: "dbid \<Rightarrow> bytes \<rightharpoonup> 'v"
  s_watched_keys :: "dbid \<Rightarrow> bytes \<rightharpoonup> cid list"
  s_pubsub_channels :: "bytes \<rightharpoonup> cid list"
  s_pubsub_patterns :: "(cid \<times> bytes) list"
  s_monitors :: "cid list"
  s_loading :: bool
  s_dirty :: int
  s_aof_on :: bool
  s_also_propagate :: "redisOp list"
  s_lua_caller :: "cid option"
  s_cmdstats :: "bytes \<Rightarrow> int \<times> nat"
  s_stat_numcommands :: nat
  s_ready_keys :: "bytes list"
  s_requirepass :: bool
  s_maxmemory :: nat
  s_stop_writes_on_bgsave_err :: bool
  s_saveparamslen :: nat
  s_lastbgsave_ok :: bool
  s_aof_last_write_ok :: bool
  s_aof_last_write_errno :: int
  s_masterhost :: bool
  s_repl_min_slaves_to_write :: int
  s_repl_min_slaves_max_lag :: int
  s_repl_good_slaves_count :: int
  s_repl_slave_ro :: bool
  s_repl_connected :: bool
  s_repl_serve_stale_data :: bool
  s_lua_timedout :: bool
  s_events :: "event list"
  s_unixtime :: int
  s_current_client :: "cid option"
  s_client_max_querybuf_len :: nat
  s_stat_net_input_bytes :: nat

record 'v hooks =
  h_lookupCommand :: "bytes \<Rightarrow> redisCommand option"
  h_proc :: "redisCommand \<Rightarrow> cid \<Rightarrow> 'v redisServer \<Rightarrow> 'v redisServer option"
  h_dictKeys :: "bytes set \<Rightarrow> bytes list"
  h_strerror :: "int \<Rightarrow> bytes"
  h_duration :: "'v redisServer \<Rightarrow> int"
  h_freeMemoryIfNeeded :: "'v redisServer \<Rightarrow> ('v redisServer \<times> bool) option"
  h_freeClient :: "cid \<Rightarrow> 'v redisServer \<Rightarrow> 'v redisServer option"
  h_handleClientsBlockedOnLists :: "'v redisServer \<Rightarrow> 'v redisServer option"

section \<open>Clients\<close>

definition upd_client :: "cid \<Rightarrow> (redisClient \<Rightarrow> redisClient) \<Rightarrow> 'v redisServer \<Rightarrow> 'v redisServer option" where
  "upd_client c f st = do {
     cl \<leftarrow> s_mem st c;
     Some (st\<lparr>s_mem := (s_mem st)(c \<mapsto> f cl)\<rparr>) }"

definition addReply :: "cid \<Rightarrow> reply \<Rightarrow> 'v redisServer \<Rightarrow> 'v redisServer option" where
  "addReply c r = upd_client c (\<lambda>cl. cl\<lparr>c_reply := c_reply cl @ [r]\<rparr>)"

definition set_flags :: "cid \<Rightarrow> client_flag set \<Rightarrow> 'v redisServer \<Rightarrow> 'v redisServer option" where
  "set_flags c fs = upd_client c (\<lambda>cl. cl\<lparr>c_flags := c_flags cl \<union> fs\<rparr>)"

definition clear_flags :: "cid \<Rightarrow> client_flag set \<Rightarrow> 'v redisServer \<Rightarrow> 'v redisServer option" where
  "clear_flags c fs = upd_client c (\<lambda>cl. cl\<lparr>c_flags := c_flags cl - fs\<rparr>)"

definition emit :: "event \<Rightarrow> 'v redisServer \<Rightarrow> 'v redisServer" where
  "emit e st = st\<lparr>s_events := s_events st @ [e]\<rparr>"

section \<open>Propagation and \<open>call\<close>\<close>

definition propagate :: "redisCommand \<Rightarrow> dbid \<Rightarrow> bytes list \<Rightarrow> propagate_flag set \<Rightarrow> 'v redisServer \<Rightarrow> 'v redisServer" where
  "propagate cmd db argv flags st =
     (let st = (if s_aof_on st \<and> REDIS_PROPAGATE_AOF \<in> flags then emit (EvAof cmd db argv) st else st)
      in if REDIS_PROPAGATE_REPL \<in> flags then emit (EvRepl db argv) st else st)"

definition redisOpArrayAppend :: "redisOp list \<Rightarrow> redisCommand \<Rightarrow> dbid \<Rightarrow> bytes list \<Rightarrow> propagate_flag set \<Rightarrow> redisOp list" where
  "redisOpArrayAppend oa cmd db argv target = oa @ [\<lparr>op_cmd = cmd, op_dbid = db, op_argv = argv, op_target = target\<rparr>]"

definition alsoPropagate :: "redisCommand \<Rightarrow> dbid \<Rightarrow> bytes list \<Rightarrow> propagate_flag set \<Rightarrow> 'v redisServer \<Rightarrow> 'v redisServer" where
  "alsoPropagate cmd db argv target st =
     st\<lparr>s_also_propagate := redisOpArrayAppend (s_also_propagate st) cmd db argv target\<rparr>"

definition forceCommandPropagation :: "cid \<Rightarrow> propagate_flag set \<Rightarrow> 'v redisServer \<Rightarrow> 'v redisServer option" where
  "forceCommandPropagation c flags st = do {
     st \<leftarrow> (if REDIS_PROPAGATE_REPL \<in> flags then set_flags c {REDIS_FORCE_REPL} st else Some st);
     if REDIS_PROPAGATE_AOF \<in> flags then set_flags c {REDIS_FORCE_AOF} st else Some st }"

definition feed_monitors :: "cid \<Rightarrow> redisClient \<Rightarrow> 'v redisServer \<Rightarrow> 'v redisServer" where
  "feed_monitors c cl st = emit (EvMonitor c (c_db cl) (c_argv cl)) st"

text \<open>The parts of \<open>call\<close> behind the procedure: Lua callers, slow log and statistics, propagation.\<close>

definition call_lua_caller :: "redisClient \<Rightarrow> 'v redisServer \<Rightarrow> 'v redisServer option" where
  "call_lua_caller cl st =
     (case s_lua_caller st of
        Some caller \<Rightarrow>
          if REDIS_LUA_CLIENT \<in> c_flags cl
          then set_flags caller (c_flags cl \<inter> {REDIS_FORCE_REPL, REDIS_FORCE_AOF}) st
          else Some st
      | None \<Rightarrow> Some st)"

definition call_stats :: "call_flag set \<Rightarrow> redisClient \<Rightarrow> redisCommand \<Rightarrow> int \<Rightarrow> 'v redisServer \<Rightarrow> 'v redisServer" where
  "call_stats flags cl cmd duration st =
     (let st = (if REDIS_CALL_SLOWLOG \<in> flags \<and> cmd_proc cmd \<noteq> Exec_proc
                then emit (EvSlowlog (c_argv cl) duration)
                  (emit (EvLatency (if REDIS_CMD_FAST \<in> cmd_flags cmd then ''fast-command'' else ''command'') (duration sdiv 1000)) st)
                else st)
      in if REDIS_CALL_STATS \<in> flags
         then st\<lparr>s_cmdstats := (s_cmdstats st)(cmd_name cmd := (fst (s_cmdstats st (cmd_name cmd)) + duration, snd (s_cmdstats st (cmd_name cmd)) + 1))\<rparr>
         else st)"

definition call_propagate_flags :: "redisClient \<Rightarrow> int \<Rightarrow> propagate_flag set" where
  "call_propagate_flags cl dirty =
     (if REDIS_FORCE_REPL \<in> c_flags cl then {REDIS_PROPAGATE_REPL} else {}) \<union>
     (if REDIS_FORCE_AOF \<in> c_flags cl then {REDIS_PROPAGATE_AOF} else {}) \<union>
     (if dirty \<noteq> 0 then {REDIS_PROPAGATE_REPL, REDIS_PROPAGATE_AOF} else {})"

definition call_propagate :: "call_flag set \<Rightarrow> redisClient \<Rightarrow> redisCommand \<Rightarrow> int \<Rightarrow> 'v redisServer \<Rightarrow> 'v redisServer" where
  "call_propagate flags cl cmd dirty st =
     (if REDIS_CALL_PROPAGATE \<in> flags
      then let pf = call_propagate_flags cl dirty in
        if pf \<noteq> {} then propagate cmd (c_db cl) (c_argv cl) pf st else st
      else st)"

definition call_also :: "'v redisServer \<Rightarrow> 'v redisServer" where
  "call_also st =
     (let ops = s_also_propagate st in
      (fold (\<lambda>rop. propagate (op_cmd rop) (op_dbid rop) (op_argv rop) (op_target rop)) ops st)\<lparr>s_also_propagate := []\<rparr>)"

definition call_begin :: "cid \<Rightarrow> redisClient \<Rightarrow> redisCommand \<Rightarrow> 'v redisServer \<Rightarrow> 'v redisServer option" where
  "call_begin c cl cmd st = do {
     let st = (if s_monitors st \<noteq> [] \<and> \<not> s_loading st \<and> cmd_flags cmd \<inter> {REDIS_CMD_SKIP_MONITOR, REDIS_CMD_ADMIN} = {}
               then feed_monitors c cl st else st);
     st \<leftarrow> clear_flags c {REDIS_FORCE_AOF, REDIS_FORCE_REPL} st;
     Some (st\<lparr>s_also_propagate := []\<rparr>) }"

definition call_end :: "call_flag set \<Rightarrow> cid \<Rightarrow> client_flag set \<Rightarrow> int \<Rightarrow> int \<Rightarrow> 'v redisServer \<Rightarrow> 'v redisServer option" where
  "call_end flags c old_flags dirty duration st = do {
     cl \<leftarrow> s_mem st c;
     cmd \<leftarrow> c_cmd cl;
     let flags = (if s_loading st \<and> REDIS_LUA_CLIENT \<in> c_flags cl then flags - {REDIS_CALL_SLOWLOG, REDIS_CALL_STATS} else flags);
     st \<leftarrow> call_lua_caller cl st;
     let st = call_stats flags cl cmd duration st;
     cl \<leftarrow> s_mem st c;
     let st = call_propagate flags cl cmd dirty st;
     st \<leftarrow> clear_flags c {REDIS_FORCE_AOF, REDIS_FORCE_REPL} st;
     st \<leftarrow> set_flags c (old_flags \<inter> {REDIS_FORCE_AOF, REDIS_FORCE_REPL}) st;
     let st = call_also st;
     Some (st\<lparr>s_stat_numcommands := s_stat_numcommands st + 1\<rparr>) }"

definition call :: "'v hooks \<Rightarrow> call_flag set \<Rightarrow> cid \<Rightarrow> 'v redisServer \<Rightarrow> 'v redisServer option" where
  "call H flags c st = do {
     cl \<leftarrow> s_mem st c;
     cmd \<leftarrow> c_cmd cl;
     st \<leftarrow> call_begin c cl cmd st;
     let dirty = s_dirty st;
     st \<leftarrow> h_proc H cmd c (emit (EvProc c cmd (c_argv cl)) st);
     let dirty = (if s_dirty st - dirty < 0 then 0 else s_dirty st - dirty);
     call_end flags c (c_flags cl) dirty (h_duration H st) st }"

end
