(* ===== verification/Multi.thy ===== *)
theory Multi
  imports Server
begin

text \<open>
  Transactions (\<open>multi.c\<close>): queueing, \<open>MULTI\<close>, \<open>EXEC\<close>, \<open>DISCARD\<close> and the keys watched by clients.
  The list of clients of a watched key and the list of watched keys of a client are HOL lists, which
  the linked lists implement.
\<close>

section \<open>Watched keys\<close>

definition watchForKey :: "cid \<Rightarrow> bytes \<Rightarrow> 'v redisServer \<Rightarrow> 'v redisServer option" where
  "watchForKey c key st = do {
     cl \<leftarrow> s_mem st c;
     let db = c_db cl;
     if (db, key) \<in> set (c_watched_keys cl) then Some st
     else do {
       let clients = (case s_watched_keys st db key of None \<Rightarrow> [] | Some cs \<Rightarrow> cs);
       let st = st\<lparr>s_watched_keys := (s_watched_keys st)(db := (s_watched_keys st db)(key \<mapsto> clients @ [c]))\<rparr>;
       upd_client c (\<lambda>cl. cl\<lparr>c_watched_keys := c_watched_keys cl @ [(db, key)]\<rparr>) st } }"

text \<open>
  One watched key less: an absent entry fails the assertion, an absent client would be deleted
  through a null pointer.
\<close>

definition unwatch_key :: "cid \<Rightarrow> dbid \<Rightarrow> bytes \<Rightarrow> 'v redisServer \<Rightarrow> 'v redisServer option" where
  "unwatch_key c db key st = do {
     clients \<leftarrow> s_watched_keys st db key;
     if c \<in> set clients then do {
       let clients = remove1 c clients;
       Some (st\<lparr>s_watched_keys := (s_watched_keys st)(db := (s_watched_keys st db)(key := (if clients = [] then None else Some clients)))\<rparr>) }
     else None }"

fun unwatchAllKeys_loop :: "cid \<Rightarrow> (dbid \<times> bytes) list \<Rightarrow> 'v redisServer \<Rightarrow> 'v redisServer option" where
  "unwatchAllKeys_loop c [] st = Some st"
| "unwatchAllKeys_loop c ((db, key) # ws) st = do {
     st \<leftarrow> unwatch_key c db key st;
     st \<leftarrow> upd_client c (\<lambda>cl. cl\<lparr>c_watched_keys := remove1 (db, key) (c_watched_keys cl)\<rparr>) st;
     unwatchAllKeys_loop c ws st }"

definition unwatchAllKeys :: "cid \<Rightarrow> 'v redisServer \<Rightarrow> 'v redisServer option" where
  "unwatchAllKeys c st = do {
     cl \<leftarrow> s_mem st c;
     if c_watched_keys cl = [] then Some st else unwatchAllKeys_loop c (c_watched_keys cl) st }"

fun mark_dirty :: "cid list \<Rightarrow> 'v redisServer \<Rightarrow> 'v redisServer option" where
  "mark_dirty [] st = Some st"
| "mark_dirty (c # cs) st = do { st \<leftarrow> set_flags c {REDIS_DIRTY_CAS} st; mark_dirty cs st }"

definition touchWatchedKey :: "dbid \<Rightarrow> bytes \<Rightarrow> 'v redisServer \<Rightarrow> 'v redisServer option" where
  "touchWatchedKey db key st =
     (case s_watched_keys st db key of None \<Rightarrow> Some st | Some clients \<Rightarrow> mark_dirty clients st)"

fun flush_client_loop :: "int \<Rightarrow> cid \<Rightarrow> (dbid \<times> bytes) list \<Rightarrow> 'v redisServer \<Rightarrow> 'v redisServer option" where
  "flush_client_loop dbid c [] st = Some st"
| "flush_client_loop dbid c ((db, key) # ws) st = do {
     st \<leftarrow> (if (dbid = - 1 \<or> int db = dbid) \<and> s_dict st db key \<noteq> None then set_flags c {REDIS_DIRTY_CAS} st else Some st);
     flush_client_loop dbid c ws st }"

fun flush_clients_loop :: "int \<Rightarrow> cid list \<Rightarrow> 'v redisServer \<Rightarrow> 'v redisServer option" where
  "flush_clients_loop dbid [] st = Some st"
| "flush_clients_loop dbid (c # cs) st = do {
     cl \<leftarrow> s_mem st c;
     st \<leftarrow> flush_client_loop dbid c (c_watched_keys cl) st;
     flush_clients_loop dbid cs st }"

definition touchWatchedKeysOnFlush :: "int \<Rightarrow> 'v redisServer \<Rightarrow> 'v redisServer option" where
  "touchWatchedKeysOnFlush dbid st = flush_clients_loop dbid (s_clients st) st"

fun watch_args :: "cid \<Rightarrow> bytes list \<Rightarrow> 'v redisServer \<Rightarrow> 'v redisServer option" where
  "watch_args c [] st = Some st"
| "watch_args c (k # ks) st = do { st \<leftarrow> watchForKey c k st; watch_args c ks st }"

definition watchCommand :: "cid \<Rightarrow> 'v redisServer \<Rightarrow> 'v redisServer option" where
  "watchCommand c st = do {
     cl \<leftarrow> s_mem st c;
     if REDIS_MULTI \<in> c_flags cl then addReply c (ReplyError ''WATCH inside MULTI is not allowed'') st
     else do {
       st \<leftarrow> watch_args c (tl (c_argv cl)) st;
       addReply c (Shared ''ok'') st } }"

definition unwatchCommand :: "cid \<Rightarrow> 'v redisServer \<Rightarrow> 'v redisServer option" where
  "unwatchCommand c st = do {
     st \<leftarrow> unwatchAllKeys c st;
     st \<leftarrow> clear_flags c {REDIS_DIRTY_CAS} st;
     addReply c (Shared ''ok'') st }"

section \<open>MULTI, EXEC, DISCARD\<close>

definition queueMultiCommand :: "cid \<Rightarrow> 'v redisServer \<Rightarrow> 'v redisServer option" where
  "queueMultiCommand c st = do {
     cl \<leftarrow> s_mem st c;
     cmd \<leftarrow> c_cmd cl;
     upd_client c (\<lambda>cl. cl\<lparr>c_mstate := c_mstate cl @ [(cmd, c_argv cl)]\<rparr>) st }"

text \<open>\<open>freeClientMultiState\<close> followed by \<open>initClientMultiState\<close>.\<close>

definition initClientMultiState :: "cid \<Rightarrow> 'v redisServer \<Rightarrow> 'v redisServer option" where
  "initClientMultiState c = upd_client c (\<lambda>cl. cl\<lparr>c_mstate := []\<rparr>)"

definition discardTransaction :: "cid \<Rightarrow> 'v redisServer \<Rightarrow> 'v redisServer option" where
  "discardTransaction c st = do {
     st \<leftarrow> initClientMultiState c st;
     st \<leftarrow> clear_flags c {REDIS_MULTI, REDIS_DIRTY_CAS, REDIS_DIRTY_EXEC} st;
     unwatchAllKeys c st }"

definition flagTransaction :: "cid \<Rightarrow> 'v redisServer \<Rightarrow> 'v redisServer option" where
  "flagTransaction c st = do {
     cl \<leftarrow> s_mem st c;
     if REDIS_MULTI \<in> c_flags cl then set_flags c {REDIS_DIRTY_EXEC} st else Some st }"

definition multiCommand :: "cid \<Rightarrow> 'v redisServer \<Rightarrow> 'v redisServer option" where
  "multiCommand c st = do {
     cl \<leftarrow> s_mem st c;
     if REDIS_MULTI \<in> c_flags cl then addReply c (ReplyError ''MULTI calls can not be nested'') st
     else do {
       st \<leftarrow> set_flags c {REDIS_MULTI} st;
       addReply c (Shared ''ok'') st } }"

definition discardCommand :: "cid \<Rightarrow> 'v redisServer \<Rightarrow> 'v redisServer option" where
  "discardCommand c st = do {
     cl \<leftarrow> s_mem st c;
     if REDIS_MULTI \<notin> c_flags cl then addReply c (ReplyError ''DISCARD without MULTI'') st
     else do {
       st \<leftarrow> discardTransaction c st;
       addReply c (Shared ''ok'') st } }"

definition multi_cmd :: redisCommand where
  "multi_cmd = \<lparr>cmd_name = str ''multi'', cmd_proc = Multi_proc, cmd_arity = 1,
     cmd_flags = {REDIS_CMD_READONLY, REDIS_CMD_NOSCRIPT, REDIS_CMD_FAST}\<rparr>"

definition execCommandPropagateMulti :: "cid \<Rightarrow> 'v redisServer \<Rightarrow> 'v redisServer option" where
  "execCommandPropagateMulti c st = do {
     cl \<leftarrow> s_mem st c;
     Some (propagate multi_cmd (c_db cl) [str ''MULTI''] {REDIS_PROPAGATE_AOF, REDIS_PROPAGATE_REPL} st) }"

text \<open>
  The loop over the queue; \<open>callf c\<close> is \<open>call(c,REDIS_CALL_FULL)\<close>.  The queue is read again in
  every iteration, as the code does.
\<close>

definition exec_one :: "(cid \<Rightarrow> 'v redisServer \<Rightarrow> 'v redisServer option) \<Rightarrow> cid \<Rightarrow> nat \<Rightarrow> redisCommand \<Rightarrow> bytes list \<Rightarrow> bool \<Rightarrow>
    'v redisServer \<Rightarrow> ('v redisServer \<times> bool) option" where
  "exec_one callf c j cmd argv must_propagate st = do {
     st \<leftarrow> upd_client c (\<lambda>cl. cl\<lparr>c_argv := argv, c_cmd := Some cmd\<rparr>) st;
     let first = (\<not> must_propagate \<and> REDIS_CMD_READONLY \<notin> cmd_flags cmd);
     st \<leftarrow> (if first then execCommandPropagateMulti c st else Some st);
     st \<leftarrow> callf c st;
     cl \<leftarrow> s_mem st c;
     cmd \<leftarrow> c_cmd cl;
     st \<leftarrow> upd_client c (\<lambda>cl. cl\<lparr>c_mstate := (c_mstate cl)[j := (cmd, c_argv cl)]\<rparr>) st;
     Some (st, must_propagate \<or> first) }"

partial_function (option) exec_loop ::
  "(cid \<Rightarrow> 'v redisServer \<Rightarrow> 'v redisServer option) \<Rightarrow> cid \<Rightarrow> nat \<Rightarrow> bool \<Rightarrow> 'v redisServer \<Rightarrow> ('v redisServer \<times> bool) option" where
  "exec_loop callf c j must_propagate st = do {
     cl \<leftarrow> s_mem st c;
     if j < length (c_mstate cl) then do {
       r \<leftarrow> exec_one callf c j (fst (c_mstate cl ! j)) (snd (c_mstate cl ! j)) must_propagate st;
       exec_loop callf c (j + 1) (snd r) (fst r) }
     else Some (st, must_propagate) }"

definition exec_monitor :: "cid \<Rightarrow> 'v redisServer \<Rightarrow> 'v redisServer option" where
  "exec_monitor c st = do {
     cl \<leftarrow> s_mem st c;
     Some (if s_monitors st \<noteq> [] \<and> \<not> s_loading st then feed_monitors c cl st else st) }"

definition exec_abort :: "cid \<Rightarrow> 'v redisServer \<Rightarrow> 'v redisServer option" where
  "exec_abort c st = do {
     cl \<leftarrow> s_mem st c;
     st \<leftarrow> addReply c (if REDIS_DIRTY_EXEC \<in> c_flags cl then Shared ''execaborterr'' else Shared ''nullmultibulk'') st;
     discardTransaction c st }"

definition exec_queue :: "(cid \<Rightarrow> 'v redisServer \<Rightarrow> 'v redisServer option) \<Rightarrow> cid \<Rightarrow> 'v redisServer \<Rightarrow> 'v redisServer option" where
  "exec_queue callf c st = do {
     st \<leftarrow> unwatchAllKeys c st;
     cl \<leftarrow> s_mem st c;
     let orig_argv = c_argv cl;
     let orig_cmd = c_cmd cl;
     st \<leftarrow> addReply c (MultiBulkLen (length (c_mstate cl))) st;
     (st, must_propagate) \<leftarrow> exec_loop callf c 0 False st;
     st \<leftarrow> upd_client c (\<lambda>cl. cl\<lparr>c_argv := orig_argv, c_cmd := orig_cmd\<rparr>) st;
     st \<leftarrow> discardTransaction c st;
     Some (if must_propagate then st\<lparr>s_dirty := s_dirty st + 1\<rparr> else st) }"

definition execCommand :: "(cid \<Rightarrow> 'v redisServer \<Rightarrow> 'v redisServer option) \<Rightarrow> cid \<Rightarrow> 'v redisServer \<Rightarrow> 'v redisServer option" where
  "execCommand callf c st = do {
     cl \<leftarrow> s_mem st c;
     if REDIS_MULTI \<notin> c_flags cl then addReply c (ReplyError ''EXEC without MULTI'') st
     else do {
       st \<leftarrow> (if c_flags cl \<inter> {REDIS_DIRTY_CAS, REDIS_DIRTY_EXEC} \<noteq> {} then exec_abort c st else exec_queue callf c st);
       exec_monitor c st } }"

section \<open>The state machine of watched keys\<close>

text \<open>
  What happens to the watched keys between the commands of one client.  The commands other clients
  run are steps of their own (a write touches its key; an \<open>EXEC\<close> begins by releasing the keys and ends
  with \<open>discardTransaction\<close>), so that the machine has at least the interleavings of the server.
\<close>

datatype txn_action = AWatch cid | AUnwatch cid | AMulti cid | ADiscard cid | AQueue cid | AExecBegin cid | AExecEnd cid
  | AFlag cid | ACommand cid dbid "redisCommand option" "bytes list" | ATouch dbid bytes | AFlush int | ANew cid | AFree cid

definition new_client :: redisClient where
  "new_client = \<lparr>c_flags = {}, c_db = 0, c_argv = [], c_cmd = None, c_lastcmd = None, c_authenticated = False, c_mstate = [],
     c_watched_keys = [], c_pubsub_channels = [], c_pubsub_patterns = [], c_reply = [], c_querybuf = [], c_querybuf_peak = 0,
     c_reqtype = REQ_UNKNOWN, c_multibulklen = 0, c_bulklen = - 1, c_repl_ack_time = 0, c_lastinteraction = 0, c_reploff = 0\<rparr>"

text \<open>A server without clients.\<close>

definition empty_server :: "unit redisServer" where
  "empty_server = \<lparr>s_mem = Map.empty, s_clients = [], s_dict = (\<lambda>_. Map.empty), s_watched_keys = (\<lambda>_. Map.empty),
     s_pubsub_channels = Map.empty, s_pubsub_patterns = [], s_monitors = [], s_loading = False, s_dirty = 0, s_aof_on = True,
     s_also_propagate = [], s_lua_caller = None, s_cmdstats = (\<lambda>_. (0, 0)), s_stat_numcommands = 0, s_ready_keys = [],
     s_requirepass = False, s_maxmemory = 0, s_stop_writes_on_bgsave_err = True, s_saveparamslen = 0, s_lastbgsave_ok = True,
     s_aof_last_write_ok = True, s_aof_last_write_errno = 0, s_masterhost = False, s_repl_min_slaves_to_write = 0,
     s_repl_min_slaves_max_lag = 10, s_repl_good_slaves_count = 0, s_repl_slave_ro = True, s_repl_connected = True,
     s_repl_serve_stale_data = True, s_lua_timedout = False, s_events = [],
     s_unixtime = 0, s_current_client = None, s_client_max_querybuf_len = 1073741824, s_stat_net_input_bytes = 0\<rparr>"

inductive txn_step :: "'v redisServer \<Rightarrow> txn_action \<Rightarrow> 'v redisServer \<Rightarrow> bool" where
  watch: "watchCommand c st = Some st' \<Longrightarrow> txn_step st (AWatch c) st'"
| unwatch: "unwatchCommand c st = Some st' \<Longrightarrow> txn_step st (AUnwatch c) st'"
| multi: "multiCommand c st = Some st' \<Longrightarrow> txn_step st (AMulti c) st'"
| discard: "discardCommand c st = Some st' \<Longrightarrow> txn_step st (ADiscard c) st'"
| queue: "queueMultiCommand c st = Some st' \<Longrightarrow> txn_step st (AQueue c) st'"
| exec_begin: "unwatchAllKeys c st = Some st' \<Longrightarrow> txn_step st (AExecBegin c) st'"
| exec_end: "discardTransaction c st = Some st' \<Longrightarrow> txn_step st (AExecEnd c) st'"
| flag: "flagTransaction c st = Some st' \<Longrightarrow> txn_step st (AFlag c) st'"
| command: "upd_client c (\<lambda>cl. cl\<lparr>c_db := db, c_cmd := cmd, c_argv := argv\<rparr>) st = Some st' \<Longrightarrow> txn_step st (ACommand c db cmd argv) st'"
| touch: "touchWatchedKey db key st = Some st' \<Longrightarrow> txn_step st (ATouch db key) st'"
| flush: "touchWatchedKeysOnFlush dbid st = Some st' \<Longrightarrow> txn_step st (AFlush dbid) st'"
| new: "s_mem st c = None \<Longrightarrow> txn_step st (ANew c) (st\<lparr>s_mem := (s_mem st)(c \<mapsto> new_client), s_clients := s_clients st @ [c]\<rparr>)"
| free: "unwatchAllKeys c st = Some st' \<Longrightarrow> txn_step st (AFree c) (st'\<lparr>s_mem := (s_mem st')(c := None), s_clients := remove1 c (s_clients st')\<rparr>)"

inductive txn_reachable :: "'v redisServer \<Rightarrow> bool" where
  init: "s_mem st = Map.empty \<Longrightarrow> s_clients st = [] \<Longrightarrow> s_watched_keys st = (\<lambda>_. Map.empty) \<Longrightarrow> txn_reachable st"
| step: "txn_reachable st \<Longrightarrow> txn_step st a st' \<Longrightarrow> txn_reachable st'"

section \<open>The invariant\<close>

text \<open>
  The two directions of the watch relation agree: a client's list and the lists of the keys.
\<close>

definition watching :: "'v redisServer \<Rightarrow> cid \<Rightarrow> (dbid \<times> bytes) set" where
  "watching st c = (case s_mem st c of None \<Rightarrow> {} | Some cl \<Rightarrow> set (c_watched_keys cl))"

definition watchers :: "'v redisServer \<Rightarrow> dbid \<Rightarrow> bytes \<Rightarrow> cid list" where
  "watchers st db key = (case s_watched_keys st db key of None \<Rightarrow> [] | Some cs \<Rightarrow> cs)"

definition watch_inv :: "'v redisServer \<Rightarrow> bool" where
  "watch_inv st \<longleftrightarrow> (\<forall>c db key. (db, key) \<in> watching st c \<longleftrightarrow> c \<in> set (watchers st db key)) \<and>
     (\<forall>db key. distinct (watchers st db key) \<and> s_watched_keys st db key \<noteq> Some []) \<and>
     (\<forall>c cl. s_mem st c = Some cl \<longrightarrow> distinct (c_watched_keys cl))"

lemma watch_invD:
  assumes "watch_inv st"
  shows "(db, key) \<in> watching st c \<longleftrightarrow> c \<in> set (watchers st db key)" "distinct (watchers st db key)"
    "s_watched_keys st db key \<noteq> Some []" "s_mem st c = Some cl \<Longrightarrow> distinct (c_watched_keys cl)"
  using assms by (auto simp: watch_inv_def)

text \<open>A step that changes no list of watched keys keeps the invariant.\<close>

lemma watch_inv_cong:
  assumes "watch_inv st" "s_watched_keys st' = s_watched_keys st"
    "\<And>c. map_option c_watched_keys (s_mem st' c) = map_option c_watched_keys (s_mem st c)"
  shows "watch_inv st'"
proof -
  have "watching st' c = watching st c" for c using assms(3) [of c] by (auto simp: watching_def split: option.splits)
  moreover have "watchers st' = watchers st" using assms(2) by (simp add: watchers_def fun_eq_iff)
  moreover have "distinct (c_watched_keys cl)" if "s_mem st' c = Some cl" for c cl
    using watch_invD(4) [OF assms(1), of c] assms(3) [of c] that by (cases "s_mem st c") auto
  ultimately show ?thesis using assms(1,2) by (simp add: watch_inv_def)
qed

lemma upd_client_Some: "s_mem st c = Some cl \<Longrightarrow> upd_client c f st = Some (st\<lparr>s_mem := (s_mem st)(c \<mapsto> f cl)\<rparr>)"
  by (simp add: upd_client_def)

lemma upd_client_eq_Some:
  "upd_client c f st = Some st' \<longleftrightarrow> (\<exists>cl. s_mem st c = Some cl \<and> st' = st\<lparr>s_mem := (s_mem st)(c \<mapsto> f cl)\<rparr>)"
  by (cases "s_mem st c") (auto simp: upd_client_def)

lemma upd_client_inv:
  "watch_inv st \<Longrightarrow> upd_client c f st = Some st' \<Longrightarrow> (\<And>cl. c_watched_keys (f cl) = c_watched_keys cl) \<Longrightarrow> watch_inv st'"
  by (erule watch_inv_cong) (auto simp: upd_client_eq_Some)

lemmas client_ops = addReply_def set_flags_def clear_flags_def initClientMultiState_def

lemma client_ops_inv:
  "watch_inv st \<Longrightarrow> addReply c r st = Some st' \<Longrightarrow> watch_inv st'"
  "watch_inv st \<Longrightarrow> set_flags c fs st = Some st' \<Longrightarrow> watch_inv st'"
  "watch_inv st \<Longrightarrow> clear_flags c fs st = Some st' \<Longrightarrow> watch_inv st'"
  "watch_inv st \<Longrightarrow> initClientMultiState c st = Some st' \<Longrightarrow> watch_inv st'"
  unfolding client_ops by (erule (1) upd_client_inv, simp)+

lemma watchForKey_inv:
  assumes "watch_inv st" "watchForKey c key st = Some st'"
  shows "watch_inv st'"
proof -
  obtain cl where cl: "s_mem st c = Some cl" using assms(2) by (auto simp: watchForKey_def split: bind_splits)
  let ?db = "c_db cl"
  show ?thesis
  proof (cases "(?db, key) \<in> set (c_watched_keys cl)")
    case True
    then show ?thesis using assms cl by (simp add: watchForKey_def)
  next
    case False
    then have st': "st' = st\<lparr>s_watched_keys := (s_watched_keys st)(?db := (s_watched_keys st ?db)(key \<mapsto> watchers st ?db key @ [c])),
        s_mem := (s_mem st)(c \<mapsto> cl\<lparr>c_watched_keys := c_watched_keys cl @ [(?db, key)]\<rparr>)\<rparr>"
      using assms(2) cl by (auto simp: watchForKey_def Let_def upd_client_def watchers_def)
    have n: "c \<notin> set (watchers st ?db key)"
      using watch_invD(1) [OF assms(1), of ?db key c] False cl by (simp add: watching_def)
    have w: "watchers st' db k = (if db = ?db \<and> k = key then watchers st ?db key @ [c] else watchers st db k)" for db k
      unfolding st' by (simp add: watchers_def)
    have g: "watching st' d = (if d = c then insert (?db, key) (watching st c) else watching st d)" for d
      unfolding st' using cl by (simp add: watching_def)
    have "\<forall>d db k. (db, k) \<in> watching st' d \<longleftrightarrow> d \<in> set (watchers st' db k)"
      unfolding g w using watch_invD(1) [OF assms(1)] by auto
    moreover have "distinct (watchers st' db k)" for db k unfolding w using watch_invD(2) [OF assms(1)] n by simp
    moreover have "s_watched_keys st' db k \<noteq> Some []" for db k unfolding st' using watch_invD(3) [OF assms(1)] by simp
    moreover have "distinct (c_watched_keys dl)" if "s_mem st' d = Some dl" for d dl
      using that watch_invD(4) [OF assms(1)] cl False unfolding st' by (auto split: if_splits)
    ultimately show ?thesis by (simp add: watch_inv_def)
  qed
qed

lemma watch_args_inv: "watch_inv st \<Longrightarrow> watch_args c ks st = Some st' \<Longrightarrow> watch_inv st'"
  by (induction ks arbitrary: st) (auto split: bind_splits dest: watchForKey_inv)

text \<open>Releasing the first watched key of a client.\<close>

definition unwatched :: "cid \<Rightarrow> redisClient \<Rightarrow> dbid \<Rightarrow> bytes \<Rightarrow> 'v redisServer \<Rightarrow> 'v redisServer" where
  "unwatched c cl db key st = (let cs = remove1 c (watchers st db key) in
     st\<lparr>s_watched_keys := (s_watched_keys st)(db := (s_watched_keys st db)(key := (if cs = [] then None else Some cs))),
        s_mem := (s_mem st)(c \<mapsto> cl\<lparr>c_watched_keys := remove1 (db, key) (c_watched_keys cl)\<rparr>)\<rparr>)"

lemma unwatched_inv:
  assumes "watch_inv st" "s_mem st c = Some cl" "(db, key) \<in> set (c_watched_keys cl)"
  shows "watch_inv (unwatched c cl db key st)"
proof -
  let ?st = "unwatched c cl db key st"
  have d: "distinct (c_watched_keys cl)" "distinct (watchers st db key)" using watch_invD [OF assms(1)] assms(2) by auto
  have w: "watchers ?st db' k = (if db' = db \<and> k = key then remove1 c (watchers st db key) else watchers st db' k)" for db' k
    by (auto simp: unwatched_def watchers_def Let_def)
  have g: "watching ?st d = (if d = c then watching st c - {(db, key)} else watching st d)" for d
    using assms(2) d by (auto simp: unwatched_def watching_def Let_def)
  have "\<forall>d db' k. (db', k) \<in> watching ?st d \<longleftrightarrow> d \<in> set (watchers ?st db' k)"
    unfolding g w using watch_invD(1,2) [OF assms(1)] by auto
  moreover have "distinct (watchers ?st db' k)" for db' k unfolding w using watch_invD(2) [OF assms(1)] by simp
  moreover have "s_watched_keys ?st db' k \<noteq> Some []" for db' k using watch_invD(3) [OF assms(1)] by (auto simp: unwatched_def Let_def)
  moreover have "distinct (c_watched_keys dl)" if "s_mem ?st e = Some dl" for e dl
    using that watch_invD(4) [OF assms(1)] d by (auto simp: unwatched_def Let_def split: if_splits)
  ultimately show ?thesis by (simp add: watch_inv_def)
qed

lemma unwatch_step:
  assumes "watch_inv st" "s_mem st c = Some cl" "(db, key) \<in> set (c_watched_keys cl)"
  shows "do { st \<leftarrow> unwatch_key c db key st;
      upd_client c (\<lambda>cl. cl\<lparr>c_watched_keys := remove1 (db, key) (c_watched_keys cl)\<rparr>) st } = Some (unwatched c cl db key st)"
proof -
  have c: "c \<in> set (watchers st db key)" using watch_invD(1) [OF assms(1), of db key c] assms(2,3) by (simp add: watching_def)
  then obtain cs where "s_watched_keys st db key = Some cs" "watchers st db key = cs" "c \<in> set cs"
    by (cases "s_watched_keys st db key") (auto simp: watchers_def)
  then show ?thesis using assms(2) by (simp add: unwatch_key_def upd_client_def unwatched_def Let_def)
qed

lemma unwatchAllKeys_loop_Some:
  "watch_inv st \<Longrightarrow> s_mem st c = Some cl \<Longrightarrow> c_watched_keys cl = ws \<Longrightarrow>
   ensures (unwatchAllKeys_loop c ws st) (\<lambda>st'. watch_inv st' \<and> (\<exists>w. st' = st\<lparr>s_watched_keys := w, s_mem := (s_mem st)(c \<mapsto> cl\<lparr>c_watched_keys := []\<rparr>)\<rparr>))"
proof (induction ws arbitrary: st cl)
  case Nil
  then have "cl\<lparr>c_watched_keys := []\<rparr> = cl" by simp
  then show ?case using Nil by (auto intro!: exI [of _ "s_watched_keys st"] simp: fun_upd_idem)
next
  case (Cons x ws)
  obtain db key where x: "x = (db, key)" by (cases x)
  let ?st = "unwatched c cl db key st" and ?cl = "cl\<lparr>c_watched_keys := ws\<rparr>"
  have u: "unwatch_key c db key st \<bind> upd_client c (\<lambda>cl. cl\<lparr>c_watched_keys := remove1 (db, key) (c_watched_keys cl)\<rparr>) = Some ?st"
    using unwatch_step [of st c cl db key] Cons.prems x by simp
  have inv: "watch_inv ?st" using Cons.prems x by (intro unwatched_inv) auto
  have m: "s_mem ?st c = Some ?cl" using Cons.prems x by (simp add: unwatched_def Let_def)
  have IH: "ensures (unwatchAllKeys_loop c ws ?st) (\<lambda>st'. watch_inv st' \<and> (\<exists>w. st' = ?st\<lparr>s_watched_keys := w, s_mem := (s_mem ?st)(c \<mapsto> ?cl\<lparr>c_watched_keys := []\<rparr>)\<rparr>))"
    by (rule Cons.IH [OF inv m]) simp
  have e: "unwatchAllKeys_loop c (x # ws) st = unwatchAllKeys_loop c ws ?st"
    using u x by (cases "unwatch_key c db key st") auto
  have f: "?st\<lparr>s_watched_keys := w, s_mem := (s_mem ?st)(c \<mapsto> ?cl\<lparr>c_watched_keys := []\<rparr>)\<rparr> =
    st\<lparr>s_watched_keys := w, s_mem := (s_mem st)(c \<mapsto> cl\<lparr>c_watched_keys := []\<rparr>)\<rparr>" for w
    by (simp add: unwatched_def Let_def)
  show ?case unfolding e using IH unfolding f .
qed

lemma unwatchAllKeys_Some:
  assumes "watch_inv st" "s_mem st c = Some cl"
  shows "ensures (unwatchAllKeys c st) (\<lambda>st'. watch_inv st' \<and> (\<exists>w. st' = st\<lparr>s_watched_keys := w, s_mem := (s_mem st)(c \<mapsto> cl\<lparr>c_watched_keys := []\<rparr>)\<rparr>))"
proof (cases "c_watched_keys cl = []")
  case True
  then have "cl\<lparr>c_watched_keys := []\<rparr> = cl" by simp
  then show ?thesis using True assms by (auto simp: unwatchAllKeys_def fun_upd_idem intro!: exI [of _ "s_watched_keys st"])
next
  case False
  then show ?thesis using unwatchAllKeys_loop_Some [OF assms refl] assms(2) by (simp add: unwatchAllKeys_def)
qed

lemma unwatchAllKeys_inv: "watch_inv st \<Longrightarrow> unwatchAllKeys c st = Some st' \<Longrightarrow> watch_inv st'"
  using unwatchAllKeys_Some [of st c] by (cases "s_mem st c") (auto simp: unwatchAllKeys_def)


subsection \<open>Touching\<close>

definition add_dirty :: "redisClient \<Rightarrow> redisClient" where
  "add_dirty cl = cl\<lparr>c_flags := c_flags cl \<union> {REDIS_DIRTY_CAS}\<rparr>"

lemma mark_dirty_Some:
  "\<forall>c \<in> set cs. s_mem st c \<noteq> None \<Longrightarrow>
   mark_dirty cs st = Some (st\<lparr>s_mem := (\<lambda>d. if d \<in> set cs then map_option add_dirty (s_mem st d) else s_mem st d)\<rparr>)"
proof (induction cs arbitrary: st)
  case (Cons c cs)
  then obtain cl where cl: "s_mem st c = Some cl" by auto
  let ?st = "st\<lparr>s_mem := (s_mem st)(c \<mapsto> add_dirty cl)\<rparr>"
  have s: "set_flags c {REDIS_DIRTY_CAS} st = Some ?st" using cl by (simp add: set_flags_def upd_client_def add_dirty_def)
  have "mark_dirty cs ?st = Some (?st\<lparr>s_mem := (\<lambda>d. if d \<in> set cs then map_option add_dirty (s_mem ?st d) else s_mem ?st d)\<rparr>)"
    by (rule Cons.IH) (use Cons.prems in auto)
  moreover have "(\<lambda>d. if d \<in> set cs then map_option add_dirty (s_mem ?st d) else s_mem ?st d) =
    (\<lambda>d. if d \<in> set (c # cs) then map_option add_dirty (s_mem st d) else s_mem st d)"
    using cl by (auto simp: fun_eq_iff add_dirty_def)
  ultimately show ?case using s by simp
qed simp

lemma watchers_live: "watch_inv st \<Longrightarrow> c \<in> set (watchers st db key) \<Longrightarrow> s_mem st c \<noteq> None"
  using watch_invD(1) [of st db key c] by (auto simp: watching_def split: option.splits)

lemma touchWatchedKey_Some:
  assumes "watch_inv st"
  shows "touchWatchedKey db key st =
    Some (st\<lparr>s_mem := (\<lambda>d. if d \<in> set (watchers st db key) then map_option add_dirty (s_mem st d) else s_mem st d)\<rparr>)"
proof (cases "s_watched_keys st db key")
  case None
  then show ?thesis by (simp add: touchWatchedKey_def watchers_def)
next
  case (Some cs)
  then have "watchers st db key = cs" by (simp add: watchers_def)
  then show ?thesis using Some mark_dirty_Some [of cs st] watchers_live [OF assms, of _ db key] by (simp add: touchWatchedKey_def)
qed

subsection \<open>What steps keep of a client\<close>

definition dirty_cas :: "'v redisServer \<Rightarrow> cid \<Rightarrow> bool" where
  "dirty_cas st c \<longleftrightarrow> (\<exists>cl. s_mem st c = Some cl \<and> REDIS_DIRTY_CAS \<in> c_flags cl)"

definition keeps :: "cid \<Rightarrow> 'v redisServer \<Rightarrow> 'v redisServer \<Rightarrow> bool" where
  "keeps c st st' \<longleftrightarrow> watching st c \<subseteq> watching st' c \<and> (dirty_cas st c \<longrightarrow> dirty_cas st' c)"

lemma keeps_refl [simp]: "keeps c st st"
  by (simp add: keeps_def)

lemma keeps_trans: "keeps c st st1 \<Longrightarrow> keeps c st1 st2 \<Longrightarrow> keeps c st st2"
  by (auto simp: keeps_def)

lemma keeps_mem: "s_mem st' c = s_mem st c \<Longrightarrow> keeps c st st'"
  by (simp add: keeps_def watching_def dirty_cas_def)

lemma keeps_upd:
  assumes "upd_client d f st = Some st'"
    and "\<And>cl. d = c \<Longrightarrow> set (c_watched_keys cl) \<subseteq> set (c_watched_keys (f cl))" "\<And>cl. d = c \<Longrightarrow> c_flags cl \<subseteq> c_flags (f cl)"
  shows "keeps c st st'"
proof -
  obtain cl where "s_mem st d = Some cl" "st' = st\<lparr>s_mem := (s_mem st)(d \<mapsto> f cl)\<rparr>" using assms(1) by (auto simp: upd_client_eq_Some)
  then show ?thesis using assms(2,3) [of cl] by (cases "d = c") (auto simp: keeps_def watching_def dirty_cas_def)
qed

lemma keeps_ops:
  "addReply d r st = Some st' \<Longrightarrow> keeps c st st'"
  "set_flags d fs st = Some st' \<Longrightarrow> keeps c st st'"
  "d \<noteq> c \<Longrightarrow> clear_flags d fs st = Some st' \<Longrightarrow> keeps c st st'"
  "initClientMultiState d st = Some st' \<Longrightarrow> keeps c st st'"
  "queueMultiCommand d st = Some st' \<Longrightarrow> keeps c st st'"
  unfolding client_ops queueMultiCommand_def by (auto elim!: keeps_upd split: bind_splits)

lemma keeps_watchForKey: "watchForKey d key st = Some st' \<Longrightarrow> keeps c st st'"
  by (auto simp: watchForKey_def Let_def keeps_def watching_def dirty_cas_def upd_client_eq_Some
    split: bind_splits if_splits)

lemma keeps_watch_args: "watch_args d ks st = Some st' \<Longrightarrow> keeps c st st'"
  by (induction ks arbitrary: st) (auto split: bind_splits dest: keeps_watchForKey intro: keeps_trans)

lemma keeps_unwatchAllKeys: "watch_inv st \<Longrightarrow> d \<noteq> c \<Longrightarrow> unwatchAllKeys d st = Some st' \<Longrightarrow> keeps c st st'"
  using unwatchAllKeys_Some [of st d] by (cases "s_mem st d") (auto simp: unwatchAllKeys_def intro!: keeps_mem)

lemma flush_client_loop_ind:
  assumes "flush_client_loop dbid d ws st = Some st'" "P st"
    "\<And>st1 st2. set_flags d {REDIS_DIRTY_CAS} st1 = Some st2 \<Longrightarrow> P st1 \<Longrightarrow> P st2"
  shows "P st'"
  using assms(1,2)
proof (induction ws arbitrary: st)
  case (Cons w ws)
  obtain db key where w: "w = (db, key)" by (cases w)
  obtain st1 where st1: "(if (dbid = - 1 \<or> int db = dbid) \<and> s_dict st db key \<noteq> None then set_flags d {REDIS_DIRTY_CAS} st else Some st) = Some st1"
    "flush_client_loop dbid d ws st1 = Some st'"
    using Cons.prems(1) unfolding w flush_client_loop.simps Option.bind_eq_Some_conv by blast
  have "P st1" using st1(1) Cons.prems(2) assms(3) by (auto split: if_splits)
  then show ?case using Cons.IH st1(2) by blast
qed simp

lemma flush_clients_loop_ind:
  assumes "flush_clients_loop dbid cs st = Some st'" "P st"
    "\<And>d st1 st2. set_flags d {REDIS_DIRTY_CAS} st1 = Some st2 \<Longrightarrow> P st1 \<Longrightarrow> P st2"
  shows "P st'"
  using assms(1,2)
proof (induction cs arbitrary: st)
  case (Cons d cs)
  obtain cl :: redisClient and st1 where "flush_client_loop dbid d (c_watched_keys cl) st = Some st1" "flush_clients_loop dbid cs st1 = Some st'"
    using Cons.prems(1) unfolding flush_clients_loop.simps Option.bind_eq_Some_conv by (elim exE conjE) (rule that)
  then show ?case using Cons.IH flush_client_loop_ind [of dbid d _ st st1 P] Cons.prems(2) assms(3) by blast
qed simp

lemma keeps_flush_clients: "flush_clients_loop dbid cs st = Some st' \<Longrightarrow> keeps c st st'"
  by (erule flush_clients_loop_ind) (auto dest: keeps_ops(2) intro: keeps_trans)

lemma flush_clients_inv: "watch_inv st \<Longrightarrow> flush_clients_loop dbid cs st = Some st' \<Longrightarrow> watch_inv st'"
  by (erule flush_clients_loop_ind) (auto intro: client_ops_inv(2))

lemma touch_inv:
  assumes "watch_inv st" "touchWatchedKey db key st = Some st'"
  shows "watch_inv st'"
  using assms(2) unfolding touchWatchedKey_Some [OF assms(1)]
  by (intro watch_inv_cong [OF assms(1)]) (auto simp: add_dirty_def option.map_comp comp_def)

lemma keeps_touch: "watch_inv st \<Longrightarrow> touchWatchedKey db key st = Some st' \<Longrightarrow> keeps c st st'"
  by (auto simp: touchWatchedKey_Some add_dirty_def keeps_def watching_def dirty_cas_def split: option.splits if_splits)

lemma discardTransactionE:
  assumes "discardTransaction c st = Some st'"
  obtains st1 st2 where "initClientMultiState c st = Some st1"
    "clear_flags c {REDIS_MULTI, REDIS_DIRTY_CAS, REDIS_DIRTY_EXEC} st1 = Some st2" "unwatchAllKeys c st2 = Some st'"
  using assms unfolding discardTransaction_def Option.bind_eq_Some_conv by blast

lemma discardTransaction_inv:
  assumes "watch_inv st" "discardTransaction c st = Some st'"
  shows "watch_inv st'"
  using assms(2) by (rule discardTransactionE) (rule unwatchAllKeys_inv [OF client_ops_inv(3) [OF client_ops_inv(4) [OF assms(1)]]])

lemma keeps_discardTransaction:
  assumes "watch_inv st" "d \<noteq> c" "discardTransaction d st = Some st'"
  shows "keeps c st st'"
  using assms(3)
proof (rule discardTransactionE)
  fix st1 st2
  assume s: "initClientMultiState d st = Some st1" "clear_flags d {REDIS_MULTI, REDIS_DIRTY_CAS, REDIS_DIRTY_EXEC} st1 = Some st2"
    "unwatchAllKeys d st2 = Some st'"
  have i: "watch_inv st1" using client_ops_inv(4) [OF assms(1) s(1)] .
  have "watch_inv st2" using client_ops_inv(3) [OF i s(2)] .
  then show ?thesis
    using keeps_ops(4) [OF s(1), of c] keeps_ops(3) [OF assms(2) s(2)] keeps_unwatchAllKeys [OF _ assms(2) s(3)] keeps_trans by blast
qed

lemma watch_inv_watching_cong:
  assumes "watch_inv st" "watching st' = watching st" "s_watched_keys st' = s_watched_keys st"
    "\<And>c cl. s_mem st' c = Some cl \<Longrightarrow> distinct (c_watched_keys cl)"
  shows "watch_inv st'"
proof -
  have "watchers st' = watchers st" using assms(3) by (simp add: fun_eq_iff watchers_def)
  then show ?thesis using assms by (simp add: watch_inv_def)
qed

lemma txn_step_inv: "txn_step st a st' \<Longrightarrow> watch_inv st \<Longrightarrow> watch_inv st'"
proof (induction rule: txn_step.induct)
  case (new st c)
  then show ?case
    by (intro watch_inv_watching_cong [OF new(2)]) (auto simp: fun_eq_iff watching_def new_client_def watch_inv_def split: if_splits)
next
  case (free c st st')
  obtain cl where cl: "s_mem st c = Some cl" using free(1) by (auto simp: unwatchAllKeys_def split: bind_splits)
  obtain w where st': "watch_inv st'" "st' = st\<lparr>s_watched_keys := w, s_mem := (s_mem st)(c \<mapsto> cl\<lparr>c_watched_keys := []\<rparr>)\<rparr>"
    using unwatchAllKeys_Some [OF free(2) cl] free(1) by auto
  then have "s_mem st' c = Some (cl\<lparr>c_watched_keys := []\<rparr>)" by simp
  then show ?case using watch_invD(4) [OF st'(1)]
    by (intro watch_inv_watching_cong [OF st'(1)]) (auto simp: fun_eq_iff watching_def split: if_splits)
next
  case (unwatch c st st')
  obtain st1 st2 where s: "unwatchAllKeys c st = Some st1" "clear_flags c {REDIS_DIRTY_CAS} st1 = Some st2" "addReply c (Shared ''ok'') st2 = Some st'"
    using unwatch(1) by (auto simp: unwatchCommand_def Option.bind_eq_Some_conv)
  show ?case by (rule client_ops_inv(1) [OF client_ops_inv(3) [OF unwatchAllKeys_inv [OF unwatch(2) s(1)] s(2)] s(3)])
next
  case (command c db cmd argv st st')
  then show ?case by (auto elim: upd_client_inv)
next
  case (queue c st st')
  then show ?case by (auto simp: queueMultiCommand_def Option.bind_eq_Some_conv elim: upd_client_inv)
next
  case (watch c st st')
  have "watch_inv st1" if "watch_args c (tl (c_argv (the (s_mem st c)))) st = Some st1" for st1
    using watch_args_inv [OF watch(2) that] .
  then show ?case
    using watch by (auto simp: watchCommand_def Option.bind_eq_Some_conv split: if_splits elim: client_ops_inv(1))
next
  case (multi c st st')
  have "watch_inv st1" if "set_flags c {REDIS_MULTI} st = Some st1" for st1
    using client_ops_inv(2) [OF multi(2) that] .
  then show ?case
    using multi by (auto simp: multiCommand_def Option.bind_eq_Some_conv split: if_splits elim: client_ops_inv(1))
next
  case (discard c st st')
  have "watch_inv st1" if "discardTransaction c st = Some st1" for st1
    using discardTransaction_inv [OF discard(2) that] .
  then show ?case
    using discard by (auto simp: discardCommand_def Option.bind_eq_Some_conv split: if_splits elim: client_ops_inv(1))
next
  case (flag c st st')
  then show ?case by (auto simp: flagTransaction_def Option.bind_eq_Some_conv split: if_splits intro: client_ops_inv(2))
qed (auto simp: touchWatchedKeysOnFlush_def intro: unwatchAllKeys_inv discardTransaction_inv touch_inv flush_clients_inv)

fun releases :: "cid \<Rightarrow> txn_action \<Rightarrow> bool" where
  "releases c (AUnwatch d) \<longleftrightarrow> d = c"
| "releases c (ADiscard d) \<longleftrightarrow> d = c"
| "releases c (AExecBegin d) \<longleftrightarrow> d = c"
| "releases c (AExecEnd d) \<longleftrightarrow> d = c"
| "releases c (AFree d) \<longleftrightarrow> d = c"
| "releases c _ \<longleftrightarrow> False"

lemma txn_step_keeps: "txn_step st a st' \<Longrightarrow> watch_inv st \<Longrightarrow> \<not> releases c a \<Longrightarrow> keeps c st st'"
proof (induction rule: txn_step.induct)
  case (new st d)
  then show ?case by (cases "d = c") (auto simp: keeps_def watching_def dirty_cas_def)
next
  case (free d st st')
  then have "keeps c st st'" by (auto intro: keeps_unwatchAllKeys)
  moreover have "keeps c st' (st'\<lparr>s_mem := (s_mem st')(d := None), s_clients := remove1 d (s_clients st')\<rparr>)" using free by (auto intro: keeps_mem)
  ultimately show ?case by (rule keeps_trans)
next
  case (unwatch d st st')
  then have n: "d \<noteq> c" by simp
  obtain st1 st2 where s: "unwatchAllKeys d st = Some st1" "clear_flags d {REDIS_DIRTY_CAS} st1 = Some st2" "addReply d (Shared ''ok'') st2 = Some st'"
    using unwatch(1) by (auto simp: unwatchCommand_def Option.bind_eq_Some_conv)
  show ?case
    using keeps_trans [OF keeps_trans [OF keeps_unwatchAllKeys [OF unwatch(2) n s(1)] keeps_ops(3) [OF n s(2)]] keeps_ops(1) [OF s(3)]] .
next
  case (discard d st st')
  then show ?case
    by (auto simp: discardCommand_def Option.bind_eq_Some_conv split: if_splits dest!: keeps_ops(1) [where c = c] keeps_discardTransaction [where c = c] intro: keeps_trans)
next
  case (watch d st st')
  then show ?case
    by (auto simp: watchCommand_def Option.bind_eq_Some_conv split: if_splits dest!: keeps_ops(1) [where c = c] keeps_watch_args [where c = c] intro: keeps_trans)
next
  case (multi d st st')
  then show ?case
    by (auto simp: multiCommand_def Option.bind_eq_Some_conv split: if_splits dest!: keeps_ops(1,2) [where c = c]  intro: keeps_trans)
next
  case (command d db cmd argv st st')
  then show ?case by (auto elim: keeps_upd)
qed (auto simp: flagTransaction_def touchWatchedKeysOnFlush_def split: bind_splits if_splits
  intro: keeps_ops keeps_unwatchAllKeys keeps_discardTransaction keeps_touch keeps_flush_clients)


subsection \<open>The list of clients\<close>

definition same_clients :: "'v redisServer \<Rightarrow> 'v redisServer \<Rightarrow> bool" where
  "same_clients st st' \<longleftrightarrow> s_clients st' = s_clients st \<and> dom (s_mem st') = dom (s_mem st)"

lemma same_clients_refl [simp]: "same_clients st st"
  by (simp add: same_clients_def)

lemma same_clients_trans: "same_clients st st1 \<Longrightarrow> same_clients st1 st2 \<Longrightarrow> same_clients st st2"
  by (simp add: same_clients_def)

lemma same_clients_upd: "upd_client d f st = Some st' \<Longrightarrow> same_clients st st'"
  by (auto simp: same_clients_def upd_client_eq_Some split: if_splits)

lemma same_clients_ops:
  "addReply d r st = Some st' \<Longrightarrow> same_clients st st'"
  "set_flags d fs st = Some st' \<Longrightarrow> same_clients st st'"
  "clear_flags d fs st = Some st' \<Longrightarrow> same_clients st st'"
  "initClientMultiState d st = Some st' \<Longrightarrow> same_clients st st'"
  unfolding client_ops by (fact same_clients_upd)+

lemma same_clients_watchForKey: "watchForKey d key st = Some st' \<Longrightarrow> same_clients st st'"
  by (auto simp: watchForKey_def Let_def Option.bind_eq_Some_conv same_clients_def upd_client_eq_Some split: if_splits)

lemma same_clients_watch_args: "watch_args d ks st = Some st' \<Longrightarrow> same_clients st st'"
  by (induction ks arbitrary: st) (auto simp: Option.bind_eq_Some_conv dest: same_clients_watchForKey intro: same_clients_trans)

lemma same_clients_unwatchAllKeys:
  assumes "watch_inv st" "unwatchAllKeys d st = Some st'"
  shows "same_clients st st'"
proof -
  obtain cl where cl: "s_mem st d = Some cl" using assms(2) by (auto simp: unwatchAllKeys_def Option.bind_eq_Some_conv)
  obtain w where "st' = st\<lparr>s_watched_keys := w, s_mem := (s_mem st)(d \<mapsto> cl\<lparr>c_watched_keys := []\<rparr>)\<rparr>"
    using unwatchAllKeys_Some [OF assms(1) cl] assms(2) by auto
  then show ?thesis using cl by (auto simp: same_clients_def)
qed

lemma same_clients_discardTransaction:
  assumes "watch_inv st" "discardTransaction d st = Some st'"
  shows "same_clients st st'"
  using assms(2)
proof (rule discardTransactionE)
  fix st1 st2
  assume s: "initClientMultiState d st = Some st1" "clear_flags d {REDIS_MULTI, REDIS_DIRTY_CAS, REDIS_DIRTY_EXEC} st1 = Some st2"
    "unwatchAllKeys d st2 = Some st'"
  have "watch_inv st2" using client_ops_inv(3) [OF client_ops_inv(4) [OF assms(1) s(1)] s(2)] .
  then show ?thesis
    using same_clients_trans [OF same_clients_trans [OF same_clients_ops(4) [OF s(1)] same_clients_ops(3) [OF s(2)]]
      same_clients_unwatchAllKeys [OF _ s(3)]] by blast
qed

lemma same_clients_touch: "watch_inv st \<Longrightarrow> touchWatchedKey db key st = Some st' \<Longrightarrow> same_clients st st'"
  by (auto simp: touchWatchedKey_Some same_clients_def dom_def split: if_splits)

lemma same_clients_flush: "flush_clients_loop dbid cs st = Some st' \<Longrightarrow> same_clients st st'"
  by (erule flush_clients_loop_ind) (auto dest: same_clients_ops(2) intro: same_clients_trans)

fun connects :: "txn_action \<Rightarrow> bool" where
  "connects (ANew c) \<longleftrightarrow> True"
| "connects (AFree c) \<longleftrightarrow> True"
| "connects _ \<longleftrightarrow> False"

lemma txn_step_same_clients: "txn_step st a st' \<Longrightarrow> watch_inv st \<Longrightarrow> \<not> connects a \<Longrightarrow> same_clients st st'"
proof (induction rule: txn_step.induct)
  case (watch d st st')
  then show ?case
    by (auto simp: watchCommand_def Option.bind_eq_Some_conv split: if_splits dest: same_clients_ops(1) same_clients_watch_args intro: same_clients_trans)
next
  case (unwatch d st st')
  then show ?case
    by (auto simp: unwatchCommand_def Option.bind_eq_Some_conv dest!: same_clients_ops(1,3) dest: same_clients_unwatchAllKeys intro: same_clients_trans)
next
  case (multi d st st')
  then show ?case
    by (auto simp: multiCommand_def Option.bind_eq_Some_conv split: if_splits dest: same_clients_ops(1,2) intro: same_clients_trans)
next
  case (discard d st st')
  then show ?case
    by (auto simp: discardCommand_def Option.bind_eq_Some_conv split: if_splits dest!: same_clients_ops(1) dest: same_clients_discardTransaction intro: same_clients_trans)
next
  case (queue d st st')
  then show ?case by (auto simp: queueMultiCommand_def Option.bind_eq_Some_conv dest: same_clients_upd)
next
  case (flag d st st')
  then show ?case by (auto simp: flagTransaction_def Option.bind_eq_Some_conv split: if_splits dest: same_clients_ops(2))
next
  case (command d db cmd argv st st')
  then show ?case by (auto dest: same_clients_upd)
qed (auto simp: touchWatchedKeysOnFlush_def dest: same_clients_unwatchAllKeys same_clients_discardTransaction same_clients_touch same_clients_flush)

definition clients_inv :: "'v redisServer \<Rightarrow> bool" where
  "clients_inv st \<longleftrightarrow> distinct (s_clients st) \<and> set (s_clients st) = dom (s_mem st)"

lemma txn_step_clients_inv: "txn_step st a st' \<Longrightarrow> watch_inv st \<Longrightarrow> clients_inv st \<Longrightarrow> clients_inv st'"
proof (cases "connects a")
  case False
  then show "txn_step st a st' \<Longrightarrow> watch_inv st \<Longrightarrow> clients_inv st \<Longrightarrow> clients_inv st'"
    using txn_step_same_clients [of st a st'] by (simp add: same_clients_def clients_inv_def)
next
  case True
  assume s: "txn_step st a st'" "watch_inv st" "clients_inv st"
  show "clients_inv st'"
    using s(1) True s(2,3)
  proof (cases rule: txn_step.cases)
    case (free c st1)
    then have "same_clients st st1" using same_clients_unwatchAllKeys s(2) by blast
    then show ?thesis using free s(3) by (auto simp: clients_inv_def same_clients_def)
  qed (auto simp: clients_inv_def)
qed

lemma txn_reachable_inv: "txn_reachable st \<Longrightarrow> watch_inv st \<and> clients_inv st"
proof (induction rule: txn_reachable.induct)
  case (init st)
  then show ?case by (simp add: watch_inv_def watching_def watchers_def clients_inv_def)
next
  case (step st a st')
  then show ?case using txn_step_inv txn_step_clients_inv by blast
qed

subsection \<open>Flushing\<close>

definition flush_hits :: "int \<Rightarrow> 'v redisServer \<Rightarrow> (dbid \<times> bytes) list \<Rightarrow> bool" where
  "flush_hits dbid st ws \<longleftrightarrow> (\<exists>(db, key) \<in> set ws. (dbid = - 1 \<or> int db = dbid) \<and> s_dict st db key \<noteq> None)"

lemma add_dirty_idem [simp]: "add_dirty (add_dirty cl) = add_dirty cl"
  by (simp add: add_dirty_def)

lemma flush_client_loop_Some:
  "s_mem st c = Some cl \<Longrightarrow>
   flush_client_loop dbid c ws st = Some (if flush_hits dbid st ws then st\<lparr>s_mem := (s_mem st)(c \<mapsto> add_dirty cl)\<rparr> else st)"
proof (induction ws arbitrary: st cl)
  case (Cons w ws)
  obtain db key where w: "w = (db, key)" by (cases w)
  show ?case
  proof (cases "(dbid = - 1 \<or> int db = dbid) \<and> s_dict st db key \<noteq> None")
    case True
    let ?st = "st\<lparr>s_mem := (s_mem st)(c \<mapsto> add_dirty cl)\<rparr>"
    have s: "set_flags c {REDIS_DIRTY_CAS} st = Some ?st" using Cons.prems by (simp add: set_flags_def upd_client_def add_dirty_def)
    have "flush_client_loop dbid c ws ?st = Some ?st" using Cons.IH [of ?st "add_dirty cl"] by simp
    then show ?thesis using True s w by (auto simp: flush_hits_def)
  next
    case False
    then have "flush_hits dbid st (w # ws) = flush_hits dbid st ws" using w by (auto simp: flush_hits_def)
    moreover have "flush_client_loop dbid c (w # ws) st = flush_client_loop dbid c ws st" using False w by auto
    ultimately show ?thesis using Cons.IH [OF Cons.prems] by simp
  qed
qed (simp add: flush_hits_def)

definition flushed :: "int \<Rightarrow> cid list \<Rightarrow> 'v redisServer \<Rightarrow> cid \<rightharpoonup> redisClient" where
  "flushed dbid cs st d = (case s_mem st d of None \<Rightarrow> None
     | Some cl \<Rightarrow> Some (if d \<in> set cs \<and> flush_hits dbid st (c_watched_keys cl) then add_dirty cl else cl))"

lemma flush_clients_loop_Some:
  "set cs \<subseteq> dom (s_mem st) \<Longrightarrow> flush_clients_loop dbid cs st = Some (st\<lparr>s_mem := flushed dbid cs st\<rparr>)"
proof (induction cs arbitrary: st)
  case Nil
  have "flushed dbid [] st = s_mem st" by (auto simp: fun_eq_iff flushed_def split: option.splits)
  then show ?case by simp
next
  case (Cons c cs)
  then obtain cl where cl: "s_mem st c = Some cl" by auto
  let ?st = "if flush_hits dbid st (c_watched_keys cl) then st\<lparr>s_mem := (s_mem st)(c \<mapsto> add_dirty cl)\<rparr> else st"
  have l: "flush_client_loop dbid c (c_watched_keys cl) st = Some ?st" by (rule flush_client_loop_Some [OF cl])
  have IH: "flush_clients_loop dbid cs ?st = Some (?st\<lparr>s_mem := flushed dbid cs ?st\<rparr>)"
    by (rule Cons.IH) (use Cons.prems in auto)
  have "flushed dbid cs ?st = flushed dbid (c # cs) st"
    using cl by (auto simp: fun_eq_iff flushed_def flush_hits_def add_dirty_def split: option.splits)
  then have "?st\<lparr>s_mem := flushed dbid cs ?st\<rparr> = st\<lparr>s_mem := flushed dbid (c # cs) st\<rparr>" by simp
  then show ?case using cl l IH by simp
qed

end
