(* ===== verification/Pubsub.thy ===== *)
theory Pubsub
  imports Multi Glob
begin

text \<open>
  Publish and subscribe (\<open>pubsub.c\<close>).  The subscriptions are kept twice, per client and in the server
  (channel to clients, and a list of client and pattern pairs); the channels of a client are a
  dictionary without values, here the list of its keys.
\<close>

fun addReplies :: "cid \<Rightarrow> reply list \<Rightarrow> 'v redisServer \<Rightarrow> 'v redisServer option" where
  "addReplies c [] st = Some st"
| "addReplies c (r # rs) st = do { st \<leftarrow> addReply c r st; addReplies c rs st }"

definition clientSubscriptionsCount :: "cid \<Rightarrow> 'v redisServer \<Rightarrow> int option" where
  "clientSubscriptionsCount c st = do {
     cl \<leftarrow> s_mem st c;
     Some (int (length (c_pubsub_channels cl)) + int (length (c_pubsub_patterns cl))) }"

section \<open>Subscriptions\<close>

definition ps_add_channel :: "cid \<Rightarrow> bytes \<Rightarrow> 'v redisServer \<Rightarrow> 'v redisServer option" where
  "ps_add_channel c ch st = do {
     st \<leftarrow> upd_client c (\<lambda>cl. cl\<lparr>c_pubsub_channels := c_pubsub_channels cl @ [ch]\<rparr>) st;
     let clients = (case s_pubsub_channels st ch of None \<Rightarrow> [] | Some cs \<Rightarrow> cs);
     Some (st\<lparr>s_pubsub_channels := (s_pubsub_channels st)(ch \<mapsto> clients @ [c])\<rparr>) }"

definition pubsubSubscribeChannel :: "cid \<Rightarrow> bytes \<Rightarrow> 'v redisServer \<Rightarrow> ('v redisServer \<times> nat) option" where
  "pubsubSubscribeChannel c ch st = do {
     cl \<leftarrow> s_mem st c;
     let fresh = (ch \<notin> set (c_pubsub_channels cl));
     st \<leftarrow> (if fresh then ps_add_channel c ch st else Some st);
     n \<leftarrow> clientSubscriptionsCount c st;
     st \<leftarrow> addReplies c [Shared ''mbulkhdr3'', Shared ''subscribebulk'', Bulk ch, IntReply n] st;
     Some (st, if fresh then 1 else 0) }"

text \<open>A missing entry of the channel, or a missing client in it, fails an assertion.\<close>

definition ps_del_channel :: "cid \<Rightarrow> bytes \<Rightarrow> 'v redisServer \<Rightarrow> 'v redisServer option" where
  "ps_del_channel c ch st = do {
     st \<leftarrow> upd_client c (\<lambda>cl. cl\<lparr>c_pubsub_channels := remove1 ch (c_pubsub_channels cl)\<rparr>) st;
     clients \<leftarrow> s_pubsub_channels st ch;
     if c \<in> set clients then do {
       let clients = remove1 c clients;
       Some (st\<lparr>s_pubsub_channels := (s_pubsub_channels st)(ch := (if clients = [] then None else Some clients))\<rparr>) }
     else None }"

definition pubsubUnsubscribeChannel :: "cid \<Rightarrow> bytes \<Rightarrow> bool \<Rightarrow> 'v redisServer \<Rightarrow> ('v redisServer \<times> nat) option" where
  "pubsubUnsubscribeChannel c ch notify st = do {
     cl \<leftarrow> s_mem st c;
     let found = (ch \<in> set (c_pubsub_channels cl));
     st \<leftarrow> (if found then ps_del_channel c ch st else Some st);
     n \<leftarrow> clientSubscriptionsCount c st;
     st \<leftarrow> (if notify then addReplies c [Shared ''mbulkhdr3'', Shared ''unsubscribebulk'', Bulk ch, IntReply n] st else Some st);
     Some (st, if found then 1 else 0) }"

definition ps_add_pattern :: "cid \<Rightarrow> bytes \<Rightarrow> 'v redisServer \<Rightarrow> 'v redisServer option" where
  "ps_add_pattern c p st = do {
     st \<leftarrow> upd_client c (\<lambda>cl. cl\<lparr>c_pubsub_patterns := c_pubsub_patterns cl @ [p]\<rparr>) st;
     Some (st\<lparr>s_pubsub_patterns := s_pubsub_patterns st @ [(c, p)]\<rparr>) }"

definition pubsubSubscribePattern :: "cid \<Rightarrow> bytes \<Rightarrow> 'v redisServer \<Rightarrow> ('v redisServer \<times> nat) option" where
  "pubsubSubscribePattern c p st = do {
     cl \<leftarrow> s_mem st c;
     let fresh = (p \<notin> set (c_pubsub_patterns cl));
     st \<leftarrow> (if fresh then ps_add_pattern c p st else Some st);
     n \<leftarrow> clientSubscriptionsCount c st;
     st \<leftarrow> addReplies c [Shared ''mbulkhdr3'', Shared ''psubscribebulk'', Bulk p, IntReply n] st;
     Some (st, if fresh then 1 else 0) }"

text \<open>A pair missing in the server's list would be deleted through a null pointer.\<close>

definition ps_del_pattern :: "cid \<Rightarrow> bytes \<Rightarrow> 'v redisServer \<Rightarrow> 'v redisServer option" where
  "ps_del_pattern c p st = do {
     st \<leftarrow> upd_client c (\<lambda>cl. cl\<lparr>c_pubsub_patterns := remove1 p (c_pubsub_patterns cl)\<rparr>) st;
     if (c, p) \<in> set (s_pubsub_patterns st) then Some (st\<lparr>s_pubsub_patterns := remove1 (c, p) (s_pubsub_patterns st)\<rparr>) else None }"

definition pubsubUnsubscribePattern :: "cid \<Rightarrow> bytes \<Rightarrow> bool \<Rightarrow> 'v redisServer \<Rightarrow> ('v redisServer \<times> nat) option" where
  "pubsubUnsubscribePattern c p notify st = do {
     cl \<leftarrow> s_mem st c;
     let found = (p \<in> set (c_pubsub_patterns cl));
     st \<leftarrow> (if found then ps_del_pattern c p st else Some st);
     n \<leftarrow> clientSubscriptionsCount c st;
     st \<leftarrow> (if notify then addReplies c [Shared ''mbulkhdr3'', Shared ''punsubscribebulk'', Bulk p, IntReply n] st else Some st);
     Some (st, if found then 1 else 0) }"

text \<open>Loops that call one of the above for each of a list of names and add up the results.\<close>

fun ps_each :: "(bytes \<Rightarrow> 'v redisServer \<Rightarrow> ('v redisServer \<times> nat) option) \<Rightarrow> bytes list \<Rightarrow> 'v redisServer \<Rightarrow> ('v redisServer \<times> nat) option" where
  "ps_each f [] st = Some (st, 0)"
| "ps_each f (x # xs) st = do {
     r \<leftarrow> f x st;
     q \<leftarrow> ps_each f xs (fst r);
     Some (fst q, snd r + snd q) }"

definition pubsubUnsubscribeAllChannels :: "'v hooks \<Rightarrow> cid \<Rightarrow> bool \<Rightarrow> 'v redisServer \<Rightarrow> ('v redisServer \<times> nat) option" where
  "pubsubUnsubscribeAllChannels H c notify st = do {
     cl \<leftarrow> s_mem st c;
     r \<leftarrow> ps_each (\<lambda>ch. pubsubUnsubscribeChannel c ch notify) (h_dictKeys H (set (c_pubsub_channels cl))) st;
     n \<leftarrow> clientSubscriptionsCount c (fst r);
     st \<leftarrow> (if notify \<and> snd r = 0
           then addReplies c [Shared ''mbulkhdr3'', Shared ''unsubscribebulk'', Shared ''nullbulk'', IntReply n] (fst r) else Some (fst r));
     Some (st, snd r) }"

definition pubsubUnsubscribeAllPatterns :: "cid \<Rightarrow> bool \<Rightarrow> 'v redisServer \<Rightarrow> ('v redisServer \<times> nat) option" where
  "pubsubUnsubscribeAllPatterns c notify st = do {
     cl \<leftarrow> s_mem st c;
     r \<leftarrow> ps_each (\<lambda>p. pubsubUnsubscribePattern c p notify) (c_pubsub_patterns cl) st;
     n \<leftarrow> clientSubscriptionsCount c (fst r);
     st \<leftarrow> (if notify \<and> snd r = 0
           then addReplies c [Shared ''mbulkhdr3'', Shared ''punsubscribebulk'', Shared ''nullbulk'', IntReply n] (fst r) else Some (fst r));
     Some (st, snd r) }"

section \<open>Messages\<close>

fun ps_deliver_channel :: "bytes \<Rightarrow> bytes \<Rightarrow> cid list \<Rightarrow> 'v redisServer \<Rightarrow> ('v redisServer \<times> nat) option" where
  "ps_deliver_channel ch msg [] st = Some (st, 0)"
| "ps_deliver_channel ch msg (c # cs) st = do {
     st \<leftarrow> addReplies c [Shared ''mbulkhdr3'', Shared ''messagebulk'', Bulk ch, Bulk msg] st;
     q \<leftarrow> ps_deliver_channel ch msg cs st;
     Some (fst q, Suc (snd q)) }"

definition pat_match :: "bytes \<Rightarrow> bytes \<Rightarrow> bool option" where
  "pat_match p ch = stringmatchlen (p @ [0]) (int (length p)) (ch @ [0]) (int (length ch)) False"

fun ps_deliver_patterns :: "bytes \<Rightarrow> bytes \<Rightarrow> (cid \<times> bytes) list \<Rightarrow> 'v redisServer \<Rightarrow> ('v redisServer \<times> nat) option" where
  "ps_deliver_patterns ch msg [] st = Some (st, 0)"
| "ps_deliver_patterns ch msg ((c, p) # ps) st = do {
     m \<leftarrow> pat_match p ch;
     st \<leftarrow> (if m then addReplies c [Shared ''mbulkhdr4'', Shared ''pmessagebulk'', Bulk p, Bulk ch, Bulk msg] st else Some st);
     q \<leftarrow> ps_deliver_patterns ch msg ps st;
     Some (fst q, (if m then 1 else 0) + snd q) }"

definition pubsubPublishMessage :: "bytes \<Rightarrow> bytes \<Rightarrow> 'v redisServer \<Rightarrow> ('v redisServer \<times> nat) option" where
  "pubsubPublishMessage ch msg st = do {
     r \<leftarrow> (case s_pubsub_channels st ch of None \<Rightarrow> Some (st, 0) | Some cs \<Rightarrow> ps_deliver_channel ch msg cs st);
     q \<leftarrow> ps_deliver_patterns ch msg (s_pubsub_patterns (fst r)) (fst r);
     Some (fst q, snd r + snd q) }"

section \<open>Commands\<close>

definition subscribeCommand :: "cid \<Rightarrow> 'v redisServer \<Rightarrow> 'v redisServer option" where
  "subscribeCommand c st = do {
     cl \<leftarrow> s_mem st c;
     r \<leftarrow> ps_each (pubsubSubscribeChannel c) (tl (c_argv cl)) st;
     set_flags c {REDIS_PUBSUB} (fst r) }"

definition ps_leave :: "cid \<Rightarrow> 'v redisServer \<Rightarrow> 'v redisServer option" where
  "ps_leave c st = do {
     n \<leftarrow> clientSubscriptionsCount c st;
     if n = 0 then clear_flags c {REDIS_PUBSUB} st else Some st }"

definition unsubscribeCommand :: "'v hooks \<Rightarrow> cid \<Rightarrow> 'v redisServer \<Rightarrow> 'v redisServer option" where
  "unsubscribeCommand H c st = do {
     cl \<leftarrow> s_mem st c;
     r \<leftarrow> (if length (c_argv cl) = 1 then pubsubUnsubscribeAllChannels H c True st
          else ps_each (\<lambda>ch. pubsubUnsubscribeChannel c ch True) (tl (c_argv cl)) st);
     ps_leave c (fst r) }"

definition psubscribeCommand :: "cid \<Rightarrow> 'v redisServer \<Rightarrow> 'v redisServer option" where
  "psubscribeCommand c st = do {
     cl \<leftarrow> s_mem st c;
     r \<leftarrow> ps_each (pubsubSubscribePattern c) (tl (c_argv cl)) st;
     set_flags c {REDIS_PUBSUB} (fst r) }"

definition punsubscribeCommand :: "cid \<Rightarrow> 'v redisServer \<Rightarrow> 'v redisServer option" where
  "punsubscribeCommand c st = do {
     cl \<leftarrow> s_mem st c;
     r \<leftarrow> (if length (c_argv cl) = 1 then pubsubUnsubscribeAllPatterns c True st
          else ps_each (\<lambda>p. pubsubUnsubscribePattern c p True) (tl (c_argv cl)) st);
     ps_leave c (fst r) }"

definition publishCommand :: "cid \<Rightarrow> 'v redisServer \<Rightarrow> 'v redisServer option" where
  "publishCommand c st = do {
     cl \<leftarrow> s_mem st c;
     ch \<leftarrow> arr_get (c_argv cl) 1;
     msg \<leftarrow> arr_get (c_argv cl) 2;
     r \<leftarrow> pubsubPublishMessage ch msg st;
     st \<leftarrow> forceCommandPropagation c {REDIS_PROPAGATE_REPL} (fst r);
     addReply c (IntReply (int (snd r))) st }"

text \<open>The channels \<open>PUBSUB CHANNELS\<close> lists: all, or those that match the pattern.\<close>

fun ps_filter :: "bytes option \<Rightarrow> bytes list \<Rightarrow> bytes list option" where
  "ps_filter pat [] = Some []"
| "ps_filter pat (ch # chs) = do {
     m \<leftarrow> (case pat of None \<Rightarrow> Some True | Some p \<Rightarrow> pat_match p ch);
     rest \<leftarrow> ps_filter pat chs;
     Some (if m then ch # rest else rest) }"

definition ps_numsub :: "'v redisServer \<Rightarrow> bytes \<Rightarrow> reply list" where
  "ps_numsub st ch = [Bulk ch, IntReply (case s_pubsub_channels st ch of None \<Rightarrow> 0 | Some cs \<Rightarrow> int (length cs))]"

definition pubsubCommand :: "'v hooks \<Rightarrow> cid \<Rightarrow> 'v redisServer \<Rightarrow> 'v redisServer option" where
  "pubsubCommand H c st = do {
     cl \<leftarrow> s_mem st c;
     sub \<leftarrow> arr_get (c_argv cl) 1;
     let argc = length (c_argv cl);
     channels \<leftarrow> strcasecmp_eq (sub @ [0]) 0 (str ''channels'');
     numsub \<leftarrow> strcasecmp_eq (sub @ [0]) 0 (str ''numsub'');
     numpat \<leftarrow> strcasecmp_eq (sub @ [0]) 0 (str ''numpat'');
     if channels \<and> (argc = 2 \<or> argc = 3) then do {
       chs \<leftarrow> ps_filter (if argc = 2 then None else Some (c_argv cl ! 2)) (h_dictKeys H (dom (s_pubsub_channels st)));
       addReplies c (MultiBulkLen (length chs) # map Bulk chs) st }
     else if numsub \<and> 2 \<le> argc then
       addReplies c (MultiBulkLen ((argc - 2) * 2) # concat (map (ps_numsub st) (drop 2 (c_argv cl)))) st
     else if numpat \<and> argc = 2 then addReply c (IntReply (int (length (s_pubsub_patterns st)))) st
     else addReply c (ReplyErrorFormat (''Unknown PUBSUB subcommand or wrong number of arguments for '' @ [CHR 0x27] @ ''%s'' @ [CHR 0x27]) sub) st }"

section \<open>The two copies of the subscriptions\<close>

type_synonym ps_core = "(cid \<rightharpoonup> bytes list \<times> bytes list) \<times> (bytes \<rightharpoonup> cid list) \<times> (cid \<times> bytes) list"
type_synonym ps_rel = "cid set \<times> (cid \<times> bytes) set \<times> (cid \<times> bytes) set"

text \<open>The part of the server the subscriptions live in.\<close>

definition ps_view :: "'v redisServer \<Rightarrow> ps_core" where
  "ps_view st = (\<lambda>c. map_option (\<lambda>cl. (c_pubsub_channels cl, c_pubsub_patterns cl)) (s_mem st c), s_pubsub_channels st, s_pubsub_patterns st)"

definition ps_list :: "(bytes \<rightharpoonup> cid list) \<Rightarrow> bytes \<Rightarrow> cid list" where
  "ps_list C ch = (case C ch of None \<Rightarrow> [] | Some cs \<Rightarrow> cs)"

definition subs_of :: "(cid \<rightharpoonup> bytes list \<times> bytes list) \<Rightarrow> (cid \<times> bytes) set" where
  "subs_of M = {(c, ch). \<exists>chs ps. M c = Some (chs, ps) \<and> ch \<in> set chs}"

definition psubs_of :: "(cid \<rightharpoonup> bytes list \<times> bytes list) \<Rightarrow> (cid \<times> bytes) set" where
  "psubs_of M = {(c, p). \<exists>chs ps. M c = Some (chs, ps) \<and> p \<in> set ps}"

text \<open>The abstract state: connected clients, subscriptions and pattern subscriptions as relations.\<close>

fun core_abs :: "ps_core \<Rightarrow> ps_rel" where
  "core_abs (M, C, P) = (dom M, subs_of M, psubs_of M)"

fun core_inv :: "ps_core \<Rightarrow> bool" where
  "core_inv (M, C, P) \<longleftrightarrow> (\<forall>ch. C ch \<noteq> Some [] \<and> distinct (ps_list C ch) \<and> set (ps_list C ch) = {c. (c, ch) \<in> subs_of M}) \<and>
     distinct P \<and> set P = psubs_of M \<and> (\<forall>c chs ps. M c = Some (chs, ps) \<longrightarrow> distinct chs \<and> distinct ps)"

definition ps_inv :: "'v redisServer \<Rightarrow> bool" where
  "ps_inv st \<longleftrightarrow> core_inv (ps_view st)"

definition ps_abs :: "'v redisServer \<Rightarrow> ps_rel" where
  "ps_abs st = core_abs (ps_view st)"

subsection \<open>The four updates\<close>

lemma subs_of_upd: "subs_of (M(c \<mapsto> (chs, ps))) = {x \<in> subs_of M. fst x \<noteq> c} \<union> {c} \<times> set chs"
  by (auto simp: subs_of_def split: if_splits)

lemma psubs_of_upd: "psubs_of (M(c \<mapsto> (chs, ps))) = {x \<in> psubs_of M. fst x \<noteq> c} \<union> {c} \<times> set ps"
  by (auto simp: psubs_of_def split: if_splits)

lemma subs_of_split: "M c = Some (chs, ps) \<Longrightarrow> subs_of M = {x \<in> subs_of M. fst x \<noteq> c} \<union> {c} \<times> set chs"
  by (auto simp: subs_of_def)

lemma psubs_of_split: "M c = Some (chs, ps) \<Longrightarrow> psubs_of M = {x \<in> psubs_of M. fst x \<noteq> c} \<union> {c} \<times> set ps"
  by (auto simp: psubs_of_def)

lemma subs_of_iff: "M c = Some (chs, ps) \<Longrightarrow> (c, ch) \<in> subs_of M \<longleftrightarrow> ch \<in> set chs"
  by (simp add: subs_of_def)

lemma psubs_of_iff: "M c = Some (chs, ps) \<Longrightarrow> (c, p) \<in> psubs_of M \<longleftrightarrow> p \<in> set ps"
  by (simp add: psubs_of_def)

lemma core_add_channel:
  assumes "core_inv (M, C, P)" "M c = Some (chs, ps)" "ch \<notin> set chs"
  shows "core_inv (M(c \<mapsto> (chs @ [ch], ps)), C(ch \<mapsto> ps_list C ch @ [c]), P) \<and>
    core_abs (M(c \<mapsto> (chs @ [ch], ps)), C(ch \<mapsto> ps_list C ch @ [c]), P) = (dom M, insert (c, ch) (subs_of M), psubs_of M)"
proof -
  have s: "subs_of (M(c \<mapsto> (chs @ [ch], ps))) = insert (c, ch) (subs_of M)"
    unfolding subs_of_upd by (subst (2) subs_of_split [of M c chs ps, OF assms(2)]) auto
  have p: "psubs_of (M(c \<mapsto> (chs @ [ch], ps))) = psubs_of M"
    unfolding psubs_of_upd by (rule psubs_of_split [of M c chs ps, OF assms(2), symmetric])
  have l: "ps_list (C(ch \<mapsto> ps_list C ch @ [c])) d = (if d = ch then ps_list C ch @ [c] else ps_list C d)" for d
    by (simp add: ps_list_def)
  have "c \<notin> set (ps_list C ch)" using assms subs_of_iff [of M c chs ps, OF assms(2)] by simp
  then show ?thesis using assms by (auto simp: s p l)
qed

lemma core_del_channel:
  assumes "core_inv (M, C, P)" "M c = Some (chs, ps)" "ch \<in> set chs"
  defines "C' \<equiv> C(ch := (if remove1 c (ps_list C ch) = [] then None else Some (remove1 c (ps_list C ch))))"
  shows "core_inv (M(c \<mapsto> (remove1 ch chs, ps)), C', P) \<and>
    core_abs (M(c \<mapsto> (remove1 ch chs, ps)), C', P) = (dom M, subs_of M - {(c, ch)}, psubs_of M)"
proof -
  have d: "distinct chs" using assms(1,2) by simp
  have s: "subs_of (M(c \<mapsto> (remove1 ch chs, ps))) = subs_of M - {(c, ch)}"
    unfolding subs_of_upd using d by (subst (2) subs_of_split [of M c chs ps, OF assms(2)]) auto
  have p: "psubs_of (M(c \<mapsto> (remove1 ch chs, ps))) = psubs_of M"
    unfolding psubs_of_upd by (rule psubs_of_split [of M c chs ps, OF assms(2), symmetric])
  have l: "ps_list C' d = (if d = ch then remove1 c (ps_list C ch) else ps_list C d)" for d
    by (auto simp: ps_list_def C'_def)
  have "C' d \<noteq> Some []" for d using assms(1) by (simp add: C'_def)
  then show ?thesis using assms(1,2) d by (auto simp: s p l)
qed

lemma core_add_pattern:
  assumes "core_inv (M, C, P)" "M c = Some (chs, ps)" "p \<notin> set ps"
  shows "core_inv (M(c \<mapsto> (chs, ps @ [p])), C, P @ [(c, p)]) \<and>
    core_abs (M(c \<mapsto> (chs, ps @ [p])), C, P @ [(c, p)]) = (dom M, subs_of M, insert (c, p) (psubs_of M))"
proof -
  have s: "subs_of (M(c \<mapsto> (chs, ps @ [p]))) = subs_of M"
    unfolding subs_of_upd by (rule subs_of_split [of M c chs ps, OF assms(2), symmetric])
  have p: "psubs_of (M(c \<mapsto> (chs, ps @ [p]))) = insert (c, p) (psubs_of M)"
    unfolding psubs_of_upd by (subst (2) psubs_of_split [of M c chs ps, OF assms(2)]) auto
  have "(c, p) \<notin> set P" using assms psubs_of_iff [of M c chs ps, OF assms(2)] by simp
  then show ?thesis using assms by (auto simp: s p)
qed

lemma core_del_pattern:
  assumes "core_inv (M, C, P)" "M c = Some (chs, ps)" "p \<in> set ps"
  shows "core_inv (M(c \<mapsto> (chs, remove1 p ps)), C, remove1 (c, p) P) \<and>
    core_abs (M(c \<mapsto> (chs, remove1 p ps)), C, remove1 (c, p) P) = (dom M, subs_of M, psubs_of M - {(c, p)})"
proof -
  have d: "distinct ps" "distinct P" using assms(1,2) by auto
  have s: "subs_of (M(c \<mapsto> (chs, remove1 p ps))) = subs_of M"
    unfolding subs_of_upd by (rule subs_of_split [of M c chs ps, OF assms(2), symmetric])
  have p: "psubs_of (M(c \<mapsto> (chs, remove1 p ps))) = psubs_of M - {(c, p)}"
    unfolding psubs_of_upd using d by (subst (2) psubs_of_split [of M c chs ps, OF assms(2)]) auto
  show ?thesis using assms d by (auto simp: s p)
qed

subsection \<open>Replies\<close>

lemma ps_view_same:
  "s_mem st c = Some cl \<Longrightarrow> c_pubsub_channels (f cl) = c_pubsub_channels cl \<Longrightarrow> c_pubsub_patterns (f cl) = c_pubsub_patterns cl \<Longrightarrow>
   ps_view (st\<lparr>s_mem := (s_mem st)(c \<mapsto> f cl)\<rparr>) = ps_view st"
  by (auto simp: ps_view_def fun_eq_iff)

lemma addReplies_Some:
  "s_mem st c = Some cl \<Longrightarrow> addReplies c rs st = Some (st\<lparr>s_mem := (s_mem st)(c \<mapsto> cl\<lparr>c_reply := c_reply cl @ rs\<rparr>)\<rparr>)"
proof (induction rs arbitrary: st cl)
  case Nil
  have "(s_mem st)(c \<mapsto> cl\<lparr>c_reply := c_reply cl @ []\<rparr>) = s_mem st" using Nil by (simp add: fun_upd_idem)
  then show ?case by simp
next
  case (Cons r rs)
  let ?cl = "cl\<lparr>c_reply := c_reply cl @ [r]\<rparr>"
  let ?st = "st\<lparr>s_mem := (s_mem st)(c \<mapsto> ?cl)\<rparr>"
  have "addReply c r st = Some ?st" unfolding addReply_def by (rule upd_client_Some [OF Cons.prems])
  then have "addReplies c (r # rs) st = addReplies c rs ?st" by simp
  also have "\<dots> = Some (?st\<lparr>s_mem := (s_mem ?st)(c \<mapsto> ?cl\<lparr>c_reply := c_reply ?cl @ rs\<rparr>)\<rparr>)" by (rule Cons.IH) simp
  also have "?st\<lparr>s_mem := (s_mem ?st)(c \<mapsto> ?cl\<lparr>c_reply := c_reply ?cl @ rs\<rparr>)\<rparr> = st\<lparr>s_mem := (s_mem st)(c \<mapsto> cl\<lparr>c_reply := c_reply cl @ (r # rs)\<rparr>)\<rparr>"
    by (simp add: fun_eq_iff del: fun_upd_apply)
  finally show ?case .
qed

lemma ps_live: "s_mem st c \<noteq> None \<longleftrightarrow> c \<in> fst (ps_abs st)"
  by (auto simp: ps_abs_def ps_view_def)

lemma addReplies_view: "c \<in> fst (ps_abs st) \<Longrightarrow> ensures (addReplies c rs st) (\<lambda>st'. ps_view st' = ps_view st)"
  using ps_live [of st c] by (auto simp: addReplies_Some ps_view_same)

lemma count_Some: "c \<in> fst (ps_abs st) \<Longrightarrow> \<exists>n. clientSubscriptionsCount c st = Some n"
  using ps_live [of st c] by (auto simp: clientSubscriptionsCount_def)

text \<open>\<open>becomes g st\<close>: a computation from \<open>st\<close> keeps the copies consistent and changes the relations by \<open>g\<close>.\<close>

definition becomes :: "('s \<Rightarrow> 'v redisServer) \<Rightarrow> (ps_rel \<Rightarrow> ps_rel) \<Rightarrow> 'v redisServer \<Rightarrow> 's option \<Rightarrow> bool" where
  "becomes pr g st m \<longleftrightarrow> ensures m (\<lambda>r. ps_inv (pr r) \<and> ps_abs (pr r) = g (ps_abs st))"

lemma becomes_bind:
  assumes "becomes pr g st m" "\<And>r. ps_inv (pr r) \<Longrightarrow> ps_abs (pr r) = g (ps_abs st) \<Longrightarrow> becomes pr' h (pr r) (f r)"
  shows "becomes pr' (\<lambda>a. h (g a)) st (m \<bind> f)"
  using assms unfolding becomes_def by (auto simp: ensures_iff)

lemma becomes_view: "ps_inv st \<Longrightarrow> ensures m (\<lambda>r. ps_view (pr r) = ps_view st) \<Longrightarrow> becomes pr (\<lambda>a. a) st m"
  unfolding becomes_def by (erule ensures_mono) (simp add: ps_inv_def ps_abs_def)


subsection \<open>The operations on the relations\<close>

fun rel_sub :: "cid \<Rightarrow> bytes \<Rightarrow> ps_rel \<Rightarrow> ps_rel" where
  "rel_sub c ch (L, S, P) = (L, insert (c, ch) S, P)"

fun rel_unsub :: "cid \<Rightarrow> bytes \<Rightarrow> ps_rel \<Rightarrow> ps_rel" where
  "rel_unsub c ch (L, S, P) = (L, S - {(c, ch)}, P)"

fun rel_psub :: "cid \<Rightarrow> bytes \<Rightarrow> ps_rel \<Rightarrow> ps_rel" where
  "rel_psub c p (L, S, P) = (L, S, insert (c, p) P)"

fun rel_punsub :: "cid \<Rightarrow> bytes \<Rightarrow> ps_rel \<Rightarrow> ps_rel" where
  "rel_punsub c p (L, S, P) = (L, S, P - {(c, p)})"

lemma rel_live [simp]:
  "fst (rel_sub c ch a) = fst a" "fst (rel_unsub c ch a) = fst a" "fst (rel_psub c p a) = fst a" "fst (rel_punsub c p a) = fst a"
  by (cases a; simp)+

lemma ps_view_mem: "s_mem st c = Some cl \<Longrightarrow> fst (ps_view st) c = Some (c_pubsub_channels cl, c_pubsub_patterns cl)"
  by (simp add: ps_view_def)

lemma ps_abs_eq: "ps_abs st = (dom (fst (ps_view st)), subs_of (fst (ps_view st)), psubs_of (fst (ps_view st)))"
  by (cases "ps_view st") (simp add: ps_abs_def)

lemma ps_inv_eq: "ps_inv st \<longleftrightarrow> core_inv (fst (ps_view st), s_pubsub_channels st, s_pubsub_patterns st)"
  by (simp add: ps_inv_def ps_view_def)

lemma becomesI:
  "m = Some r \<Longrightarrow> ps_view (pr r) = w \<Longrightarrow> g (ps_abs st) = a \<Longrightarrow> core_inv w \<and> core_abs w = a \<Longrightarrow> becomes pr g st m"
  by (simp add: becomes_def ps_inv_def ps_abs_def)

lemma ps_view_upd:
  "s_mem st c = Some cl \<Longrightarrow> ps_view (st\<lparr>s_mem := (s_mem st)(c \<mapsto> cl'), s_pubsub_channels := C, s_pubsub_patterns := P\<rparr>) =
   ((fst (ps_view st))(c \<mapsto> (c_pubsub_channels cl', c_pubsub_patterns cl')), C, P)"
  by (auto simp: ps_view_def fun_eq_iff)

lemma ps_add_channel_becomes:
  assumes "ps_inv st" "s_mem st c = Some cl" "ch \<notin> set (c_pubsub_channels cl)"
  shows "becomes (\<lambda>s. s) (rel_sub c ch) st (ps_add_channel c ch st)"
proof -
  let ?C = "s_pubsub_channels st"
  let ?st = "st\<lparr>s_mem := (s_mem st)(c \<mapsto> cl\<lparr>c_pubsub_channels := c_pubsub_channels cl @ [ch]\<rparr>),
    s_pubsub_channels := ?C(ch \<mapsto> ps_list ?C ch @ [c]), s_pubsub_patterns := s_pubsub_patterns st\<rparr>"
  have e: "ps_add_channel c ch st = Some ?st" using assms(2) by (simp add: ps_add_channel_def upd_client_def ps_list_def)
  have w: "ps_view ?st = ((fst (ps_view st))(c \<mapsto> (c_pubsub_channels cl @ [ch], c_pubsub_patterns cl)), ?C(ch \<mapsto> ps_list ?C ch @ [c]), s_pubsub_patterns st)"
    by (subst ps_view_upd [OF assms(2)]) simp
  have m: "fst (ps_view st) c = Some (c_pubsub_channels cl, c_pubsub_patterns cl)" by (rule ps_view_mem [OF assms(2)])
  have i: "core_inv (fst (ps_view st), s_pubsub_channels st, s_pubsub_patterns st)" using assms(1) by (simp only: ps_inv_eq)
  have a: "rel_sub c ch (ps_abs st) = (dom (fst (ps_view st)), insert (c, ch) (subs_of (fst (ps_view st))), psubs_of (fst (ps_view st)))" by (simp add: ps_abs_eq)
  show ?thesis by (rule becomesI [where pr = "\<lambda>s. s" and g = "rel_sub c ch" and st = st, OF e w a core_add_channel [OF i m assms(3)]])
qed

lemma ps_del_channel_becomes:
  assumes "ps_inv st" "s_mem st c = Some cl" "ch \<in> set (c_pubsub_channels cl)"
  shows "becomes (\<lambda>s. s) (rel_unsub c ch) st (ps_del_channel c ch st)"
proof -
  let ?C = "s_pubsub_channels st" and ?M = "fst (ps_view st)"
  let ?cs = "remove1 c (ps_list ?C ch)"
  let ?st = "st\<lparr>s_mem := (s_mem st)(c \<mapsto> cl\<lparr>c_pubsub_channels := remove1 ch (c_pubsub_channels cl)\<rparr>),
    s_pubsub_channels := ?C(ch := (if ?cs = [] then None else Some ?cs)), s_pubsub_patterns := s_pubsub_patterns st\<rparr>"
  have m: "?M c = Some (c_pubsub_channels cl, c_pubsub_patterns cl)" by (rule ps_view_mem [OF assms(2)])
  have "c \<in> set (ps_list ?C ch)" using assms(1,3) subs_of_iff [of ?M c "c_pubsub_channels cl" "c_pubsub_patterns cl", OF m] by (simp add: ps_inv_eq)
  then obtain cs where "?C ch = Some cs" "ps_list ?C ch = cs" "c \<in> set cs" by (cases "?C ch") (auto simp: ps_list_def)
  then have e: "ps_del_channel c ch st = Some ?st" using assms(2) by (simp add: ps_del_channel_def upd_client_def)
  have w: "ps_view ?st = (?M(c \<mapsto> (remove1 ch (c_pubsub_channels cl), c_pubsub_patterns cl)), ?C(ch := (if ?cs = [] then None else Some ?cs)), s_pubsub_patterns st)"
    by (subst ps_view_upd [OF assms(2)]) simp
  have i: "core_inv (fst (ps_view st), s_pubsub_channels st, s_pubsub_patterns st)" using assms(1) by (simp only: ps_inv_eq)
  have a: "rel_unsub c ch (ps_abs st) = (dom (fst (ps_view st)), subs_of (fst (ps_view st)) - {(c, ch)}, psubs_of (fst (ps_view st)))" by (simp add: ps_abs_eq)
  show ?thesis by (rule becomesI [where pr = "\<lambda>s. s" and g = "rel_unsub c ch" and st = st, OF e w a core_del_channel [OF i m assms(3)]])
qed

lemma ps_add_pattern_becomes:
  assumes "ps_inv st" "s_mem st c = Some cl" "p \<notin> set (c_pubsub_patterns cl)"
  shows "becomes (\<lambda>s. s) (rel_psub c p) st (ps_add_pattern c p st)"
proof -
  let ?st = "st\<lparr>s_mem := (s_mem st)(c \<mapsto> cl\<lparr>c_pubsub_patterns := c_pubsub_patterns cl @ [p]\<rparr>),
    s_pubsub_channels := s_pubsub_channels st, s_pubsub_patterns := s_pubsub_patterns st @ [(c, p)]\<rparr>"
  have e: "ps_add_pattern c p st = Some ?st" using assms(2) by (simp add: ps_add_pattern_def upd_client_def)
  have w: "ps_view ?st = ((fst (ps_view st))(c \<mapsto> (c_pubsub_channels cl, c_pubsub_patterns cl @ [p])), s_pubsub_channels st, s_pubsub_patterns st @ [(c, p)])"
    by (subst ps_view_upd [OF assms(2)]) simp
  have m: "fst (ps_view st) c = Some (c_pubsub_channels cl, c_pubsub_patterns cl)" by (rule ps_view_mem [OF assms(2)])
  have i: "core_inv (fst (ps_view st), s_pubsub_channels st, s_pubsub_patterns st)" using assms(1) by (simp only: ps_inv_eq)
  have a: "rel_psub c p (ps_abs st) = (dom (fst (ps_view st)), subs_of (fst (ps_view st)), insert (c, p) (psubs_of (fst (ps_view st))))" by (simp add: ps_abs_eq)
  show ?thesis by (rule becomesI [where pr = "\<lambda>s. s" and g = "rel_psub c p" and st = st, OF e w a core_add_pattern [OF i m assms(3)]])
qed

lemma ps_del_pattern_becomes:
  assumes "ps_inv st" "s_mem st c = Some cl" "p \<in> set (c_pubsub_patterns cl)"
  shows "becomes (\<lambda>s. s) (rel_punsub c p) st (ps_del_pattern c p st)"
proof -
  let ?M = "fst (ps_view st)"
  let ?st = "st\<lparr>s_mem := (s_mem st)(c \<mapsto> cl\<lparr>c_pubsub_patterns := remove1 p (c_pubsub_patterns cl)\<rparr>),
    s_pubsub_channels := s_pubsub_channels st, s_pubsub_patterns := remove1 (c, p) (s_pubsub_patterns st)\<rparr>"
  have m: "?M c = Some (c_pubsub_channels cl, c_pubsub_patterns cl)" by (rule ps_view_mem [OF assms(2)])
  have "(c, p) \<in> set (s_pubsub_patterns st)"
    using assms(1,3) psubs_of_iff [of ?M c "c_pubsub_channels cl" "c_pubsub_patterns cl", OF m] by (simp add: ps_inv_eq)
  then have e: "ps_del_pattern c p st = Some ?st" using assms(2) by (simp add: ps_del_pattern_def upd_client_def)
  have w: "ps_view ?st = (?M(c \<mapsto> (c_pubsub_channels cl, remove1 p (c_pubsub_patterns cl))), s_pubsub_channels st, remove1 (c, p) (s_pubsub_patterns st))"
    by (subst ps_view_upd [OF assms(2)]) simp
  have i: "core_inv (fst (ps_view st), s_pubsub_channels st, s_pubsub_patterns st)" using assms(1) by (simp only: ps_inv_eq)
  have a: "rel_punsub c p (ps_abs st) = (dom (fst (ps_view st)), subs_of (fst (ps_view st)), psubs_of (fst (ps_view st)) - {(c, p)})" by (simp add: ps_abs_eq)
  show ?thesis by (rule becomesI [where pr = "\<lambda>s. s" and g = "rel_punsub c p" and st = st, OF e w a core_del_pattern [OF i m assms(3)]])
qed

subsection \<open>Whole operations\<close>

lemma notify_becomes:
  assumes "ps_inv st" "c \<in> fst (ps_abs st)"
  shows "becomes fst (\<lambda>a. a) st (do { n \<leftarrow> clientSubscriptionsCount c st; st \<leftarrow> (if b then addReplies c (rs n) st else Some st); Some (st, k) })"
proof -
  obtain n where n: "clientSubscriptionsCount c st = Some n" using count_Some [OF assms(2)] by blast
  have "becomes fst (\<lambda>a. a) st (do { st \<leftarrow> (if b then addReplies c (rs n) st else Some st); Some (st, k) })"
    by (rule becomes_view [OF assms(1)], cases b) (use addReplies_view [OF assms(2), of "rs n"] in \<open>auto simp: ensures_iff\<close>)
  then show ?thesis using n by simp
qed

lemma becomes_if:
  "(b \<Longrightarrow> becomes pr g st m) \<Longrightarrow> (\<not> b \<Longrightarrow> ps_inv st \<and> g (ps_abs st) = ps_abs st \<and> pr r = st) \<Longrightarrow>
   becomes pr g st (if b then m else Some r)"
  by (cases b) (simp_all add: becomes_def)

lemma sub_absorb:
  assumes "s_mem st c = Some cl"
  shows "ch \<in> set (c_pubsub_channels cl) \<Longrightarrow> rel_sub c ch (ps_abs st) = ps_abs st"
    "ch \<notin> set (c_pubsub_channels cl) \<Longrightarrow> rel_unsub c ch (ps_abs st) = ps_abs st"
    "p \<in> set (c_pubsub_patterns cl) \<Longrightarrow> rel_psub c p (ps_abs st) = ps_abs st"
    "p \<notin> set (c_pubsub_patterns cl) \<Longrightarrow> rel_punsub c p (ps_abs st) = ps_abs st"
  using subs_of_iff [of "fst (ps_view st)" c, OF ps_view_mem [OF assms]] psubs_of_iff [of "fst (ps_view st)" c, OF ps_view_mem [OF assms]]
  by (auto simp: ps_abs_eq)

lemma ps_liveE:
  assumes "c \<in> fst (ps_abs st)"
  obtains cl where "s_mem st c = Some cl"
  using ps_live [of st c] assms by auto

lemma update_notify_becomes:
  assumes "becomes (\<lambda>s. s) g st m" "fst (g (ps_abs st)) = fst (ps_abs st)" "c \<in> fst (ps_abs st)"
  shows "becomes fst g st (m \<bind> (\<lambda>st. do { n \<leftarrow> clientSubscriptionsCount c st;
    st \<leftarrow> (if b then addReplies c (rs n) st else Some st); Some (st, k) }))"
proof -
  have "becomes fst (\<lambda>a. (\<lambda>a. a) (g a)) st (m \<bind> (\<lambda>st. do { n \<leftarrow> clientSubscriptionsCount c st;
    st \<leftarrow> (if b then addReplies c (rs n) st else Some st); Some (st, k) }))"
    by (rule becomes_bind [OF assms(1)], rule notify_becomes) (use assms(2,3) in auto)
  then show ?thesis by simp
qed

lemma pubsub_ops_become:
  assumes "ps_inv st" "c \<in> fst (ps_abs st)"
  shows "becomes fst (rel_sub c x) st (pubsubSubscribeChannel c x st)"
    "becomes fst (rel_unsub c x) st (pubsubUnsubscribeChannel c x b st)"
    "becomes fst (rel_psub c x) st (pubsubSubscribePattern c x st)"
    "becomes fst (rel_punsub c x) st (pubsubUnsubscribePattern c x b st)"
proof -
  obtain cl where cl: "s_mem st c = Some cl" using assms(2) by (rule ps_liveE)
  note ab = sub_absorb [OF cl, of x] and notify = update_notify_becomes [OF _ _ assms(2)]
  have "becomes (\<lambda>s. s) (rel_sub c x) st (if x \<notin> set (c_pubsub_channels cl) then ps_add_channel c x st else Some st)"
    by (rule becomes_if) (use ps_add_channel_becomes [OF assms(1) cl] ab assms(1) in auto)
  then show "becomes fst (rel_sub c x) st (pubsubSubscribeChannel c x st)"
    unfolding pubsubSubscribeChannel_def cl Option.bind.bind_lunit Let_def by (rule notify [where b = True, unfolded if_True]) simp
  have "becomes (\<lambda>s. s) (rel_unsub c x) st (if x \<in> set (c_pubsub_channels cl) then ps_del_channel c x st else Some st)"
    by (rule becomes_if) (use ps_del_channel_becomes [OF assms(1) cl] ab assms(1) in auto)
  then show "becomes fst (rel_unsub c x) st (pubsubUnsubscribeChannel c x b st)"
    unfolding pubsubUnsubscribeChannel_def cl Option.bind.bind_lunit Let_def by (rule notify) simp
  have "becomes (\<lambda>s. s) (rel_psub c x) st (if x \<notin> set (c_pubsub_patterns cl) then ps_add_pattern c x st else Some st)"
    by (rule becomes_if) (use ps_add_pattern_becomes [OF assms(1) cl] ab assms(1) in auto)
  then show "becomes fst (rel_psub c x) st (pubsubSubscribePattern c x st)"
    unfolding pubsubSubscribePattern_def cl Option.bind.bind_lunit Let_def by (rule notify [where b = True, unfolded if_True]) simp
  have "becomes (\<lambda>s. s) (rel_punsub c x) st (if x \<in> set (c_pubsub_patterns cl) then ps_del_pattern c x st else Some st)"
    by (rule becomes_if) (use ps_del_pattern_becomes [OF assms(1) cl] ab assms(1) in auto)
  then show "becomes fst (rel_punsub c x) st (pubsubUnsubscribePattern c x b st)"
    unfolding pubsubUnsubscribePattern_def cl Option.bind.bind_lunit Let_def by (rule notify) simp
qed

lemma ps_each_becomes:
  assumes "\<And>x st. ps_inv st \<Longrightarrow> c \<in> fst (ps_abs st) \<Longrightarrow> becomes fst (g x) st (f x st)"
    and "\<And>x a. fst (g x a) = fst a"
  shows "ps_inv st \<Longrightarrow> c \<in> fst (ps_abs st) \<Longrightarrow> becomes fst (fold g xs) st (ps_each f xs st)"
proof (induction xs arbitrary: st)
  case Nil
  then show ?case by (simp add: becomes_def)
next
  case (Cons x xs)
  have e: "fold g (x # xs) = (\<lambda>a. fold g xs (g x a))" by (simp add: fun_eq_iff)
  have n: "becomes fst (fold g xs) st' (do { q \<leftarrow> ps_each f xs st'; Some (fst q, k + snd q) })"
    if "ps_inv st'" "c \<in> fst (ps_abs st')" for st' k
    using Cons.IH [OF that] by (auto simp: becomes_def ensures_iff)
  show ?case unfolding e ps_each.simps
    by (rule becomes_bind [OF assms(1) [OF Cons.prems]], rule n) (use Cons.prems(2) assms(2) in auto)
qed


lemma fold_rel:
  "fold (rel_sub c) xs (L, S, P) = (L, S \<union> {c} \<times> set xs, P)"
  "fold (rel_unsub c) xs (L, S, P) = (L, S - {c} \<times> set xs, P)"
  "fold (rel_psub c) xs (L, S, P) = (L, S, P \<union> {c} \<times> set xs)"
  "fold (rel_punsub c) xs (L, S, P) = (L, S, P - {c} \<times> set xs)"
  by (induction xs arbitrary: S P) auto

lemma fold_live: "fst (fold (rel_sub c) xs a) = fst a" "fst (fold (rel_unsub c) xs a) = fst a"
  "fst (fold (rel_psub c) xs a) = fst a" "fst (fold (rel_punsub c) xs a) = fst a"
  by (cases a; simp add: fold_rel)+

lemma upd_becomes:
  assumes "ps_inv st" "c \<in> fst (ps_abs st)" "\<And>cl. c_pubsub_channels (f cl) = c_pubsub_channels cl" "\<And>cl. c_pubsub_patterns (f cl) = c_pubsub_patterns cl"
  shows "becomes (\<lambda>s. s) (\<lambda>a. a) st (upd_client c f st)"
proof -
  obtain cl where "s_mem st c = Some cl" using assms(2) by (rule ps_liveE)
  then show ?thesis by (intro becomes_view [OF assms(1)]) (simp add: upd_client_Some ps_view_same assms(3,4))
qed

lemma flags_become:
  assumes "ps_inv st" "c \<in> fst (ps_abs st)"
  shows "becomes (\<lambda>s. s) (\<lambda>a. a) st (set_flags c fs st)" "becomes (\<lambda>s. s) (\<lambda>a. a) st (clear_flags c fs st)"
  unfolding set_flags_def clear_flags_def by (rule upd_becomes [OF assms]; simp)+

lemma ps_leave_becomes:
  assumes "ps_inv st" "c \<in> fst (ps_abs st)"
  shows "becomes (\<lambda>s. s) (\<lambda>a. a) st (ps_leave c st)"
proof -
  obtain n where "clientSubscriptionsCount c st = Some n" using count_Some [OF assms(2)] by blast
  then show ?thesis using flags_become(2) [OF assms, of "{REDIS_PUBSUB}"] assms(1) by (simp add: ps_leave_def becomes_def)
qed

lemma becomes_bind_same:
  assumes "becomes pr g st m" "fst (g (ps_abs st)) = fst (ps_abs st)" "c \<in> fst (ps_abs st)"
    "\<And>r. ps_inv (pr r) \<Longrightarrow> c \<in> fst (ps_abs (pr r)) \<Longrightarrow> becomes pr' (\<lambda>a. a) (pr r) (f r)"
  shows "becomes pr' g st (m \<bind> f)"
  using becomes_bind [OF assms(1), of pr' "\<lambda>a. a" f] assms(2-4) by simp

lemma subscribe_becomes:
  assumes "ps_inv st" "s_mem st c = Some cl"
  shows "becomes (\<lambda>s. s) (fold (rel_sub c) (tl (c_argv cl))) st (subscribeCommand c st)"
    "becomes (\<lambda>s. s) (fold (rel_psub c) (tl (c_argv cl))) st (psubscribeCommand c st)"
proof -
  have l: "c \<in> fst (ps_abs st)" using assms(2) ps_live [of st c] by simp
  have "becomes (\<lambda>s. s) (fold (rel_sub c) (tl (c_argv cl))) st (ps_each (pubsubSubscribeChannel c) (tl (c_argv cl)) st \<bind> (\<lambda>r. set_flags c {REDIS_PUBSUB} (fst r)))"
    by (rule becomes_bind_same [where c = c, OF ps_each_becomes [where c = c and g = "rel_sub c", OF pubsub_ops_become(1) _ assms(1) l]])
      (auto simp: fold_live l flags_become)
  then show "becomes (\<lambda>s. s) (fold (rel_sub c) (tl (c_argv cl))) st (subscribeCommand c st)" using assms(2) by (simp add: subscribeCommand_def)
  have "becomes (\<lambda>s. s) (fold (rel_psub c) (tl (c_argv cl))) st (ps_each (pubsubSubscribePattern c) (tl (c_argv cl)) st \<bind> (\<lambda>r. set_flags c {REDIS_PUBSUB} (fst r)))"
    by (rule becomes_bind_same [where c = c, OF ps_each_becomes [where c = c and g = "rel_psub c", OF pubsub_ops_become(3) _ assms(1) l]])
      (auto simp: fold_live l flags_become)
  then show "becomes (\<lambda>s. s) (fold (rel_psub c) (tl (c_argv cl))) st (psubscribeCommand c st)" using assms(2) by (simp add: psubscribeCommand_def)
qed

text \<open>The names an UNSUBSCRIBE without arguments works on are all those of the client.\<close>

fun rel_clear :: "cid \<Rightarrow> ps_rel \<Rightarrow> ps_rel" where
  "rel_clear c (L, S, P) = (L, {x \<in> S. fst x \<noteq> c}, P)"

fun rel_pclear :: "cid \<Rightarrow> ps_rel \<Rightarrow> ps_rel" where
  "rel_pclear c (L, S, P) = (L, S, {x \<in> P. fst x \<noteq> c})"

lemma rel_clear_live [simp]: "fst (rel_clear c a) = fst a" "fst (rel_pclear c a) = fst a"
  by (cases a; simp)+

lemma fold_unsub_all:
  assumes "s_mem st c = Some cl" "set xs = set (c_pubsub_channels cl)"
  shows "fold (rel_unsub c) xs (ps_abs st) = rel_clear c (ps_abs st)"
  using assms(2) subs_of_iff [of "fst (ps_view st)" c, OF ps_view_mem [OF assms(1)]] by (auto simp: ps_abs_eq fold_rel)

lemma fold_punsub_all:
  assumes "s_mem st c = Some cl"
  shows "fold (rel_punsub c) (c_pubsub_patterns cl) (ps_abs st) = rel_pclear c (ps_abs st)"
  using psubs_of_iff [of "fst (ps_view st)" c, OF ps_view_mem [OF assms(1)]] by (auto simp: ps_abs_eq fold_rel)

lemma null_reply_becomes:
  assumes "ps_inv (fst r)" "c \<in> fst (ps_abs (fst r))"
  shows "becomes fst (\<lambda>a. a) (fst r) (do { n \<leftarrow> clientSubscriptionsCount c (fst r);
     st \<leftarrow> (if b then addReplies c (rs n) (fst r) else Some (fst r)); Some (st, snd r) })"
  using notify_becomes [OF assms] .

definition dictKeys_ok :: "'v hooks \<Rightarrow> bool" where
  "dictKeys_ok H \<longleftrightarrow> (\<forall>S. finite S \<longrightarrow> set (h_dictKeys H S) = S \<and> distinct (h_dictKeys H S))"

lemma unsubscribe_all_becomes:
  assumes "ps_inv st" "c \<in> fst (ps_abs st)"
  shows "dictKeys_ok H \<Longrightarrow> becomes fst (rel_clear c) st (pubsubUnsubscribeAllChannels H c b st)"
    "becomes fst (rel_pclear c) st (pubsubUnsubscribeAllPatterns c b st)"
proof -
  obtain cl where cl: "s_mem st c = Some cl" using assms(2) by (rule ps_liveE)
  assume "dictKeys_ok H"
  then have k: "set (h_dictKeys H (set (c_pubsub_channels cl))) = set (c_pubsub_channels cl)" by (simp add: dictKeys_ok_def)
  have "becomes fst (fold (rel_unsub c) (h_dictKeys H (set (c_pubsub_channels cl)))) st (pubsubUnsubscribeAllChannels H c b st)"
    unfolding pubsubUnsubscribeAllChannels_def cl Option.bind.bind_lunit
    by (rule becomes_bind_same [where c = c, OF ps_each_becomes [where c = c and g = "rel_unsub c", OF pubsub_ops_become(2) _ assms]])
      (auto simp: fold_live assms(2) intro: null_reply_becomes)
  then show "becomes fst (rel_clear c) st (pubsubUnsubscribeAllChannels H c b st)"
    by (simp add: becomes_def fold_unsub_all [OF cl k])
next
  obtain cl where cl: "s_mem st c = Some cl" using assms(2) by (rule ps_liveE)
  have "becomes fst (fold (rel_punsub c) (c_pubsub_patterns cl)) st (pubsubUnsubscribeAllPatterns c b st)"
    unfolding pubsubUnsubscribeAllPatterns_def cl Option.bind.bind_lunit
    by (rule becomes_bind_same [where c = c, OF ps_each_becomes [where c = c and g = "rel_punsub c", OF pubsub_ops_become(4) _ assms]])
      (auto simp: fold_live assms(2) intro: null_reply_becomes)
  then show "becomes fst (rel_pclear c) st (pubsubUnsubscribeAllPatterns c b st)"
    by (simp add: becomes_def fold_punsub_all [OF cl])
qed

lemma unsubscribe_becomes:
  assumes "ps_inv st" "s_mem st c = Some cl" "c_argv cl = x # xs" "dictKeys_ok H"
  shows "becomes (\<lambda>s. s) (if xs = [] then rel_clear c else fold (rel_unsub c) xs) st (unsubscribeCommand H c st)"
    "becomes (\<lambda>s. s) (if xs = [] then rel_pclear c else fold (rel_punsub c) xs) st (punsubscribeCommand c st)"
proof -
  have l: "c \<in> fst (ps_abs st)" using assms(2) ps_live [of st c] by simp
  have "becomes fst (if xs = [] then rel_clear c else fold (rel_unsub c) xs) st
      (if length (c_argv cl) = 1 then pubsubUnsubscribeAllChannels H c True st else ps_each (\<lambda>ch. pubsubUnsubscribeChannel c ch True) (tl (c_argv cl)) st)"
    using unsubscribe_all_becomes(1) [OF assms(1) l assms(4)] ps_each_becomes [where c = c and g = "rel_unsub c", OF pubsub_ops_become(2) _ assms(1) l]
    by (simp add: assms(3))
  then show "becomes (\<lambda>s. s) (if xs = [] then rel_clear c else fold (rel_unsub c) xs) st (unsubscribeCommand H c st)"
    unfolding unsubscribeCommand_def assms(2) Option.bind.bind_lunit by (rule becomes_bind_same [where c = c]) (auto simp: fold_live l ps_leave_becomes)
  have "becomes fst (if xs = [] then rel_pclear c else fold (rel_punsub c) xs) st
      (if length (c_argv cl) = 1 then pubsubUnsubscribeAllPatterns c True st else ps_each (\<lambda>p. pubsubUnsubscribePattern c p True) (tl (c_argv cl)) st)"
    using unsubscribe_all_becomes(2) [OF assms(1) l] ps_each_becomes [where c = c and g = "rel_punsub c", OF pubsub_ops_become(4) _ assms(1) l]
    by (simp add: assms(3))
  then show "becomes (\<lambda>s. s) (if xs = [] then rel_pclear c else fold (rel_punsub c) xs) st (punsubscribeCommand c st)"
    unfolding punsubscribeCommand_def assms(2) Option.bind.bind_lunit by (rule becomes_bind_same [where c = c]) (auto simp: fold_live l ps_leave_becomes)
qed

end
