(* ===== verification/Pubsub_Correct.thy ===== *)
theory Pubsub_Correct
  imports Pubsub "HOL-Library.List_Lexorder"
begin

text \<open>
  What publish/subscribe guarantees: the delivery of messages, and the refinement of two relations
  between clients and names.
\<close>

subsection \<open>Delivery\<close>

text \<open>Every client \<open>d\<close> gets the replies \<open>f d\<close>.\<close>

definition replied :: "(cid \<Rightarrow> reply list) \<Rightarrow> 'v redisServer \<Rightarrow> 'v redisServer" where
  "replied f st = st\<lparr>s_mem := (\<lambda>d. map_option (\<lambda>cl. cl\<lparr>c_reply := c_reply cl @ f d\<rparr>) (s_mem st d))\<rparr>"

lemma replied_nothing [simp]: "replied (\<lambda>_. []) st = st"
proof -
  have "map_option (\<lambda>cl. cl\<lparr>c_reply := c_reply cl\<rparr>) x = x" for x :: "redisClient option" by (cases x) simp_all
  then show ?thesis by (simp add: replied_def)
qed

lemma replied_replied [simp]: "replied g (replied f st) = replied (\<lambda>d. f d @ g d) st"
  by (simp add: replied_def option.map_comp comp_def)

lemma replied_simps [simp]:
  "s_mem (replied f st) d = None \<longleftrightarrow> s_mem st d = None" "s_pubsub_channels (replied f st) = s_pubsub_channels st"
  "s_pubsub_patterns (replied f st) = s_pubsub_patterns st" "ps_view (replied f st) = ps_view st"
  by (simp_all add: replied_def ps_view_def option.map_comp comp_def)

lemma addReplies_replied: "s_mem st c \<noteq> None \<Longrightarrow> addReplies c rs st = Some (replied (\<lambda>d. if d = c then rs else []) st)"
proof -
  assume "s_mem st c \<noteq> None"
  then obtain cl where cl: "s_mem st c = Some cl" by blast
  have "(s_mem st)(c \<mapsto> cl\<lparr>c_reply := c_reply cl @ rs\<rparr>) = s_mem (replied (\<lambda>d. if d = c then rs else []) st)"
    using cl by (auto simp: replied_def fun_eq_iff split: option.splits) (metis option.map_ident_strong)+
  then show ?thesis by (simp add: addReplies_Some [OF cl] replied_def)
qed

declare addReplies.simps [simp del]

definition ps_message :: "bytes \<Rightarrow> bytes \<Rightarrow> reply list" where
  "ps_message ch msg = [Shared ''mbulkhdr3'', Shared ''messagebulk'', Bulk ch, Bulk msg]"

definition ps_pmessage :: "bytes \<Rightarrow> bytes \<Rightarrow> bytes \<Rightarrow> reply list" where
  "ps_pmessage p ch msg = [Shared ''mbulkhdr4'', Shared ''pmessagebulk'', Bulk p, Bulk ch, Bulk msg]"

lemma ps_deliver_channel_Some:
  "\<forall>c \<in> set cs. s_mem st c \<noteq> None \<Longrightarrow> ps_deliver_channel ch msg cs st =
   Some (replied (\<lambda>d. concat (map (\<lambda>c. if d = c then ps_message ch msg else []) cs)) st, length cs)"
proof (induction cs arbitrary: st)
  case (Cons c cs)
  have "addReplies c [Shared ''mbulkhdr3'', Shared ''messagebulk'', Bulk ch, Bulk msg] st = Some (replied (\<lambda>d. if d = c then ps_message ch msg else []) st)"
    unfolding ps_message_def by (rule addReplies_replied) (use Cons.prems in simp)
  then show ?case using Cons.IH [of "replied (\<lambda>d. if d = c then ps_message ch msg else []) st"] Cons.prems
    by simp
qed simp

text \<open>The channels a pattern stands for, by the declarative meaning of patterns.\<close>

definition pat_of :: "bytes \<Rightarrow> bytes \<Rightarrow> glob_tok list \<Rightarrow> bool" where
  "pat_of p ch ts \<longleftrightarrow> (\<forall>t \<in> set ts. wf_tok t) \<and> p = render ts \<and> (ch \<noteq> [] \<or> ts = [] \<or> \<not> is_class (hd ts))"

definition pat_lang :: "bytes \<Rightarrow> bytes \<Rightarrow> bool" where
  "pat_lang p ch \<longleftrightarrow> (\<exists>ts. pat_of p ch ts \<and> glob False ts ch)"

lemma pat_match_lang:
  assumes "\<exists>ts. pat_of p ch ts"
  shows "pat_match p ch = Some (pat_lang p ch)"
proof -
  have m: "pat_match p ch = Some (glob False ts ch)" if "pat_of p ch ts" for ts
    using stringmatchlen_render [of ts ch False "[]" "[]"] that by (simp add: pat_of_def pat_match_def matches_def)
  obtain ts where ts: "pat_of p ch ts" using assms by blast
  have "glob False ts' ch = glob False ts ch" if "pat_of p ch ts'" for ts' using m [OF ts] m [OF that] by simp
  then have "pat_lang p ch = glob False ts ch" unfolding pat_lang_def using ts by blast
  then show ?thesis using m [OF ts] by simp
qed

lemma ps_deliver_patterns_Some:
  "\<forall>(c, p) \<in> set ps. s_mem st c \<noteq> None \<and> (\<exists>ts. pat_of p ch ts) \<Longrightarrow> ps_deliver_patterns ch msg ps st =
   Some (replied (\<lambda>d. concat (map (\<lambda>(c, p). if d = c \<and> pat_lang p ch then ps_pmessage p ch msg else []) ps)) st,
     length (filter (\<lambda>(c, p). pat_lang p ch) ps))"
proof (induction ps arbitrary: st)
  case (Cons x ps)
  obtain c p where x: "x = (c, p)" by (cases x)
  have m: "pat_match p ch = Some (pat_lang p ch)" using Cons.prems x by (intro pat_match_lang) auto
  let ?f = "\<lambda>d. if d = c \<and> pat_lang p ch then ps_pmessage p ch msg else []"
  have a: "(if pat_lang p ch then addReplies c [Shared ''mbulkhdr4'', Shared ''pmessagebulk'', Bulk p, Bulk ch, Bulk msg] st else Some st) = Some (replied ?f st)"
    unfolding ps_pmessage_def using addReplies_replied [of st c] Cons.prems x by (cases "pat_lang p ch") simp_all
  have "ps_deliver_patterns ch msg ps (replied ?f st) =
    Some (replied (\<lambda>d. concat (map (\<lambda>(c, p). if d = c \<and> pat_lang p ch then ps_pmessage p ch msg else []) ps)) (replied ?f st),
     length (filter (\<lambda>(c, p). pat_lang p ch) ps))"
    by (rule Cons.IH) (use Cons.prems in auto)
  then show ?case unfolding x ps_deliver_patterns.simps m Option.bind.bind_lunit a by simp
qed simp

definition ps_received :: "'v redisServer \<Rightarrow> bytes \<Rightarrow> bytes \<Rightarrow> cid \<Rightarrow> reply list" where
  "ps_received st ch msg d = (if (d, ch) \<in> fst (snd (ps_abs st)) then ps_message ch msg else []) @
     concat (map (\<lambda>p. ps_pmessage p ch msg) (filter (\<lambda>p. pat_lang p ch) (map snd (filter (\<lambda>x. fst x = d) (s_pubsub_patterns st)))))"

lemma concat_if_distinct: "distinct cs \<Longrightarrow> concat (map (\<lambda>c. if d = c then m else []) cs) = (if d \<in> set cs then m else [])"
  by (induction cs) auto

lemma concat_filter_pairs:
  "concat (map (\<lambda>(c, p). if d = c \<and> Q p then g p else []) ps) = concat (map g (filter Q (map snd (filter (\<lambda>x. fst x = d) ps))))"
  by (induction ps) auto

lemma ps_inv_channel:
  assumes "ps_inv st"
  shows "set (ps_list (s_pubsub_channels st) ch) = {c. (c, ch) \<in> fst (snd (ps_abs st))}" "distinct (ps_list (s_pubsub_channels st) ch)"
    "set (s_pubsub_patterns st) = snd (snd (ps_abs st))" "distinct (s_pubsub_patterns st)"
  using assms by (auto simp: ps_inv_eq ps_abs_eq)

lemma ps_abs_live: "(c, x) \<in> fst (snd (ps_abs st)) \<or> (c, x) \<in> snd (snd (ps_abs st)) \<Longrightarrow> s_mem st c \<noteq> None"
  by (auto simp: ps_abs_eq subs_of_def psubs_of_def ps_view_def)

lemma publish_Some:
  assumes "ps_inv st" "\<forall>(c, p) \<in> snd (snd (ps_abs st)). \<exists>ts. pat_of p ch ts"
  shows "pubsubPublishMessage ch msg st = Some (replied (ps_received st ch msg) st,
    card {c. (c, ch) \<in> fst (snd (ps_abs st))} + card {(c, p) \<in> snd (snd (ps_abs st)). pat_lang p ch})"
proof -
  let ?cs = "ps_list (s_pubsub_channels st) ch" and ?ps = "s_pubsub_patterns st"
  note inv = ps_inv_channel [OF assms(1)]
  have "\<forall>c \<in> set ?cs. s_mem st c \<noteq> None" using inv(1) [of ch] ps_abs_live [of _ ch st] by blast
  then have l: "(case s_pubsub_channels st ch of None \<Rightarrow> Some (st, 0) | Some cs \<Rightarrow> ps_deliver_channel ch msg cs st) =
      Some (replied (\<lambda>d. if d \<in> set ?cs then ps_message ch msg else []) st, length ?cs)" (is "_ = Some (?st1, _)")
    using ps_deliver_channel_Some [of ?cs st ch msg] inv(2) [of ch]
    by (cases "s_pubsub_channels st ch") (simp_all add: ps_list_def concat_if_distinct)
  let ?f = "\<lambda>d. concat (map (\<lambda>(c, p). if d = c \<and> pat_lang p ch then ps_pmessage p ch msg else []) ?ps)"
  have "s_mem st c \<noteq> None \<and> (\<exists>ts. pat_of p ch ts)" if "(c, p) \<in> set ?ps" for c p
  proof -
    have "(c, p) \<in> snd (snd (ps_abs st))" using that inv(3) by simp
    then show ?thesis using assms(2) ps_abs_live [of c p st] by auto
  qed
  then have d: "ps_deliver_patterns ch msg ?ps ?st1 = Some (replied ?f ?st1, length (filter (\<lambda>(c, p). pat_lang p ch) ?ps))"
    by (intro ps_deliver_patterns_Some) auto
  have "(\<lambda>d. (if d \<in> set ?cs then ps_message ch msg else []) @ ?f d) = ps_received st ch msg"
    by (rule ext) (simp only: ps_received_def concat_filter_pairs inv(1) mem_Collect_eq)
  then have "replied ?f ?st1 = replied (ps_received st ch msg) st" by simp
  then have e: "pubsubPublishMessage ch msg st = Some (replied (ps_received st ch msg) st, length ?cs + length (filter (\<lambda>(c, p). pat_lang p ch) ?ps))"
    unfolding pubsubPublishMessage_def l using d by simp
  have "length ?cs = card {c. (c, ch) \<in> fst (snd (ps_abs st))}" using distinct_card [OF inv(2), of ch] inv(1) [of ch] by simp
  moreover have "length (filter (\<lambda>(c, p). pat_lang p ch) ?ps) = card {(c, p) \<in> snd (snd (ps_abs st)). pat_lang p ch}"
    using distinct_card [of "filter (\<lambda>(c, p). pat_lang p ch) ?ps"] inv(3,4) by (simp add: case_prod_unfold)
  ultimately show ?thesis using e by simp
qed

section \<open>Refinement\<close>

text \<open>
  A history of the publish/subscribe part: connections (\<open>createClient\<close>), disconnections (the calls of
  \<open>freeClient\<close>), the commands with their arguments, and messages; the result is the number of receivers.
\<close>

datatype ps_op = PConnect cid | PDisconnect cid | PSubscribe cid "bytes list" | PUnsubscribe cid "bytes list"
  | PPsubscribe cid "bytes list" | PPunsubscribe cid "bytes list" | PPublish bytes bytes

definition with_args :: "cid \<Rightarrow> bytes list \<Rightarrow> ('v redisServer \<Rightarrow> 'v redisServer option) \<Rightarrow> 'v redisServer \<Rightarrow> ('v redisServer \<times> nat) option" where
  "with_args c args f st = do {
     st \<leftarrow> upd_client c (\<lambda>cl. cl\<lparr>c_argv := [] # args\<rparr>) st;
     st \<leftarrow> f st;
     Some (st, 0) }"

fun ps_step :: "'v hooks \<Rightarrow> 'v redisServer \<Rightarrow> ps_op \<Rightarrow> ('v redisServer \<times> nat) option" where
  "ps_step H st (PConnect c) = Some (st\<lparr>s_mem := (s_mem st)(c \<mapsto> new_client)\<rparr>, 0)"
| "ps_step H st (PDisconnect c) = do {
     r \<leftarrow> pubsubUnsubscribeAllChannels H c False st;
     r \<leftarrow> pubsubUnsubscribeAllPatterns c False (fst r);
     Some ((fst r)\<lparr>s_mem := (s_mem (fst r))(c := None)\<rparr>, 0) }"
| "ps_step H st (PSubscribe c args) = with_args c args (subscribeCommand c) st"
| "ps_step H st (PUnsubscribe c args) = with_args c args (unsubscribeCommand H c) st"
| "ps_step H st (PPsubscribe c args) = with_args c args (psubscribeCommand c) st"
| "ps_step H st (PPunsubscribe c args) = with_args c args (punsubscribeCommand c) st"
| "ps_step H st (PPublish ch msg) = pubsubPublishMessage ch msg st"

fun ps_spec :: "ps_rel \<Rightarrow> ps_op \<Rightarrow> ps_rel \<times> nat" where
  "ps_spec (L, S, P) (PConnect c) = ((insert c L, S, P), 0)"
| "ps_spec (L, S, P) (PDisconnect c) = ((L - {c}, {x \<in> S. fst x \<noteq> c}, {x \<in> P. fst x \<noteq> c}), 0)"
| "ps_spec (L, S, P) (PSubscribe c chs) = ((L, S \<union> {c} \<times> set chs, P), 0)"
| "ps_spec (L, S, P) (PUnsubscribe c chs) = ((L, if chs = [] then {x \<in> S. fst x \<noteq> c} else S - {c} \<times> set chs, P), 0)"
| "ps_spec (L, S, P) (PPsubscribe c ps) = ((L, S, P \<union> {c} \<times> set ps), 0)"
| "ps_spec (L, S, P) (PPunsubscribe c ps) = ((L, S, if ps = [] then {x \<in> P. fst x \<noteq> c} else P - {c} \<times> set ps), 0)"
| "ps_spec (L, S, P) (PPublish ch msg) = ((L, S, P), card {c. (c, ch) \<in> S} + card {(c, p) \<in> P. pat_lang p ch})"

fun ps_ok :: "ps_rel \<Rightarrow> ps_op \<Rightarrow> bool" where
  "ps_ok (L, S, P) (PConnect c) \<longleftrightarrow> c \<notin> L"
| "ps_ok (L, S, P) (PDisconnect c) \<longleftrightarrow> c \<in> L"
| "ps_ok (L, S, P) (PSubscribe c _) \<longleftrightarrow> c \<in> L"
| "ps_ok (L, S, P) (PUnsubscribe c _) \<longleftrightarrow> c \<in> L"
| "ps_ok (L, S, P) (PPsubscribe c _) \<longleftrightarrow> c \<in> L"
| "ps_ok (L, S, P) (PPunsubscribe c _) \<longleftrightarrow> c \<in> L"
| "ps_ok (L, S, P) (PPublish ch msg) \<longleftrightarrow> (\<forall>(c, p) \<in> P. \<exists>ts. pat_of p ch ts)"

lemma with_args_step:
  assumes "ps_inv st" "c \<in> fst (ps_abs st)"
    and "\<And>st1 cl1. ps_inv st1 \<Longrightarrow> s_mem st1 c = Some cl1 \<Longrightarrow> c_argv cl1 = [] # args \<Longrightarrow> becomes (\<lambda>s. s) g st1 (f st1)"
  shows "\<exists>st'. with_args c args f st = Some (st', 0) \<and> ps_inv st' \<and> ps_abs st' = g (ps_abs st)"
proof -
  obtain cl where cl: "s_mem st c = Some cl" using assms(2) by (rule ps_liveE)
  let ?cl = "cl\<lparr>c_argv := [] # args\<rparr>"
  let ?st = "st\<lparr>s_mem := (s_mem st)(c \<mapsto> ?cl)\<rparr>"
  have v: "ps_view ?st = ps_view st" by (rule ps_view_same [OF cl]) simp_all
  then have i: "ps_inv ?st" "ps_abs ?st = ps_abs st" using assms(1) by (simp_all only: ps_inv_def ps_abs_def)
  have "becomes (\<lambda>s. s) g ?st (f ?st)" by (rule assms(3) [OF i(1), of ?cl]) simp_all
  then obtain st' where "f ?st = Some st'" "ps_inv st'" "ps_abs st' = g (ps_abs st)" using i(2) by (auto simp: becomes_def ensures_iff)
  then show ?thesis using cl by (simp add: with_args_def upd_client_def)
qed

lemma connect_step:
  assumes "ps_inv st" "c \<notin> fst (ps_abs st)" "ps_abs st = (L, S, P)"
  shows "ps_inv (st\<lparr>s_mem := (s_mem st)(c \<mapsto> new_client)\<rparr>) \<and> ps_abs (st\<lparr>s_mem := (s_mem st)(c \<mapsto> new_client)\<rparr>) = (insert c L, S, P)"
proof -
  have n: "s_mem st c = None" using assms(2) ps_live [of st c] by simp
  let ?M = "fst (ps_view st)"
  have v: "ps_view (st\<lparr>s_mem := (s_mem st)(c \<mapsto> new_client)\<rparr>) = (?M(c \<mapsto> ([], [])), s_pubsub_channels st, s_pubsub_patterns st)"
    by (auto simp: ps_view_def fun_eq_iff new_client_def)
  have m: "?M c = None" using n by (simp add: ps_view_def)
  have "subs_of (?M(c \<mapsto> ([], []))) = subs_of ?M" "psubs_of (?M(c \<mapsto> ([], []))) = psubs_of ?M"
    unfolding subs_of_upd psubs_of_upd using m by (auto simp: subs_of_def psubs_of_def)
  then show ?thesis using assms(1,3) by (auto simp: ps_inv_def [of "st\<lparr>s_mem := _\<rparr>"] ps_abs_def [of "st\<lparr>s_mem := _\<rparr>"] v ps_inv_eq [of st] ps_abs_eq [of st])
qed

lemma free_step:
  assumes "ps_inv st" "ps_abs st = (L, S, P)" "\<forall>x. (c, x) \<notin> S \<and> (c, x) \<notin> P"
  shows "ps_inv (st\<lparr>s_mem := (s_mem st)(c := None)\<rparr>) \<and> ps_abs (st\<lparr>s_mem := (s_mem st)(c := None)\<rparr>) = (L - {c}, S, P)"
proof -
  let ?M = "fst (ps_view st)"
  have v: "ps_view (st\<lparr>s_mem := (s_mem st)(c := None)\<rparr>) = (?M(c := None), s_pubsub_channels st, s_pubsub_patterns st)"
    by (auto simp: ps_view_def fun_eq_iff)
  have "\<forall>x. (c, x) \<notin> subs_of ?M \<and> (c, x) \<notin> psubs_of ?M" using assms(2,3) by (simp add: ps_abs_eq)
  then have "subs_of (?M(c := None)) = subs_of ?M" "psubs_of (?M(c := None)) = psubs_of ?M"
    by (auto simp: subs_of_def psubs_of_def split: if_splits)
  then show ?thesis using assms(1,2) by (auto simp: ps_inv_def [of "st\<lparr>s_mem := _\<rparr>"] ps_abs_def [of "st\<lparr>s_mem := _\<rparr>"] v ps_inv_eq [of st] ps_abs_eq [of st])
qed

lemma disconnect_step:
  assumes "dictKeys_ok H" "ps_inv st" "c \<in> fst (ps_abs st)" "ps_abs st = (L, S, P)"
  shows "\<exists>st'. ps_step H st (PDisconnect c) = Some (st', 0) \<and> ps_inv st' \<and>
    ps_abs st' = (L - {c}, {x \<in> S. fst x \<noteq> c}, {x \<in> P. fst x \<noteq> c})"
proof -
  obtain r where r: "pubsubUnsubscribeAllChannels H c False st = Some r" "ps_inv (fst r)" "ps_abs (fst r) = rel_clear c (ps_abs st)"
    using unsubscribe_all_becomes(1) [OF assms(2,3,1), of False] by (auto simp: becomes_def ensures_iff)
  have "c \<in> fst (ps_abs (fst r))" using r(3) assms(3) by simp
  then obtain q where q: "pubsubUnsubscribeAllPatterns c False (fst r) = Some q" "ps_inv (fst q)" "ps_abs (fst q) = rel_pclear c (ps_abs (fst r))"
    using unsubscribe_all_becomes(2) [OF r(2), of c False] by (auto simp: becomes_def ensures_iff)
  have "ps_abs (fst q) = (L, {x \<in> S. fst x \<noteq> c}, {x \<in> P. fst x \<noteq> c})" using q(3) r(3) assms(4) by simp
  from free_step [OF q(2) this, of c] show ?thesis using r(1) q(1) by simp
qed

lemma ps_step_sim:
  assumes "dictKeys_ok H \<and> ps_inv st" "ps_ok (ps_abs st) x"
  shows "\<exists>st'. ps_step H st x = Some (st', snd (ps_spec (ps_abs st) x)) \<and> (dictKeys_ok H \<and> ps_inv st') \<and> ps_abs st' = fst (ps_spec (ps_abs st) x)"
proof -
  obtain L S P where a: "ps_abs st = (L, S, P)" by (cases "ps_abs st")
  have H: "dictKeys_ok H" and i: "ps_inv st" using assms(1) by auto
  show ?thesis
  proof (cases x)
    case (PConnect c)
    then show ?thesis using connect_step [OF i _ a, of c] assms(2) a H by auto
  next
    case (PDisconnect c)
    then show ?thesis using disconnect_step [OF H i _ a, of c] assms(2) a H by auto
  next
    case (PSubscribe c args)
    then show ?thesis using with_args_step [OF i, of c args "fold (rel_sub c) args" "subscribeCommand c"] subscribe_becomes(1) assms(2) a H
      by (fastforce simp: fold_rel)
  next
    case (PUnsubscribe c args)
    then have "c \<in> fst (ps_abs st)" using assms(2) a by simp
    then have "\<exists>st'. with_args c args (unsubscribeCommand H c) st = Some (st', 0) \<and> ps_inv st' \<and>
        ps_abs st' = (if args = [] then rel_clear c else fold (rel_unsub c) args) (ps_abs st)"
      by (rule with_args_step [OF i]) (rule unsubscribe_becomes(1) [OF _ _ _ H])
    then show ?thesis using PUnsubscribe a H by (cases "args = []") (simp_all add: fold_rel)
  next
    case (PPsubscribe c args)
    then show ?thesis using with_args_step [OF i, of c args "fold (rel_psub c) args" "psubscribeCommand c"] subscribe_becomes(2) assms(2) a H
      by (fastforce simp: fold_rel)
  next
    case (PPunsubscribe c args)
    then have "c \<in> fst (ps_abs st)" using assms(2) a by simp
    then have "\<exists>st'. with_args c args (punsubscribeCommand c) st = Some (st', 0) \<and> ps_inv st' \<and>
        ps_abs st' = (if args = [] then rel_pclear c else fold (rel_punsub c) args) (ps_abs st)"
      by (rule with_args_step [OF i]) (rule unsubscribe_becomes(2) [OF _ _ _ H])
    then show ?thesis using PPunsubscribe a H by (cases "args = []") (simp_all add: fold_rel)
  next
    case (PPublish ch msg)
    then show ?thesis using publish_Some [OF i, of ch msg] assms(2) a H i by (simp add: ps_inv_def ps_abs_def)
  qed
qed

interpretation ps: simulation "\<lambda>st. dictKeys_ok H \<and> ps_inv st" ps_abs "ps_step H" ps_spec ps_ok for H :: "'v hooks"
  by unfold_locales (rule ps_step_sim)

section \<open>Properties\<close>

text \<open>
  C6: Every history of connections, subscriptions, messages and disconnections behaves like one
  relation between clients and channels and one between clients and patterns: the two copies of the
  subscriptions (in the clients and in the server) always agree, no operation fails an assertion or
  follows a stale pointer, and the number of receivers of a message is the number of subscribed
  clients plus the number of pattern subscriptions whose pattern matches the channel.  When a message
  is published the patterns subscribed to at that moment have to be well formed (\<open>pat_of\<close>).
\<close>

theorem pubsub_refines_relation:
  assumes "dictKeys_ok H" "ps_inv st" "run_ok ps_spec ps_ok (ps_abs st) ops"
  shows "\<exists>st'. run_ops (ps_step H) st ops = Some (st', snd (run_spec ps_spec (ps_abs st) ops)) \<and> ps_inv st' \<and>
    ps_abs st' = fst (run_spec ps_spec (ps_abs st) ops)"
  using ps.run_sim [of H st ops] assms by auto

text \<open>
  C15: A published message reaches exactly its subscribers: each client gets one message if it is
  subscribed to the channel, and one pattern message for each of its patterns that matches, in
  this order, appended to its output; clients without a matching subscription get nothing, and no
  subscription changes.  The patterns subscribed to have to be well formed (\<open>pat_of\<close>).
\<close>

theorem publish_delivers:
  assumes "ps_inv st" "\<forall>(c, p) \<in> snd (snd (ps_abs st)). \<exists>ts. pat_of p ch ts"
  shows "\<exists>st'. pubsubPublishMessage ch msg st = Some (st', card {c. (c, ch) \<in> fst (snd (ps_abs st))} + card {(c, p) \<in> snd (snd (ps_abs st)). pat_lang p ch}) \<and>
    ps_view st' = ps_view st \<and>
    (\<forall>d. s_mem st' d = map_option (\<lambda>cl. cl\<lparr>c_reply := c_reply cl @ ps_received st ch msg d\<rparr>) (s_mem st d))"
  by (intro exI [of _ "replied (ps_received st ch msg) st"] conjI publish_Some [OF assms] replied_simps(4)) (simp add: replied_def)

section \<open>Examples\<close>

definition ps_hooks :: "unit hooks" where
  "ps_hooks = \<lparr>h_lookupCommand = (\<lambda>_. None), h_proc = (\<lambda>cmd c. Some), h_dictKeys = sorted_list_of_set, h_strerror = (\<lambda>_. []),
     h_duration = (\<lambda>_. 0), h_freeMemoryIfNeeded = (\<lambda>st. Some (st, True)), h_freeClient = (\<lambda>c. Some), h_handleClientsBlockedOnLists = Some\<rparr>"

lemma ps_hooks_ok: "dictKeys_ok ps_hooks"
  by (simp add: dictKeys_ok_def ps_hooks_def)

lemma empty_server_facts: "ps_inv empty_server" "ps_abs empty_server = ({}, {}, {})"
  by (simp_all add: ps_inv_def ps_abs_def ps_view_def empty_server_def ps_list_def subs_of_def psubs_of_def)

definition ps_history :: "ps_op list" where
  "ps_history = [PConnect 1, PConnect 2, PSubscribe 1 [str ''news''], PPsubscribe 2 [str ''n*''], PPublish (str ''news'') (str ''hi'')]"

lemma star_pattern: "pat_of (str ''n*'') (str ''news'') [GLit 110, GStar]" "glob False [GLit 110, GStar] (str ''news'')"
  by (simp_all add: pat_of_def same_byte_def)

theorem pubsub_refines_relation_witness:
  "\<exists>st'. run_ops (ps_step ps_hooks) empty_server ps_history = Some (st', [0, 0, 0, 0, 2]) \<and> ps_inv st' \<and>
    ps_abs st' = ({1, 2}, {(1, str ''news'')}, {(2, str ''n*'')})"
proof -
  have m: "pat_lang (str ''n*'') (str ''news'')" using star_pattern unfolding pat_lang_def by blast
  have p: "{p. p = str ''n*'' \<and> pat_lang p (str ''news'')} = {str ''n*''}" using m by blast
  have "run_ok ps_spec ps_ok (ps_abs empty_server) ps_history"
    using star_pattern(1) by (auto simp: ps_history_def empty_server_facts)
  from pubsub_refines_relation [OF ps_hooks_ok empty_server_facts(1) this] show ?thesis
    using p by (fastforce simp: ps_history_def empty_server_facts Let_def)
qed

definition ps_server1 :: "unit redisServer" where
  "ps_server1 = empty_server\<lparr>s_mem := [1 \<mapsto> new_client\<lparr>c_pubsub_channels := [[120]], c_pubsub_patterns := [[42]]\<rparr>, 2 \<mapsto> new_client],
     s_pubsub_channels := [[120] \<mapsto> [1]], s_pubsub_patterns := [(1, [42])]\<rparr>"

lemma ps_server1_facts:
  "ps_view ps_server1 = ([1 \<mapsto> ([[120]], [[42]]), 2 \<mapsto> ([], [])], [[120] \<mapsto> [1]], [(1, [42])])"
  "subs_of [1 \<mapsto> ([[120]], [[42]]), 2 \<mapsto> ([], [])] = {(1, [120])}" "psubs_of [1 \<mapsto> ([[120]], [[42]]), 2 \<mapsto> ([], [])] = {(1, [42])}"
  by (auto simp: ps_view_def ps_server1_def empty_server_def new_client_def fun_eq_iff subs_of_def psubs_of_def split: if_splits)

lemma ps_server1_pattern: "pat_of [42] [120] [GStar]" "pat_lang [42] [120]"
proof -
  show "pat_of [42] [120] [GStar]" by (simp add: pat_of_def)
  moreover have "glob False [GStar] [120]" by simp
  ultimately show "pat_lang [42] [120]" unfolding pat_lang_def by blast
qed

theorem publish_delivers_witness:
  "\<exists>st'. pubsubPublishMessage [120] [104] ps_server1 = Some (st', 2) \<and>
    map_option c_reply (s_mem st' 1) = Some (ps_message [120] [104] @ ps_pmessage [42] [120] [104]) \<and>
    map_option c_reply (s_mem st' 2) = Some []"
proof -
  have a: "ps_abs ps_server1 = ({1, 2}, {(1, [120])}, {(1, [42])})" by (simp add: ps_abs_def ps_server1_facts [unfolded One_nat_def]) auto
  have i: "ps_inv ps_server1" by (simp add: ps_inv_def ps_server1_facts [unfolded One_nat_def] ps_list_def)
  have "\<forall>(c, p) \<in> snd (snd (ps_abs ps_server1)). \<exists>ts. pat_of p [120] ts" using ps_server1_pattern by (auto simp: a)
  note d = publish_delivers [OF i this, of "[104]", unfolded a]
  have m: "s_mem ps_server1 1 = Some (new_client\<lparr>c_pubsub_channels := [[120]], c_pubsub_patterns := [[42]]\<rparr>)"
    "s_mem ps_server1 2 = Some new_client" "s_pubsub_patterns ps_server1 = [(1, [42])]"
    by (simp_all add: ps_server1_def empty_server_def)
  have r: "ps_received ps_server1 [120] [104] 1 = ps_message [120] [104] @ ps_pmessage [42] [120] [104]" "ps_received ps_server1 [120] [104] 2 = []"
    using ps_server1_pattern by (simp_all add: ps_received_def a m(3))
  have n: "card {c. (c, [120::byte]) \<in> {(1::nat, [120])}} + card {(c::nat, p) \<in> {(1, [42])}. pat_lang p [120]} = 2"
  proof -
    have "{(c::nat, p) \<in> {(1, [42])}. pat_lang p [120]} = {(1, [42])}" using ps_server1_pattern by auto
    then show ?thesis by simp
  qed
  obtain st' where s: "pubsubPublishMessage [120] [104] ps_server1 = Some (st', 2)"
    "\<forall>d. s_mem st' d = map_option (\<lambda>cl. cl\<lparr>c_reply := c_reply cl @ ps_received ps_server1 [120] [104] d\<rparr>) (s_mem ps_server1 d)"
    using d unfolding fst_conv snd_conv n by blast
  have "map_option c_reply (s_mem st' 1) = Some (ps_message [120] [104] @ ps_pmessage [42] [120] [104])"
    unfolding s(2) [rule_format] m(1) r by (simp add: new_client_def)
  moreover have "map_option c_reply (s_mem st' 2) = Some []"
    unfolding s(2) [rule_format] m(2) r by (simp add: new_client_def)
  ultimately show ?thesis using s(1) by blast
qed

end
