(* ===== verification/Multi_Exec.thy ===== *)
theory Multi_Exec
  imports Multi
begin

text \<open>
  What transactions guarantee: the consistency of the watched keys in every reachable state, the
  optimistic lock of \<open>WATCH\<close>, and the execution of the queue by \<open>EXEC\<close>.
\<close>

inductive txn_run :: "'v redisServer \<Rightarrow> txn_action list \<Rightarrow> 'v redisServer \<Rightarrow> bool" where
  stop: "txn_run st [] st"
| more: "txn_step st a st1 \<Longrightarrow> txn_run st1 as st2 \<Longrightarrow> txn_run st (a # as) st2"

inductive_cases txn_run_NilE: "txn_run st [] st'"
inductive_cases txn_run_ConsE: "txn_run st (a # as) st'"
inductive_cases txn_step_touchE: "txn_step st (ATouch db key) st'"

lemma txn_run_keeps:
  "txn_run st as st' \<Longrightarrow> watch_inv st \<Longrightarrow> \<forall>a \<in> set as. \<not> releases c a \<Longrightarrow> watch_inv st' \<and> keeps c st st'"
proof (induction rule: txn_run.induct)
  case (more st a st1 as st2)
  then have "keeps c st st1" "watch_inv st1" using txn_step_keeps [of st a st1 c] txn_step_inv [of st a st1] by auto
  then show ?case using more.IH more.prems keeps_trans by auto
qed simp

lemma touch_marks:
  assumes "watch_inv st" "(db, key) \<in> watching st c" "touchWatchedKey db key st = Some st'"
  shows "dirty_cas st' c"
proof -
  have c: "c \<in> set (watchers st db key)" using watch_invD(1) [OF assms(1)] assms(2) by blast
  then obtain cl where "s_mem st c = Some cl" using watchers_live [OF assms(1) c] by blast
  then show ?thesis using assms(1,3) c by (auto simp: touchWatchedKey_Some dirty_cas_def add_dirty_def)
qed

lemma run_touched_dirty:
  "txn_run st as st' \<Longrightarrow> watch_inv st \<Longrightarrow> (db, key) \<in> watching st c \<Longrightarrow> \<forall>a \<in> set as. \<not> releases c a \<Longrightarrow>
   ATouch db key \<in> set as \<Longrightarrow> dirty_cas st' c"
proof (induction rule: txn_run.induct)
  case (more st a st1 as st2)
  have i: "watch_inv st1" "keeps c st st1"
    using txn_step_keeps [OF more.hyps(1) more.prems(1)] txn_step_inv [OF more.hyps(1) more.prems(1)] more.prems(3) by auto
  show ?case
  proof (cases "a = ATouch db key")
    case True
    then have "touchWatchedKey db key st = Some st1" using more.hyps(1) by (auto elim: txn_step_touchE)
    then have "dirty_cas st1 c" by (rule touch_marks [OF more.prems(1,2)])
    then show ?thesis using txn_run_keeps [OF more.hyps(2) i(1), of c] more.prems(3) by (auto simp: keeps_def)
  next
    case False
    then show ?thesis using more.IH [OF i(1)] more.prems(2-4) i(2) by (auto simp: keeps_def)
  qed
qed simp

subsection \<open>EXEC\<close>

fun is_proc :: "event \<Rightarrow> bool" where
  "is_proc (EvProc c cmd argv) \<longleftrightarrow> True"
| "is_proc _ \<longleftrightarrow> False"

definition procs :: "'v redisServer \<Rightarrow> event list" where
  "procs st = filter is_proc (s_events st)"

text \<open>What is left of a client after its transaction is discarded.\<close>

definition discarded :: "redisClient \<Rightarrow> redisClient" where
  "discarded cl = cl\<lparr>c_mstate := [], c_flags := c_flags cl - {REDIS_MULTI, REDIS_DIRTY_CAS, REDIS_DIRTY_EXEC}, c_watched_keys := []\<rparr>"

lemma discardTransaction_Some:
  assumes "watch_inv st" "s_mem st c = Some cl"
  shows "ensures (discardTransaction c st) (\<lambda>st'. watch_inv st' \<and> (\<exists>w. st' = st\<lparr>s_watched_keys := w, s_mem := (s_mem st)(c \<mapsto> discarded cl)\<rparr>))"
proof -
  let ?cl = "cl\<lparr>c_mstate := [], c_flags := c_flags cl - {REDIS_MULTI, REDIS_DIRTY_CAS, REDIS_DIRTY_EXEC}\<rparr>"
  let ?st = "st\<lparr>s_mem := (s_mem st)(c \<mapsto> ?cl)\<rparr>"
  have i: "watch_inv ?st" using assms by (intro watch_inv_cong [OF assms(1)]) auto
  have "discardTransaction c st = unwatchAllKeys c ?st"
    using assms(2) by (simp add: discardTransaction_def client_ops upd_client_def)
  moreover have "?st\<lparr>s_watched_keys := w, s_mem := (s_mem ?st)(c \<mapsto> ?cl\<lparr>c_watched_keys := []\<rparr>)\<rparr> =
    st\<lparr>s_watched_keys := w, s_mem := (s_mem st)(c \<mapsto> discarded cl)\<rparr>" for w
    by (simp add: discarded_def)
  ultimately show ?thesis using unwatchAllKeys_Some [OF i, of c ?cl] by simp
qed

lemma exec_abort_Some:
  assumes "watch_inv st" "s_mem st c = Some cl"
  shows "ensures (exec_abort c st) (\<lambda>st'. watch_inv st' \<and> (\<exists>w. st' = st\<lparr>s_watched_keys := w,
    s_mem := (s_mem st)(c \<mapsto> (discarded cl)\<lparr>c_reply := c_reply cl @
      [if REDIS_DIRTY_EXEC \<in> c_flags cl then Shared ''execaborterr'' else Shared ''nullmultibulk'']\<rparr>)\<rparr>))"
proof -
  let ?r = "if REDIS_DIRTY_EXEC \<in> c_flags cl then Shared ''execaborterr'' else Shared ''nullmultibulk''"
  let ?cl = "cl\<lparr>c_reply := c_reply cl @ [?r]\<rparr>" and ?st = "st\<lparr>s_mem := (s_mem st)(c \<mapsto> cl\<lparr>c_reply := c_reply cl @ [?r]\<rparr>)\<rparr>"
  have i: "watch_inv ?st" using assms by (intro watch_inv_cong [OF assms(1)]) auto
  have "exec_abort c st = discardTransaction c ?st" using assms(2) by (simp add: exec_abort_def addReply_def upd_client_def)
  moreover have "discarded ?cl = (discarded cl)\<lparr>c_reply := c_reply cl @ [?r]\<rparr>" by (simp add: discarded_def)
  ultimately show ?thesis using discardTransaction_Some [OF i, of c ?cl] by simp
qed

lemma exec_monitor_Some:
  "s_mem st c = Some cl \<Longrightarrow> exec_monitor c st =
   Some (if s_monitors st \<noteq> [] \<and> \<not> s_loading st then emit (EvMonitor c (c_db cl) (c_argv cl)) st else st)"
  by (simp add: exec_monitor_def feed_monitors_def)

lemma emit_simps [simp]:
  "s_mem (emit e st) = s_mem st" "s_dict (emit e st) = s_dict st" "s_watched_keys (emit e st) = s_watched_keys st"
  "procs (emit e st) = procs st @ (if is_proc e then [e] else [])" "s_events (emit e st) = s_events st @ [e]"
  "s_clients (emit e st) = s_clients st" "s_aof_on (emit e st) = s_aof_on st" "s_monitors (emit e st) = s_monitors st"
  "s_loading (emit e st) = s_loading st" "s_also_propagate (emit e st) = s_also_propagate st" "s_dirty (emit e st) = s_dirty st"
  by (simp_all add: emit_def procs_def)

subsection \<open>Running the queue\<close>

fun is_proc_of :: "cid \<Rightarrow> event \<Rightarrow> bool" where
  "is_proc_of c (EvProc d cmd argv) \<longleftrightarrow> d = c"
| "is_proc_of c _ \<longleftrightarrow> False"

text \<open>\<open>grows c ps st st'\<close>: the events of \<open>st'\<close> extend those of \<open>st\<close>, and the procedures called for \<open>c\<close> are \<open>ps\<close>.\<close>

definition grows :: "cid \<Rightarrow> event list \<Rightarrow> 'v redisServer \<Rightarrow> 'v redisServer \<Rightarrow> bool" where
  "grows c ps st st' \<longleftrightarrow> (\<exists>evs. s_events st' = s_events st @ evs \<and> filter (is_proc_of c) evs = ps)"

lemma grows_trans: "grows c ps st st1 \<Longrightarrow> grows c qs st1 st2 \<Longrightarrow> grows c (ps @ qs) st st2"
  by (auto simp: grows_def)

lemma grows_same: "s_events st' = s_events st \<Longrightarrow> grows c [] st st'"
  by (simp add: grows_def)

lemma grows_emit: "grows c (if is_proc_of c e then [e] else []) st (emit e st)"
  by (simp add: grows_def)

text \<open>A client that runs its transaction, with the queue \<open>M\<close>.\<close>

definition running :: "cid \<Rightarrow> (redisCommand \<times> bytes list) list \<Rightarrow> 'v redisServer \<Rightarrow> bool" where
  "running c M st \<longleftrightarrow> watch_inv st \<and>
     (\<exists>cl. s_mem st c = Some cl \<and> REDIS_LUA_CLIENT \<notin> c_flags cl \<and> c_mstate cl = M \<and> c_cmd cl \<noteq> None)"

lemma watch_inv_same: "s_mem st' = s_mem st \<Longrightarrow> s_watched_keys st' = s_watched_keys st \<Longrightarrow> watch_inv st \<Longrightarrow> watch_inv st'"
  by (rule watch_inv_cong) simp_all

lemma running_same: "running c M st \<Longrightarrow> s_mem st' = s_mem st \<Longrightarrow> s_watched_keys st' = s_watched_keys st \<Longrightarrow> running c M st'"
  using watch_inv_same by (auto simp: running_def)

lemma running_upd:
  assumes "running c M st" "\<And>cl. c_watched_keys (f cl) = c_watched_keys cl"
    "\<And>cl. REDIS_LUA_CLIENT \<in> c_flags (f cl) \<longleftrightarrow> REDIS_LUA_CLIENT \<in> c_flags cl" "\<And>cl. c_mstate (f cl) = g (c_mstate cl)"
    "\<And>cl. c_cmd cl \<noteq> None \<Longrightarrow> c_cmd (f cl) \<noteq> None"
  shows "ensures (upd_client c f st) (\<lambda>st'. running c (g M) st' \<and> grows c [] st st')"
proof -
  obtain cl where cl: "s_mem st c = Some cl" "REDIS_LUA_CLIENT \<notin> c_flags cl" "c_mstate cl = M" "c_cmd cl \<noteq> None" "watch_inv st"
    using assms(1) by (auto simp: running_def)
  have e: "upd_client c f st = Some (st\<lparr>s_mem := (s_mem st)(c \<mapsto> f cl)\<rparr>)" by (rule upd_client_Some [OF cl(1)])
  then have "watch_inv (st\<lparr>s_mem := (s_mem st)(c \<mapsto> f cl)\<rparr>)" using upd_client_inv [OF cl(5)] assms(2) by blast
  moreover have "c_cmd (f cl) \<noteq> None" using assms(5) cl(4) .
  ultimately show ?thesis unfolding e using cl assms(3,4) by (auto simp: running_def grows_def)
qed

text \<open>
  What \<open>EXEC\<close> relies on of the procedures of the queued commands: a procedure returns, keeps the lists
  of watched keys consistent, does not free or requeue the client that runs the transaction, and
  starts no further command in its name.  (\<open>EXEC\<close>, \<open>DISCARD\<close>, \<open>MULTI\<close> and \<open>WATCH\<close> would not do, but
  \<open>processCommand\<close> never queues them.)
\<close>

definition proc_ok :: "'v hooks \<Rightarrow> cid \<Rightarrow> redisCommand \<Rightarrow> bool" where
  "proc_ok H c cmd \<longleftrightarrow> (\<forall>M st. running c M st \<longrightarrow> ensures (h_proc H cmd c st) (\<lambda>st'. running c M st' \<and> grows c [] st st'))"

definition procs_ok :: "'v hooks \<Rightarrow> cid \<Rightarrow> (redisCommand \<times> bytes list) list \<Rightarrow> bool" where
  "procs_ok H c M \<longleftrightarrow> (\<forall>(cmd, argv) \<in> set M. proc_ok H c cmd)"

lemma procs_ok_drop: "procs_ok H c (drop j M) \<Longrightarrow> j < length M \<Longrightarrow> proc_ok H c (fst (M ! j)) \<and> procs_ok H c (drop (Suc j) M)"
  by (simp add: procs_ok_def flip: Cons_nth_drop_Suc) (auto split: prod.splits)

lemma propagate_simps [simp]:
  "s_mem (propagate cmd db argv fs st) = s_mem st" "s_watched_keys (propagate cmd db argv fs st) = s_watched_keys st"
  by (simp_all add: propagate_def Let_def)

lemma grows_propagate: "grows c [] st (propagate cmd db argv fs st)"
  by (auto simp: propagate_def Let_def grows_def)

lemma propagate_fold:
  "s_mem (fold (\<lambda>rop. propagate (op_cmd rop) (op_dbid rop) (op_argv rop) (op_target rop)) ops st) = s_mem st \<and>
   s_watched_keys (fold (\<lambda>rop. propagate (op_cmd rop) (op_dbid rop) (op_argv rop) (op_target rop)) ops st) = s_watched_keys st \<and>
   grows c [] st (fold (\<lambda>rop. propagate (op_cmd rop) (op_dbid rop) (op_argv rop) (op_target rop)) ops st)"
proof (induction ops arbitrary: st)
  case (Cons rop ops)
  then show ?case using grows_trans [OF grows_propagate [of c st "op_cmd rop" "op_dbid rop" "op_argv rop" "op_target rop"]] by fastforce
qed (simp add: grows_same)

lemma call_also_same: "s_mem (call_also st) = s_mem st" "s_watched_keys (call_also st) = s_watched_keys st" "grows c [] st (call_also st)"
  using propagate_fold [of "s_also_propagate st" st c] by (auto simp: call_also_def Let_def grows_def)

lemma call_stats_same:
  "s_mem (call_stats flags cl cmd d st) = s_mem st" "s_watched_keys (call_stats flags cl cmd d st) = s_watched_keys st"
  "grows c [] st (call_stats flags cl cmd d st)"
  by (auto simp: call_stats_def Let_def grows_def)

lemma call_propagate_same:
  "s_mem (call_propagate flags cl cmd d st) = s_mem st" "s_watched_keys (call_propagate flags cl cmd d st) = s_watched_keys st"
  "grows c [] st (call_propagate flags cl cmd d st)"
  by (simp_all add: call_propagate_def Let_def grows_propagate grows_same)

section \<open>Properties\<close>

text \<open>
  C14: In every state that the commands of any number of clients, in any interleaving, reach from
  the empty server, the two directions of the watch relation agree (a client is in the list of a key
  exactly when the key is in the client's list, without duplicates or empty lists), the list of
  clients holds exactly the live clients, no operation meets a dangling pointer or fails an
  assertion (touching a key, releasing a client's keys, discarding its transaction), and a flush
  marks exactly the clients that watch a key about to be deleted.
\<close>

theorem txn_reachable_consistent:
  assumes "txn_reachable st"
  shows "watch_inv st \<and> clients_inv st \<and> touchWatchedKey db key st \<noteq> None \<and>
    (s_mem st c \<noteq> None \<longrightarrow> unwatchAllKeys c st \<noteq> None \<and> discardTransaction c st \<noteq> None) \<and>
    touchWatchedKeysOnFlush dbid st = Some (st\<lparr>s_mem := flushed dbid (s_clients st) st\<rparr>)"
proof -
  have i: "watch_inv st" "clients_inv st" using txn_reachable_inv [OF assms] by auto
  have "unwatchAllKeys c st \<noteq> None \<and> discardTransaction c st \<noteq> None" if "s_mem st c \<noteq> None"
    using that unwatchAllKeys_Some [OF i(1), of c] discardTransaction_Some [OF i(1), of c] by (auto simp: ensures_iff)
  moreover have "touchWatchedKeysOnFlush dbid st = Some (st\<lparr>s_mem := flushed dbid (s_clients st) st\<rparr>)"
    unfolding touchWatchedKeysOnFlush_def using i(2) by (intro flush_clients_loop_Some) (simp add: clients_inv_def)
  ultimately show ?thesis using i touchWatchedKey_Some [OF i(1)] by simp
qed

text \<open>
  C4: Optimistic locking.  A client watches a key; if the key is touched by anyone at any time after
  that while the client does not release its keys itself (UNWATCH, DISCARD, EXEC, disconnection), then its EXEC
  runs nothing: it replies nil (or EXECABORT), changes no data set and calls no command procedure,
  whatever the procedures are, and leaves the client outside the transaction, clean, with no watched key.
\<close>

theorem watch_aborts_exec:
  assumes "txn_reachable st0" "(db, key) \<in> watching st0 c"
    and "txn_run st0 as st" "\<forall>a \<in> set as. \<not> releases c a" "ATouch db key \<in> set as"
    and "s_mem st c = Some cl" "REDIS_MULTI \<in> c_flags cl"
  shows "\<exists>st'. execCommand callf c st = Some st' \<and> s_dict st' = s_dict st \<and> procs st' = procs st \<and> watch_inv st' \<and>
    s_mem st' = (s_mem st)(c \<mapsto> (discarded cl)\<lparr>c_reply := c_reply cl @
      [if REDIS_DIRTY_EXEC \<in> c_flags cl then Shared ''execaborterr'' else Shared ''nullmultibulk'']\<rparr>)"
proof -
  let ?cl = "(discarded cl)\<lparr>c_reply := c_reply cl @
      [if REDIS_DIRTY_EXEC \<in> c_flags cl then Shared ''execaborterr'' else Shared ''nullmultibulk'']\<rparr>"
  have i0: "watch_inv st0" using txn_reachable_inv [OF assms(1)] by simp
  have i: "watch_inv st" using txn_run_keeps [OF assms(3) i0 assms(4)] by simp
  have "REDIS_DIRTY_CAS \<in> c_flags cl" using run_touched_dirty [OF assms(3) i0 assms(2,4,5)] assms(6) by (simp add: dirty_cas_def)
  moreover obtain st1 w where st1: "exec_abort c st = Some st1" "watch_inv st1"
    "st1 = st\<lparr>s_watched_keys := w, s_mem := (s_mem st)(c \<mapsto> ?cl)\<rparr>"
    using exec_abort_Some [OF i assms(6)] by (auto simp: ensures_iff)
  ultimately have e: "execCommand callf c st = exec_monitor c st1" using assms(6,7) by (simp add: execCommand_def)
  have m: "s_mem st1 c = Some ?cl" using st1(3) by simp
  have k: "watch_inv (emit e st1)" for e by (rule watch_inv_cong [OF st1(2)]) simp_all
  have "procs st1 = procs st" "s_dict st1 = s_dict st" "s_mem st1 = (s_mem st)(c \<mapsto> ?cl)" using st1(3) by (simp_all add: procs_def)
  then show ?thesis unfolding e exec_monitor_Some [OF m] using k st1(2) by simp
qed

text \<open>\<open>runs\<close> bundles the two relations along the steps of \<open>call\<close>.\<close>

definition runs :: "cid \<Rightarrow> (redisCommand \<times> bytes list) list \<Rightarrow> event list \<Rightarrow> 'v redisServer \<Rightarrow> 'v redisServer \<Rightarrow> bool" where
  "runs c M ps st st' \<longleftrightarrow> running c M st' \<and> grows c ps st st'"

lemma runs_same:
  "runs c M ps st0 st \<Longrightarrow> s_mem st' = s_mem st \<Longrightarrow> s_watched_keys st' = s_watched_keys st \<Longrightarrow> grows c qs st st' \<Longrightarrow>
   runs c M (ps @ qs) st0 st'"
  using running_same grows_trans by (auto simp: runs_def)

lemma runs_same0:
  "runs c M ps st0 st \<Longrightarrow> s_mem st' = s_mem st \<Longrightarrow> s_watched_keys st' = s_watched_keys st \<Longrightarrow> grows c [] st st' \<Longrightarrow> runs c M ps st0 st'"
  using runs_same [of c M ps st0 st st' "[]"] by simp

lemma runs_refl: "running c M st \<Longrightarrow> runs c M [] st st"
  by (simp add: runs_def grows_same)

lemma runs_upd:
  assumes "runs c M ps st0 st" "\<And>cl. c_watched_keys (f cl) = c_watched_keys cl"
    "\<And>cl. REDIS_LUA_CLIENT \<in> c_flags (f cl) \<longleftrightarrow> REDIS_LUA_CLIENT \<in> c_flags cl" "\<And>cl. c_mstate (f cl) = g (c_mstate cl)"
    "\<And>cl. c_cmd cl \<noteq> None \<Longrightarrow> c_cmd (f cl) \<noteq> None"
  shows "ensures (upd_client c f st) (runs c (g M) ps st0)"
proof -
  have r: "running c M st" and g: "grows c ps st0 st" using assms(1) by (simp_all add: runs_def)
  show ?thesis
    using running_upd [OF r assms(2-5)] by (rule ensures_mono) (use grows_trans [OF g, of "[]"] in \<open>auto simp: runs_def\<close>)
qed

lemma runs_set_flags: "runs c M ps st0 st \<Longrightarrow> REDIS_LUA_CLIENT \<notin> fs \<Longrightarrow> ensures (set_flags c fs st) (runs c M ps st0)"
  unfolding set_flags_def by (erule runs_upd [where g = "\<lambda>m. m"]) auto

lemma runs_clear_flags: "runs c M ps st0 st \<Longrightarrow> REDIS_LUA_CLIENT \<notin> fs \<Longrightarrow> ensures (clear_flags c fs st) (runs c M ps st0)"
  unfolding clear_flags_def by (erule runs_upd [where g = "\<lambda>m. m"]) auto

lemma runs_mono: "ensures m (runs c M ps st1) \<Longrightarrow> grows c qs st0 st1 \<Longrightarrow> ensures m (runs c M (qs @ ps) st0)"
  by (erule ensures_mono) (auto simp: runs_def intro: grows_trans)

lemma call_begin_runs:
  assumes "running c M st"
  shows "ensures (call_begin c cl cmd st) (runs c M [] st)"
proof -
  let ?st = "if s_monitors st \<noteq> [] \<and> \<not> s_loading st \<and> cmd_flags cmd \<inter> {REDIS_CMD_SKIP_MONITOR, REDIS_CMD_ADMIN} = {}
    then feed_monitors c cl st else st"
  have "runs c M [] st ?st"
    using running_same [OF assms, of ?st] grows_emit [of c "EvMonitor c (c_db cl) (c_argv cl)" st]
    by (auto simp: runs_def feed_monitors_def grows_same)
  then have "ensures (clear_flags c {REDIS_FORCE_AOF, REDIS_FORCE_REPL} ?st) (runs c M [] st)" by (rule runs_clear_flags) simp
  then show ?thesis unfolding call_begin_def Let_def
    by (rule ensures_bindI) (simp, erule runs_same0, simp_all add: grows_same)
qed

lemma call_end_runs:
  assumes "running c M st"
  shows "ensures (call_end flags c old dirty d st) (runs c M [] st)"
proof -
  obtain cl cmd where cl: "s_mem st c = Some cl" "c_cmd cl = Some cmd" "REDIS_LUA_CLIENT \<notin> c_flags cl" "c_mstate cl = M"
    using assms by (auto simp: running_def)
  let ?st1 = "call_stats flags cl cmd d st" and ?st2 = "call_propagate flags cl cmd dirty (call_stats flags cl cmd d st)"
  have "runs c M [] st ?st1" by (rule runs_same0 [OF runs_refl [OF assms] call_stats_same])
  then have r2: "runs c M [] st ?st2" by (rule runs_same0) (rule call_propagate_same)+
  have "call_lua_caller cl st = Some st" using cl(3) by (simp add: call_lua_caller_def split: option.splits)
  then have e: "call_end flags c old dirty d st = do {
     st \<leftarrow> clear_flags c {REDIS_FORCE_AOF, REDIS_FORCE_REPL} ?st2;
     st \<leftarrow> set_flags c (old \<inter> {REDIS_FORCE_AOF, REDIS_FORCE_REPL}) st;
     Some ((call_also st)\<lparr>s_stat_numcommands := s_stat_numcommands (call_also st) + 1\<rparr>) }"
    using cl by (simp add: call_end_def call_stats_same(1) Let_def)
  have l: "runs c M [] st ((call_also s)\<lparr>s_stat_numcommands := n\<rparr>)" if "runs c M [] st s" for s n
    using call_also_same(3) [of c s] by (intro runs_same0 [OF that]) (simp_all add: call_also_same grows_def)
  show ?thesis unfolding e
    by (rule ensures_bindI [OF runs_clear_flags [OF r2]], simp, rule ensures_bindI, erule runs_set_flags) (simp_all add: l)
qed

lemma call_runs:
  assumes "proc_ok H c cmd" "running c M st" "s_mem st c = Some cl" "c_cmd cl = Some cmd"
  shows "ensures (call H flags c st) (runs c M [EvProc c cmd (c_argv cl)] st)"
proof -
  have p: "ensures (h_proc H cmd c st') (\<lambda>st2. running c M st2 \<and> grows c [] st' st2)" if "running c M st'" for st'
    using assms(1) that by (simp add: proc_ok_def)
  show ?thesis unfolding call_def assms(3,4) Let_def Option.bind.bind_lunit
  proof (rule ensures_bindI [OF call_begin_runs [OF assms(2)]])
    fix st1 assume r1: "runs c M [] st st1"
    let ?st = "emit (EvProc c cmd (c_argv cl)) st1"
    have r: "runs c M [EvProc c cmd (c_argv cl)] st ?st"
      using runs_same [OF r1, of ?st "[EvProc c cmd (c_argv cl)]"] grows_emit [of c "EvProc c cmd (c_argv cl)" st1] by simp
    then have "running c M ?st" by (simp add: runs_def)
    from p [OF this] show "ensures (h_proc H cmd c ?st \<bind> (\<lambda>st. call_end flags c (c_flags cl)
        (if s_dirty st - s_dirty st1 < 0 then 0 else s_dirty st - s_dirty st1) (h_duration H st) st))
      (runs c M [EvProc c cmd (c_argv cl)] st)"
    proof (rule ensures_bindI)
      fix st2 assume s: "running c M st2 \<and> grows c [] ?st st2"
      then have "grows c [EvProc c cmd (c_argv cl)] st st2" using grows_trans [of c _ st ?st "[]"] r by (auto simp: runs_def)
      then show "ensures (call_end flags c (c_flags cl) (if s_dirty st2 - s_dirty st1 < 0 then 0 else s_dirty st2 - s_dirty st1) (h_duration H st2) st2)
        (runs c M [EvProc c cmd (c_argv cl)] st)"
        using runs_mono [OF call_end_runs, of c M st2] s by fastforce
    qed
  qed
qed


definition readonly_cmd :: "redisCommand \<Rightarrow> bool" where
  "readonly_cmd cmd \<longleftrightarrow> REDIS_CMD_READONLY \<in> cmd_flags cmd"

text \<open>Between the two states \<open>MULTI\<close> is sent to the slaves, and before it only read-only commands run.\<close>

definition multi_first :: "cid \<Rightarrow> 'v redisServer \<Rightarrow> 'v redisServer \<Rightarrow> bool" where
  "multi_first c st st' \<longleftrightarrow> (\<exists>pre db post. s_events st' = s_events st @ pre @ EvRepl db [str ''MULTI''] # post \<and>
     (\<forall>cmd argv. EvProc c cmd argv \<in> set pre \<longrightarrow> readonly_cmd cmd))"

lemma multi_first_grows:
  assumes "multi_first c st st1" "grows c ps st1 st2"
  shows "multi_first c st st2"
proof -
  obtain pre db post where p: "s_events st1 = s_events st @ pre @ EvRepl db [str ''MULTI''] # post"
    "\<forall>cmd argv. EvProc c cmd argv \<in> set pre \<longrightarrow> readonly_cmd cmd" using assms(1) unfolding multi_first_def by blast
  obtain evs where "s_events st2 = s_events st1 @ evs" using assms(2) by (auto simp: grows_def)
  then have "s_events st2 = s_events st @ pre @ EvRepl db [str ''MULTI''] # (post @ evs)" using p(1) by simp
  then show ?thesis unfolding multi_first_def using p(2) by blast
qed

lemma grows_multi_first:
  assumes "grows c [EvProc c cmd argv] st st1" "readonly_cmd cmd" "multi_first c st1 st2"
  shows "multi_first c st st2"
proof -
  obtain evs where e: "s_events st1 = s_events st @ evs" "filter (is_proc_of c) evs = [EvProc c cmd argv]" using assms(1) by (auto simp: grows_def)
  obtain pre db post where p: "s_events st2 = s_events st1 @ pre @ EvRepl db [str ''MULTI''] # post"
    "\<And>cmd argv. EvProc c cmd argv \<in> set pre \<Longrightarrow> readonly_cmd cmd" using assms(3) unfolding multi_first_def by blast
  have "readonly_cmd cmd'" if "EvProc c cmd' argv' \<in> set evs" for cmd' argv'
  proof -
    have "EvProc c cmd' argv' \<in> set (filter (is_proc_of c) evs)" using that by simp
    then show ?thesis unfolding e(2) using assms(2) by simp
  qed
  then have "s_events st2 = s_events st @ (evs @ pre) @ EvRepl db [str ''MULTI''] # post"
    "\<forall>cmd argv. EvProc c cmd argv \<in> set (evs @ pre) \<longrightarrow> readonly_cmd cmd" using e(1) p by auto
  then show ?thesis unfolding multi_first_def by blast
qed

lemma execCommandPropagateMulti_Some:
  assumes "running c M st"
  shows "ensures (execCommandPropagateMulti c st) (\<lambda>st'. runs c M [] st st' \<and> s_mem st' = s_mem st \<and> multi_first c st st')"
proof -
  obtain cl where cl: "s_mem st c = Some cl" using assms by (auto simp: running_def)
  let ?st = "propagate multi_cmd (c_db cl) [str ''MULTI''] {REDIS_PROPAGATE_AOF, REDIS_PROPAGATE_REPL} st"
  have "s_events ?st = s_events st @ (if s_aof_on st then [EvAof multi_cmd (c_db cl) [str ''MULTI'']] else []) @ EvRepl (c_db cl) [str ''MULTI''] # []"
    by (simp add: propagate_def Let_def)
  then have "multi_first c st ?st" unfolding multi_first_def by fastforce
  moreover have "runs c M [] st ?st" using running_same [OF assms, of ?st] grows_propagate by (simp add: runs_def)
  ultimately show ?thesis using cl by (simp add: execCommandPropagateMulti_def)
qed

lemma exec_one_runs:
  assumes "proc_ok H c cmd" "running c M st"
  shows "ensures (exec_one (call H flags) c j cmd argv mp st) (\<lambda>r. (\<exists>x. runs c (M[j := x]) [EvProc c cmd argv] st (fst r)) \<and>
    snd r = (mp \<or> \<not> readonly_cmd cmd) \<and> (\<not> mp \<and> \<not> readonly_cmd cmd \<longrightarrow> multi_first c st (fst r)))"
proof -
  let ?first = "\<not> mp \<and> \<not> readonly_cmd cmd"
  obtain cl where cl: "s_mem st c = Some cl" using assms(2) by (auto simp: running_def)
  let ?st1 = "st\<lparr>s_mem := (s_mem st)(c \<mapsto> cl\<lparr>c_argv := argv, c_cmd := Some cmd\<rparr>)\<rparr>"
  have u: "upd_client c (\<lambda>cl. cl\<lparr>c_argv := argv, c_cmd := Some cmd\<rparr>) st = Some ?st1" by (rule upd_client_Some [OF cl])
  have "ensures (upd_client c (\<lambda>cl. cl\<lparr>c_argv := argv, c_cmd := Some cmd\<rparr>) st) (runs c M [] st)"
    by (rule runs_upd [where g = "\<lambda>m. m"]) (simp_all add: runs_refl [OF assms(2)])
  then have r1: "running c M ?st1" using u by (simp add: runs_def)
  have "ensures (if ?first then execCommandPropagateMulti c ?st1 else Some ?st1)
    (\<lambda>st2. runs c M [] ?st1 st2 \<and> s_mem st2 = s_mem ?st1 \<and> (?first \<longrightarrow> multi_first c ?st1 st2))"
    using execCommandPropagateMulti_Some [OF r1] runs_refl [OF r1] by auto
  then obtain st2 where st2: "(if ?first then execCommandPropagateMulti c ?st1 else Some ?st1) = Some st2"
    "runs c M [] ?st1 st2" "s_mem st2 c = Some (cl\<lparr>c_argv := argv, c_cmd := Some cmd\<rparr>)" "?first \<Longrightarrow> multi_first c ?st1 st2"
    by (rule ensuresE) (use that in auto)
  obtain st3 where st3: "call H flags c st2 = Some st3" "runs c M [EvProc c cmd argv] st2 st3"
    using call_runs [OF assms(1) _ st2(3), of M flags] st2(2) by (auto simp: runs_def ensures_iff)
  obtain cl3 cmd3 where cl3: "s_mem st3 c = Some cl3" "c_cmd cl3 = Some cmd3" using st3(2) by (auto simp: runs_def running_def)
  have g: "grows c [EvProc c cmd argv] st st3"
    using grows_trans [OF grows_trans [of c "[]" st ?st1 "[]"], of st2 "[EvProc c cmd argv]" st3] st2(2) st3(2) by (simp add: runs_def grows_def)
  have m: "multi_first c st st3" if "?first"
    using multi_first_grows [OF st2(4) [OF that], of "[EvProc c cmd argv]" st3] st3(2) by (simp add: runs_def multi_first_def)
  have "ensures (upd_client c (\<lambda>cl. cl\<lparr>c_mstate := (c_mstate cl)[j := (cmd3, c_argv cl)]\<rparr>) st3)
    (\<lambda>st4. runs c (M[j := (cmd3, c_argv cl3)]) [] st3 st4)"
    using upd_client_Some [OF cl3(1), of "\<lambda>cl. cl\<lparr>c_mstate := (c_mstate cl)[j := (cmd3, c_argv cl)]\<rparr>"]
      upd_client_inv [of st3 c "\<lambda>cl. cl\<lparr>c_mstate := (c_mstate cl)[j := (cmd3, c_argv cl)]\<rparr>"] st3(2) cl3
    by (auto simp: runs_def running_def grows_same)
  then obtain st4 where st4: "upd_client c (\<lambda>cl. cl\<lparr>c_mstate := (c_mstate cl)[j := (cmd3, c_argv cl)]\<rparr>) st3 = Some st4"
    "runs c (M[j := (cmd3, c_argv cl3)]) [] st3 st4" by (rule ensuresE) (use that in auto)
  have "exec_one (call H flags) c j cmd argv mp st = Some (st4, mp \<or> ?first)"
    using u st2(1) st3(1) cl3 st4(1) by (simp add: exec_one_def readonly_cmd_def)
  moreover have "grows c [EvProc c cmd argv] st st4" using grows_trans [OF g, of "[]" st4] st4(2) by (simp add: runs_def)
  moreover have "multi_first c st st4" if "?first" using multi_first_grows [OF m [OF that], of "[]" st4] st4(2) by (simp add: runs_def)
  ultimately show ?thesis using st4(2) by (auto simp: runs_def)
qed

lemma exec_loop_runs:
  "procs_ok H c (drop j M) \<Longrightarrow> running c M st \<Longrightarrow> j \<le> length M \<Longrightarrow>
    ensures (exec_loop (call H flags) c j mp st) (\<lambda>r. (\<exists>M'. length M' = length M \<and> running c M' (fst r)) \<and>
      grows c (map (\<lambda>(cmd, argv). EvProc c cmd argv) (drop j M)) st (fst r) \<and>
      snd r = (mp \<or> (\<exists>(cmd, argv) \<in> set (drop j M). \<not> readonly_cmd cmd)) \<and> (\<not> mp \<and> snd r \<longrightarrow> multi_first c st (fst r)))"
proof (induction "length M - j" arbitrary: M j mp st)
  case 0
  then have j: "j = length M" by simp
  obtain cl where "s_mem st c = Some cl" "c_mstate cl = M" using 0(3) by (auto simp: running_def)
  then show ?case using 0(3) j by (subst exec_loop.simps) (auto simp: grows_same)
next
  case (Suc n)
  obtain cl where cl: "s_mem st c = Some cl" "c_mstate cl = M" using Suc.prems(2) by (auto simp: running_def)
  have j: "j < length M" using Suc.hyps(2) by simp
  obtain cmd argv where mj: "M ! j = (cmd, argv)" by (cases "M ! j")
  then have p: "proc_ok H c cmd" "procs_ok H c (drop (Suc j) M)" using procs_ok_drop [OF Suc.prems(1) j] by simp_all
  obtain r x where r: "exec_one (call H flags) c j cmd argv mp st = Some r" "runs c (M[j := x]) [EvProc c cmd argv] st (fst r)"
    "snd r = (mp \<or> \<not> readonly_cmd cmd)" "\<not> mp \<Longrightarrow> \<not> readonly_cmd cmd \<Longrightarrow> multi_first c st (fst r)"
    using exec_one_runs [OF p(1) Suc.prems(2), of flags j argv mp] by (rule ensuresE) blast
  have e: "exec_loop (call H flags) c j mp st = exec_loop (call H flags) c (j + 1) (snd r) (fst r)"
    using cl j mj r(1) by (subst exec_loop.simps) simp
  have d: "drop j M = (cmd, argv) # drop (Suc j) M" using Cons_nth_drop_Suc [OF j] mj by simp
  have "drop (j + 1) (M[j := x]) = drop (Suc j) M" by simp
  with Suc.hyps(1) [of "M[j := x]" "j + 1" "fst r" "snd r"] Suc.hyps(2) r(2) p(2)
  have IH: "ensures (exec_loop (call H flags) c (j + 1) (snd r) (fst r)) (\<lambda>q. (\<exists>M'. length M' = length M \<and> running c M' (fst q)) \<and>
      grows c (map (\<lambda>(cmd, argv). EvProc c cmd argv) (drop (Suc j) M)) (fst r) (fst q) \<and>
      snd q = (snd r \<or> (\<exists>(cmd, argv) \<in> set (drop (Suc j) M). \<not> readonly_cmd cmd)) \<and> (\<not> snd r \<and> snd q \<longrightarrow> multi_first c (fst r) (fst q)))"
    by (simp add: runs_def)
  show ?case unfolding e
  proof (rule ensures_mono [OF IH], elim conjE, intro conjI)
    fix q
    assume q: "\<exists>M'. length M' = length M \<and> running c M' (fst q)"
      "grows c (map (\<lambda>(cmd, argv). EvProc c cmd argv) (drop (Suc j) M)) (fst r) (fst q)"
      "snd q = (snd r \<or> (\<exists>(cmd, argv) \<in> set (drop (Suc j) M). \<not> readonly_cmd cmd))" "\<not> snd r \<and> snd q \<longrightarrow> multi_first c (fst r) (fst q)"
    show "\<exists>M'. length M' = length M \<and> running c M' (fst q)" using q(1) .
    show "grows c (map (\<lambda>(cmd, argv). EvProc c cmd argv) (drop j M)) st (fst q)"
      using grows_trans [of c "[EvProc c cmd argv]" st, OF _ q(2)] r(2) d by (simp add: runs_def)
    show "snd q = (mp \<or> (\<exists>(cmd, argv) \<in> set (drop j M). \<not> readonly_cmd cmd))" using q(3) r(3) d by auto
    have "grows c [EvProc c cmd argv] st (fst r)" using r(2) by (simp add: runs_def)
    then show "\<not> mp \<and> snd q \<longrightarrow> multi_first c st (fst q)"
      using q(4) r(3,4) multi_first_grows [OF _ q(2)] grows_multi_first by blast
  qed
qed


text \<open>The end of \<open>EXEC\<close>: command and arguments restored, transaction discarded.\<close>

lemma exec_finish:
  assumes "running c M st" "s_mem st c = Some cl"
  shows "ensures (do { st \<leftarrow> upd_client c (\<lambda>x. x\<lparr>c_argv := argv, c_cmd := cmd\<rparr>) st; discardTransaction c st })
    (\<lambda>st'. watch_inv st' \<and> s_events st' = s_events st \<and> s_mem st' c = Some (discarded (cl\<lparr>c_argv := argv, c_cmd := cmd\<rparr>)))"
proof -
  let ?cl = "cl\<lparr>c_argv := argv, c_cmd := cmd\<rparr>" and ?st = "st\<lparr>s_mem := (s_mem st)(c \<mapsto> cl\<lparr>c_argv := argv, c_cmd := cmd\<rparr>)\<rparr>"
  have "watch_inv st" using assms(1) by (simp add: running_def)
  then have i: "watch_inv ?st" by (rule watch_inv_cong) (use assms(2) in auto)
  have "ensures (discardTransaction c ?st) (\<lambda>st'. watch_inv st' \<and> s_events st' = s_events st \<and> s_mem st' c = Some (discarded ?cl))"
    by (rule ensures_mono [OF discardTransaction_Some [OF i, of c ?cl]]) auto
  then show ?thesis using assms(2) by (simp add: upd_client_def)
qed

definition exec_done :: "cid \<Rightarrow> (redisCommand \<times> bytes list) list \<Rightarrow> redisClient \<Rightarrow> 'v redisServer \<Rightarrow> 'v redisServer \<Rightarrow> bool" where
  "exec_done c M cl st st' \<longleftrightarrow> watch_inv st' \<and> grows c (map (\<lambda>(cmd, argv). EvProc c cmd argv) M) st st' \<and>
     (\<exists>cl'. s_mem st' c = Some cl' \<and> c_mstate cl' = [] \<and> c_watched_keys cl' = [] \<and>
       c_flags cl' \<inter> {REDIS_MULTI, REDIS_DIRTY_CAS, REDIS_DIRTY_EXEC} = {} \<and> c_cmd cl' = c_cmd cl \<and> c_argv cl' = c_argv cl) \<and>
     ((\<exists>(cmd, argv) \<in> set M. \<not> readonly_cmd cmd) \<longrightarrow> multi_first c st st')"

lemma exec_done_same:
  assumes "exec_done c M cl st st1" "s_mem st2 = s_mem st1" "s_watched_keys st2 = s_watched_keys st1" "grows c [] st1 st2"
  shows "exec_done c M cl st st2"
  using assms grows_trans [OF _ assms(4)] multi_first_grows [OF _ assms(4)] watch_inv_same [OF assms(2,3)] by (fastforce simp: exec_done_def)

lemma exec_queue_runs:
  assumes "procs_ok H c M" "running c M st" "s_mem st c = Some cl"
  shows "ensures (exec_queue (call H REDIS_CALL_FULL) c st) (exec_done c M cl st)"
proof -
  have i: "watch_inv st" and mst: "c_mstate cl = M" using assms(2,3) by (simp_all add: running_def)
  obtain st1 w where st1: "unwatchAllKeys c st = Some st1" "watch_inv st1"
    "st1 = st\<lparr>s_watched_keys := w, s_mem := (s_mem st)(c \<mapsto> cl\<lparr>c_watched_keys := []\<rparr>)\<rparr>"
    using unwatchAllKeys_Some [OF i assms(3)] by (auto simp: ensures_iff)
  have "runs c M [] st st1" using st1(2,3) assms(2,3) by (auto simp: running_def grows_def runs_def)
  then have "ensures (addReply c (MultiBulkLen (length M)) st1) (runs c M [] st)"
    unfolding addReply_def by (rule runs_upd [where g = "\<lambda>m. m"]) auto
  then obtain st2 where st2: "addReply c (MultiBulkLen (length M)) st1 = Some st2" "runs c M [] st st2" by (rule ensuresE) (use that in auto)
  have e2: "s_events st2 = s_events st" using st1(3) st2(1) by (auto simp: addReply_def upd_client_eq_Some)
  have "running c M st2" using st2(2) by (simp add: runs_def)
  from exec_loop_runs [of H c 0 M st2 REDIS_CALL_FULL False] this assms(1) obtain st3 mp M' where
    q: "exec_loop (call H REDIS_CALL_FULL) c 0 False st2 = Some (st3, mp)" "running c M' st3"
    "grows c (map (\<lambda>(cmd, argv). EvProc c cmd argv) M) st2 st3" "mp = (\<exists>(cmd, argv) \<in> set M. \<not> readonly_cmd cmd)"
    "mp \<longrightarrow> multi_first c st2 st3"
    unfolding ensures_iff by auto
  obtain cl3 where cl3: "s_mem st3 c = Some cl3" using q(2) by (auto simp: running_def)
  obtain st4 where st4: "upd_client c (\<lambda>x. x\<lparr>c_argv := c_argv cl, c_cmd := c_cmd cl\<rparr>) st3 \<bind> discardTransaction c = Some st4"
    "watch_inv st4" "s_events st4 = s_events st3" "s_mem st4 c = Some (discarded (cl3\<lparr>c_argv := c_argv cl, c_cmd := c_cmd cl\<rparr>))"
    using exec_finish [OF q(2) cl3] by (auto simp: ensures_iff)
  have "multi_first c st st4" if "mp" using q(5) that e2 st4(3) by (simp add: multi_first_def)
  moreover have "grows c (map (\<lambda>(cmd, argv). EvProc c cmd argv) M) st st4" using q(3) e2 st4(3) by (simp add: grows_def)
  ultimately have "exec_done c M cl st st4" unfolding exec_done_def using st4(2,4) q(4) by (auto simp: discarded_def)
  then have "exec_done c M cl st (if mp then st4\<lparr>s_dirty := s_dirty st4 + 1\<rparr> else st4)"
    by (rule exec_done_same) (simp_all add: grows_def)
  moreover have "exec_queue (call H REDIS_CALL_FULL) c st = Some (if mp then st4\<lparr>s_dirty := s_dirty st4 + 1\<rparr> else st4)"
    using st1(1,3) mst st2(1) q(1) st4(1)
    by (cases "upd_client c (\<lambda>x. x\<lparr>c_argv := c_argv cl, c_cmd := c_cmd cl\<rparr>) st3") (simp_all add: exec_queue_def)
  ultimately show ?thesis by simp
qed

lemma exec_monitor_done: "exec_done c M cl st st1 \<Longrightarrow> ensures (exec_monitor c st1) (exec_done c M cl st)"
proof -
  assume d: "exec_done c M cl st st1"
  then obtain cl1 where m: "s_mem st1 c = Some cl1" by (auto simp: exec_done_def)
  have "exec_done c M cl st (emit (EvMonitor c (c_db cl1) (c_argv cl1)) st1)"
    by (rule exec_done_same [OF d]) (simp_all add: grows_def)
  then show ?thesis unfolding exec_monitor_Some [OF m] using d by simp
qed

lemma execCommand_runs:
  assumes "procs_ok H c M" "running c M st" "s_mem st c = Some cl"
    and "REDIS_MULTI \<in> c_flags cl" "c_flags cl \<inter> {REDIS_DIRTY_CAS, REDIS_DIRTY_EXEC} = {}"
  shows "ensures (execCommand (call H REDIS_CALL_FULL) c st) (exec_done c M cl st)"
proof -
  have "execCommand (call H REDIS_CALL_FULL) c st = exec_queue (call H REDIS_CALL_FULL) c st \<bind> exec_monitor c"
    using assms(3-5) by (simp add: execCommand_def)
  then show ?thesis using ensures_bindI [OF exec_queue_runs [OF assms(1-3)] exec_monitor_done] by simp
qed

text \<open>
  C5: EXEC on a clean transaction runs it completely and exactly once: the procedures called in the
  client's name are the queued commands with their arguments, in the order of the queue; the client leaves
  the transaction with an empty queue, no watched key and its own command and arguments restored;
  and as soon as a queued command is not read-only, MULTI has been sent to the slaves before the
  first such command, so that the block is replicated as a whole.  The procedures of the queued
  commands are those of \<open>H\<close>, of which \<open>procs_ok\<close> says what is relied on.
\<close>

theorem exec_runs_queue:
  assumes "procs_ok H c M" "running c M st" "s_mem st c = Some cl"
    and "REDIS_MULTI \<in> c_flags cl" "c_flags cl \<inter> {REDIS_DIRTY_CAS, REDIS_DIRTY_EXEC} = {}"
  shows "\<exists>st' cl'. execCommand (call H REDIS_CALL_FULL) c st = Some st' \<and> watch_inv st' \<and>
    grows c (map (\<lambda>(cmd, argv). EvProc c cmd argv) M) st st' \<and>
    s_mem st' c = Some cl' \<and> c_mstate cl' = [] \<and> c_watched_keys cl' = [] \<and>
    c_flags cl' \<inter> {REDIS_MULTI, REDIS_DIRTY_CAS, REDIS_DIRTY_EXEC} = {} \<and> c_cmd cl' = c_cmd cl \<and> c_argv cl' = c_argv cl \<and>
    ((\<exists>(cmd, argv) \<in> set M. \<not> readonly_cmd cmd) \<longrightarrow> multi_first c st st')"
  using execCommand_runs [OF assms] by (rule ensuresE) (fastforce simp: exec_done_def)

section \<open>Examples\<close>

text \<open>Procedures that only reply.\<close>

definition get_cmd :: redisCommand where
  "get_cmd = \<lparr>cmd_name = str ''get'', cmd_proc = Other_proc 0, cmd_arity = 2, cmd_flags = {REDIS_CMD_READONLY, REDIS_CMD_FAST}\<rparr>"

definition set_cmd :: redisCommand where
  "set_cmd = \<lparr>cmd_name = str ''set'', cmd_proc = Other_proc 1, cmd_arity = - 3, cmd_flags = {REDIS_CMD_WRITE, REDIS_CMD_DENYOOM}\<rparr>"

definition pong_hooks :: "unit hooks" where
  "pong_hooks = \<lparr>h_lookupCommand = (\<lambda>name. if name = str ''get'' then Some get_cmd else if name = str ''set'' then Some set_cmd else None),
     h_proc = (\<lambda>cmd c. addReply c (Shared ''pong'')), h_dictKeys = (\<lambda>_. []), h_strerror = (\<lambda>_. []), h_duration = (\<lambda>_. 0),
     h_freeMemoryIfNeeded = (\<lambda>st. Some (st, True)), h_freeClient = (\<lambda>c. Some), h_handleClientsBlockedOnLists = Some\<rparr>"

lemma addReply_running: "running c M st \<Longrightarrow> ensures (addReply c r st) (\<lambda>st'. running c M st' \<and> grows c [] st st')"
  unfolding addReply_def by (rule running_upd [where g = "\<lambda>m. m"]) auto

text \<open>
  A table of procedures with the transaction commands of the server, a \<open>SET\<close> that stores nothing but
  the presence of the key and signals its modification, and replies for all others.
\<close>

definition set_proc :: "cid \<Rightarrow> unit redisServer \<Rightarrow> unit redisServer option" where
  "set_proc c st = do {
     cl \<leftarrow> s_mem st c;
     (case c_argv cl of
        _ # key # _ \<Rightarrow> do {
          st \<leftarrow> touchWatchedKey (c_db cl) key st;
          addReply c (Shared ''ok'') (st\<lparr>s_dict := (s_dict st)(c_db cl := (s_dict st (c_db cl))(key \<mapsto> ())), s_dirty := s_dirty st + 1\<rparr>) }
      | _ \<Rightarrow> addReply c (Shared ''syntaxerr'') st) }"

definition unwatch_cmd :: redisCommand where
  "unwatch_cmd = \<lparr>cmd_name = str ''unwatch'', cmd_proc = Other_proc 2, cmd_arity = 1,
     cmd_flags = {REDIS_CMD_READONLY, REDIS_CMD_NOSCRIPT, REDIS_CMD_FAST}\<rparr>"

definition txn_proc :: "redisCommand \<Rightarrow> cid \<Rightarrow> unit redisServer \<Rightarrow> unit redisServer option" where
  "txn_proc cmd c = (case cmd_proc cmd of
      Exec_proc \<Rightarrow> execCommand (call pong_hooks REDIS_CALL_FULL) c | Discard_proc \<Rightarrow> discardCommand c
    | Multi_proc \<Rightarrow> multiCommand c | Watch_proc \<Rightarrow> watchCommand c
    | Other_proc n \<Rightarrow> (if n = 1 then set_proc c else if n = 2 then unwatchCommand c else addReply c (Shared ''pong''))
    | _ \<Rightarrow> addReply c (Shared ''pong''))"

definition txn_hooks :: "unit hooks" where
  "txn_hooks = pong_hooks\<lparr>h_proc := txn_proc\<rparr>"

lemma runningI: "watch_inv st \<Longrightarrow> s_mem st c = Some cl \<Longrightarrow> REDIS_LUA_CLIENT \<notin> c_flags cl \<Longrightarrow> c_mstate cl = M \<Longrightarrow> c_cmd cl \<noteq> None \<Longrightarrow> running c M st"
  by (simp add: running_def)

lemma unwatchCommand_running:
  assumes "running c M st"
  shows "ensures (unwatchCommand c st) (\<lambda>st'. running c M st' \<and> grows c [] st st')"
proof -
  obtain cl where cl: "watch_inv st" "s_mem st c = Some cl" "REDIS_LUA_CLIENT \<notin> c_flags cl" "c_mstate cl = M" "c_cmd cl \<noteq> None"
    using assms by (auto simp: running_def)
  have "ensures (unwatchAllKeys c st) (runs c M [] st)"
    using unwatchAllKeys_Some [OF cl(1,2)]
    by (rule ensures_mono) (use cl(3-5) in \<open>auto simp: runs_def grows_same intro!: runningI\<close>)
  then have "ensures (unwatchCommand c st) (runs c M [] st)" unfolding unwatchCommand_def
  proof (rule ensures_bindI)
    fix st1 assume "runs c M [] st st1"
    then have "ensures (clear_flags c {REDIS_DIRTY_CAS} st1) (runs c M [] st)" by (rule runs_clear_flags) simp
    then show "ensures (do { st \<leftarrow> clear_flags c {REDIS_DIRTY_CAS} st1; addReply c (Shared ''ok'') st }) (runs c M [] st)"
      by (rule ensures_bindI) (unfold addReply_def, erule runs_upd [where g = "\<lambda>m. m"], simp_all)
  qed
  then show ?thesis by (simp add: runs_def [abs_def])
qed

lemma set_proc_running:
  assumes "running c M st"
  shows "ensures (set_proc c st) (\<lambda>st'. running c M st' \<and> grows c [] st st')"
proof -
  obtain cl where cl: "watch_inv st" "s_mem st c = Some cl" "REDIS_LUA_CLIENT \<notin> c_flags cl" "c_mstate cl = M" "c_cmd cl \<noteq> None"
    using assms by (auto simp: running_def)
  have t: "runs c M [] st (st1\<lparr>s_dict := d, s_dirty := n\<rparr>)" if st1: "touchWatchedKey (c_db cl) key st = Some st1" for st1 key d n
  proof -
    let ?m = "\<lambda>d. if d \<in> set (watchers st (c_db cl) key) then map_option add_dirty (s_mem st d) else s_mem st d"
    have e: "touchWatchedKey (c_db cl) key st = Some (st\<lparr>s_mem := ?m\<rparr>)" by (rule touchWatchedKey_Some [OF cl(1)])
    have i: "watch_inv (st\<lparr>s_mem := ?m, s_dict := d, s_dirty := n\<rparr>)"
      by (rule watch_inv_cong [OF cl(1)]) (auto simp: add_dirty_def option.map_comp comp_def)
    have "\<exists>cl'. ?m c = Some cl' \<and> REDIS_LUA_CLIENT \<notin> c_flags cl' \<and> c_mstate cl' = M \<and> c_cmd cl' \<noteq> None"
      using cl(2-5) by (simp add: add_dirty_def)
    then have "runs c M [] st (st\<lparr>s_mem := ?m, s_dict := d, s_dirty := n\<rparr>)" using i by (auto simp: runs_def grows_same intro: runningI)
    then show ?thesis using e st1 by simp
  qed
  have r: "ensures (addReply c x st1) (runs c M [] st)" if "runs c M [] st st1" for x and st1 :: "unit redisServer"
    unfolding addReply_def by (rule runs_upd [OF that, where g = "\<lambda>m. m"]) simp_all
  have "ensures (set_proc c st) (runs c M [] st)"
  proof (cases "\<exists>a key as. c_argv cl = a # key # as")
    case True
    then obtain a key as where k: "c_argv cl = a # key # as" by blast
    obtain st1 where "touchWatchedKey (c_db cl) key st = Some st1" using touchWatchedKey_Some [OF cl(1)] by simp
    then show ?thesis using cl(2) k r t by (simp add: set_proc_def)
  next
    case False
    then have "set_proc c st = addReply c (Shared ''syntaxerr'') st" using cl(2) by (auto simp: set_proc_def split: list.splits)
    then show ?thesis using r [OF runs_refl [OF assms]] by simp
  qed
  then show ?thesis by (simp add: runs_def [abs_def])
qed

text \<open>Every procedure of the table is fit for the queue but those of the four commands that are never queued.\<close>

lemma txn_proc_ok: "cmd_proc cmd \<notin> {Exec_proc, Discard_proc, Multi_proc, Watch_proc} \<Longrightarrow> proc_ok txn_hooks c cmd"
  by (auto simp: proc_ok_def txn_hooks_def txn_proc_def set_proc_running unwatchCommand_running addReply_running
      split: command_proc.split)

text \<open>A client with a queue of three commands, and another one that watches the key it sets.\<close>

definition queue_client :: redisClient where
  "queue_client = new_client\<lparr>c_flags := {REDIS_MULTI}, c_cmd := Some get_cmd,
     c_mstate := [(get_cmd, [[103], [107]]), (set_cmd, [[115], [107], [118]]), (unwatch_cmd, [[117]])]\<rparr>"

definition queue_server :: "unit redisServer" where
  "queue_server = empty_server\<lparr>s_mem := [1 \<mapsto> queue_client, 2 \<mapsto> new_client\<lparr>c_watched_keys := [(0, [107])]\<rparr>], s_clients := [1, 2],
     s_watched_keys := (\<lambda>_. Map.empty)(0 := [[107] \<mapsto> [2]])\<rparr>"

lemma queue_server_running: "running 1 (c_mstate queue_client) queue_server"
  by (auto simp: running_def watch_inv_def watching_def watchers_def queue_server_def empty_server_def queue_client_def new_client_def
      split: if_splits)

theorem exec_runs_queue_witness:
  "\<exists>st' cl'. execCommand (call txn_hooks REDIS_CALL_FULL) 1 queue_server = Some st' \<and> watch_inv st' \<and>
    grows 1 [EvProc 1 get_cmd [[103], [107]], EvProc 1 set_cmd [[115], [107], [118]], EvProc 1 unwatch_cmd [[117]]] queue_server st' \<and>
    s_mem st' 1 = Some cl' \<and> c_mstate cl' = [] \<and> multi_first 1 queue_server st'"
proof -
  have "s_mem queue_server 1 = Some queue_client" "REDIS_MULTI \<in> c_flags queue_client"
    "c_flags queue_client \<inter> {REDIS_DIRTY_CAS, REDIS_DIRTY_EXEC} = {}"
    by (simp_all add: queue_server_def queue_client_def)
  moreover have "procs_ok txn_hooks 1 (c_mstate queue_client)"
    by (simp add: procs_ok_def queue_client_def txn_proc_ok get_cmd_def set_cmd_def unwatch_cmd_def)
  ultimately show ?thesis
    using exec_runs_queue [of txn_hooks 1 "c_mstate queue_client" queue_server queue_client, OF _ queue_server_running]
    by (auto simp: queue_client_def readonly_cmd_def set_cmd_def)
qed

text \<open>A client that watches a key of the first data base.\<close>

definition watch_client :: redisClient where
  "watch_client = new_client\<lparr>c_argv := [[119], [107]], c_watched_keys := [(0, [107])], c_reply := [Shared ''ok'']\<rparr>"

definition watch_server :: "unit redisServer" where
  "watch_server = empty_server\<lparr>s_mem := [1 \<mapsto> watch_client], s_clients := [1], s_watched_keys := (\<lambda>_. Map.empty)(0 := [[107] \<mapsto> [1]])\<rparr>"

lemma watch_server_reachable: "txn_reachable watch_server"
proof -
  let ?s1 = "empty_server\<lparr>s_mem := [1 \<mapsto> new_client], s_clients := [1]\<rparr>"
  let ?s2 = "empty_server\<lparr>s_mem := [1 \<mapsto> new_client\<lparr>c_argv := [[119], [107]]\<rparr>], s_clients := [1]\<rparr>"
  have "txn_reachable empty_server" by (rule txn_reachable.init) (simp_all add: empty_server_def)
  moreover have "txn_step empty_server (ANew 1) ?s1" using txn_step.new [of empty_server 1] by (simp add: empty_server_def)
  ultimately have "txn_reachable ?s1" by (rule txn_reachable.step)
  moreover have "txn_step ?s1 (ACommand 1 0 None [[119], [107]]) ?s2" by (rule txn_step.command) (simp add: upd_client_def new_client_def)
  ultimately have "txn_reachable ?s2" by (rule txn_reachable.step)
  moreover have "txn_step ?s2 (AWatch 1) watch_server"
    by (rule txn_step.watch) (simp add: watchCommand_def watchForKey_def upd_client_def addReply_def new_client_def watch_server_def watch_client_def empty_server_def)
  ultimately show ?thesis by (rule txn_reachable.step)
qed

theorem txn_reachable_consistent_witness:
  "touchWatchedKey 0 [107] watch_server \<noteq> None \<and> unwatchAllKeys 1 watch_server \<noteq> None"
  using txn_reachable_consistent [OF watch_server_reachable, of 0 "[107]" 1 0] by (simp add: watch_server_def)

definition locked_client :: redisClient where
  "locked_client = watch_client\<lparr>c_flags := {REDIS_MULTI, REDIS_DIRTY_CAS}, c_reply := [Shared ''ok'', Shared ''ok'']\<rparr>"

definition locked_server :: "unit redisServer" where
  "locked_server = watch_server\<lparr>s_mem := [1 \<mapsto> locked_client]\<rparr>"

lemma locked_run: "txn_run watch_server [AMulti 1, ATouch 0 [107]] locked_server"
proof -
  let ?s = "watch_server\<lparr>s_mem := [1 \<mapsto> watch_client\<lparr>c_flags := {REDIS_MULTI}, c_reply := [Shared ''ok'', Shared ''ok'']\<rparr>]\<rparr>"
  have "txn_step watch_server (AMulti 1) ?s"
    by (rule txn_step.multi) (simp add: multiCommand_def set_flags_def addReply_def upd_client_def watch_server_def watch_client_def new_client_def)
  moreover have "txn_step ?s (ATouch 0 [107]) locked_server"
    by (rule txn_step.touch) (simp add: touchWatchedKey_def set_flags_def upd_client_def watch_server_def locked_server_def locked_client_def watch_client_def new_client_def insert_commute)
  ultimately show ?thesis by (auto intro: txn_run.intros)
qed

theorem watch_aborts_exec_witness:
  "\<exists>st'. execCommand (call pong_hooks REDIS_CALL_FULL) 1 locked_server = Some st' \<and> procs st' = [] \<and>
    map_option c_reply (s_mem st' 1) = Some [Shared ''ok'', Shared ''ok'', Shared ''nullmultibulk'']"
proof -
  have w: "(0, [107]) \<in> watching watch_server 1" by (simp add: watching_def watch_server_def watch_client_def)
  have m: "s_mem locked_server 1 = Some locked_client" "REDIS_MULTI \<in> c_flags locked_client"
    by (simp_all add: locked_server_def locked_client_def)
  show ?thesis
    using watch_aborts_exec [OF watch_server_reachable w locked_run _ _ m, of "call pong_hooks REDIS_CALL_FULL"]
    by (auto simp: procs_def locked_server_def watch_server_def empty_server_def locked_client_def)
qed

end
