(* ===== verification/Command.thy ===== *)
theory Command
  imports Multi_Exec
begin

text \<open>
  \<open>processCommand\<close> of \<open>redis.c\<close>: the command is looked up and admitted, or refused by the first of its
  guards that applies; inside a transaction an admitted command is queued, otherwise it is called.
\<close>

datatype redis_ret = REDIS_OK | REDIS_ERR

section \<open>Guards\<close>

definition pc_arity_err :: "redisCommand \<Rightarrow> nat \<Rightarrow> bool" where
  "pc_arity_err cmd argc \<longleftrightarrow> (0 < cmd_arity cmd \<and> cmd_arity cmd \<noteq> int argc) \<or> int argc < - cmd_arity cmd"

definition pc_noauth :: "redisClient \<Rightarrow> redisCommand \<Rightarrow> 'v redisServer \<Rightarrow> bool" where
  "pc_noauth cl cmd st \<longleftrightarrow> s_requirepass st \<and> \<not> c_authenticated cl \<and> cmd_proc cmd \<noteq> Auth_proc"

definition pc_disk_err :: "redisCommand \<Rightarrow> 'v redisServer \<Rightarrow> bool" where
  "pc_disk_err cmd st \<longleftrightarrow>
     ((s_stop_writes_on_bgsave_err st \<and> 0 < s_saveparamslen st \<and> \<not> s_lastbgsave_ok st) \<or> \<not> s_aof_last_write_ok st) \<and>
     \<not> s_masterhost st \<and> (REDIS_CMD_WRITE \<in> cmd_flags cmd \<or> cmd_proc cmd = Ping_proc)"

definition pc_few_slaves :: "redisCommand \<Rightarrow> 'v redisServer \<Rightarrow> bool" where
  "pc_few_slaves cmd st \<longleftrightarrow> \<not> s_masterhost st \<and> s_repl_min_slaves_to_write st \<noteq> 0 \<and> s_repl_min_slaves_max_lag st \<noteq> 0 \<and>
     REDIS_CMD_WRITE \<in> cmd_flags cmd \<and> s_repl_good_slaves_count st < s_repl_min_slaves_to_write st"

definition pc_readonly_slave :: "redisClient \<Rightarrow> redisCommand \<Rightarrow> 'v redisServer \<Rightarrow> bool" where
  "pc_readonly_slave cl cmd st \<longleftrightarrow> s_masterhost st \<and> s_repl_slave_ro st \<and> REDIS_MASTER \<notin> c_flags cl \<and> REDIS_CMD_WRITE \<in> cmd_flags cmd"

definition pc_pubsub_context :: "redisClient \<Rightarrow> redisCommand \<Rightarrow> bool" where
  "pc_pubsub_context cl cmd \<longleftrightarrow> REDIS_PUBSUB \<in> c_flags cl \<and>
     cmd_proc cmd \<notin> {Ping_proc, Subscribe_proc, Unsubscribe_proc, Psubscribe_proc, Punsubscribe_proc}"

definition pc_master_down :: "redisCommand \<Rightarrow> 'v redisServer \<Rightarrow> bool" where
  "pc_master_down cmd st \<longleftrightarrow> s_masterhost st \<and> \<not> s_repl_connected st \<and> \<not> s_repl_serve_stale_data st \<and> REDIS_CMD_STALE \<notin> cmd_flags cmd"

text \<open>The first character of an argument is its terminator when it is empty.\<close>

definition pc_slow_script :: "redisClient \<Rightarrow> redisCommand \<Rightarrow> 'v redisServer \<Rightarrow> bool" where
  "pc_slow_script cl cmd st \<longleftrightarrow> s_lua_timedout st \<and> cmd_proc cmd \<noteq> Auth_proc \<and> cmd_proc cmd \<noteq> Replconf_proc \<and>
     \<not> (cmd_proc cmd = Shutdown_proc \<and> length (c_argv cl) = 2 \<and> c_tolower (cval (hd (c_argv cl ! 1 @ [0]))) = cval (byte_of CHR ''n'')) \<and>
     \<not> (cmd_proc cmd = Script_proc \<and> length (c_argv cl) = 2 \<and> c_tolower (cval (hd (c_argv cl ! 1 @ [0]))) = cval (byte_of CHR ''k''))"

text \<open>
  The guards behind \<open>freeMemoryIfNeeded\<close> in their order: the reply of the first that refuses the
  command, and whether the code calls \<open>flagTransaction\<close> there.
\<close>

definition pc_refusal :: "'v hooks \<Rightarrow> redisClient \<Rightarrow> redisCommand \<Rightarrow> 'v redisServer \<Rightarrow> (bool \<times> reply) option" where
  "pc_refusal H cl cmd st =
     (if pc_disk_err cmd st then
        Some (True, if s_aof_last_write_ok st then Shared ''bgsaveerr''
          else ReplyErrorFormat ''-MISCONF Errors writing to the AOF file: %s'' (h_strerror H (s_aof_last_write_errno st)))
      else if pc_few_slaves cmd st then Some (True, Shared ''noreplicaserr'')
      else if pc_readonly_slave cl cmd st then Some (False, Shared ''roslaveerr'')
      else if pc_pubsub_context cl cmd then
        Some (False, ReplyError ''only (P)SUBSCRIBE / (P)UNSUBSCRIBE / QUIT allowed in this context'')
      else if pc_master_down cmd st then Some (True, Shared ''masterdownerr'')
      else if s_loading st \<and> REDIS_CMD_LOADING \<notin> cmd_flags cmd then Some (False, Shared ''loadingerr'')
      else if pc_slow_script cl cmd st then Some (True, Shared ''slowscripterr'')
      else None)"

section \<open>The command\<close>

text \<open>The format \<open>%s\<close> between single quotes.\<close>

definition quoted_s :: string where
  "quoted_s = [CHR 0x27] @ ''%s'' @ [CHR 0x27]"

definition pc_refuse :: "bool \<Rightarrow> reply \<Rightarrow> cid \<Rightarrow> 'v redisServer \<Rightarrow> 'v redisServer option" where
  "pc_refuse flag r c st = do {
     st \<leftarrow> (if flag then flagTransaction c st else Some st);
     addReply c r st }"

definition pc_quit :: "cid \<Rightarrow> 'v redisServer \<Rightarrow> 'v redisServer option" where
  "pc_quit c st = do {
     st \<leftarrow> addReply c (Shared ''ok'') st;
     set_flags c {REDIS_CLOSE_AFTER_REPLY} st }"

definition pc_exec :: "'v hooks \<Rightarrow> cid \<Rightarrow> redisCommand \<Rightarrow> 'v redisServer \<Rightarrow> 'v redisServer option" where
  "pc_exec H c cmd st = do {
     cl \<leftarrow> s_mem st c;
     if REDIS_MULTI \<in> c_flags cl \<and> cmd_proc cmd \<noteq> Exec_proc \<and> cmd_proc cmd \<noteq> Discard_proc \<and>
        cmd_proc cmd \<noteq> Multi_proc \<and> cmd_proc cmd \<noteq> Watch_proc
     then do {
       st \<leftarrow> queueMultiCommand c st;
       addReply c (Shared ''queued'') st }
     else do {
       st \<leftarrow> call H REDIS_CALL_FULL c st;
       if s_ready_keys st \<noteq> [] then h_handleClientsBlockedOnLists H st else Some st } }"

definition pc_admit :: "'v hooks \<Rightarrow> cid \<Rightarrow> redisCommand \<Rightarrow> 'v redisServer \<Rightarrow> 'v redisServer option" where
  "pc_admit H c cmd st = do {
     cl \<leftarrow> s_mem st c;
     case pc_refusal H cl cmd st of
       Some (flag, r) \<Rightarrow> pc_refuse flag r c st
     | None \<Rightarrow> pc_exec H c cmd st }"

definition pc_maxmemory :: "'v hooks \<Rightarrow> cid \<Rightarrow> redisCommand \<Rightarrow> 'v redisServer \<Rightarrow> 'v redisServer option" where
  "pc_maxmemory H c cmd st =
     (if s_maxmemory st \<noteq> 0 then do {
        r \<leftarrow> h_freeMemoryIfNeeded H st;
        if REDIS_CMD_DENYOOM \<in> cmd_flags cmd \<and> \<not> snd r then pc_refuse True (Shared ''oomerr'') c (fst r)
        else pc_admit H c cmd (fst r) }
      else pc_admit H c cmd st)"

definition pc_command :: "'v hooks \<Rightarrow> cid \<Rightarrow> 'v redisServer \<Rightarrow> 'v redisServer option" where
  "pc_command H c st = do {
     cl \<leftarrow> s_mem st c;
     name \<leftarrow> arr_get (c_argv cl) 0;
     let cmd = h_lookupCommand H name;
     st \<leftarrow> upd_client c (\<lambda>cl. cl\<lparr>c_cmd := cmd, c_lastcmd := cmd\<rparr>) st;
     case cmd of
       None \<Rightarrow> pc_refuse True (ReplyErrorFormat (''unknown command '' @ quoted_s) name) c st
     | Some cmd \<Rightarrow>
         if pc_arity_err cmd (length (c_argv cl)) then
           pc_refuse True (ReplyErrorFormat (''wrong number of arguments for '' @ quoted_s @ '' command'') (cmd_name cmd)) c st
         else if pc_noauth cl cmd st then pc_refuse True (Shared ''noautherr'') c st
         else pc_maxmemory H c cmd st }"

definition processCommand :: "'v hooks \<Rightarrow> cid \<Rightarrow> 'v redisServer \<Rightarrow> ('v redisServer \<times> redis_ret) option" where
  "processCommand H c st = do {
     cl \<leftarrow> s_mem st c;
     name \<leftarrow> arr_get (c_argv cl) 0;
     quit \<leftarrow> strcasecmp_eq (name @ [0]) 0 (str ''quit'');
     if quit then do {
       st \<leftarrow> pc_quit c st;
       Some (st, REDIS_ERR) }
     else do {
       st \<leftarrow> pc_command H c st;
       Some (st, REDIS_OK) } }"

section \<open>Inside a transaction\<close>

definition queued_proc :: "command_proc \<Rightarrow> bool" where
  "queued_proc p \<longleftrightarrow> p \<noteq> Exec_proc \<and> p \<noteq> Discard_proc \<and> p \<noteq> Multi_proc \<and> p \<noteq> Watch_proc"

text \<open>
  What \<open>processCommand\<close> relies on of the eviction: it returns, and leaves the transaction of the client alone (it may
  send it keyspace notifications).
\<close>

definition evict_ok :: "'v hooks \<Rightarrow> cid \<Rightarrow> bool" where
  "evict_ok H c \<longleftrightarrow> (\<forall>st cl. s_mem st c = Some cl \<longrightarrow> ensures (h_freeMemoryIfNeeded H st) (\<lambda>r. procs (fst r) = procs st \<and>
     (\<exists>rs. s_mem (fst r) c = Some (cl\<lparr>c_reply := rs\<rparr>))))"

definition silent_refusals :: "reply set" where
  "silent_refusals = {Shared ''roslaveerr'', Shared ''loadingerr'',
     ReplyError ''only (P)SUBSCRIBE / (P)UNSUBSCRIBE / QUIT allowed in this context''}"

text \<open>The outcome of a command inside a transaction: queued, or refused and (mostly) flagged.\<close>

definition queue_outcome :: "'v hooks \<Rightarrow> cid \<Rightarrow> redisClient \<Rightarrow> 'v redisServer \<Rightarrow> 'v redisServer \<Rightarrow> bool" where
  "queue_outcome H c cl st st' \<longleftrightarrow> procs st' = procs st \<and>
     (\<exists>cl' rs r. s_mem st' c = Some cl' \<and> c_reply cl' = rs @ [r] \<and>
       ((\<exists>cmd. h_lookupCommand H (hd (c_argv cl)) = Some cmd \<and> r = Shared ''queued'' \<and>
           c_mstate cl' = c_mstate cl @ [(cmd, c_argv cl)] \<and> c_flags cl' = c_flags cl) \<or>
        (r \<noteq> Shared ''queued'' \<and> c_mstate cl' = c_mstate cl \<and>
           c_flags cl' = (if r \<in> silent_refusals then c_flags cl else insert REDIS_DIRTY_EXEC (c_flags cl)))))"

lemma pc_refuse_Some:
  "s_mem st c = Some cl \<Longrightarrow> REDIS_MULTI \<in> c_flags cl \<Longrightarrow> pc_refuse flag r c st =
   Some (st\<lparr>s_mem := (s_mem st)(c \<mapsto> cl\<lparr>c_flags := (if flag then insert REDIS_DIRTY_EXEC (c_flags cl) else c_flags cl), c_reply := c_reply cl @ [r]\<rparr>)\<rparr>)"
  by (simp add: pc_refuse_def flagTransaction_def set_flags_def addReply_def upd_client_def)

lemma pc_refuse_outcome:
  assumes "s_mem st1 c = Some cl1" "REDIS_MULTI \<in> c_flags cl" "c_flags cl1 = c_flags cl" "c_mstate cl1 = c_mstate cl"
    "procs st1 = procs st" "r \<noteq> Shared ''queued''" "flag \<longleftrightarrow> r \<notin> silent_refusals"
  shows "ensures (pc_refuse flag r c st1) (queue_outcome H c cl st)"
  using assms by (simp add: pc_refuse_Some queue_outcome_def procs_def)

lemma pc_refusal_silent:
  "pc_refusal H cl cmd st = Some (flag, r) \<Longrightarrow> r \<noteq> Shared ''queued'' \<and> (flag \<longleftrightarrow> r \<notin> silent_refusals)"
  by (auto simp: pc_refusal_def silent_refusals_def split: if_splits)

lemma pc_admit_outcome:
  assumes "s_mem st1 c = Some cl1" "REDIS_MULTI \<in> c_flags cl" "c_flags cl1 = c_flags cl" "c_mstate cl1 = c_mstate cl"
    "procs st1 = procs st" "c_cmd cl1 = Some cmd" "c_argv cl1 = c_argv cl" "h_lookupCommand H (hd (c_argv cl)) = Some cmd"
    "queued_proc (cmd_proc cmd)"
  shows "ensures (pc_admit H c cmd st1) (queue_outcome H c cl st)"
proof (cases "pc_refusal H cl1 cmd st1")
  case None
  have "pc_exec H c cmd st1 = Some (st1\<lparr>s_mem := (s_mem st1)(c \<mapsto> cl1\<lparr>c_mstate := c_mstate cl1 @ [(cmd, c_argv cl1)],
      c_reply := c_reply cl1 @ [Shared ''queued'']\<rparr>)\<rparr>)"
    using assms by (simp add: pc_exec_def queued_proc_def queueMultiCommand_def addReply_def upd_client_def)
  then show ?thesis using None assms by (simp add: pc_admit_def queue_outcome_def procs_def)
next
  case (Some x)
  then show ?thesis
    using assms pc_refuse_outcome [OF assms(1-5)] pc_refusal_silent [of H cl1 cmd st1] by (cases x) (simp add: pc_admit_def)
qed

lemma pc_maxmemory_outcome:
  assumes "evict_ok H c" "s_mem st1 c = Some cl1" "REDIS_MULTI \<in> c_flags cl" "c_flags cl1 = c_flags cl" "c_mstate cl1 = c_mstate cl"
    "procs st1 = procs st" "c_cmd cl1 = Some cmd" "c_argv cl1 = c_argv cl" "h_lookupCommand H (hd (c_argv cl)) = Some cmd"
    "queued_proc (cmd_proc cmd)"
  shows "ensures (pc_maxmemory H c cmd st1) (queue_outcome H c cl st)"
proof (cases "s_maxmemory st1 = 0")
  case True
  then show ?thesis using pc_admit_outcome [OF assms(2-10)] by (simp add: pc_maxmemory_def)
next
  case False
  obtain r rs where r: "h_freeMemoryIfNeeded H st1 = Some r" "procs (fst r) = procs st1" "s_mem (fst r) c = Some (cl1\<lparr>c_reply := rs\<rparr>)"
    using assms(1,2) unfolding evict_ok_def ensures_iff by blast
  have "ensures (pc_admit H c cmd (fst r)) (queue_outcome H c cl st)"
    by (rule pc_admit_outcome [OF r(3)]) (use assms r in auto)
  moreover have "ensures (pc_refuse True (Shared ''oomerr'') c (fst r)) (queue_outcome H c cl st)"
    by (rule pc_refuse_outcome [OF r(3)]) (use assms r in \<open>auto simp: silent_refusals_def\<close>)
  ultimately show ?thesis using False r(1) by (simp add: pc_maxmemory_def)
qed

text \<open>
  C12: Inside a transaction nothing is executed: a command other than EXEC, DISCARD, MULTI, WATCH and
  QUIT is either appended to the queue with its arguments and answered QUEUED, or refused with an
  error that leaves the queue as it was.  Every refusal makes the transaction fail (EXEC answers
  EXECABORT), except the three the code does not report to \<open>flagTransaction\<close>: a write on a read-only
  slave, a command outside the publish/subscribe set, and a command while the data set is loading.
\<close>

theorem processCommand_in_multi:
  assumes "s_mem st c = Some cl" "REDIS_MULTI \<in> c_flags cl" "c_argv cl \<noteq> []" "evict_ok H c"
    and "strcasecmp_eq (hd (c_argv cl) @ [0]) 0 (str ''quit'') = Some False"
    and "\<forall>cmd. h_lookupCommand H (hd (c_argv cl)) = Some cmd \<longrightarrow> queued_proc (cmd_proc cmd)"
  shows "\<exists>st'. processCommand H c st = Some (st', REDIS_OK) \<and> queue_outcome H c cl st st'"
proof -
  have n: "arr_get (c_argv cl) 0 = Some (hd (c_argv cl))" using assms(3) by (cases "c_argv cl") simp_all
  let ?cmd = "h_lookupCommand H (hd (c_argv cl))"
  let ?st1 = "st\<lparr>s_mem := (s_mem st)(c \<mapsto> cl\<lparr>c_cmd := ?cmd, c_lastcmd := ?cmd\<rparr>)\<rparr>"
  have m: "s_mem ?st1 c = Some (cl\<lparr>c_cmd := ?cmd, c_lastcmd := ?cmd\<rparr>)" "procs ?st1 = procs st" by (simp_all add: procs_def)
  have refuse: "ensures (pc_refuse True r c ?st1) (queue_outcome H c cl st)" if "r \<noteq> Shared ''queued''" "r \<notin> silent_refusals" for r
    by (rule pc_refuse_outcome [OF m(1)]) (use assms(2) that m(2) in auto)
  have "ensures (pc_command H c st) (queue_outcome H c cl st)"
  proof (cases ?cmd)
    case None
    then show ?thesis using refuse assms(1) n by (simp add: pc_command_def upd_client_def Let_def silent_refusals_def)
  next
    case (Some cmd)
    have "ensures (pc_maxmemory H c cmd ?st1) (queue_outcome H c cl st)"
      by (rule pc_maxmemory_outcome [OF assms(4) m(1)]) (use assms(2,6) Some m(2) in auto)
    then show ?thesis using Some refuse assms(1) n
      by (simp add: pc_command_def upd_client_def Let_def silent_refusals_def)
  qed
  then obtain st' where "pc_command H c st = Some st'" "queue_outcome H c cl st st'" by (rule ensuresE) (use that in auto)
  then show ?thesis using assms(1,5) n by (simp add: processCommand_def)
qed

text \<open>
  C38: The gap in that rule: a write refused on a read-only slave inside a transaction leaves the
  transaction clean, so a following EXEC runs the other queued commands without it.
\<close>

theorem readonly_refusal_not_flagged:
  assumes "s_mem st c = Some cl" "c_argv cl = name # args" "strcasecmp_eq (name @ [0]) 0 (str ''quit'') = Some False"
    and "h_lookupCommand H name = Some cmd" "\<not> pc_arity_err cmd (length (c_argv cl))" "\<not> pc_noauth cl cmd st" "s_maxmemory st = 0"
    and "pc_readonly_slave cl cmd st"
  shows "\<exists>cl'. processCommand H c st = Some (st\<lparr>s_mem := (s_mem st)(c \<mapsto> cl')\<rparr>, REDIS_OK) \<and> c_flags cl' = c_flags cl \<and>
    c_mstate cl' = c_mstate cl \<and> c_reply cl' = c_reply cl @ [Shared ''roslaveerr'']"
proof -
  let ?cl = "cl\<lparr>c_cmd := Some cmd, c_lastcmd := Some cmd\<rparr>"
  let ?st1 = "st\<lparr>s_mem := (s_mem st)(c \<mapsto> ?cl)\<rparr>"
  have "pc_refusal H ?cl cmd ?st1 = Some (False, Shared ''roslaveerr'')"
    using assms(8) by (simp add: pc_refusal_def pc_readonly_slave_def pc_disk_err_def pc_few_slaves_def)
  then have "pc_admit H c cmd ?st1 = Some (?st1\<lparr>s_mem := (s_mem ?st1)(c \<mapsto> ?cl\<lparr>c_reply := c_reply cl @ [Shared ''roslaveerr'']\<rparr>)\<rparr>)"
    by (simp add: pc_admit_def pc_refuse_def addReply_def upd_client_def)
  moreover have "pc_maxmemory H c cmd ?st1 = pc_admit H c cmd ?st1" using assms(7) by (simp add: pc_maxmemory_def)
  moreover have "\<not> pc_noauth cl cmd ?st1" using assms(6) by (simp add: pc_noauth_def)
  ultimately have "pc_command H c st = Some (st\<lparr>s_mem := (s_mem st)(c \<mapsto> ?cl\<lparr>c_reply := c_reply cl @ [Shared ''roslaveerr'']\<rparr>)\<rparr>)"
    using assms(1,2,4,5) by (simp add: pc_command_def upd_client_def arr_get_def Let_def)
  then show ?thesis using assms(1-3)
    by (intro exI [of _ "?cl\<lparr>c_reply := c_reply cl @ [Shared ''roslaveerr'']\<rparr>"]) (simp add: processCommand_def arr_get_def)
qed

section \<open>Examples\<close>

definition txn_client :: redisClient where
  "txn_client = new_client\<lparr>c_flags := {REDIS_MULTI}, c_argv := [str ''set'', str ''k'', str ''v'']\<rparr>"

definition slave_server :: "unit redisServer" where
  "slave_server = empty_server\<lparr>s_mem := [1 \<mapsto> txn_client], s_clients := [1], s_masterhost := True\<rparr>"

lemma pong_evict_ok: "evict_ok pong_hooks c"
proof -
  have "\<exists>rs. cl = cl\<lparr>c_reply := rs\<rparr>" for cl :: redisClient by (rule exI [of _ "c_reply cl"]) simp
  then show ?thesis by (simp add: evict_ok_def pong_hooks_def)
qed

lemma slave_server_facts:
  "s_mem slave_server 1 = Some txn_client" "c_argv txn_client = str ''set'' # [str ''k'', str ''v'']"
  "strcasecmp_eq (str ''set'' @ [0]) 0 (str ''quit'') = Some False" "h_lookupCommand pong_hooks (str ''set'') = Some set_cmd"
  "REDIS_MULTI \<in> c_flags txn_client"
  by (simp_all add: slave_server_def txn_client_def pong_hooks_def c_tolower_def)

theorem processCommand_in_multi_witness:
  "\<exists>st'. processCommand pong_hooks 1 slave_server = Some (st', REDIS_OK) \<and> queue_outcome pong_hooks 1 txn_client slave_server st'"
proof (rule processCommand_in_multi [OF slave_server_facts(1,5) _ pong_evict_ok])
  show "strcasecmp_eq (hd (c_argv txn_client) @ [0]) 0 (str ''quit'') = Some False" unfolding slave_server_facts(2) list.sel(1) by (rule slave_server_facts(3))
  show "\<forall>cmd. h_lookupCommand pong_hooks (hd (c_argv txn_client)) = Some cmd \<longrightarrow> queued_proc (cmd_proc cmd)"
    unfolding slave_server_facts(2) list.sel(1) slave_server_facts(4) by (simp add: set_cmd_def queued_proc_def)
  show "c_argv txn_client \<noteq> []" unfolding slave_server_facts(2) by (rule list.distinct(2))
qed

theorem readonly_refusal_not_flagged_witness:
  "\<exists>cl'. processCommand pong_hooks 1 slave_server = Some (slave_server\<lparr>s_mem := (s_mem slave_server)(1 \<mapsto> cl')\<rparr>, REDIS_OK) \<and>
    c_flags cl' = c_flags txn_client \<and> c_mstate cl' = c_mstate txn_client \<and> c_reply cl' = c_reply txn_client @ [Shared ''roslaveerr'']"
proof (rule readonly_refusal_not_flagged [OF slave_server_facts(1-4)])
  show "\<not> pc_arity_err set_cmd (length (c_argv txn_client))" by (simp add: pc_arity_err_def set_cmd_def txn_client_def)
  show "\<not> pc_noauth txn_client set_cmd slave_server" "s_maxmemory slave_server = 0" by (simp_all add: pc_noauth_def slave_server_def empty_server_def)
  show "pc_readonly_slave txn_client set_cmd slave_server" by (simp add: pc_readonly_slave_def slave_server_def empty_server_def txn_client_def set_cmd_def)
qed

end
