(* ===== verification/Query.thy ===== *)
theory Query
  imports Command Sds_Text
begin

text \<open>
  The requests of clients (\<open>networking.c\<close>): reading into the query buffer, inline and multi bulk
  requests, and the loop that runs the commands in the buffer.  The query buffer is the byte
  sequence of its dynamic string (theory \<open>Sds\<close>): \<open>sdsrange(buf,pos,-1)\<close> drops \<open>pos\<close> bytes and
  \<open>sdsMakeRoomFor\<close> does not change it.  The functions that only work on one client are functions on the
  client; \<open>junk\<close> is the content of fresh memory.
\<close>

definition REDIS_INLINE_MAX_SIZE :: nat where "REDIS_INLINE_MAX_SIZE = 1024 * 64"
definition REDIS_MBULK_BIG_ARG :: int where "REDIS_MBULK_BIG_ARG = 1024 * 32"
definition REDIS_IOBUF_LEN :: int where "REDIS_IOBUF_LEN = 1024 * 16"

text \<open>Standard library: \<open>strchr\<close> stops at a NUL byte, the terminator behind the last byte included.\<close>

fun strchr_pos :: "bytes \<Rightarrow> byte \<Rightarrow> nat option" where
  "strchr_pos [] ch = None"
| "strchr_pos (b # s) ch = (if b = ch then Some 0 else if b = 0 then None else map_option Suc (strchr_pos s ch))"

definition addReplyError :: "string \<Rightarrow> redisClient \<Rightarrow> redisClient" where
  "addReplyError msg cl = cl\<lparr>c_reply := c_reply cl @ [ReplyError msg]\<rparr>"

definition freeClientArgv :: "redisClient \<Rightarrow> redisClient" where
  "freeClientArgv cl = cl\<lparr>c_argv := [], c_cmd := None\<rparr>"

definition resetClient :: "redisClient \<Rightarrow> redisClient" where
  "resetClient cl = (let cl = (freeClientArgv cl)\<lparr>c_reqtype := REQ_UNKNOWN, c_multibulklen := 0, c_bulklen := - 1\<rparr> in
     if REDIS_MULTI \<notin> c_flags cl then cl\<lparr>c_flags := c_flags cl - {REDIS_ASKING}\<rparr> else cl)"

definition setProtocolError :: "nat \<Rightarrow> redisClient \<Rightarrow> redisClient" where
  "setProtocolError pos cl = cl\<lparr>c_flags := c_flags cl \<union> {REDIS_CLOSE_AFTER_REPLY}, c_querybuf := drop pos (c_querybuf cl)\<rparr>"

section \<open>Inline requests\<close>

definition inline_args :: "int \<Rightarrow> nat \<Rightarrow> bytes list \<Rightarrow> redisClient \<Rightarrow> redisClient" where
  "inline_args now querylen argv cl = (let
     cl = (if querylen = 0 \<and> REDIS_SLAVE \<in> c_flags cl then cl\<lparr>c_repl_ack_time := now\<rparr> else cl);
     cl = cl\<lparr>c_querybuf := drop (querylen + 2) (c_querybuf cl)\<rparr>
     in cl\<lparr>c_argv := filter (\<lambda>a. a \<noteq> []) argv\<rparr>)"

definition processInlineBuffer :: "(nat \<Rightarrow> byte) \<Rightarrow> int \<Rightarrow> redisClient \<Rightarrow> (redisClient \<times> redis_ret) option" where
  "processInlineBuffer junk now cl =
     (case strchr_pos (c_querybuf cl) 10 of
        None \<Rightarrow> Some (if length (c_querybuf cl) > REDIS_INLINE_MAX_SIZE
                 then setProtocolError 0 (addReplyError ''Protocol error: too big inline request'' cl) else cl, REDIS_ERR)
      | Some newline \<Rightarrow> do {
          let newline = (if newline \<noteq> 0 \<and> c_querybuf cl ! (newline - 1) = 13 then newline - 1 else newline);
          argv \<leftarrow> sdssplitargs junk (take newline (c_querybuf cl) @ [0]);
          case argv of
            None \<Rightarrow> Some (setProtocolError 0 (addReplyError ''Protocol error: unbalanced quotes in request'' cl), REDIS_ERR)
          | Some argv \<Rightarrow> Some (inline_args now newline (map sdsval argv) cl, REDIS_OK) })"

section \<open>Multi bulk requests\<close>

datatype mb_res = MbErr redisClient | MbBreak nat redisClient | MbNext nat redisClient

text \<open>The multi bulk length: \<open>Inl\<close> when the function returns, \<open>Inr pos\<close> when the arguments follow.\<close>

definition mb_count :: "redisClient \<Rightarrow> ((redisClient \<times> redis_ret) + (nat \<times> redisClient)) option" where
  "mb_count cl = (let buf = c_querybuf cl in
     if c_argv cl \<noteq> [] then None
     else case strchr_pos buf 13 of
       None \<Rightarrow> Some (Inl (if length buf > REDIS_INLINE_MAX_SIZE
                 then setProtocolError 0 (addReplyError ''Protocol error: too big mbulk count string'' cl) else cl, REDIS_ERR))
     | Some newline \<Rightarrow>
         if int newline > int (length buf) - 2 then Some (Inl (cl, REDIS_ERR))
         else if buf ! 0 \<noteq> 42 then None
         else do {
           ok \<leftarrow> string2ll (drop 1 buf) (newline - 1);
           case ok of
             None \<Rightarrow> Some (Inl (setProtocolError 0 (addReplyError ''Protocol error: invalid multibulk length'' cl), REDIS_ERR))
           | Some ll \<Rightarrow>
               if ll > 1024 * 1024 then Some (Inl (setProtocolError 0 (addReplyError ''Protocol error: invalid multibulk length'' cl), REDIS_ERR))
               else if ll \<le> 0 then Some (Inl (cl\<lparr>c_querybuf := drop (newline + 2) buf\<rparr>, REDIS_OK))
               else Some (Inr (newline + 2, cl\<lparr>c_multibulklen := ll\<rparr>)) })"

text \<open>The length of the next argument.\<close>

definition mb_bulklen :: "nat \<Rightarrow> redisClient \<Rightarrow> mb_res option" where
  "mb_bulklen pos cl = (let buf = c_querybuf cl in
     if c_bulklen cl \<noteq> - 1 then Some (MbNext pos cl)
     else case strchr_pos (drop pos buf) 13 of
       None \<Rightarrow> Some (if length buf > REDIS_INLINE_MAX_SIZE
                 then MbErr (setProtocolError 0 (addReplyError ''Protocol error: too big bulk count string'' cl)) else MbBreak pos cl)
     | Some d \<Rightarrow> let newline = pos + d in
         if int newline > int (length buf) - 2 then Some (MbBreak pos cl)
         else if buf ! pos \<noteq> 36 then
           Some (MbErr (setProtocolError pos (cl\<lparr>c_reply := c_reply cl @ [ReplyErrorFormat (''Protocol error: expected '' @ [CHR 0x27, CHR ''$'', CHR 0x27] @ '', got '' @ [CHR 0x27] @ ''%c'' @ [CHR 0x27]) [buf ! pos]]\<rparr>)))
         else do {
           ok \<leftarrow> string2ll (drop (pos + 1) buf) (newline - (pos + 1));
           case ok of
             None \<Rightarrow> Some (MbErr (setProtocolError pos (addReplyError ''Protocol error: invalid bulk length'' cl)))
           | Some ll \<Rightarrow>
               if ll < 0 \<or> ll > 512 * 1024 * 1024 then Some (MbErr (setProtocolError pos (addReplyError ''Protocol error: invalid bulk length'' cl)))
               else if ll \<ge> REDIS_MBULK_BIG_ARG then Some (MbNext 0 (cl\<lparr>c_querybuf := drop (newline + 2) buf, c_bulklen := ll\<rparr>))
               else Some (MbNext (newline + 2) (cl\<lparr>c_bulklen := ll\<rparr>)) })"

text \<open>The argument itself: with its length known, taken over or copied when it is complete.\<close>

definition mb_arg :: "nat \<Rightarrow> redisClient \<Rightarrow> mb_res" where
  "mb_arg pos cl = (let buf = c_querybuf cl; len = nat (c_bulklen cl) in
     if ul_sub (length buf) pos < len + 2 then MbBreak pos cl
     else let cl' = cl\<lparr>c_bulklen := - 1, c_multibulklen := c_multibulklen cl - 1\<rparr> in
       if pos = 0 \<and> c_bulklen cl \<ge> REDIS_MBULK_BIG_ARG \<and> int (length buf) = c_bulklen cl + 2
       then MbNext 0 (cl'\<lparr>c_argv := c_argv cl @ [take len buf], c_querybuf := []\<rparr>)
       else MbNext (pos + len + 2) (cl'\<lparr>c_argv := c_argv cl @ [take len (drop pos buf)]\<rparr>))"

definition mb_step :: "nat \<Rightarrow> redisClient \<Rightarrow> mb_res option" where
  "mb_step pos cl = do {
     r \<leftarrow> mb_bulklen pos cl;
     Some (case r of MbNext pos cl \<Rightarrow> mb_arg pos cl | r \<Rightarrow> r) }"

definition mb_finish :: "nat \<Rightarrow> redisClient \<Rightarrow> redisClient \<times> redis_ret" where
  "mb_finish pos cl = (let cl = cl\<lparr>c_querybuf := drop pos (c_querybuf cl)\<rparr> in
     (cl, if c_multibulklen cl = 0 then REDIS_OK else REDIS_ERR))"

lemma mb_bulklen_count: "mb_bulklen pos cl = Some (MbNext p cl') \<Longrightarrow> c_multibulklen cl' = c_multibulklen cl"
  by (auto simp: mb_bulklen_def Let_def split: if_splits option.splits bind_splits)

lemma mb_step_decreases: "mb_step pos cl = Some (MbNext p cl') \<Longrightarrow> c_multibulklen cl' = c_multibulklen cl - 1"
  by (auto simp: mb_step_def mb_arg_def Let_def split: bind_splits mb_res.splits if_splits dest: mb_bulklen_count)

function mb_loop :: "nat \<Rightarrow> redisClient \<Rightarrow> (redisClient \<times> redis_ret) option" where
  "mb_loop pos cl =
     (if c_multibulklen cl \<le> 0 then Some (mb_finish pos cl)
      else case mb_step pos cl of
        None \<Rightarrow> None
      | Some (MbErr cl) \<Rightarrow> Some (cl, REDIS_ERR)
      | Some (MbBreak pos cl) \<Rightarrow> Some (mb_finish pos cl)
      | Some (MbNext pos cl) \<Rightarrow> mb_loop pos cl)"
  by pat_completeness auto
termination
  by (relation "measure (\<lambda>(pos, cl). nat (c_multibulklen cl))") (auto dest: mb_step_decreases)

declare mb_loop.simps [simp del]

text \<open>A negative multi bulk length fails the assertion before the loop.\<close>

definition processMultibulkBuffer :: "redisClient \<Rightarrow> (redisClient \<times> redis_ret) option" where
  "processMultibulkBuffer cl =
     (if c_multibulklen cl = 0 then do {
        r \<leftarrow> mb_count cl;
        case r of Inl r \<Rightarrow> Some r | Inr (pos, cl) \<Rightarrow> mb_loop pos cl }
      else if c_multibulklen cl < 0 then None
      else mb_loop 0 cl)"

section \<open>The input loop\<close>

definition processBuffer :: "(nat \<Rightarrow> byte) \<Rightarrow> int \<Rightarrow> redisClient \<Rightarrow> (redisClient \<times> redis_ret) option" where
  "processBuffer junk now cl = do {
     b \<leftarrow> arr_get (c_querybuf cl) 0;
     let cl = (if c_reqtype cl = REQ_UNKNOWN then cl\<lparr>c_reqtype := if b = 42 then REDIS_REQ_MULTIBULK else REDIS_REQ_INLINE\<rparr> else cl);
     if c_reqtype cl = REDIS_REQ_INLINE then processInlineBuffer junk now cl else processMultibulkBuffer cl }"

text \<open>\<open>procf\<close> is \<open>processCommand\<close>; when it returns \<open>REDIS_ERR\<close> the client is not reset.\<close>

partial_function (option) processInputBuffer ::
  "(nat \<Rightarrow> byte) \<Rightarrow> (cid \<Rightarrow> 'v redisServer \<Rightarrow> ('v redisServer \<times> redis_ret) option) \<Rightarrow> cid \<Rightarrow> 'v redisServer \<Rightarrow> 'v redisServer option" where
  "processInputBuffer junk procf c st = do {
     cl \<leftarrow> s_mem st c;
     if c_querybuf cl = [] \<or> REDIS_BLOCKED \<in> c_flags cl \<or> REDIS_CLOSE_AFTER_REPLY \<in> c_flags cl then Some st
     else do {
       r \<leftarrow> processBuffer junk (s_unixtime st) cl;
       let st = st\<lparr>s_mem := (s_mem st)(c \<mapsto> fst r)\<rparr>;
       if snd r \<noteq> REDIS_OK then Some st
       else if c_argv (fst r) = [] then do {
         st \<leftarrow> upd_client c resetClient st;
         processInputBuffer junk procf c st }
       else do {
         q \<leftarrow> procf c st;
         st \<leftarrow> (if snd q = REDIS_OK then upd_client c resetClient (fst q) else Some (fst q));
         processInputBuffer junk procf c st } } }"

text \<open>
  Reading from the socket.  The result of \<open>read\<close> is an error, nothing (\<open>EAGAIN\<close>), the end of the
  connection, or between one and \<open>readlen\<close> bytes (no other amount is a result of the system call).
\<close>

datatype read_result = ReadError | ReadAgain | ReadEof | ReadData bytes

definition readlen_of :: "redisClient \<Rightarrow> int" where
  "readlen_of cl =
     (if c_reqtype cl = REDIS_REQ_MULTIBULK \<and> c_multibulklen cl \<noteq> 0 \<and> c_bulklen cl \<noteq> - 1 \<and> c_bulklen cl \<ge> REDIS_MBULK_BIG_ARG
      then min REDIS_IOBUF_LEN (c_bulklen cl + 2 - int (length (c_querybuf cl))) else REDIS_IOBUF_LEN)"

definition read_data :: "bytes \<Rightarrow> int \<Rightarrow> redisClient \<Rightarrow> redisClient" where
  "read_data data now cl = (let cl = cl\<lparr>c_querybuf := c_querybuf cl @ data, c_lastinteraction := now\<rparr> in
     if REDIS_MASTER \<in> c_flags cl then cl\<lparr>c_reploff := c_reploff cl + int (length data)\<rparr> else cl)"

definition readQueryFromClient :: "(nat \<Rightarrow> byte) \<Rightarrow> 'v hooks \<Rightarrow> (cid \<Rightarrow> 'v redisServer \<Rightarrow> ('v redisServer \<times> redis_ret) option) \<Rightarrow>
    cid \<Rightarrow> read_result \<Rightarrow> 'v redisServer \<Rightarrow> 'v redisServer option" where
  "readQueryFromClient junk H procf c r st = do {
     let st = st\<lparr>s_current_client := Some c\<rparr>;
     cl \<leftarrow> s_mem st c;
     let readlen = readlen_of cl;
     st \<leftarrow> upd_client c (\<lambda>cl. cl\<lparr>c_querybuf_peak := max (c_querybuf_peak cl) (length (c_querybuf cl))\<rparr>) st;
     case r of
       ReadError \<Rightarrow> h_freeClient H c st
     | ReadEof \<Rightarrow> h_freeClient H c st
     | ReadAgain \<Rightarrow> Some (st\<lparr>s_current_client := None\<rparr>)
     | ReadData data \<Rightarrow> if data = [] \<or> int (length data) > readlen then None else do {
         st \<leftarrow> upd_client c (read_data data (s_unixtime st)) st;
         let st = st\<lparr>s_stat_net_input_bytes := s_stat_net_input_bytes st + length data\<rparr>;
         cl \<leftarrow> s_mem st c;
         if length (c_querybuf cl) > s_client_max_querybuf_len st then h_freeClient H c st
         else do {
           st \<leftarrow> processInputBuffer junk procf c st;
           Some (st\<lparr>s_current_client := None\<rparr>) } } }"

section \<open>Encoding of requests\<close>

definition encode_arg :: "bytes \<Rightarrow> bytes" where
  "encode_arg a = 36 # dec (length a) @ [13, 10] @ a @ [13, 10]"

definition encode :: "bytes list \<Rightarrow> bytes" where
  "encode args = 42 # dec (length args) @ [13, 10] @ concat (map encode_arg args)"

text \<open>What is still to come: in front of a length, or in front of an argument whose length is known.\<close>

definition pending :: "int \<Rightarrow> bytes list \<Rightarrow> bytes" where
  "pending bulklen as = (if bulklen = - 1 then concat (map encode_arg as) else hd as @ [13, 10] @ concat (map encode_arg (tl as)))"

lemma dec_no_control:
  assumes "b \<in> set (dec n)"
  shows "b \<noteq> 0" "b \<noteq> 13"
proof -
  have "c_isdigit (cval b)" using is_digits_dec [of n] assms by (auto simp: is_digits_def)
  then show "b \<noteq> 0" "b \<noteq> 13" by (auto simp: c_isdigit_def)
qed

lemma strchr_line:
  assumes "\<And>b. b \<in> set h \<Longrightarrow> b \<noteq> ch \<and> b \<noteq> 0"
  shows "buf @ fut = h @ ch # y \<Longrightarrow> strchr_pos buf ch = (if length buf \<le> length h then None else Some (length h))"
  using assms
proof (induction h arbitrary: buf)
  case Nil
  then show ?case by (cases buf) auto
next
  case (Cons x h)
  then show ?case
  proof (cases buf)
    case (Cons b bs)
    then have "b = x" "bs @ fut = h @ ch # y" using Cons.prems(1) by auto
    then show ?thesis using Cons.IH [of bs] Cons.prems(2) Cons by simp
  qed simp
qed

lemma string2ll_dec:
  assumes "take (length (dec n)) s = dec n" "n < 2 ^ 63"
  shows "string2ll s (length (dec n)) = Some (Some (int n))"
proof -
  have "length (dec n) \<le> length s" using assms(1) by (metis length_take min.absorb_iff2 nle_le)
  then have "string2ll s (length (dec n)) = Some (canon (dec n))" using string2ll_eq [of "length (dec n)" s] assms(1) by simp
  moreover have "canon (dec n) = Some (int n)" using assms(2) canon_iff [of "dec n" "int n"] by (simp add: is_llong_def dec_int_def)
  ultimately show ?thesis by simp
qed

text \<open>A header line \<open>x n CRLF\<close> at the front of what is to come: incomplete, or there with its number.\<close>

lemma header_line:
  assumes "b @ fut = x # dec n @ 13 # 10 # y" "x \<noteq> 0" "x \<noteq> 13" "n < 2 ^ 63"
  shows "strchr_pos b 13 = (if length b \<le> Suc (length (dec n)) then None else Some (Suc (length (dec n))))"
    "Suc (length (dec n)) + 1 < length b \<Longrightarrow> b ! 0 = x \<and> string2ll (drop 1 b) (length (dec n)) = Some (Some (int n)) \<and>
      drop (Suc (length (dec n)) + 2) b @ fut = y"
proof -
  have "\<And>c. c \<in> set (x # dec n) \<Longrightarrow> c \<noteq> 13 \<and> c \<noteq> 0" using assms(2,3) dec_no_control by auto
  from strchr_line [of "x # dec n" 13 b fut "10 # y", OF this] assms(1)
  show "strchr_pos b 13 = (if length b \<le> Suc (length (dec n)) then None else Some (Suc (length (dec n))))" by simp
  assume l: "Suc (length (dec n)) + 1 < length b"
  have t: "take (length b) (x # dec n @ 13 # 10 # y) = b" using assms(1) by (metis append_eq_conv_conj)
  obtain z where z: "b = x # dec n @ 13 # 10 # z"
  proof -
    have "take (length b) (x # dec n @ 13 # 10 # y) = x # dec n @ 13 # 10 # take (length b - Suc (Suc (Suc (length (dec n))))) y"
      using l by (cases b) (simp_all add: take_Cons' take_append)
    then show ?thesis using t that by metis
  qed
  have "string2ll (dec n @ 13 # 10 # z) (length (dec n)) = Some (Some (int n))" by (rule string2ll_dec) (use assms(4) in simp_all)
  then show "b ! 0 = x \<and> string2ll (drop 1 b) (length (dec n)) = Some (Some (int n)) \<and> drop (Suc (length (dec n)) + 2) b @ fut = y"
    using z assms(1) by simp
qed

section \<open>Parsing\<close>

text \<open>The fields of a client that parsing may change.\<close>

definition unparsed :: "redisClient \<Rightarrow> redisClient" where
  "unparsed cl = cl\<lparr>c_querybuf := [], c_argv := [], c_multibulklen := 0, c_bulklen := 0\<rparr>"

definition parse_same :: "redisClient \<Rightarrow> redisClient \<Rightarrow> bool" where
  "parse_same cl cl' \<longleftrightarrow> unparsed cl' = unparsed cl"

lemma parse_same_simps [simp]:
  "parse_same cl cl"
  "parse_same cl (cl'\<lparr>c_querybuf := buf\<rparr>) \<longleftrightarrow> parse_same cl cl'" "parse_same cl (cl'\<lparr>c_argv := argv\<rparr>) \<longleftrightarrow> parse_same cl cl'"
  "parse_same cl (cl'\<lparr>c_multibulklen := m\<rparr>) \<longleftrightarrow> parse_same cl cl'" "parse_same cl (cl'\<lparr>c_bulklen := b\<rparr>) \<longleftrightarrow> parse_same cl cl'"
  by (simp_all add: parse_same_def unparsed_def)

lemma parse_same_fields: "parse_same cl cl' \<Longrightarrow> c_flags cl' = c_flags cl \<and> c_reply cl' = c_reply cl \<and> c_reqtype cl' = c_reqtype cl"
proof -
  assume "parse_same cl cl'"
  then have "f (unparsed cl') = f (unparsed cl)" for f :: "redisClient \<Rightarrow> 'x" by (simp only: parse_same_def)
  from this [of "\<lambda>x. (c_flags x, c_reply x, c_reqtype x)"] show ?thesis by (simp add: unparsed_def)
qed

text \<open>
  In the middle of a request for \<open>args\<close> with \<open>pos\<close> bytes of the buffer used: \<open>fut\<close> is the input that has
  not arrived, \<open>rest\<close> what follows the request, \<open>as\<close> the arguments to come.
\<close>

definition mb_inv :: "bytes list \<Rightarrow> bytes \<Rightarrow> bytes \<Rightarrow> nat \<Rightarrow> redisClient \<Rightarrow> redisClient \<Rightarrow> bytes list \<Rightarrow> bool" where
  "mb_inv args fut rest pos cl0 cl as \<longleftrightarrow> parse_same cl0 cl \<and> args = c_argv cl @ as \<and> c_multibulklen cl = int (length as) \<and>
     (c_bulklen cl = - 1 \<or> as \<noteq> [] \<and> c_bulklen cl = int (length (hd as))) \<and> pos \<le> length (c_querybuf cl) \<and> length (c_querybuf cl) < 2 ^ 31 \<and>
     drop pos (c_querybuf cl) @ fut = pending (c_bulklen cl) as @ rest \<and> pos + length (pending (c_bulklen cl) as) \<le> length (encode args)"

definition args_ok :: "bytes list \<Rightarrow> bool" where
  "args_ok args \<longleftrightarrow> args \<noteq> [] \<and> length args \<le> 1024 * 1024 \<and> (\<forall>a \<in> set args. length a \<le> 512 * 1024 * 1024) \<and>
     length (encode args) \<le> REDIS_INLINE_MAX_SIZE"


lemma mb_invD:
  assumes "mb_inv args fut rest pos cl0 cl as"
  shows "parse_same cl0 cl" "args = c_argv cl @ as" "c_multibulklen cl = int (length as)" "pos \<le> length (c_querybuf cl)"
    "length (c_querybuf cl) < 2 ^ 31" "drop pos (c_querybuf cl) @ fut = pending (c_bulklen cl) as @ rest"
    "pos + length (pending (c_bulklen cl) as) \<le> length (encode args)"
  using assms unfolding mb_inv_def by blast+

lemma pending_simps [simp]:
  "pending (- 1) [] = []"
  "pending (- 1) (a # as) = 36 # dec (length a) @ 13 # 10 # a @ 13 # 10 # concat (map encode_arg as)"
  "pending (int n) (a # as) = a @ 13 # 10 # concat (map encode_arg as)"
  by (simp_all add: pending_def encode_arg_def)

lemma mb_bulklen_inv:
  assumes ok: "args_ok args" and inv: "mb_inv args fut rest pos cl0 cl (a # as)"
  shows "(mb_bulklen pos cl = Some (MbBreak pos cl) \<and> length (c_querybuf cl) - pos < length (pending (c_bulklen cl) (a # as))) \<or>
    (\<exists>pos' cl'. mb_bulklen pos cl = Some (MbNext pos' cl') \<and> mb_inv args fut rest pos' cl0 cl' (a # as) \<and> c_bulklen cl' = int (length a))"
proof (cases "c_bulklen cl = - 1")
  case False
  then show ?thesis using inv by (auto simp: mb_bulklen_def Let_def mb_inv_def)
next
  case True
  note i = mb_invD [OF inv]
  let ?buf = "c_querybuf cl" and ?L = "length (dec (length a))"
  let ?b = "drop pos ?buf" and ?y = "a @ 13 # 10 # concat (map encode_arg as) @ rest"
  have b: "?b @ fut = 36 # dec (length a) @ 13 # 10 # ?y" using i(6) True by simp
  have lb: "length ?b = length ?buf - pos" by simp
  have a: "length a \<le> 512 * 1024 * 1024" "length (encode args) \<le> 65536" using ok i(2) by (auto simp: args_ok_def REDIS_INLINE_MAX_SIZE_def)
  note h = header_line [OF b]
  consider "length ?b \<le> Suc ?L" | "length ?b = Suc (Suc ?L)" | "Suc ?L + 1 < length ?b" by linarith
  then show ?thesis
  proof cases
    case 1
    then have "strchr_pos ?b 13 = None" using h(1) a(1) by simp
    moreover have "length ?buf \<le> REDIS_INLINE_MAX_SIZE" using 1 i(4,7) a(2) True by (simp add: REDIS_INLINE_MAX_SIZE_def)
    ultimately show ?thesis using True 1 i(4) by (simp add: mb_bulklen_def Let_def)
  next
    case 2
    then have "strchr_pos ?b 13 = Some (Suc ?L)" using h(1) a(1) by simp
    moreover have "int (pos + Suc ?L) > int (length ?buf) - 2" using 2 by simp
    ultimately show ?thesis using True 2 by (simp add: mb_bulklen_def Let_def)
  next
    case 3
    then have s: "strchr_pos ?b 13 = Some (Suc ?L)" using h(1) a(1) by simp
    have n: "\<not> int (pos + Suc ?L) > int (length ?buf) - 2" using 3 by simp
    have f: "?b ! 0 = 36" "string2ll (drop 1 ?b) ?L = Some (Some (int (length a)))" "drop (Suc ?L + 2) ?b @ fut = ?y"
      using h(2) 3 a(1) by auto
    have p: "pos < length ?buf" using 3 by simp
    have m: "mb_bulklen pos cl = Some (if int (length a) \<ge> REDIS_MBULK_BIG_ARG
        then MbNext 0 (cl\<lparr>c_querybuf := drop (pos + Suc ?L + 2) ?buf, c_bulklen := int (length a)\<rparr>)
        else MbNext (pos + Suc ?L + 2) (cl\<lparr>c_bulklen := int (length a)\<rparr>))"
      using True s n f(1,2) p a(1) by (simp add: mb_bulklen_def Let_def add.commute)
    have d: "drop (pos + Suc ?L + 2) ?buf @ fut = ?y" using f(3) by (simp add: add.commute)
    have l: "pos + Suc ?L + 2 \<le> length ?buf" using 3 by simp
    have e: "pos + Suc ?L + 2 + length (pending (int (length a)) (a # as)) \<le> length (encode args)" using i(7) True by simp
    have "mb_inv args fut rest 0 cl0 (cl\<lparr>c_querybuf := drop (pos + Suc ?L + 2) ?buf, c_bulklen := int (length a)\<rparr>) (a # as)"
      using i(1-5) d l e unfolding mb_inv_def by simp
    moreover have "mb_inv args fut rest (pos + Suc ?L + 2) cl0 (cl\<lparr>c_bulklen := int (length a)\<rparr>) (a # as)"
      using i(1-5) d l e unfolding mb_inv_def by simp
    ultimately show ?thesis unfolding m by auto
  qed
qed

lemma mb_arg_inv:
  assumes inv: "mb_inv args fut rest pos cl0 cl (a # as)" and bl: "c_bulklen cl = int (length a)"
  shows "(mb_arg pos cl = MbBreak pos cl \<and> length (c_querybuf cl) - pos < length (pending (c_bulklen cl) (a # as))) \<or>
    (\<exists>pos' cl'. mb_arg pos cl = MbNext pos' cl' \<and> mb_inv args fut rest pos' cl0 cl' as)"
proof -
  note i = mb_invD [OF inv]
  let ?buf = "c_querybuf cl"
  have u: "ul_sub (length ?buf) pos = length ?buf - pos" by (rule ul_sub_eq [OF i(4)]) (use i(5) in simp)
  have b: "drop pos ?buf @ fut = a @ 13 # 10 # concat (map encode_arg as) @ rest" using i(6) bl by simp
  show ?thesis
  proof (cases "length ?buf - pos < length a + 2")
    case True
    then show ?thesis using u bl by (simp add: mb_arg_def Let_def)
  next
    case False
    have t: "take (length a) (drop pos ?buf) = a"
      using arg_cong [OF b, of "take (length a)"] False by simp
    have d: "drop (pos + length a + 2) ?buf @ fut = concat (map encode_arg as) @ rest"
      using arg_cong [OF b, of "drop (length a + 2)"] False by (simp add: add.commute add.left_commute)
    have e: "pos + length a + 2 + length (concat (map encode_arg as)) \<le> length (encode args)" using i(7) bl by simp
    let ?cl = "cl\<lparr>c_bulklen := - 1, c_multibulklen := c_multibulklen cl - 1\<rparr>"
    show ?thesis
    proof (cases "pos = 0 \<and> c_bulklen cl \<ge> REDIS_MBULK_BIG_ARG \<and> int (length ?buf) = c_bulklen cl + 2")
      case big: True
      have "mb_inv args fut rest 0 cl0 (?cl\<lparr>c_argv := c_argv cl @ [a], c_querybuf := []\<rparr>) as"
        using i(1-3) d e big bl by (simp add: mb_inv_def pending_def)
      moreover have "mb_arg pos cl = MbNext 0 (?cl\<lparr>c_argv := c_argv cl @ [a], c_querybuf := []\<rparr>)"
        using False u big bl t by (simp add: mb_arg_def Let_def)
      ultimately show ?thesis by blast
    next
      case small: False
      have "mb_inv args fut rest (pos + length a + 2) cl0 (?cl\<lparr>c_argv := c_argv cl @ [a]\<rparr>) as"
        using i(1-5) d e False by (simp add: mb_inv_def pending_def)
      moreover have "mb_arg pos cl = MbNext (pos + length a + 2) (?cl\<lparr>c_argv := c_argv cl @ [a]\<rparr>)"
        using False u small bl t by (simp add: mb_arg_def Let_def)
      ultimately show ?thesis by blast
    qed
  qed
qed

text \<open>The end of a call: the request is complete, or its end has not arrived.\<close>

definition mb_done :: "bytes list \<Rightarrow> bytes \<Rightarrow> bytes \<Rightarrow> redisClient \<Rightarrow> redisClient \<times> redis_ret \<Rightarrow> bool" where
  "mb_done args fut rest cl0 r \<longleftrightarrow> parse_same cl0 (fst r) \<and>
     (if snd r = REDIS_OK
      then c_argv (fst r) = args \<and> c_querybuf (fst r) @ fut = rest \<and> c_multibulklen (fst r) = 0 \<and> c_bulklen (fst r) = - 1
      else \<exists>as. as \<noteq> [] \<and> mb_inv args fut rest 0 cl0 (fst r) as \<and> length (c_querybuf (fst r)) < length (pending (c_bulklen (fst r)) as))"

lemma mb_finish_done:
  assumes "mb_inv args fut rest pos cl0 cl as" "as = [] \<or> length (c_querybuf cl) - pos < length (pending (c_bulklen cl) as)"
  shows "mb_done args fut rest cl0 (mb_finish pos cl)"
proof -
  note i = mb_invD [OF assms(1)]
  show ?thesis
  proof (cases as)
    case Nil
    then have "c_bulklen cl = - 1" using assms(1) by (simp add: mb_inv_def)
    then show ?thesis using i Nil by (simp add: mb_done_def mb_finish_def Let_def)
  next
    case (Cons a as')
    have "mb_inv args fut rest 0 cl0 (cl\<lparr>c_querybuf := drop pos (c_querybuf cl)\<rparr>) as"
      using assms(1) unfolding mb_inv_def by auto
    then show ?thesis using i Cons assms(2) by (auto simp: mb_done_def mb_finish_def Let_def)
  qed
qed

lemma mb_loop_done:
  assumes "args_ok args"
  shows "mb_inv args fut rest pos cl0 cl as \<Longrightarrow> ensures (mb_loop pos cl) (mb_done args fut rest cl0)"
proof (induction as arbitrary: pos cl)
  case Nil
  then show ?case using mb_finish_done [OF Nil] mb_invD(3) [OF Nil] by (subst mb_loop.simps) simp
next
  case (Cons a as)
  have pos: "\<not> c_multibulklen cl \<le> 0" using mb_invD(3) [OF Cons.prems] by simp
  note fin = mb_finish_done [OF Cons.prems]
  consider (brk) "mb_step pos cl = Some (MbBreak pos cl)" "length (c_querybuf cl) - pos < length (pending (c_bulklen cl) (a # as))"
    | (brk2) pos' cl' where "mb_step pos cl = Some (MbBreak pos' cl')" "mb_inv args fut rest pos' cl0 cl' (a # as)"
        "length (c_querybuf cl') - pos' < length (pending (c_bulklen cl') (a # as))"
    | (more) pos' cl' where "mb_step pos cl = Some (MbNext pos' cl')" "mb_inv args fut rest pos' cl0 cl' as"
  proof (rule disjE [OF mb_bulklen_inv [OF assms Cons.prems]])
    assume "mb_bulklen pos cl = Some (MbBreak pos cl) \<and> length (c_querybuf cl) - pos < length (pending (c_bulklen cl) (a # as))"
    then show ?thesis using brk by (simp add: mb_step_def)
  next
    assume "\<exists>pos' cl'. mb_bulklen pos cl = Some (MbNext pos' cl') \<and> mb_inv args fut rest pos' cl0 cl' (a # as) \<and> c_bulklen cl' = int (length a)"
    then obtain pos' cl' where n: "mb_bulklen pos cl = Some (MbNext pos' cl')" "mb_inv args fut rest pos' cl0 cl' (a # as)" "c_bulklen cl' = int (length a)"
      by blast
    have e: "mb_step pos cl = Some (mb_arg pos' cl')" using n(1) by (simp add: mb_step_def)
    from mb_arg_inv [OF n(2,3)] show ?thesis using e n(2) brk2 [of pos' cl'] more by auto
  qed
  then show ?case
  proof cases
    case brk
    then show ?thesis using pos fin by (subst mb_loop.simps) simp
  next
    case brk2
    then show ?thesis using pos mb_finish_done [OF brk2(2)] by (subst mb_loop.simps) simp
  next
    case more
    then show ?thesis using pos Cons.IH [OF more(2)] by (subst mb_loop.simps) simp
  qed
qed

end
