(* ===== verification/Query_Correct.thy ===== *)
theory Query_Correct
  imports Query
begin

text \<open>
  Requests of clients as a whole, on top of the loop invariant of theory \<open>Query\<close>: multi bulk
  requests that arrive in any fragments, pipelines of requests through \<open>processInputBuffer\<close>, and
  inline requests.  The properties of the component are at the end.
\<close>

section \<open>Whole requests\<close>

text \<open>A client that waits for the rest of a request: before its first line is complete, or later.\<close>

definition mb_start :: "bytes list \<Rightarrow> bytes \<Rightarrow> bytes \<Rightarrow> redisClient \<Rightarrow> redisClient \<Rightarrow> bool" where
  "mb_start args fut rest cl0 cl \<longleftrightarrow> parse_same cl0 cl \<and> c_multibulklen cl = 0 \<and> c_argv cl = [] \<and> c_bulklen cl = - 1 \<and>
     c_querybuf cl @ fut = encode args @ rest \<and> length (c_querybuf cl) < 2 ^ 31"

definition mb_wait :: "bytes list \<Rightarrow> bytes \<Rightarrow> bytes \<Rightarrow> redisClient \<Rightarrow> redisClient \<Rightarrow> bool" where
  "mb_wait args fut rest cl0 cl \<longleftrightarrow> mb_start args fut rest cl0 cl \<or> (\<exists>as. as \<noteq> [] \<and> mb_inv args fut rest 0 cl0 cl as)"

definition mb_outcome :: "bytes list \<Rightarrow> bytes \<Rightarrow> bytes \<Rightarrow> redisClient \<Rightarrow> redisClient \<times> redis_ret \<Rightarrow> bool" where
  "mb_outcome args fut rest cl0 r \<longleftrightarrow> parse_same cl0 (fst r) \<and>
     (if snd r = REDIS_OK then c_argv (fst r) = args \<and> c_querybuf (fst r) @ fut = rest \<and> c_multibulklen (fst r) = 0 \<and> c_bulklen (fst r) = - 1
      else mb_wait args fut rest cl0 (fst r) \<and> fut \<noteq> [])"

lemma mb_done_outcome: "mb_done args fut rest cl0 r \<Longrightarrow> mb_outcome args fut rest cl0 r"
proof -
  assume d: "mb_done args fut rest cl0 r"
  show ?thesis
  proof (cases "snd r = REDIS_OK")
    case True
    then show ?thesis using d by (simp add: mb_done_def mb_outcome_def)
  next
    case False
    then obtain as where as: "as \<noteq> []" "mb_inv args fut rest 0 cl0 (fst r) as" "length (c_querybuf (fst r)) < length (pending (c_bulklen (fst r)) as)"
      "parse_same cl0 (fst r)" using d by (auto simp: mb_done_def)
    have "fut \<noteq> []" using mb_invD(6) [OF as(2)] as(3) by auto
    then show ?thesis using False as by (auto simp: mb_outcome_def mb_wait_def)
  qed
qed

lemma mb_start_outcome:
  assumes ok: "args_ok args" and st: "mb_start args fut rest cl0 cl"
  shows "ensures (processMultibulkBuffer cl) (mb_outcome args fut rest cl0)"
proof -
  let ?buf = "c_querybuf cl" and ?L = "length (dec (length args))" and ?y = "concat (map encode_arg args) @ rest"
  have s: "parse_same cl0 cl" "c_multibulklen cl = 0" "c_argv cl = []" "c_bulklen cl = - 1" "length ?buf < 2 ^ 31"
    using st by (auto simp: mb_start_def)
  have b: "?buf @ fut = 42 # dec (length args) @ 13 # 10 # ?y" using st by (simp add: mb_start_def encode_def)
  have n: "length args \<le> 1024 * 1024" "0 < length args" "length (encode args) \<le> 65536"
    using ok by (auto simp: args_ok_def REDIS_INLINE_MAX_SIZE_def)
  note h = header_line [OF b]
  have le: "length (encode args) = Suc ?L + 2 + length (concat (map encode_arg args))" by (simp add: encode_def)
  have short: "mb_outcome args fut rest cl0 (cl, REDIS_ERR)" if "length ?buf \<le> Suc (Suc ?L)"
  proof -
    have "fut \<noteq> []" using that b by (cases fut) auto
    then show ?thesis using st s(1) by (simp add: mb_outcome_def mb_wait_def)
  qed
  consider "length ?buf \<le> Suc ?L" | "length ?buf = Suc (Suc ?L)" | "Suc ?L + 1 < length ?buf" by linarith
  then show ?thesis
  proof cases
    case 1
    then have "strchr_pos ?buf 13 = None" "length ?buf \<le> REDIS_INLINE_MAX_SIZE"
      using h(1) n le by (simp_all add: REDIS_INLINE_MAX_SIZE_def)
    then show ?thesis using s short 1 by (simp add: processMultibulkBuffer_def mb_count_def Let_def)
  next
    case 2
    then have "strchr_pos ?buf 13 = Some (Suc ?L)" "int (Suc ?L) > int (length ?buf) - 2" using h(1) n by simp_all
    then show ?thesis using s short 2 by (simp add: processMultibulkBuffer_def mb_count_def Let_def)
  next
    case 3
    then have f: "strchr_pos ?buf 13 = Some (Suc ?L)" "?buf ! 0 = 42" "string2ll (drop 1 ?buf) ?L = Some (Some (int (length args)))"
      "drop (Suc ?L + 2) ?buf @ fut = ?y" using h n by auto
    have "\<not> int (Suc ?L) > int (length ?buf) - 2" using 3 by simp
    then have e: "processMultibulkBuffer cl = mb_loop (Suc ?L + 2) (cl\<lparr>c_multibulklen := int (length args)\<rparr>)"
      using f(1-3) s n by (simp add: processMultibulkBuffer_def mb_count_def Let_def)
    have "mb_inv args fut rest (Suc ?L + 2) cl0 (cl\<lparr>c_multibulklen := int (length args)\<rparr>) args"
      using s f(4) 3 le by (simp add: mb_inv_def pending_def)
    from mb_loop_done [OF ok this] show ?thesis unfolding e by (rule ensures_mono) (rule mb_done_outcome)
  qed
qed

lemma mb_wait_outcome:
  assumes "args_ok args" "mb_wait args fut rest cl0 cl"
  shows "ensures (processMultibulkBuffer cl) (mb_outcome args fut rest cl0)"
proof (cases "mb_start args fut rest cl0 cl")
  case True
  then show ?thesis by (rule mb_start_outcome [OF assms(1)])
next
  case False
  then obtain as where as: "as \<noteq> []" "mb_inv args fut rest 0 cl0 cl as" using assms(2) by (auto simp: mb_wait_def)
  have "0 < c_multibulklen cl" using mb_invD(3) [OF as(2)] as(1) by simp
  then have e: "processMultibulkBuffer cl = mb_loop 0 cl" by (simp add: processMultibulkBuffer_def)
  from mb_loop_done [OF assms(1) as(2)] show ?thesis unfolding e by (rule ensures_mono) (rule mb_done_outcome)
qed

lemma mb_wait_more:
  assumes "mb_wait args (ch @ fut) rest cl0 cl" "length (c_querybuf cl) + length ch < 2 ^ 31"
  shows "mb_wait args fut rest cl0 (cl\<lparr>c_querybuf := c_querybuf cl @ ch\<rparr>)"
  using assms unfolding mb_wait_def mb_start_def mb_inv_def by auto

text \<open>The input arrives in pieces, and the parser runs after each until it has a request.\<close>

fun mb_feed :: "redisClient \<Rightarrow> bytes list \<Rightarrow> (redisClient \<times> redis_ret) option" where
  "mb_feed cl [] = Some (cl, REDIS_ERR)"
| "mb_feed cl (ch # chs) = do {
     r \<leftarrow> processMultibulkBuffer (cl\<lparr>c_querybuf := c_querybuf cl @ ch\<rparr>);
     if snd r = REDIS_OK then Some ((fst r)\<lparr>c_querybuf := c_querybuf (fst r) @ concat chs\<rparr>, REDIS_OK)
     else mb_feed (fst r) chs }"

lemma mb_wait_input: "mb_wait args fut rest cl0 cl \<Longrightarrow> length (c_querybuf cl) + length fut \<le> length (encode args) + length rest"
proof -
  assume "mb_wait args fut rest cl0 cl"
  then consider "c_querybuf cl @ fut = encode args @ rest"
    | as where "c_querybuf cl @ fut = pending (c_bulklen cl) as @ rest" "length (pending (c_bulklen cl) as) \<le> length (encode args)"
    by (auto simp: mb_wait_def mb_start_def mb_inv_def)
  then show ?thesis
  proof cases
    case 1
    from arg_cong [OF this, of length] show ?thesis by simp
  next
    case 2
    from arg_cong [OF 2(1), of length] 2(2) show ?thesis by simp
  qed
qed

lemma mb_feed_done:
  assumes ok: "args_ok args" and len: "length (encode args) + length rest < 2 ^ 31"
  shows "mb_wait args (concat chs) rest cl0 cl \<Longrightarrow> concat chs \<noteq> [] \<Longrightarrow>
    ensures (mb_feed cl chs) (\<lambda>r. snd r = REDIS_OK \<and> parse_same cl0 (fst r) \<and> c_argv (fst r) = args \<and> c_querybuf (fst r) = rest)"
proof (induction chs arbitrary: cl)
  case (Cons ch chs)
  let ?cl = "cl\<lparr>c_querybuf := c_querybuf cl @ ch\<rparr>"
  have w: "mb_wait args (concat chs) rest cl0 ?cl"
    using mb_wait_more [of args ch "concat chs" rest cl0 cl] Cons.prems(1) mb_wait_input [OF Cons.prems(1)] len by simp
  obtain r where r: "processMultibulkBuffer ?cl = Some r" "mb_outcome args (concat chs) rest cl0 r"
    using mb_wait_outcome [OF ok w] by (rule ensuresE) (use that in blast)
  show ?case
  proof (cases "snd r = REDIS_OK")
    case True
    then show ?thesis using r by (simp add: mb_outcome_def)
  next
    case False
    then have "mb_wait args (concat chs) rest cl0 (fst r)" "concat chs \<noteq> []" using r(2) by (auto simp: mb_outcome_def)
    then show ?thesis using Cons.IH r(1) False by simp
  qed
qed simp

section \<open>Pipelines\<close>

text \<open>A client between two requests, and one that moreover accepts requests.\<close>

definition ready :: "redisClient \<Rightarrow> bool" where
  "ready cl \<longleftrightarrow> c_reqtype cl = REQ_UNKNOWN \<and> c_multibulklen cl = 0 \<and> c_argv cl = [] \<and> c_bulklen cl = - 1"

definition idle :: "redisClient \<Rightarrow> bool" where
  "idle cl \<longleftrightarrow> ready cl \<and> c_flags cl \<inter> {REDIS_BLOCKED, REDIS_CLOSE_AFTER_REPLY} = {}"

lemma resetClient_ready: "ready (resetClient cl) \<and> c_querybuf (resetClient cl) = c_querybuf cl"
  by (simp add: resetClient_def freeClientArgv_def ready_def Let_def)

text \<open>
  The commands as a sequence of requests, without parsing: the requests are handed to \<open>procf\<close> one after
  the other, the later ones in the buffer, until the client is blocked or to be closed.  The result
  holds the requests that were not served.
\<close>

definition request :: "bytes list \<Rightarrow> bytes list list \<Rightarrow> redisClient \<Rightarrow> redisClient" where
  "request args cmds cl = cl\<lparr>c_reqtype := REDIS_REQ_MULTIBULK, c_argv := args, c_querybuf := concat (map encode cmds),
     c_multibulklen := 0, c_bulklen := - 1\<rparr>"

fun serve :: "(cid \<Rightarrow> 'v redisServer \<Rightarrow> ('v redisServer \<times> redis_ret) option) \<Rightarrow> cid \<Rightarrow> bytes list list \<Rightarrow> 'v redisServer \<Rightarrow>
    ('v redisServer \<times> bytes list list) option" where
  "serve procf c [] st = Some (st, [])"
| "serve procf c (args # cmds) st = do {
     cl \<leftarrow> s_mem st c;
     if c_flags cl \<inter> {REDIS_BLOCKED, REDIS_CLOSE_AFTER_REPLY} \<noteq> {} then Some (st, args # cmds)
     else do {
       q \<leftarrow> procf c (st\<lparr>s_mem := (s_mem st)(c \<mapsto> request args cmds cl)\<rparr>);
       if snd q = REDIS_OK then do {
         st \<leftarrow> upd_client c resetClient (fst q);
         serve procf c cmds st }
       else Some (fst q, cmds) } }"

lemma parse_same_eq:
  "parse_same cl cl' \<Longrightarrow> cl' = cl\<lparr>c_querybuf := c_querybuf cl', c_argv := c_argv cl', c_multibulklen := c_multibulklen cl', c_bulklen := c_bulklen cl'\<rparr>"
  by (cases cl; cases cl') (simp add: parse_same_def unparsed_def)

lemma processBuffer_request:
  assumes "args_ok args" "ready cl" "c_querybuf cl = encode args @ concat (map encode cmds)" "length (c_querybuf cl) < 2 ^ 31"
  shows "processBuffer junk now cl = Some (request args cmds cl, REDIS_OK)"
proof -
  let ?cl = "cl\<lparr>c_reqtype := REDIS_REQ_MULTIBULK\<rparr>" and ?rest = "concat (map encode cmds)"
  have "mb_start args [] ?rest ?cl ?cl" using assms by (simp add: mb_start_def ready_def)
  from mb_start_outcome [OF assms(1) this]
  obtain r where r: "processMultibulkBuffer ?cl = Some r" "mb_outcome args [] ?rest ?cl r" by (rule ensuresE) (use that in auto)
  then have "snd r = REDIS_OK" "parse_same ?cl (fst r)" "c_argv (fst r) = args" "c_querybuf (fst r) = ?rest"
    "c_multibulklen (fst r) = 0" "c_bulklen (fst r) = - 1" by (auto simp: mb_outcome_def split: if_splits)
  then have "r = (request args cmds cl, REDIS_OK)" using parse_same_eq [of ?cl "fst r"] by (cases r) (simp add: request_def)
  moreover have "arr_get (c_querybuf cl) 0 = Some 42" using assms(3) by (simp add: encode_def arr_get_def)
  ultimately show ?thesis using assms(2) r(1) by (simp add: processBuffer_def ready_def)
qed

text \<open>
  What the input loop relies on: the client is still there when \<open>processCommand\<close> returns, with its
  query buffer, and is to be closed when the result is \<open>REDIS_ERR\<close>.
\<close>

definition keeps_query :: "cid \<Rightarrow> 'v redisServer \<Rightarrow> 'v redisServer \<Rightarrow> bool" where
  "keeps_query c st st' \<longleftrightarrow> map_option c_querybuf (s_mem st' c) = map_option c_querybuf (s_mem st c)"

definition procf_ok :: "(cid \<Rightarrow> 'v redisServer \<Rightarrow> ('v redisServer \<times> redis_ret) option) \<Rightarrow> cid \<Rightarrow> bool" where
  "procf_ok procf c \<longleftrightarrow> (\<forall>st q. procf c st = Some q \<longrightarrow> keeps_query c st (fst q) \<and>
     (snd q = REDIS_ERR \<longrightarrow> (\<forall>cl. s_mem (fst q) c = Some cl \<longrightarrow> REDIS_CLOSE_AFTER_REPLY \<in> c_flags cl)))"

lemma processInputBuffer_request:
  assumes "s_mem st c = Some cl" "idle cl" "args_ok args" "c_querybuf cl = encode args @ concat (map encode cmds)" "length (c_querybuf cl) < 2 ^ 31"
  shows "processInputBuffer junk procf c st = do {
     q \<leftarrow> procf c (st\<lparr>s_mem := (s_mem st)(c \<mapsto> request args cmds cl)\<rparr>);
     st \<leftarrow> (if snd q = REDIS_OK then upd_client c resetClient (fst q) else Some (fst q));
     processInputBuffer junk procf c st }"
proof -
  have "processBuffer junk (s_unixtime st) cl = Some (request args cmds cl, REDIS_OK)"
    by (rule processBuffer_request) (use assms in \<open>auto simp: idle_def\<close>)
  moreover have "c_querybuf cl \<noteq> []" "args \<noteq> []" using assms(3,4) by (simp_all add: encode_def args_ok_def)
  ultimately show ?thesis using assms(1,2)
    by (subst processInputBuffer.simps) (simp add: idle_def request_def)
qed

lemma pipeline_serve:
  assumes pf: "procf_ok procf c"
  shows "s_mem st c = Some cl \<Longrightarrow> ready cl \<Longrightarrow> c_querybuf cl = concat (map encode cmds) \<Longrightarrow> length (c_querybuf cl) < 2 ^ 31 \<Longrightarrow>
    \<forall>args \<in> set cmds. args_ok args \<Longrightarrow>
    processInputBuffer junk procf c st = map_option fst (serve procf c cmds st) \<and>
    (\<forall>st' rest. serve procf c cmds st = Some (st', rest) \<longrightarrow> (\<exists>cl'. s_mem st' c = Some cl' \<and> c_querybuf cl' = concat (map encode rest) \<and>
       (rest = [] \<or> c_flags cl' \<inter> {REDIS_BLOCKED, REDIS_CLOSE_AFTER_REPLY} \<noteq> {})))"
proof (induction cmds arbitrary: st cl)
  case Nil
  then show ?case by (subst processInputBuffer.simps) simp
next
  case (Cons args cmds)
  let ?st = "st\<lparr>s_mem := (s_mem st)(c \<mapsto> request args cmds cl)\<rparr>"
  show ?case
  proof (cases "c_flags cl \<inter> {REDIS_BLOCKED, REDIS_CLOSE_AFTER_REPLY} = {}")
    case False
    then show ?thesis using Cons.prems(1,3) by (subst processInputBuffer.simps) auto
  next
    case True
    then have "idle cl" using Cons.prems(2) by (simp add: idle_def)
    from processInputBuffer_request [OF Cons.prems(1) this _ _ Cons.prems(4), of args cmds junk procf]
    have e: "processInputBuffer junk procf c st = do {
        q \<leftarrow> procf c ?st;
        st \<leftarrow> (if snd q = REDIS_OK then upd_client c resetClient (fst q) else Some (fst q));
        processInputBuffer junk procf c st }" using Cons.prems(3,5) by simp
    show ?thesis
    proof (cases "procf c ?st")
      case None
      then show ?thesis using e True Cons.prems(1) by simp
    next
      case (Some q)
      then have "keeps_query c ?st (fst q)" "snd q = REDIS_ERR \<Longrightarrow> s_mem (fst q) c = Some cl' \<Longrightarrow> REDIS_CLOSE_AFTER_REPLY \<in> c_flags cl'" for cl'
        using pf unfolding procf_ok_def by blast+
      then obtain cl' where cl': "s_mem (fst q) c = Some cl'" "c_querybuf cl' = concat (map encode cmds)"
        "snd q = REDIS_ERR \<Longrightarrow> REDIS_CLOSE_AFTER_REPLY \<in> c_flags cl'" by (auto simp: keeps_query_def request_def)
      show ?thesis
      proof (cases "snd q")
        case REDIS_ERR
        then have "processInputBuffer junk procf c (fst q) = Some (fst q)" using cl' by (subst processInputBuffer.simps) simp
        then show ?thesis using e Some REDIS_ERR cl' True Cons.prems(1) by simp
      next
        case REDIS_OK
        let ?st2 = "(fst q)\<lparr>s_mem := (s_mem (fst q))(c \<mapsto> resetClient cl')\<rparr>"
        have u: "upd_client c resetClient (fst q) = Some ?st2" using cl'(1) by (rule upd_client_Some)
        have "length (concat (map encode cmds)) < 2 ^ 31" using Cons.prems(3,4) by simp
        then show ?thesis using Cons.IH [of ?st2 "resetClient cl'"] resetClient_ready [of cl'] cl'(2) Cons.prems(5) e Some REDIS_OK u True Cons.prems(1)
          by simp
      qed
    qed
  qed
qed

text \<open>
  \<open>processCommand\<close> is such a function, provided that the calls that leave the modelled part (the command
  procedures, the eviction of keys, the service of clients blocked on lists) neither free the client nor touch its
  query buffer.
\<close>

definition hooks_keep :: "'v hooks \<Rightarrow> cid \<Rightarrow> bool" where
  "hooks_keep H c \<longleftrightarrow> (\<forall>cmd st st'. h_proc H cmd c st = Some st' \<longrightarrow> keeps_query c st st') \<and>
     (\<forall>st r. h_freeMemoryIfNeeded H st = Some r \<longrightarrow> keeps_query c st (fst r)) \<and>
     (\<forall>st st'. h_handleClientsBlockedOnLists H st = Some st' \<longrightarrow> keeps_query c st st')"

lemma keeps_query_refl [simp]: "keeps_query c st st"
  by (simp add: keeps_query_def)

lemma keeps_query_trans: "keeps_query c st st1 \<Longrightarrow> keeps_query c st1 st2 \<Longrightarrow> keeps_query c st st2"
  by (simp add: keeps_query_def)

lemma keeps_query_mem: "s_mem st' = s_mem st \<Longrightarrow> keeps_query c st st'"
  by (simp add: keeps_query_def)

definition keeping :: "cid \<Rightarrow> 'v redisServer \<Rightarrow> 'v redisServer option \<Rightarrow> bool" where
  "keeping c st0 m \<longleftrightarrow> (\<forall>st. m = Some st \<longrightarrow> keeps_query c st0 st)"

lemma keeping_Some [simp]: "keeping c st0 (Some st) \<longleftrightarrow> keeps_query c st0 st"
  by (simp add: keeping_def)

lemma keeping_bind:
  assumes "keeping c st0 m" "\<And>st. keeps_query c st0 st \<Longrightarrow> keeping c st0 (f st)"
  shows "keeping c st0 (m \<bind> f)"
  using assms by (cases m) (auto simp: keeping_def)

lemma keeping_get: "(\<And>x. m = Some x \<Longrightarrow> keeping c st0 (f x)) \<Longrightarrow> keeping c st0 (m \<bind> f)"
  by (cases m) (auto simp: keeping_def)

lemma keeping_upd: "keeps_query c st0 st \<Longrightarrow> (\<And>cl. c_querybuf (f cl) = c_querybuf cl) \<Longrightarrow> keeping c st0 (upd_client d f st)"
  by (auto simp: keeping_def upd_client_eq_Some keeps_query_def)

lemma keeping_ops:
  assumes "keeps_query c st0 st"
  shows "keeping c st0 (addReply d r st)" "keeping c st0 (set_flags d fs st)" "keeping c st0 (clear_flags d fs st)"
    "keeping c st0 (flagTransaction d st)" "keeping c st0 (queueMultiCommand d st)"
  unfolding addReply_def set_flags_def clear_flags_def flagTransaction_def queueMultiCommand_def
  using assms by (auto intro!: keeping_get keeping_upd)

lemma keeping_call:
  assumes H: "hooks_keep H c" and "keeps_query c st0 st"
  shows "keeping c st0 (call H flags c st)"
proof -
  have start: "keeping c st0 (call_begin c cl cmd st)" for cl cmd
    unfolding call_begin_def feed_monitors_def Let_def using assms(2)
    by (auto intro!: keeping_bind [OF keeping_ops(3)] simp: keeps_query_def)
  have lua: "keeping c st0 (call_lua_caller cl st1)" if "keeps_query c st0 st1" for cl st1
    using that by (auto simp: call_lua_caller_def keeping_ops split: option.splits)
  have stats: "keeps_query c st0 (call_propagate fs cl cmd d (call_stats fs' cl' cmd' d' st1))" if "keeps_query c st0 st1" for fs cl cmd d fs' cl' cmd' d' st1
    using that by (simp add: keeps_query_def call_stats_same call_propagate_same)
  have fin: "keeping c st0 (call_end fs c old dirty d st1)" if "keeps_query c st0 st1" for fs old dirty d st1
    unfolding call_end_def Let_def
    by (intro keeping_get [of "s_mem _ _"] keeping_get [of "c_cmd _"] keeping_bind [OF lua [OF that]] keeping_bind [OF keeping_ops(3)] keeping_bind [OF keeping_ops(2)] stats)
       (auto simp: keeps_query_def call_also_same)
  have proc: "keeping c st0 (h_proc H cmd c st1)" if "keeps_query c st0 st1" for cmd st1
    using H that keeps_query_trans unfolding hooks_keep_def keeping_def by blast
  have emit: "keeps_query c st0 (emit e st1)" if "keeps_query c st0 st1" for e st1 using that by (simp add: keeps_query_def)
  show ?thesis unfolding call_def Let_def
    by (intro keeping_get [of "s_mem _ _"] keeping_get [of "c_cmd _"] keeping_bind [OF start] keeping_bind [OF proc] emit fin)
qed

lemma keeping_refuse: "keeps_query c st0 st \<Longrightarrow> keeping c st0 (pc_refuse flag r c st)"
  unfolding pc_refuse_def by (rule keeping_bind) (auto simp: keeping_ops)

lemma keeping_admit:
  assumes H: "hooks_keep H c" and "keeps_query c st0 st"
  shows "keeping c st0 (pc_admit H c cmd st)"
proof -
  have blocked: "keeping c st0 (h_handleClientsBlockedOnLists H st1)" if "keeps_query c st0 st1" for st1
    using H that keeps_query_trans unfolding hooks_keep_def keeping_def by blast
  have "keeping c st0 (pc_exec H c cmd st)" unfolding pc_exec_def
    by (auto intro!: keeping_get [of "s_mem _ _"] keeping_bind [OF keeping_ops(5)] keeping_bind [OF keeping_call [OF H]] keeping_ops(1) blocked assms(2))
  then show ?thesis unfolding pc_admit_def
    by (intro keeping_get) (auto simp: keeping_refuse assms(2) split: option.split)
qed

lemma keeping_command:
  assumes H: "hooks_keep H c"
  shows "keeping c st (pc_command H c st)"
proof -
  have evict: "keeps_query c st0 (fst r)" if "keeps_query c st0 st1" "h_freeMemoryIfNeeded H st1 = Some r" for st0 st1 r
    using H that keeps_query_trans unfolding hooks_keep_def by blast
  have maxm: "keeping c st0 (pc_maxmemory H c cmd st1)" if "keeps_query c st0 st1" for cmd st0 st1
    unfolding pc_maxmemory_def using that evict [OF that]
    by (auto intro!: keeping_get [of "h_freeMemoryIfNeeded _ _"] keeping_refuse keeping_admit [OF H])
  show ?thesis unfolding pc_command_def Let_def
    by (intro keeping_get [of "s_mem _ _"] keeping_get [of "arr_get _ _"] keeping_bind [OF keeping_upd])
       (auto intro!: keeping_refuse maxm split: option.split)
qed

lemma processCommand_procf_ok:
  assumes "hooks_keep H c"
  shows "procf_ok (processCommand H) c"
proof -
  have quit: "keeps_query c st st' \<and> (\<forall>cl. s_mem st' c = Some cl \<longrightarrow> REDIS_CLOSE_AFTER_REPLY \<in> c_flags cl)" if "pc_quit c st = Some st'" for st st'
    using that by (auto simp: pc_quit_def addReply_def set_flags_def upd_client_eq_Some keeps_query_def split: bind_splits)
  have cmd: "keeps_query c st st'" if "pc_command H c st = Some st'" for st st'
    using keeping_command [OF assms, of st] that by (simp add: keeping_def)
  show ?thesis unfolding procf_ok_def processCommand_def
    by (auto split: bind_splits if_splits dest: quit cmd)
qed

section \<open>Inline requests\<close>

lemma hex_char_printable: "n < 16 \<Longrightarrow> hex_char n \<noteq> 0 \<and> hex_char n \<noteq> 10 \<and> hex_char n \<noteq> 13"
proof -
  assume "n < 16"
  then have "n \<in> set [0..<16]" by simp
  then show ?thesis by (auto simp: hex_char_def upt_rec)
qed

lemma repr_char_printable: "b \<in> set (repr_char c) \<Longrightarrow> b \<noteq> 0 \<and> b \<noteq> 10 \<and> b \<noteq> 13"
proof -
  have "hex_char (unat c div 16) \<noteq> 0 \<and> hex_char (unat c div 16) \<noteq> 10 \<and> hex_char (unat c div 16) \<noteq> 13"
    using unsigned_less [of c] by (intro hex_char_printable) simp
  moreover have "hex_char (unat c mod 16) \<noteq> 0 \<and> hex_char (unat c mod 16) \<noteq> 10 \<and> hex_char (unat c mod 16) \<noteq> 13"
    by (intro hex_char_printable) simp
  moreover have "c \<noteq> 0" if "c_isprint (cval c)" using that by (auto simp: c_isprint_def)
  ultimately show "b \<in> set (repr_char c) \<Longrightarrow> ?thesis" by (auto simp: repr_char_def fmt_x02_def split: if_splits)
qed

lemma repr_line_printable: "b \<in> set (repr_line xs) \<Longrightarrow> b \<noteq> 0 \<and> b \<noteq> 10 \<and> b \<noteq> 13"
  by (induction xs rule: repr_line.induct) (auto simp: repr_def dest!: repr_char_printable)

lemma inline_Some:
  assumes "\<forall>x \<in> set xs. length x < sds_max" "c_querybuf cl = repr_line xs @ (if cr then [13, 10] else [10]) @ rest"
  shows "\<exists>cl'. processInlineBuffer junk now cl = Some (cl', REDIS_OK) \<and> c_argv cl' = filter (\<lambda>x. x \<noteq> []) xs \<and>
    c_querybuf cl' = (if cr then rest else drop 1 rest)"
proof -
  let ?l = "repr_line xs" and ?h = "repr_line xs @ (if cr then [13] else [])"
  have "b \<noteq> 10 \<and> b \<noteq> 0" if "b \<in> set ?h" for b using that repr_line_printable [of b xs] by (auto split: if_splits)
  from strchr_line [of ?h 10 "c_querybuf cl" "[]" rest, OF this] have "strchr_pos (c_querybuf cl) 10 = Some (length ?h)"
    using assms(2) by (cases cr) simp_all
  moreover have "(if length ?h \<noteq> 0 \<and> c_querybuf cl ! (length ?h - 1) = 13 then length ?h - 1 else length ?h) = length ?l"
  proof (cases cr)
    case True
    then show ?thesis using assms(2) by (simp add: nth_append)
  next
    case False
    then have "c_querybuf cl ! (length ?l - 1) \<noteq> 13" if "?l \<noteq> []"
    proof -
      have "c_querybuf cl ! (length ?l - 1) = last ?l" using assms(2) False that by (simp add: nth_append last_conv_nth)
      moreover have "last ?l \<in> set ?l" using that by simp
      ultimately show ?thesis using repr_line_printable [of "last ?l" xs] by metis
    qed
    then show ?thesis using False by auto
  qed
  moreover obtain ts where ts: "sdssplitargs junk (take (length ?l) (c_querybuf cl) @ [0]) = Some (Some ts)" "list_all2 sds_is xs ts"
    using sdssplitargs_repr_loop [OF assms(1), of junk "[]"] assms(2) by (auto simp: sdssplitargs_def)
  moreover have "map sdsval ts = xs" using ts(2) by (induction rule: list_all2_induct) (auto simp: sds_is_def)
  ultimately show ?thesis using assms(2) by (auto simp: processInlineBuffer_def inline_args_def Let_def)
qed


section \<open>Properties\<close>

text \<open>
  C3: Requests survive any fragmentation of the connection: when a multi bulk request (of at most
  64 KB, with at most \<open>2 ^ 20\<close> arguments of arbitrary bytes) arrives in any pieces, even split inside a
  length or between CR and LF, and with input of later requests behind it, the parser waits without an error
  until it is complete, then delivers exactly the arguments that were sent and leaves exactly
  the later input in the buffer, without touching flags or replies.
\<close>

theorem multibulk_any_chunks:
  assumes "args_ok args" "concat chunks = encode args @ rest" "length (encode args @ rest) < 2 ^ 31"
    and "idle cl" "c_querybuf cl = []"
  shows "\<exists>cl'. mb_feed cl chunks = Some (cl', REDIS_OK) \<and> c_argv cl' = args \<and> c_querybuf cl' = rest \<and>
    c_flags cl' = c_flags cl \<and> c_reply cl' = c_reply cl"
proof -
  have "mb_start args (concat chunks) rest cl cl" using assms by (simp add: mb_start_def idle_def ready_def)
  then have w: "mb_wait args (concat chunks) rest cl cl" by (simp add: mb_wait_def)
  have "length (encode args) + length rest < 2 ^ 31" "concat chunks \<noteq> []" using assms(2,3) by (simp_all add: encode_def)
  from mb_feed_done [OF assms(1) this(1) w this(2)] obtain r where
    "mb_feed cl chunks = Some r" "snd r = REDIS_OK" "parse_same cl (fst r)" "c_argv (fst r) = args" "c_querybuf (fst r) = rest"
    by (rule ensuresE) blast
  then show ?thesis using parse_same_fields [of cl "fst r"] by (intro exI [of _ "fst r"]) (cases r, simp)
qed

text \<open>
  C13: Pipelining.  On a buffer with any number of requests the input loop does exactly what handing
  the requests one by one to \<open>processCommand\<close> does (\<open>serve\<close>): each is run with its own arguments, in the
  order they were sent, and the client is reset between two of them; the loop stops early only when a command
  blocks the client or closes its connection (as QUIT does), and then the requests that were not served
  are still in the buffer, complete and in order; otherwise the buffer is empty at the end.  When a
  command has undefined behaviour, so has the loop, and only then.
\<close>

theorem pipeline_in_order:
  assumes "hooks_keep H c" "s_mem st c = Some cl" "idle cl" "c_querybuf cl = concat (map encode cmds)"
    and "length (concat (map encode cmds)) < 2 ^ 31" "\<forall>args \<in> set cmds. args_ok args"
  shows "processInputBuffer junk (processCommand H) c st = map_option fst (serve (processCommand H) c cmds st) \<and>
    (\<forall>st' rest. serve (processCommand H) c cmds st = Some (st', rest) \<longrightarrow>
      (\<exists>cl'. s_mem st' c = Some cl' \<and> c_querybuf cl' = concat (map encode rest) \<and>
        (rest = [] \<or> c_flags cl' \<inter> {REDIS_BLOCKED, REDIS_CLOSE_AFTER_REPLY} \<noteq> {})))"
  by (rule pipeline_serve [OF processCommand_procf_ok [OF assms(1)] assms(2)]) (use assms(3-6) in \<open>auto simp: idle_def\<close>)

text \<open>
  C39: An inline request whose arguments are quoted as \<open>sdscatrepr\<close> quotes them is read back as exactly
  its non-empty arguments.  With a line that ends in CR LF the rest of the buffer is kept; with
  one that ends in a bare LF, which the code accepts, the first byte of the following request is lost.
\<close>

theorem inline_request:
  assumes "\<forall>x \<in> set xs. length x < sds_max" "c_querybuf cl = repr_line xs @ (if cr then [13, 10] else [10]) @ rest"
  shows "\<exists>cl'. processInlineBuffer junk now cl = Some (cl', REDIS_OK) \<and> c_argv cl' = filter (\<lambda>x. x \<noteq> []) xs \<and>
    c_querybuf cl' = (if cr then rest else drop 1 rest)"
  using assms by (rule inline_Some)

section \<open>Examples\<close>

lemma encode_example: "encode [[71], [107]] = [42, 50, 13, 10, 36, 49, 13, 10, 71, 13, 10, 36, 49, 13, 10, 107, 13, 10]"
  by (simp add: encode_def encode_arg_def dec.simps)

lemma args_ok_example: "args_ok [[71], [107]]"
  unfolding args_ok_def encode_example REDIS_INLINE_MAX_SIZE_def by simp

lemma idle_new: "idle new_client"
  by (simp add: idle_def ready_def new_client_def)

theorem multibulk_any_chunks_witness:
  "\<exists>cl'. mb_feed new_client [[42, 50, 13], [10, 36], [49, 13, 10, 71, 13, 10, 36, 49, 13, 10, 107, 13], [10, 42]] = Some (cl', REDIS_OK) \<and>
    c_argv cl' = [[71], [107]] \<and> c_querybuf cl' = [42] \<and> c_flags cl' = {} \<and> c_reply cl' = []"
  using multibulk_any_chunks [OF args_ok_example, of "[[42, 50, 13], [10, 36], [49, 13, 10, 71, 13, 10, 36, 49, 13, 10, 107, 13], [10, 42]]" "[42]" new_client]
  by (simp add: encode_example idle_new) (simp add: new_client_def)

text \<open>Three requests in one buffer, the second of which is QUIT.\<close>

definition piped_cmds :: "bytes list list" where
  "piped_cmds = [[str ''get'', str ''k''], [str ''QUIT''], [str ''get'', str ''k'']]"

definition piped_server :: "unit redisServer" where
  "piped_server = empty_server\<lparr>s_mem := [1 \<mapsto> new_client\<lparr>c_querybuf := concat (map encode piped_cmds)\<rparr>], s_clients := [1]\<rparr>"

lemma pong_hooks_keep: "hooks_keep pong_hooks c"
proof -
  have "keeps_query c st st'" if "addReply c (Shared ''pong'') st = Some st'" for st st' :: "unit redisServer"
    using keeping_ops(1) [of c st st c "Shared ''pong''"] that by (simp add: keeping_def)
  then show ?thesis by (simp add: hooks_keep_def pong_hooks_def)
qed

lemma piped_cmds_ok: "\<forall>args \<in> set piped_cmds. args_ok args" "length (concat (map encode piped_cmds)) < 2 ^ 31"
  by (simp_all add: piped_cmds_def args_ok_def REDIS_INLINE_MAX_SIZE_def encode_def encode_arg_def dec.simps)

lemma piped_get:
  assumes "m 1 = Some cl" "c_argv cl = [str ''get'', str ''k'']" "c_flags cl = {}"
  shows "\<exists>st cl'. processCommand pong_hooks 1 (piped_server\<lparr>s_mem := m\<rparr>) = Some (st, REDIS_OK) \<and> s_mem st 1 = Some cl' \<and>
     c_reply cl' = c_reply cl @ [Shared ''pong''] \<and> c_flags cl' = {}"
proof -
  have "\<exists>st cl'. pc_command pong_hooks 1 (piped_server\<lparr>s_mem := m\<rparr>) = Some st \<and> s_mem st 1 = Some cl' \<and>
     c_reply cl' = c_reply cl @ [Shared ''pong''] \<and> c_flags cl' = {}"
    using assms
    by (simp add: pc_command_def pc_arity_err_def pc_noauth_def pc_maxmemory_def pc_admit_def pc_refusal_def pc_disk_err_def pc_few_slaves_def
        pc_readonly_slave_def pc_pubsub_context_def pc_master_down_def pc_slow_script_def pc_exec_def call_def call_begin_def call_end_def
        call_lua_caller_def call_stats_def call_propagate_def call_propagate_flags_def call_also_def emit_def clear_flags_def set_flags_def
        addReply_def upd_client_def pong_hooks_def get_cmd_def piped_server_def empty_server_def REDIS_CALL_FULL_def Let_def)
  then show ?thesis using assms(1,2) by (auto simp: processCommand_def c_tolower_def)
qed

lemma piped_quit:
  assumes "s_mem st 1 = Some cl" "c_argv cl = [str ''QUIT'']"
  shows "\<exists>st'. processCommand H 1 st = Some (st', REDIS_ERR) \<and> map_option c_reply (s_mem st' 1) = Some (c_reply cl @ [Shared ''ok''])"
  using assms by (simp add: processCommand_def pc_quit_def addReply_def set_flags_def upd_client_def c_tolower_def)

lemma piped_serve:
  "\<exists>st. serve (processCommand pong_hooks) 1 piped_cmds piped_server = Some (st, [[str ''get'', str ''k'']]) \<and>
     map_option c_reply (s_mem st 1) = Some [Shared ''pong'', Shared ''ok'']"
proof -
  let ?get = "[str ''get'', str ''k'']" and ?cl = "new_client\<lparr>c_querybuf := concat (map encode piped_cmds)\<rparr>"
  let ?r1 = "request ?get [[str ''QUIT''], ?get] ?cl"
  have m: "s_mem piped_server 1 = Some ?cl" "c_flags ?cl = {}" "c_reply ?cl = []" by (simp_all add: piped_server_def new_client_def)
  obtain st1 cl1 where g: "processCommand pong_hooks 1 (piped_server\<lparr>s_mem := (s_mem piped_server)(1 \<mapsto> ?r1)\<rparr>) = Some (st1, REDIS_OK)"
    "s_mem st1 1 = Some cl1" "c_reply cl1 = [Shared ''pong'']" "c_flags cl1 = {}"
    using piped_get [of "(s_mem piped_server)(1 \<mapsto> ?r1)" ?r1] m(2,3) by (auto simp: request_def)
  let ?st2 = "st1\<lparr>s_mem := (s_mem st1)(1 \<mapsto> resetClient cl1)\<rparr>" and ?r2 = "request [str ''QUIT''] [?get] (resetClient cl1)"
  have r: "c_flags (resetClient cl1) = {}" "c_reply (resetClient cl1) = [Shared ''pong'']"
    using g(3,4) by (simp_all add: resetClient_def freeClientArgv_def Let_def)
  obtain st3 where q: "processCommand pong_hooks 1 (?st2\<lparr>s_mem := (s_mem ?st2)(1 \<mapsto> ?r2)\<rparr>) = Some (st3, REDIS_ERR)"
    "map_option c_reply (s_mem st3 1) = Some [Shared ''pong'', Shared ''ok'']"
    using piped_quit [of "?st2\<lparr>s_mem := (s_mem ?st2)(1 \<mapsto> ?r2)\<rparr>" ?r2 pong_hooks] r(2) by (auto simp: request_def)
  have "serve (processCommand pong_hooks) 1 [[str ''QUIT''], ?get] ?st2 = Some (st3, [?get])"
    using q(1) r(1) by (simp del: One_nat_def)
  then have "serve (processCommand pong_hooks) 1 piped_cmds piped_server = Some (st3, [?get])"
    using m(1,2) g(1) upd_client_Some [OF g(2), of resetClient] by (simp add: piped_cmds_def del: One_nat_def)
  then show ?thesis using q(2) by blast
qed

theorem pipeline_in_order_witness:
  "\<exists>st' cl'. processInputBuffer (\<lambda>_. 0) (processCommand pong_hooks) 1 piped_server = Some st' \<and> s_mem st' 1 = Some cl' \<and>
     c_reply cl' = [Shared ''pong'', Shared ''ok''] \<and> c_querybuf cl' = encode [str ''get'', str ''k''] \<and>
     c_flags cl' \<inter> {REDIS_BLOCKED, REDIS_CLOSE_AFTER_REPLY} \<noteq> {}"
proof -
  let ?cl = "new_client\<lparr>c_querybuf := concat (map encode piped_cmds)\<rparr>"
  have cl: "s_mem piped_server 1 = Some ?cl" "idle ?cl" "c_querybuf ?cl = concat (map encode piped_cmds)"
    using idle_new by (simp_all add: piped_server_def idle_def ready_def)
  obtain st where s: "serve (processCommand pong_hooks) 1 piped_cmds piped_server = Some (st, [[str ''get'', str ''k'']])"
    "map_option c_reply (s_mem st 1) = Some [Shared ''pong'', Shared ''ok'']" using piped_serve by blast
  show ?thesis
    using pipeline_in_order [OF pong_hooks_keep cl piped_cmds_ok(2,1), of "\<lambda>_. 0"] s by (intro exI [of _ st]) auto
qed

theorem inline_request_witness:
  "\<exists>cl'. processInlineBuffer (\<lambda>_. 0) 0 (new_client\<lparr>c_querybuf := repr_line [[112]] @ [10] @ [112, 13, 10]\<rparr>) = Some (cl', REDIS_OK) \<and>
    c_argv cl' = [[112]] \<and> c_querybuf cl' = [13, 10]"
  using inline_request [of "[[112]]" "new_client\<lparr>c_querybuf := repr_line [[112]] @ [10] @ [112, 13, 10]\<rparr>" False "[112, 13, 10]" "\<lambda>_. 0" 0]
  by (simp add: sds_max_def)

end
