(* ===== verification/Object.thy ===== *)
theory Object
  imports Sds Numbers "HOL-Library.List_Lexorder" "HOL-Library.Product_Lexorder"
begin

text \<open>
  String objects (\<open>object.c\<close>): their two encodings and the comparisons that the data types use.  The
  content of a raw object is the byte sequence of its dynamic string (theory \<open>Sds\<close>).
\<close>

text \<open>A string object: \<open>REDIS_ENCODING_RAW\<close> with a string, or \<open>REDIS_ENCODING_INT\<close> with a \<open>long\<close> in the pointer.\<close>

datatype robj = ObjRaw bytes | ObjInt int

text \<open>
  The characters and length the comparison uses.  The 128-byte buffer on the stack is overwritten by
  \<open>ll2string\<close>; its initial content is not read.  Equal pointers are equal strings, so the test \<open>a == b\<close> needs no case.
\<close>

definition obj_chars :: "robj \<Rightarrow> (bytes \<times> nat) option" where
  "obj_chars a = (case a of ObjInt v \<Rightarrow> ll2string (replicate 128 0) 128 v | ObjRaw s \<Rightarrow> Some (s, length s))"

definition compareStringObjects :: "robj \<Rightarrow> robj \<Rightarrow> int option" where
  "compareStringObjects a b = do {
     x \<leftarrow> obj_chars a;
     y \<leftarrow> obj_chars b;
     let alen = snd x;
     let blen = snd y;
     let minlen = (if alen < blen then alen else blen);
     cmp \<leftarrow> c_memcmp (fst x) (fst y) minlen;
     Some (if cmp = 0 then int_of_ulong (ul_sub alen blen) else cmp) }"

definition equalStringObjects :: "robj \<Rightarrow> robj \<Rightarrow> bool option" where
  "equalStringObjects a b = (case (a, b) of
     (ObjInt v, ObjInt w) \<Rightarrow> Some (v = w)
   | _ \<Rightarrow> do { r \<leftarrow> compareStringObjects a b; Some (r = 0) })"

text \<open>
  Encoding of numbers.  \<open>shared\<close> says that the object has more than one reference; the shared integer
  objects have the same content as a fresh one.
\<close>

definition tryObjectEncoding :: "bool \<Rightarrow> robj \<Rightarrow> robj option" where
  "tryObjectEncoding shared ob = (case ob of
     ObjInt v \<Rightarrow> Some ob
   | ObjRaw s \<Rightarrow>
       if shared \<or> length s > 21 then Some ob
       else do {
         value \<leftarrow> string2l s (length s);
         Some (case value of None \<Rightarrow> ob | Some v \<Rightarrow> ObjInt v) })"

definition stringObjectLen :: "robj \<Rightarrow> nat option" where
  "stringObjectLen a = (case a of ObjRaw s \<Rightarrow> Some (length s)
     | ObjInt v \<Rightarrow> do { r \<leftarrow> ll2string (replicate 32 0) 32 v; Some (snd r) })"

section \<open>Contents of string objects\<close>

fun obj_str :: "robj \<Rightarrow> bytes" where
  "obj_str (ObjRaw s) = s"
| "obj_str (ObjInt v) = dec_int v"

fun obj_ok :: "robj \<Rightarrow> bool" where
  "obj_ok (ObjRaw s) \<longleftrightarrow> length s \<le> sds_max"
| "obj_ok (ObjInt v) \<longleftrightarrow> is_llong v"

lemma dec_int_short: "is_llong v \<Longrightarrow> length (dec_int v) \<le> 20"
  using length_dec_llong [of v] by (cases "v < 0") (simp_all add: length_dec_int)

lemma obj_chars_Some:
  assumes "obj_ok a" shows "\<exists>r. obj_chars a = Some (obj_str a @ r, length (obj_str a))"
proof (cases a)
  case (ObjInt v)
  with assms dec_int_short [of v] show ?thesis by (simp add: obj_chars_def ll2string_Some)
qed (simp add: obj_chars_def)

lemma obj_str_short: "obj_ok a \<Longrightarrow> length (obj_str a) \<le> sds_max"
  using dec_int_short by (cases a) (fastforce simp: sds_max_def)+

lemma bytes_less_lexordp: "(xs :: bytes) < ys \<longleftrightarrow> ord_class.lexordp xs ys"
  by (simp add: list_less_def lexordp_conv_lexord)

lemma compareStringObjects_Some:
  assumes "obj_ok a" "obj_ok b"
  obtains r where "compareStringObjects a b = Some r" "r < 0 \<longleftrightarrow> obj_str a < obj_str b"
    "r \<le> 0 \<longleftrightarrow> obj_str a \<le> obj_str b" "r = 0 \<longleftrightarrow> obj_str a = obj_str b"
proof -
  obtain p q where "obj_chars a = Some (obj_str a @ p, length (obj_str a))" "obj_chars b = Some (obj_str b @ q, length (obj_str b))"
    using assms obj_chars_Some by blast
  moreover have "length (obj_str a) < 2 ^ 31" "length (obj_str b) < 2 ^ 31"
    using assms obj_str_short by (fastforce simp: sds_max_def)+
  ultimately have "ensures (compareStringObjects a b) (\<lambda>r. (r < 0 \<longleftrightarrow> obj_str a < obj_str b) \<and> (r = 0 \<longleftrightarrow> obj_str a = obj_str b) \<and> (0 < r \<longleftrightarrow> obj_str b < obj_str a))"
    using memcmp_order [of "obj_str a" "obj_str b" p q] by (simp add: compareStringObjects_def bytes_less_lexordp) (simp only: Let_def)
  then show ?thesis by (rule ensuresE) (rule that, auto simp: not_less)
qed

lemma dec_int_inj: "is_llong v \<Longrightarrow> is_llong w \<Longrightarrow> dec_int v = dec_int w \<longleftrightarrow> v = w"
  using canon_iff [of "dec_int v" v] canon_iff [of "dec_int v" w] by auto

lemma equalStringObjects_Some:
  assumes "obj_ok a" "obj_ok b" shows "equalStringObjects a b = Some (obj_str a = obj_str b)"
proof -
  obtain r where "compareStringObjects a b = Some r" "r = 0 \<longleftrightarrow> obj_str a = obj_str b"
    using compareStringObjects_Some [OF assms] by metis
  then show ?thesis using assms dec_int_inj by (cases a; cases b) (simp_all add: equalStringObjects_def)
qed

lemma stringObjectLen_Some: "obj_ok a \<Longrightarrow> stringObjectLen a = Some (length (obj_str a))"
  using dec_int_short by (cases a) (fastforce simp: stringObjectLen_def ll2string_Some)+


lemma tryObjectEncoding_Some:
  assumes "obj_ok ob" obtains ob' where "tryObjectEncoding shared ob = Some ob'" "obj_ok ob'" "obj_str ob' = obj_str ob"
proof (cases ob)
  case (ObjRaw s)
  show ?thesis
  proof (cases "shared \<or> length s > 21")
    case True
    then show ?thesis using that assms ObjRaw by (simp add: tryObjectEncoding_def)
  next
    case False
    have c: "string2l s (length s) = Some (canon s)" using string2l_eq [of "length s" s] string2ll_eq [of "length s" s] by simp
    show ?thesis
    proof (cases "canon s")
      case None
      then show ?thesis using that assms ObjRaw False c by (simp add: tryObjectEncoding_def)
    next
      case (Some v)
      then have "is_llong v" "s = dec_int v" using canon_iff by auto
      then show ?thesis using that [of "ObjInt v"] ObjRaw False c Some by (simp add: tryObjectEncoding_def)
    qed
  qed
qed (use that assms in \<open>simp add: tryObjectEncoding_def\<close>)

end
