(* ===== verification/Skiplist.thy ===== *)
theory Skiplist
  imports Object Refinement Dict_Correct
begin

text \<open>
  The skip lists of sorted sets (\<open>t_zset.c\<close>) on an explicit heap of nodes.  Addresses are natural
  numbers, \<open>None\<close> is NULL, and an access to a freed node or to a level a node does not have is
  undefined behaviour.  A score is a \<open>double\<close>: a value of a linear order (the numbers and infinities, with the
  two zeros identified), or a NaN, on which every comparison is false.
\<close>

section \<open>Data\<close>

datatype 's dbl = NaN | Dbl 's

fun dbl_lt :: "('s :: linorder) dbl \<Rightarrow> 's dbl \<Rightarrow> bool" where
  "dbl_lt (Dbl a) (Dbl b) \<longleftrightarrow> a < b"
| "dbl_lt _ _ \<longleftrightarrow> False"

fun dbl_le :: "('s :: linorder) dbl \<Rightarrow> 's dbl \<Rightarrow> bool" where
  "dbl_le (Dbl a) (Dbl b) \<longleftrightarrow> a \<le> b"
| "dbl_le _ _ \<longleftrightarrow> False"

fun dbl_eq :: "('s :: linorder) dbl \<Rightarrow> 's dbl \<Rightarrow> bool" where
  "dbl_eq (Dbl a) (Dbl b) \<longleftrightarrow> a = b"
| "dbl_eq _ _ \<longleftrightarrow> False"

definition ZSKIPLIST_MAXLEVEL :: nat where "ZSKIPLIST_MAXLEVEL = 32"

record zskiplistLevel =
  lv_forward :: "nat option"
  lv_span :: nat

record 's zskiplistNode =
  zn_obj :: "robj option"
  zn_score :: "'s dbl"
  zn_backward :: "nat option"
  zn_level :: "zskiplistLevel list"

record zskiplist =
  zsl_header :: nat
  zsl_tail :: "nat option"
  zsl_length :: nat
  zsl_level :: nat

type_synonym 's zheap = "nat \<rightharpoonup> 's zskiplistNode"

text \<open>\<open>zmalloc\<close>: the address of the next node, and what the fresh memory contains.\<close>

record 's zmem =
  zm_alloc :: "'s zheap \<Rightarrow> nat"
  zm_level :: "nat \<Rightarrow> zskiplistLevel"
  zm_backward :: "nat option"

text \<open>\<open>x->level[i]\<close> read and written, and \<open>x->backward = p\<close>.\<close>

definition lv_get :: "'s zheap \<Rightarrow> nat \<Rightarrow> nat \<Rightarrow> zskiplistLevel option" where
  "lv_get h x i = do { nd \<leftarrow> h x; arr_get (zn_level nd) i }"

definition lv_set :: "'s zheap \<Rightarrow> nat \<Rightarrow> nat \<Rightarrow> zskiplistLevel \<Rightarrow> 's zheap option" where
  "lv_set h x i l = do {
     nd \<leftarrow> h x;
     ls \<leftarrow> arr_set (zn_level nd) i l;
     Some (h(x \<mapsto> nd\<lparr>zn_level := ls\<rparr>)) }"

definition set_backward :: "'s zheap \<Rightarrow> nat \<Rightarrow> nat option \<Rightarrow> 's zheap option" where
  "set_backward h x p = do { nd \<leftarrow> h x; Some (h(x \<mapsto> nd\<lparr>zn_backward := p\<rparr>)) }"

section \<open>Creation and release\<close>

definition zslCreateNode :: "'s zmem \<Rightarrow> nat \<Rightarrow> 's dbl \<Rightarrow> robj option \<Rightarrow> 's zheap \<Rightarrow> 's zheap \<times> nat" where
  "zslCreateNode M level score obj h = (let zn = zm_alloc M h in
     (h(zn \<mapsto> \<lparr>zn_obj = obj, zn_score = score, zn_backward = zm_backward M, zn_level = map (zm_level M) [0..<level]\<rparr>), zn))"

primrec zslCreate_loop :: "nat \<Rightarrow> nat \<Rightarrow> 's zheap \<Rightarrow> 's zheap option" where
  "zslCreate_loop 0 header h = Some h"
| "zslCreate_loop (Suc j) header h = do {
     h \<leftarrow> zslCreate_loop j header h;
     lv_set h header j \<lparr>lv_forward = None, lv_span = 0\<rparr> }"

text \<open>\<open>zero\<close> is the double 0.\<close>

definition zslCreate :: "'s zmem \<Rightarrow> 's \<Rightarrow> 's zheap \<Rightarrow> ('s zheap \<times> zskiplist) option" where
  "zslCreate M zero h = do {
     let r = zslCreateNode M ZSKIPLIST_MAXLEVEL (Dbl zero) None h;
     h \<leftarrow> zslCreate_loop ZSKIPLIST_MAXLEVEL (snd r) (fst r);
     h \<leftarrow> set_backward h (snd r) None;
     Some (h, \<lparr>zsl_header = snd r, zsl_tail = None, zsl_length = 0, zsl_level = 1\<rparr>) }"

text \<open>Releasing a node: what is left of it is its object, passed to \<open>decrRefCount\<close>.\<close>

definition zslFreeNode :: "nat \<Rightarrow> 's zheap \<Rightarrow> 's zheap" where
  "zslFreeNode x h = h(x := None)"

partial_function (option) zslFree_loop :: "nat option \<Rightarrow> 's zheap \<Rightarrow> ('s zheap \<times> robj option list) option" where
  "zslFree_loop node h = (case node of
     None \<Rightarrow> Some (h, [])
   | Some x \<Rightarrow> do {
       l \<leftarrow> lv_get h x 0;
       nd \<leftarrow> h x;
       r \<leftarrow> zslFree_loop (lv_forward l) (zslFreeNode x h);
       Some (fst r, zn_obj nd # snd r) })"

definition zslFree :: "zskiplist \<Rightarrow> 's zheap \<Rightarrow> ('s zheap \<times> robj option list) option" where
  "zslFree zsl h = do {
     l \<leftarrow> lv_get h (zsl_header zsl) 0;
     zslFree_loop (lv_forward l) (h(zsl_header zsl := None)) }"

section \<open>Search\<close>

text \<open>
  The inner loop of every search: on level \<open>i\<close>, go forward while the next node passes the test of the
  function.  \<open>rank\<close> counts the spans that are crossed (\<open>add\<close> is the addition of its type, 32 bits
  in \<open>zslInsert\<close> and 64 bits elsewhere); a test may look at the count after the step.
\<close>

partial_function (option) zsl_forward ::
  "(nat \<Rightarrow> nat \<Rightarrow> nat) \<Rightarrow> (nat \<Rightarrow> 's zskiplistNode \<Rightarrow> bool option) \<Rightarrow> 's zheap \<Rightarrow> nat \<Rightarrow> nat \<Rightarrow> nat \<Rightarrow> (nat \<times> nat) option" where
  "zsl_forward add test h i x rank = do {
     l \<leftarrow> lv_get h x i;
     case lv_forward l of
       None \<Rightarrow> Some (x, rank)
     | Some f \<Rightarrow> do {
         nd \<leftarrow> h f;
         b \<leftarrow> test (add rank (lv_span l)) nd;
         if b then zsl_forward add test h i f (add rank (lv_span l)) else Some (x, rank) } }"

text \<open>The outer loop, from level \<open>i - 1\<close> down to 0: the arrays \<open>update\<close> and \<open>rank\<close> it fills.\<close>

primrec zsl_descend ::
  "(nat \<Rightarrow> nat \<Rightarrow> nat) \<Rightarrow> (nat \<Rightarrow> 's zskiplistNode \<Rightarrow> bool option) \<Rightarrow> 's zheap \<Rightarrow> nat \<Rightarrow> nat \<Rightarrow> nat \<Rightarrow> (nat \<times> nat) list option" where
  "zsl_descend add test h 0 x rank = Some []"
| "zsl_descend add test h (Suc i) x rank = do {
     r \<leftarrow> zsl_forward add test h i x rank;
     rest \<leftarrow> zsl_descend add test h i (fst r) (snd r);
     Some (rest @ [r]) }"

text \<open>The node is before the position of score and object.\<close>

definition zsl_before :: "('s :: linorder) dbl \<Rightarrow> robj \<Rightarrow> nat \<Rightarrow> 's zskiplistNode \<Rightarrow> bool option" where
  "zsl_before score obj rank nd =
     (if dbl_lt (zn_score nd) score then Some True
      else if dbl_eq (zn_score nd) score then do {
        ob \<leftarrow> zn_obj nd;
        r \<leftarrow> compareStringObjects ob obj;
        Some (r < 0) }
      else Some False)"

section \<open>Insertion\<close>

text \<open>\<open>rnd n\<close> is the result of the \<open>n\<close>-th call of \<open>random\<close>; \<open>0.25 * 0xFFFF\<close> is \<open>16383.75\<close>.\<close>

partial_function (option) zslRandomLevel_loop :: "(nat \<Rightarrow> nat) \<Rightarrow> nat \<Rightarrow> nat \<Rightarrow> nat option" where
  "zslRandomLevel_loop rnd n level =
     (if 4 * (rnd n AND 0xFFFF) < 0xFFFF then
        if level \<ge> 2 ^ 31 - 1 then None else zslRandomLevel_loop rnd (Suc n) (level + 1)
      else Some level)"

definition zslRandomLevel :: "(nat \<Rightarrow> nat) \<Rightarrow> nat option" where
  "zslRandomLevel rnd = do {
     level \<leftarrow> zslRandomLevel_loop rnd 0 1;
     Some (if level < ZSKIPLIST_MAXLEVEL then level else ZSKIPLIST_MAXLEVEL) }"

text \<open>The new levels \<open>i \<le> j < level\<close> of the header span the whole list.\<close>

primrec zsl_raise :: "nat \<Rightarrow> nat \<Rightarrow> nat \<Rightarrow> nat \<Rightarrow> 's zheap \<Rightarrow> 's zheap option" where
  "zsl_raise 0 i header len h = Some h"
| "zsl_raise (Suc n) i header len h = do {
     l \<leftarrow> lv_get h header i;
     h \<leftarrow> lv_set h header i (l\<lparr>lv_span := len mod 2 ^ 32\<rparr>);
     zsl_raise n (Suc i) header len h }"

text \<open>The levels \<open>i\<close> and above, \<open>n\<close> of them, link the new node \<open>x\<close>.\<close>

primrec zsl_link :: "nat \<Rightarrow> nat \<Rightarrow> nat \<Rightarrow> (nat \<times> nat) list \<Rightarrow> 's zheap \<Rightarrow> 's zheap option" where
  "zsl_link 0 i x ur h = Some h"
| "zsl_link (Suc n) i x ur h = do {
     u \<leftarrow> arr_get ur i;
     r0 \<leftarrow> arr_get ur 0;
     ul \<leftarrow> lv_get h (fst u) i;
     let d = ui_sub (snd r0) (snd u);
     h \<leftarrow> lv_set h x i \<lparr>lv_forward = lv_forward ul, lv_span = ui_sub (lv_span ul) d\<rparr>;
     h \<leftarrow> lv_set h (fst u) i \<lparr>lv_forward = Some x, lv_span = ui_add d 1\<rparr>;
     zsl_link n (Suc i) x ur h }"

primrec zsl_untouched :: "nat \<Rightarrow> nat \<Rightarrow> (nat \<times> nat) list \<Rightarrow> 's zheap \<Rightarrow> 's zheap option" where
  "zsl_untouched 0 i ur h = Some h"
| "zsl_untouched (Suc n) i ur h = do {
     u \<leftarrow> arr_get ur i;
     l \<leftarrow> lv_get h (fst u) i;
     h \<leftarrow> lv_set h (fst u) i (l\<lparr>lv_span := ui_add (lv_span l) 1\<rparr>);
     zsl_untouched n (Suc i) ur h }"

definition zslInsert :: "('s :: linorder) zmem \<Rightarrow> (nat \<Rightarrow> nat) \<Rightarrow> zskiplist \<Rightarrow> 's dbl \<Rightarrow> robj \<Rightarrow> 's zheap \<Rightarrow> ('s zheap \<times> zskiplist \<times> nat) option" where
  "zslInsert M rnd zsl score obj h =
     (if score = NaN then None else do {
        ur \<leftarrow> zsl_descend ui_add (zsl_before score obj) h (zsl_level zsl) (zsl_header zsl) 0;
        level \<leftarrow> zslRandomLevel rnd;
        let n = level - zsl_level zsl;
        h \<leftarrow> zsl_raise n (zsl_level zsl) (zsl_header zsl) (zsl_length zsl) h;
        let ur = ur @ replicate n (zsl_header zsl, 0);
        let zsl = (if level > zsl_level zsl then zsl\<lparr>zsl_level := level\<rparr> else zsl);
        let r = zslCreateNode M level score (Some obj) h;
        let x = snd r;
        h \<leftarrow> zsl_link level 0 x ur (fst r);
        h \<leftarrow> zsl_untouched (zsl_level zsl - level) level ur h;
        u0 \<leftarrow> arr_get ur 0;
        h \<leftarrow> set_backward h x (if fst u0 = zsl_header zsl then None else Some (fst u0));
        l \<leftarrow> lv_get h x 0;
        h \<leftarrow> (case lv_forward l of Some f \<Rightarrow> set_backward h f (Some x) | None \<Rightarrow> Some h);
        let zsl = (if lv_forward l = None then zsl\<lparr>zsl_tail := Some x\<rparr> else zsl);
        Some (h, zsl\<lparr>zsl_length := ul_add (zsl_length zsl) 1\<rparr>, x) })"

section \<open>Deletion\<close>

primrec zsl_unlink :: "nat \<Rightarrow> nat \<Rightarrow> nat \<Rightarrow> nat list \<Rightarrow> 's zheap \<Rightarrow> 's zheap option" where
  "zsl_unlink 0 i x update h = Some h"
| "zsl_unlink (Suc n) i x update h = do {
     u \<leftarrow> arr_get update i;
     l \<leftarrow> lv_get h u i;
     h \<leftarrow> (if lv_forward l = Some x then do {
            xl \<leftarrow> lv_get h x i;
            lv_set h u i \<lparr>lv_forward = lv_forward xl, lv_span = ui_add (lv_span l) (ui_sub (lv_span xl) 1)\<rparr> }
          else lv_set h u i (l\<lparr>lv_span := ui_sub (lv_span l) 1\<rparr>));
     zsl_unlink n (Suc i) x update h }"

fun zsl_lower :: "'s zheap \<Rightarrow> nat \<Rightarrow> nat \<Rightarrow> nat option" where
  "zsl_lower h header level =
     (if level > 1 then do {
        l \<leftarrow> lv_get h header (level - 1);
        if lv_forward l = None then zsl_lower h header (level - 1) else Some level }
      else Some level)"

declare zsl_lower.simps [simp del]

definition zslDeleteNode :: "zskiplist \<Rightarrow> nat \<Rightarrow> nat list \<Rightarrow> 's zheap \<Rightarrow> ('s zheap \<times> zskiplist) option" where
  "zslDeleteNode zsl x update h = do {
     h \<leftarrow> zsl_unlink (zsl_level zsl) 0 x update h;
     nd \<leftarrow> h x;
     l \<leftarrow> lv_get h x 0;
     h \<leftarrow> (case lv_forward l of Some f \<Rightarrow> set_backward h f (zn_backward nd) | None \<Rightarrow> Some h);
     let zsl = (if lv_forward l = None then zsl\<lparr>zsl_tail := zn_backward nd\<rparr> else zsl);
     level \<leftarrow> zsl_lower h (zsl_header zsl) (zsl_level zsl);
     Some (h, zsl\<lparr>zsl_level := level, zsl_length := ul_sub (zsl_length zsl) 1\<rparr>) }"

definition zslDelete :: "zskiplist \<Rightarrow> ('s :: linorder) dbl \<Rightarrow> robj \<Rightarrow> 's zheap \<Rightarrow> ('s zheap \<times> zskiplist \<times> bool) option" where
  "zslDelete zsl score obj h = do {
     ur \<leftarrow> zsl_descend ul_add (zsl_before score obj) h (zsl_level zsl) (zsl_header zsl) 0;
     u0 \<leftarrow> arr_get ur 0;
     l \<leftarrow> lv_get h (fst u0) 0;
     case lv_forward l of
       None \<Rightarrow> Some (h, zsl, False)
     | Some x \<Rightarrow> do {
         nd \<leftarrow> h x;
         e \<leftarrow> (if dbl_eq score (zn_score nd) then do { ob \<leftarrow> zn_obj nd; equalStringObjects ob obj } else Some False);
         if e then do {
           r \<leftarrow> zslDeleteNode zsl x (map fst ur) h;
           Some (zslFreeNode x (fst r), snd r, True) }
         else Some (h, zsl, False) } }"

section \<open>Ranks\<close>

definition zsl_upto :: "('s :: linorder) dbl \<Rightarrow> robj \<Rightarrow> nat \<Rightarrow> 's zskiplistNode \<Rightarrow> bool option" where
  "zsl_upto score obj rank nd =
     (if dbl_lt (zn_score nd) score then Some True
      else if dbl_eq (zn_score nd) score then do {
        ob \<leftarrow> zn_obj nd;
        r \<leftarrow> compareStringObjects ob obj;
        Some (r \<le> 0) }
      else Some False)"

primrec zslGetRank_loop :: "('s :: linorder) dbl \<Rightarrow> robj \<Rightarrow> 's zheap \<Rightarrow> nat \<Rightarrow> nat \<Rightarrow> nat \<Rightarrow> nat option" where
  "zslGetRank_loop score obj h 0 x rank = Some 0"
| "zslGetRank_loop score obj h (Suc i) x rank = do {
     r \<leftarrow> zsl_forward ul_add (zsl_upto score obj) h i x rank;
     nd \<leftarrow> h (fst r);
     e \<leftarrow> (case zn_obj nd of None \<Rightarrow> Some False | Some ob \<Rightarrow> equalStringObjects ob obj);
     if e then Some (snd r) else zslGetRank_loop score obj h i (fst r) (snd r) }"

definition zslGetRank :: "zskiplist \<Rightarrow> ('s :: linorder) dbl \<Rightarrow> robj \<Rightarrow> 's zheap \<Rightarrow> nat option" where
  "zslGetRank zsl score obj h = zslGetRank_loop score obj h (zsl_level zsl) (zsl_header zsl) 0"

primrec zslGetElementByRank_loop :: "nat \<Rightarrow> 's zheap \<Rightarrow> nat \<Rightarrow> nat \<Rightarrow> nat \<Rightarrow> nat option option" where
  "zslGetElementByRank_loop rank h 0 x traversed = Some None"
| "zslGetElementByRank_loop rank h (Suc i) x traversed = do {
     r \<leftarrow> zsl_forward ul_add (\<lambda>t nd. Some (t \<le> rank)) h i x traversed;
     if snd r = rank then Some (Some (fst r)) else zslGetElementByRank_loop rank h i (fst r) (snd r) }"

definition zslGetElementByRank :: "zskiplist \<Rightarrow> nat \<Rightarrow> 's zheap \<Rightarrow> nat option option" where
  "zslGetElementByRank zsl rank h = zslGetElementByRank_loop rank h (zsl_level zsl) (zsl_header zsl) 0"

section \<open>Ranges of scores\<close>

record 's zrangespec =
  zr_min :: "'s dbl"
  zr_max :: "'s dbl"
  zr_minex :: bool
  zr_maxex :: bool

definition zslValueGteMin :: "('s :: linorder) dbl \<Rightarrow> 's zrangespec \<Rightarrow> bool" where
  "zslValueGteMin v spec = (if zr_minex spec then dbl_lt (zr_min spec) v else dbl_le (zr_min spec) v)"

definition zslValueLteMax :: "('s :: linorder) dbl \<Rightarrow> 's zrangespec \<Rightarrow> bool" where
  "zslValueLteMax v spec = (if zr_maxex spec then dbl_lt v (zr_max spec) else dbl_le v (zr_max spec))"

text \<open>The two tests of \<open>zslIsInRange\<close> and \<open>zslIsInLexRange\<close> on the last and the first node.\<close>

definition zsl_ends :: "('s zskiplistNode \<Rightarrow> bool option) \<Rightarrow> ('s zskiplistNode \<Rightarrow> bool option) \<Rightarrow> zskiplist \<Rightarrow> 's zheap \<Rightarrow> bool option" where
  "zsl_ends gte lte zsl h = (case zsl_tail zsl of
     None \<Rightarrow> Some False
   | Some x \<Rightarrow> do {
       nd \<leftarrow> h x;
       b \<leftarrow> gte nd;
       if \<not> b then Some False else do {
         l \<leftarrow> lv_get h (zsl_header zsl) 0;
         case lv_forward l of
           None \<Rightarrow> Some False
         | Some x \<Rightarrow> do { nd \<leftarrow> h x; lte nd } } })"

definition zslIsInRange :: "zskiplist \<Rightarrow> ('s :: linorder) zrangespec \<Rightarrow> 's zheap \<Rightarrow> bool option" where
  "zslIsInRange zsl rg h =
     (if dbl_lt (zr_max rg) (zr_min rg) \<or> (dbl_eq (zr_min rg) (zr_max rg) \<and> (zr_minex rg \<or> zr_maxex rg))
      then Some False
      else zsl_ends (\<lambda>nd. Some (zslValueGteMin (zn_score nd) rg)) (\<lambda>nd. Some (zslValueLteMax (zn_score nd) rg)) zsl h)"

text \<open>The first node behind those that are not \<open>gte\<close>, and the last of those that are \<open>lte\<close>.\<close>

definition zsl_first :: "('s zskiplistNode \<Rightarrow> bool option) \<Rightarrow> ('s zskiplistNode \<Rightarrow> bool option) \<Rightarrow> zskiplist \<Rightarrow> 's zheap \<Rightarrow> nat option option" where
  "zsl_first gte lte zsl h = do {
     ur \<leftarrow> zsl_descend ul_add (\<lambda>t nd. do { b \<leftarrow> gte nd; Some (\<not> b) }) h (zsl_level zsl) (zsl_header zsl) 0;
     u0 \<leftarrow> arr_get ur 0;
     l \<leftarrow> lv_get h (fst u0) 0;
     x \<leftarrow> lv_forward l;
     nd \<leftarrow> h x;
     b \<leftarrow> lte nd;
     Some (if b then Some x else None) }"

definition zsl_last :: "('s zskiplistNode \<Rightarrow> bool option) \<Rightarrow> ('s zskiplistNode \<Rightarrow> bool option) \<Rightarrow> zskiplist \<Rightarrow> 's zheap \<Rightarrow> nat option option" where
  "zsl_last gte lte zsl h = do {
     ur \<leftarrow> zsl_descend ul_add (\<lambda>t nd. lte nd) h (zsl_level zsl) (zsl_header zsl) 0;
     u0 \<leftarrow> arr_get ur 0;
     nd \<leftarrow> h (fst u0);
     b \<leftarrow> gte nd;
     Some (if b then Some (fst u0) else None) }"

definition zslFirstInRange :: "zskiplist \<Rightarrow> ('s :: linorder) zrangespec \<Rightarrow> 's zheap \<Rightarrow> nat option option" where
  "zslFirstInRange zsl rg h = do {
     b \<leftarrow> zslIsInRange zsl rg h;
     if \<not> b then Some None
     else zsl_first (\<lambda>nd. Some (zslValueGteMin (zn_score nd) rg)) (\<lambda>nd. Some (zslValueLteMax (zn_score nd) rg)) zsl h }"

definition zslLastInRange :: "zskiplist \<Rightarrow> ('s :: linorder) zrangespec \<Rightarrow> 's zheap \<Rightarrow> nat option option" where
  "zslLastInRange zsl rg h = do {
     b \<leftarrow> zslIsInRange zsl rg h;
     if \<not> b then Some None
     else zsl_last (\<lambda>nd. Some (zslValueGteMin (zn_score nd) rg)) (\<lambda>nd. Some (zslValueLteMax (zn_score nd) rg)) zsl h }"

section \<open>Lexicographic ranges\<close>

text \<open>
  The bounds are string objects, two of which (\<open>shared.minstring\<close> and \<open>shared.maxstring\<close>) are
  recognised by their addresses; their contents are ordinary strings.
\<close>

datatype lexobj = MinString | MaxString | LexObj robj

fun lex_robj :: "lexobj \<Rightarrow> robj" where
  "lex_robj MinString = ObjRaw (str ''minstring'')"
| "lex_robj MaxString = ObjRaw (str ''maxstring'')"
| "lex_robj (LexObj ob) = ob"

record zlexrangespec =
  zlr_min :: lexobj
  zlr_max :: lexobj
  zlr_minex :: bool
  zlr_maxex :: bool

text \<open>\<open>None\<close> is \<open>REDIS_ERR\<close>; a byte behind the string is its terminator.\<close>

definition zslParseLexRangeItem :: "bytes \<Rightarrow> (lexobj \<times> bool) option" where
  "zslParseLexRangeItem item = (let c = item @ [0]; rest = tl item in
     if c ! 0 = byte_of CHR ''+'' then if c ! 1 \<noteq> 0 then None else Some (MaxString, False)
     else if c ! 0 = byte_of CHR ''-'' then if c ! 1 \<noteq> 0 then None else Some (MinString, False)
     else if c ! 0 = byte_of CHR ''('' then Some (LexObj (ObjRaw rest), True)
     else if c ! 0 = byte_of CHR ''['' then Some (LexObj (ObjRaw rest), False)
     else None)"

fun zslParseLexRange :: "robj \<Rightarrow> robj \<Rightarrow> zlexrangespec option" where
  "zslParseLexRange (ObjRaw mn) (ObjRaw mx) = do {
     a \<leftarrow> zslParseLexRangeItem mn;
     b \<leftarrow> zslParseLexRangeItem mx;
     Some \<lparr>zlr_min = fst a, zlr_max = fst b, zlr_minex = snd a, zlr_maxex = snd b\<rparr> }"
| "zslParseLexRange _ _ = None"

definition compareStringObjectsForLexRange :: "lexobj \<Rightarrow> lexobj \<Rightarrow> int option" where
  "compareStringObjectsForLexRange a b =
     (if a = b then Some 0
      else if a = MinString \<or> b = MaxString then Some (- 1)
      else if a = MaxString \<or> b = MinString then Some 1
      else compareStringObjects (lex_robj a) (lex_robj b))"

definition zslLexValueGteMin :: "robj \<Rightarrow> zlexrangespec \<Rightarrow> bool option" where
  "zslLexValueGteMin v spec = do {
     r \<leftarrow> compareStringObjectsForLexRange (LexObj v) (zlr_min spec);
     Some (if zlr_minex spec then r > 0 else r \<ge> 0) }"

definition zslLexValueLteMax :: "robj \<Rightarrow> zlexrangespec \<Rightarrow> bool option" where
  "zslLexValueLteMax v spec = do {
     r \<leftarrow> compareStringObjectsForLexRange (LexObj v) (zlr_max spec);
     Some (if zlr_maxex spec then r < 0 else r \<le> 0) }"

definition zslIsInLexRange :: "zskiplist \<Rightarrow> zlexrangespec \<Rightarrow> 's zheap \<Rightarrow> bool option" where
  "zslIsInLexRange zsl rg h = do {
     r \<leftarrow> compareStringObjectsForLexRange (zlr_min rg) (zlr_max rg);
     q \<leftarrow> compareStringObjects (lex_robj (zlr_min rg)) (lex_robj (zlr_max rg));
     if r > 1 \<or> (q = 0 \<and> (zlr_minex rg \<or> zlr_maxex rg)) then Some False
     else zsl_ends (\<lambda>nd. zn_obj nd \<bind> (\<lambda>ob. zslLexValueGteMin ob rg)) (\<lambda>nd. zn_obj nd \<bind> (\<lambda>ob. zslLexValueLteMax ob rg)) zsl h }"

definition zslFirstInLexRange :: "zskiplist \<Rightarrow> zlexrangespec \<Rightarrow> 's zheap \<Rightarrow> nat option option" where
  "zslFirstInLexRange zsl rg h = do {
     b \<leftarrow> zslIsInLexRange zsl rg h;
     if \<not> b then Some None
     else zsl_first (\<lambda>nd. zn_obj nd \<bind> (\<lambda>ob. zslLexValueGteMin ob rg)) (\<lambda>nd. zn_obj nd \<bind> (\<lambda>ob. zslLexValueLteMax ob rg)) zsl h }"

definition zslLastInLexRange :: "zskiplist \<Rightarrow> zlexrangespec \<Rightarrow> 's zheap \<Rightarrow> nat option option" where
  "zslLastInLexRange zsl rg h = do {
     b \<leftarrow> zslIsInLexRange zsl rg h;
     if \<not> b then Some None
     else zsl_last (\<lambda>nd. zn_obj nd \<bind> (\<lambda>ob. zslLexValueGteMin ob rg)) (\<lambda>nd. zn_obj nd \<bind> (\<lambda>ob. zslLexValueLteMax ob rg)) zsl h }"

section \<open>Deletion of ranges\<close>

text \<open>
  The second loop of the three functions: delete nodes from \<open>x\<close> on, from the skip list and from the
  hash table of the sorted set (whose keys are the contents of the objects), while they pass the test.
\<close>

partial_function (option) zsl_delete_while ::
  "(nat \<Rightarrow> 's zskiplistNode \<Rightarrow> bool option) \<Rightarrow> nat list \<Rightarrow> nat option \<Rightarrow> nat \<Rightarrow> nat \<Rightarrow> 's zheap \<Rightarrow> zskiplist \<Rightarrow> (bytes, 'v) dict \<Rightarrow>
   ('s zheap \<times> zskiplist \<times> (bytes, 'v) dict \<times> nat) option" where
  "zsl_delete_while test update x traversed removed h zsl d = (case x of
     None \<Rightarrow> Some (h, zsl, d, removed)
   | Some x \<Rightarrow> do {
       nd \<leftarrow> h x;
       b \<leftarrow> test traversed nd;
       if \<not> b then Some (h, zsl, d, removed) else do {
         l \<leftarrow> lv_get h x 0;
         r \<leftarrow> zslDeleteNode zsl x update h;
         ob \<leftarrow> zn_obj nd;
         q \<leftarrow> dictDelete d (obj_str ob);
         zsl_delete_while test update (lv_forward l) (ul_add traversed 1) (ul_add removed 1)
           (zslFreeNode x (fst r)) (snd r) (fst q) } })"

text \<open>Both loops: skip the nodes that are \<open>out\<close>, delete those that follow while they are \<open>within\<close>.\<close>

definition zsl_delete_range ::
  "(nat \<Rightarrow> 's zskiplistNode \<Rightarrow> bool option) \<Rightarrow> (nat \<Rightarrow> 's zskiplistNode \<Rightarrow> bool option) \<Rightarrow> 's zheap \<Rightarrow> zskiplist \<Rightarrow> (bytes, 'v) dict \<Rightarrow>
   ('s zheap \<times> zskiplist \<times> (bytes, 'v) dict \<times> nat) option" where
  "zsl_delete_range out within h zsl d = do {
     ur \<leftarrow> zsl_descend ul_add out h (zsl_level zsl) (zsl_header zsl) 0;
     u0 \<leftarrow> arr_get ur 0;
     l \<leftarrow> lv_get h (fst u0) 0;
     zsl_delete_while within (map fst ur) (lv_forward l) (ul_add (snd u0) 1) 0 h zsl d }"

definition zslDeleteRangeByScore :: "zskiplist \<Rightarrow> ('s :: linorder) zrangespec \<Rightarrow> (bytes, 'v) dict \<Rightarrow> 's zheap \<Rightarrow>
    ('s zheap \<times> zskiplist \<times> (bytes, 'v) dict \<times> nat) option" where
  "zslDeleteRangeByScore zsl rg d h =
     zsl_delete_range
       (\<lambda>t nd. Some (if zr_minex rg then dbl_le (zn_score nd) (zr_min rg) else dbl_lt (zn_score nd) (zr_min rg)))
       (\<lambda>t nd. Some (if zr_maxex rg then dbl_lt (zn_score nd) (zr_max rg) else dbl_le (zn_score nd) (zr_max rg))) h zsl d"

definition zslDeleteRangeByLex :: "zskiplist \<Rightarrow> zlexrangespec \<Rightarrow> (bytes, 'v) dict \<Rightarrow> 's zheap \<Rightarrow>
    ('s zheap \<times> zskiplist \<times> (bytes, 'v) dict \<times> nat) option" where
  "zslDeleteRangeByLex zsl rg d h =
     zsl_delete_range
       (\<lambda>t nd. do { ob \<leftarrow> zn_obj nd; b \<leftarrow> zslLexValueGteMin ob rg; Some (\<not> b) })
       (\<lambda>t nd. do { ob \<leftarrow> zn_obj nd; zslLexValueLteMax ob rg }) h zsl d"

definition zslDeleteRangeByRank :: "zskiplist \<Rightarrow> nat \<Rightarrow> nat \<Rightarrow> (bytes, 'v) dict \<Rightarrow> 's zheap \<Rightarrow>
    ('s zheap \<times> zskiplist \<times> (bytes, 'v) dict \<times> nat) option" where
  "zslDeleteRangeByRank zsl start en d h =
     zsl_delete_range (\<lambda>t nd. Some (t < start)) (\<lambda>t nd. Some (t \<le> en)) h zsl d"

end
