(* ===== verification/Skiplist_Inv.thy ===== *)
theory Skiplist_Inv
  imports Skiplist
begin

text \<open>
  The invariant of skip lists and the search.  A list is the sequence of its nodes with their heights;
  \<open>expect i ns\<close> is what level \<open>i\<close> of a node must contain when the nodes \<open>ns\<close> follow it.
\<close>

section \<open>Views of the heap\<close>

definition zn_dat :: "'s zheap \<Rightarrow> nat \<Rightarrow> (robj option \<times> 's dbl) option" where
  "zn_dat h x = map_option (\<lambda>nd. (zn_obj nd, zn_score nd)) (h x)"

definition zn_back :: "'s zheap \<Rightarrow> nat \<Rightarrow> nat option option" where
  "zn_back h x = map_option zn_backward (h x)"

definition zn_height :: "'s zheap \<Rightarrow> nat \<Rightarrow> nat option" where
  "zn_height h x = map_option (\<lambda>nd. length (zn_level nd)) (h x)"

lemmas zn_views = zn_dat_def zn_back_def zn_height_def

lemma lv_get_Some: "zn_height h x = Some n \<Longrightarrow> i < n \<Longrightarrow> \<exists>l. lv_get h x i = Some l"
  by (auto simp: lv_get_def zn_height_def)

lemma lv_set_Some:
  assumes "zn_height h x = Some n" "i < n"
  obtains h' where "lv_set h x i l = Some h'" "zn_dat h' = zn_dat h" "zn_back h' = zn_back h" "zn_height h' = zn_height h"
    "lv_get h' = (lv_get h)(x := (lv_get h x)(i := Some l))"
proof -
  from assms obtain nd where "h x = Some nd" "length (zn_level nd) = n" by (auto simp: zn_height_def)
  then show ?thesis using assms(2)
    by (intro that [of "h(x \<mapsto> nd\<lparr>zn_level := (zn_level nd)[i := l]\<rparr>)"])
      (auto simp: lv_set_def zn_views lv_get_def fun_eq_iff arr_get_def)
qed

lemma set_backward_Some:
  assumes "zn_height h x = Some n"
  obtains h' where "set_backward h x p = Some h'" "zn_dat h' = zn_dat h" "zn_back h' = (zn_back h)(x \<mapsto> p)" "zn_height h' = zn_height h"
    "lv_get h' = lv_get h"
proof -
  from assms obtain nd where "h x = Some nd" by (auto simp: zn_height_def)
  then show ?thesis
    by (intro that [of "h(x \<mapsto> nd\<lparr>zn_backward := p\<rparr>)"]) (auto simp: set_backward_def zn_views lv_get_def fun_eq_iff)
qed

lemma dom_height: "dom h = dom (zn_height h)"
  by (auto simp: zn_height_def)

section \<open>Levels of a sequence of nodes\<close>

primrec expect :: "nat \<Rightarrow> (nat \<times> nat) list \<Rightarrow> zskiplistLevel" where
  "expect i [] = \<lparr>lv_forward = None, lv_span = 0\<rparr>"
| "expect i (n # ns) = (if i < snd n then \<lparr>lv_forward = Some (fst n), lv_span = 1\<rparr>
     else (expect i ns)\<lparr>lv_span := lv_span (expect i ns) + 1\<rparr>)"

lemma expect_high: "\<exists>n \<in> set xs. i < snd n \<Longrightarrow> expect i (xs @ ys) = expect i xs"
proof (induction xs)
  case (Cons n xs)
  then show ?case by (cases "i < snd n") simp_all
qed simp

lemma expect_low: "\<forall>n \<in> set xs. snd n \<le> i \<Longrightarrow> expect i (xs @ ys) = (expect i ys)\<lparr>lv_span := lv_span (expect i ys) + length xs\<rparr>"
  by (induction xs) auto

lemma expect_span: "lv_span (expect i ns) \<le> length ns"
  by (induction ns) auto

lemma expect_forward: "lv_forward (expect i ns) = Some a \<Longrightarrow> \<exists>us l vs. ns = us @ (a, l) # vs \<and> i < l \<and> (\<forall>n \<in> set us. snd n \<le> i) \<and> lv_span (expect i ns) = Suc (length us)"
proof (induction ns)
  case (Cons n ns)
  show ?case
  proof (cases "i < snd n")
    case True
    then show ?thesis using Cons.prems by (intro exI [of _ "[]"] exI [of _ "snd n"] exI [of _ ns]) auto
  next
    case False
    then obtain us l vs where "ns = us @ (a, l) # vs" "i < l" "\<forall>n \<in> set us. snd n \<le> i" "lv_span (expect i ns) = Suc (length us)"
      using Cons by auto
    then show ?thesis using False by (intro exI [of _ "n # us"] exI [of _ l] exI [of _ vs]) auto
  qed
qed simp

lemma expect_first_low: "\<exists>n \<in> set xs. i < snd n \<Longrightarrow> \<exists>us n vs. xs = us @ n # vs \<and> i < snd n \<and> (\<forall>m \<in> set us. snd m \<le> i)"
  for i :: nat
proof -
  assume "\<exists>n \<in> set xs. i < snd n"
  then obtain us n vs where "xs = us @ n # vs" "i < snd n" "\<forall>m \<in> set us. \<not> i < snd m" by (rule split_list_first_propE)
  then show ?thesis by - (rule exI [of _ us], rule exI [of _ n], rule exI [of _ vs], simp add: not_less)
qed

definition levels_ok :: "(nat \<Rightarrow> nat \<Rightarrow> zskiplistLevel option) \<Rightarrow> nat \<Rightarrow> (nat \<times> nat) list \<Rightarrow> bool" where
  "levels_ok lv lim ns \<longleftrightarrow> (\<forall>us n vs. ns = us @ n # vs \<longrightarrow> (\<forall>i < min (snd n) lim. lv (fst n) i = Some (expect i vs)))"

lemma levels_okD: "levels_ok lv lim (us @ (a, l) # vs) \<Longrightarrow> i < l \<Longrightarrow> i < lim \<Longrightarrow> lv a i = Some (expect i vs)"
  unfolding levels_ok_def by (metis fst_conv min_less_iff_conj snd_conv)

text \<open>The last node of \<open>xs\<close> on level \<open>j\<close>, with its position.\<close>

definition pred_at :: "nat \<Rightarrow> (nat \<times> nat) list \<Rightarrow> nat \<times> nat \<Rightarrow> bool" where
  "pred_at j xs p \<longleftrightarrow> (\<exists>us l vs. xs = us @ (fst p, l) # vs \<and> j < l \<and> (\<forall>m \<in> set vs. snd m \<le> j) \<and> snd p = length us)"

section \<open>Search\<close>

text \<open>The test holds for the nodes of \<open>xs\<close> behind the header, and fails for those of \<open>ys\<close>.\<close>

definition cut_ok :: "(nat \<Rightarrow> 's zskiplistNode \<Rightarrow> bool option) \<Rightarrow> 's zheap \<Rightarrow> (nat \<times> nat) list \<Rightarrow> (nat \<times> nat) list \<Rightarrow> bool" where
  "cut_ok test h xs ys \<longleftrightarrow> (\<forall>us n vs. xs @ ys = us @ n # vs \<longrightarrow> us \<noteq> [] \<longrightarrow>
     (\<exists>nd. h (fst n) = Some nd \<and> test (length us) nd = Some (length us < length xs)))"

lemma cut_okD: "cut_ok test h xs ys \<Longrightarrow> xs @ ys = us @ (a, l) # vs \<Longrightarrow> us \<noteq> [] \<Longrightarrow>
    \<exists>nd. h a = Some nd \<and> test (length us) nd = Some (length us < length xs)"
  unfolding cut_ok_def by fastforce

lemma zsl_forward_pred:
  assumes lv: "levels_ok (lv_get h) lim (xs @ ys)" and i: "i < lim" and cut: "cut_ok test h xs ys"
    and add: "\<And>a b. a + b < 2 ^ 32 \<Longrightarrow> add a b = a + b" and len: "length (xs @ ys) < 2 ^ 32"
  shows "xs = us @ (a, l) # vs \<Longrightarrow> i < l \<Longrightarrow> ensures (zsl_forward add test h i a (length us)) (pred_at i xs)"
proof (induction "length vs" arbitrary: us a l vs rule: less_induct)
  case less
  have g: "lv_get h a i = Some (expect i (vs @ ys))" using levels_okD [of "lv_get h" lim us a l "vs @ ys" i] lv less.prems i by simp
  have stop: "pred_at i xs (a, length us)" if "\<forall>m \<in> set vs. snd m \<le> i" unfolding pred_at_def using less.prems that by auto
  show ?case
  proof (cases "\<exists>m \<in> set vs. i < snd m")
    case True
    then obtain v1 b lb v2 where v: "vs = v1 @ (b, lb) # v2" "i < lb" "\<forall>m \<in> set v1. snd m \<le> i"
      using expect_first_low [OF True] by auto
    have e: "expect i (vs @ ys) = \<lparr>lv_forward = Some b, lv_span = Suc (length v1)\<rparr>" using v by (simp add: expect_low)
    have x: "xs = (us @ (a, l) # v1) @ (b, lb) # v2" using less.prems v by simp
    obtain nd where nd: "h b = Some nd" "test (length (us @ (a, l) # v1)) nd = Some (length (us @ (a, l) # v1) < length xs)"
      using cut_okD [OF cut, of "us @ (a, l) # v1" b lb "v2 @ ys"] x by auto
    have r: "add (length us) (Suc (length v1)) = length (us @ (a, l) # v1)"
      using add [of "length us" "Suc (length v1)"] len x by simp
    have "ensures (zsl_forward add test h i b (length (us @ (a, l) # v1))) (pred_at i xs)"
      by (rule less.hyps [OF _ x v(2)]) (simp add: v(1))
    moreover have "length us + Suc (length v1) < length xs" using x by simp
    ultimately show ?thesis using g e nd r by (subst zsl_forward.simps) simp
  next
    case False
    then have low: "\<forall>m \<in> set vs. snd m \<le> i" by auto
    then have e: "expect i (vs @ ys) = (expect i ys)\<lparr>lv_span := lv_span (expect i ys) + length vs\<rparr>" by (rule expect_low)
    show ?thesis
    proof (cases "lv_forward (expect i ys)")
      case None
      then show ?thesis using g e stop [OF low] by (subst zsl_forward.simps) simp
    next
      case (Some f)
      obtain y1 lf y2 where y: "ys = y1 @ (f, lf) # y2" "lv_span (expect i ys) = Suc (length y1)"
        using expect_forward [OF Some] by blast
      obtain nd where nd: "h f = Some nd" "test (length (xs @ y1)) nd = Some (length (xs @ y1) < length xs)"
        using cut_okD [OF cut, of "xs @ y1" f lf y2] y less.prems by auto
      have "add (length us) (Suc (length y1 + length vs)) = length (xs @ y1)"
        using add [of "length us" "Suc (length y1 + length vs)"] len less.prems y by simp
      then show ?thesis using g e nd y(2) Some stop [OF low] by (subst zsl_forward.simps) simp
    qed
  qed
qed

lemma zsl_descend_pred:
  assumes lv: "levels_ok (lv_get h) lim (xs @ ys)" and cut: "cut_ok test h xs ys"
    and add: "\<And>a b. a + b < 2 ^ 32 \<Longrightarrow> add a b = a + b" and len: "length (xs @ ys) < 2 ^ 32"
  shows "k \<le> lim \<Longrightarrow> xs = us @ (a, l) # vs \<Longrightarrow> k \<le> l \<Longrightarrow>
    ensures (zsl_descend add test h k a (length us)) (\<lambda>ur. length ur = k \<and> (\<forall>j < k. pred_at j xs (ur ! j)))"
proof (induction k arbitrary: us a l vs)
  case (Suc k)
  have f: "ensures (zsl_forward add test h k a (length us)) (pred_at k xs)"
    by (rule zsl_forward_pred [OF lv _ cut add len Suc.prems(2)]) (use Suc.prems in simp_all)
  show ?case unfolding zsl_descend.simps
  proof (rule ensures_bindI [OF f])
    fix r assume r: "pred_at k xs r"
    then obtain us' l' vs' where x: "xs = us' @ (fst r, l') # vs'" "k < l'" "snd r = length us'" unfolding pred_at_def by blast
    have "ensures (zsl_descend add test h k (fst r) (snd r)) (\<lambda>ur. length ur = k \<and> (\<forall>j < k. pred_at j xs (ur ! j)))"
      unfolding x(3) by (rule Suc.IH [OF _ x(1)]) (use Suc.prems x(2) in simp_all)
    then show "ensures (zsl_descend add test h k (fst r) (snd r) \<bind> (\<lambda>rest. Some (rest @ [r])))
       (\<lambda>ur. length ur = Suc k \<and> (\<forall>j < Suc k. pred_at j xs (ur ! j)))"
      by (rule ensures_bindI) (auto simp: nth_append less_Suc_eq r)
  qed
qed simp

section \<open>The loops that change levels\<close>

definition zn_same :: "'s zheap \<Rightarrow> 's zheap \<Rightarrow> bool" where
  "zn_same h h' \<longleftrightarrow> zn_dat h' = zn_dat h \<and> zn_back h' = zn_back h \<and> zn_height h' = zn_height h"

lemma zn_same_trans: "zn_same a b \<Longrightarrow> zn_same b c \<Longrightarrow> zn_same a c"
  by (simp add: zn_same_def)

lemma lv_set_same:
  assumes "zn_height h x = Some n" "i < n"
  obtains h' where "lv_set h x i l = Some h'" "zn_same h h'" "lv_get h' = (lv_get h)(x := (lv_get h x)(i := Some l))"
  using lv_set_Some [OF assms, of l] unfolding zn_same_def by metis

text \<open>A heap in which the levels \<open>i \<le> j < i + n\<close> satisfy \<open>new\<close> and the others are unchanged.\<close>

definition lv_range :: "nat \<Rightarrow> nat \<Rightarrow> (nat \<Rightarrow> nat \<Rightarrow> zskiplistLevel option) \<Rightarrow> 's zheap \<Rightarrow> 's zheap \<Rightarrow> bool" where
  "lv_range i n new h h' \<longleftrightarrow> zn_same h h' \<and> (\<forall>y j. lv_get h' y j = (if i \<le> j \<and> j < i + n then new y j else lv_get h y j))"

lemma lv_range_0: "lv_range i 0 new h h"
  by (auto simp: lv_range_def zn_same_def)

lemma lv_range_Suc:
  assumes "zn_same h h1" "\<And>y. lv_get h1 y i = new y i" "\<And>y j. j \<noteq> i \<Longrightarrow> lv_get h1 y j = lv_get h y j" "lv_range (Suc i) n new h1 h2"
  shows "lv_range i (Suc n) new h h2"
  unfolding lv_range_def
proof (intro conjI allI)
  show "zn_same h h2" using assms(1,4) zn_same_trans unfolding lv_range_def by blast
  fix y j
  show "lv_get h2 y j = (if i \<le> j \<and> j < i + Suc n then new y j else lv_get h y j)"
    using assms(2)[of y] assms(3)[of j y] assms(4) unfolding lv_range_def by (cases "j = i") auto
qed

lemma lv_range_cong:
  assumes "lv_range i n new h h'" "\<And>y j. i \<le> j \<Longrightarrow> j < i + n \<Longrightarrow> new y j = new' y j"
  shows "lv_range i n new' h h'"
  using assms unfolding lv_range_def by simp

lemma zsl_raise_Some:
  "zn_height h header = Some m \<Longrightarrow> i + n \<le> m \<Longrightarrow>
   ensures (zsl_raise n i header len h) (lv_range i n
     (\<lambda>y j. if y = header then map_option (lv_span_update (\<lambda>_. len mod 2 ^ 32)) (lv_get h y j) else lv_get h y j) h)"
proof (induction n arbitrary: i h)
  case 0
  then show ?case by (simp add: lv_range_0)
next
  case (Suc n)
  obtain l where l: "lv_get h header i = Some l" using lv_get_Some [OF Suc.prems(1), of i] Suc.prems(2) by auto
  obtain h1 where h1: "lv_set h header i (l\<lparr>lv_span := len mod 2 ^ 32\<rparr>) = Some h1" "zn_same h h1"
    "lv_get h1 = (lv_get h)(header := (lv_get h header)(i := Some (l\<lparr>lv_span := len mod 2 ^ 32\<rparr>)))"
    using lv_set_same [OF Suc.prems(1), of i] Suc.prems(2) by auto
  have "zn_height h1 header = Some m" using h1(2) Suc.prems(1) by (simp add: zn_same_def)
  from Suc.IH [OF this, of "Suc i"] Suc.prems(2) have
    "ensures (zsl_raise n (Suc i) header len h1) (lv_range (Suc i) n
     (\<lambda>y j. if y = header then map_option (lv_span_update (\<lambda>_. len mod 2 ^ 32)) (lv_get h1 y j) else lv_get h1 y j) h1)" by simp
  then show ?case unfolding zsl_raise.simps l h1(1) bind.bind_lunit Option.bind_lunit
    by (elim ensures_mono, intro lv_range_Suc [OF h1(2)]; (elim lv_range_cong)?) (auto simp: h1(3) l)
qed

lemma zsl_link_Some:
  "zn_height h x = Some m \<Longrightarrow> i + n \<le> m \<Longrightarrow> i + n \<le> length ur \<Longrightarrow>
   (\<And>j. i \<le> j \<Longrightarrow> j < i + n \<Longrightarrow> fst (ur ! j) \<noteq> x \<and> (\<exists>k. zn_height h (fst (ur ! j)) = Some k \<and> j < k)) \<Longrightarrow>
   ensures (zsl_link n i x ur h) (lv_range i n
     (\<lambda>y j. let d = ui_sub (snd (ur ! 0)) (snd (ur ! j)) in
        if y = x then map_option (\<lambda>l. \<lparr>lv_forward = lv_forward l, lv_span = ui_sub (lv_span l) d\<rparr>) (lv_get h (fst (ur ! j)) j)
        else if y = fst (ur ! j) then Some \<lparr>lv_forward = Some x, lv_span = ui_add d 1\<rparr> else lv_get h y j) h)"
proof (induction n arbitrary: i h)
  case 0
  then show ?case by (simp add: lv_range_0)
next
  case (Suc n)
  let ?u = "fst (ur ! i)" and ?d = "ui_sub (snd (ur ! 0)) (snd (ur ! i))"
  obtain k where u: "?u \<noteq> x" "zn_height h ?u = Some k" "i < k" using Suc.prems(4) [of i] by auto
  obtain l where l: "lv_get h ?u i = Some l" using lv_get_Some [OF u(2,3)] by auto
  obtain h1 where h1: "lv_set h x i \<lparr>lv_forward = lv_forward l, lv_span = ui_sub (lv_span l) ?d\<rparr> = Some h1" "zn_same h h1"
    "lv_get h1 = (lv_get h)(x := (lv_get h x)(i := Some \<lparr>lv_forward = lv_forward l, lv_span = ui_sub (lv_span l) ?d\<rparr>))"
    using lv_set_same [OF Suc.prems(1), of i] Suc.prems(2) by auto
  have "zn_height h1 ?u = Some k" using h1(2) u(2) by (simp add: zn_same_def)
  then obtain h2 where h2: "lv_set h1 ?u i \<lparr>lv_forward = Some x, lv_span = ui_add ?d 1\<rparr> = Some h2" "zn_same h1 h2"
    "lv_get h2 = (lv_get h1)(?u := (lv_get h1 ?u)(i := Some \<lparr>lv_forward = Some x, lv_span = ui_add ?d 1\<rparr>))"
    using lv_set_same [of h1 ?u k i] u(3) by auto
  have s: "zn_same h h2" using h1(2) h2(2) by (rule zn_same_trans)
  then have hh: "zn_height h2 = zn_height h" by (simp add: zn_same_def)
  have "ensures (zsl_link n (Suc i) x ur h2) (lv_range (Suc i) n
     (\<lambda>y j. let d = ui_sub (snd (ur ! 0)) (snd (ur ! j)) in
        if y = x then map_option (\<lambda>l. \<lparr>lv_forward = lv_forward l, lv_span = ui_sub (lv_span l) d\<rparr>) (lv_get h2 (fst (ur ! j)) j)
        else if y = fst (ur ! j) then Some \<lparr>lv_forward = Some x, lv_span = ui_add d 1\<rparr> else lv_get h2 y j) h2)"
    by (rule Suc.IH) (use Suc.prems hh in simp_all)
  moreover have "i < length ur" "0 < length ur" using Suc.prems(3) by auto
  ultimately show ?case using l h1(1) h2(1) unfolding zsl_link.simps Let_def
    by (simp, elim ensures_mono, intro lv_range_Suc [OF s]; (elim lv_range_cong)?) (auto simp: h1(3) h2(3) l u(1) Let_def)
qed

lemma zsl_untouched_Some:
  "i + n \<le> length ur \<Longrightarrow> (\<And>j. i \<le> j \<Longrightarrow> j < i + n \<Longrightarrow> \<exists>k. zn_height h (fst (ur ! j)) = Some k \<and> j < k) \<Longrightarrow>
   ensures (zsl_untouched n i ur h) (lv_range i n
     (\<lambda>y j. if y = fst (ur ! j) then map_option (\<lambda>l. l\<lparr>lv_span := ui_add (lv_span l) 1\<rparr>) (lv_get h y j) else lv_get h y j) h)"
proof (induction n arbitrary: i h)
  case 0
  then show ?case by (simp add: lv_range_0)
next
  case (Suc n)
  let ?u = "fst (ur ! i)"
  obtain k where u: "zn_height h ?u = Some k" "i < k" using Suc.prems(2) [of i] by auto
  obtain l where l: "lv_get h ?u i = Some l" using lv_get_Some [OF u] by auto
  obtain h1 where h1: "lv_set h ?u i (l\<lparr>lv_span := ui_add (lv_span l) 1\<rparr>) = Some h1" "zn_same h h1"
    "lv_get h1 = (lv_get h)(?u := (lv_get h ?u)(i := Some (l\<lparr>lv_span := ui_add (lv_span l) 1\<rparr>)))"
    using lv_set_same [OF u] by auto
  then have hh: "zn_height h1 = zn_height h" by (simp add: zn_same_def)
  have "ensures (zsl_untouched n (Suc i) ur h1) (lv_range (Suc i) n
     (\<lambda>y j. if y = fst (ur ! j) then map_option (\<lambda>l. l\<lparr>lv_span := ui_add (lv_span l) 1\<rparr>) (lv_get h1 y j) else lv_get h1 y j) h1)"
    by (rule Suc.IH) (use Suc.prems hh in simp_all)
  moreover have "i < length ur" using Suc.prems(1) by auto
  ultimately show ?case using l h1(1) unfolding zsl_untouched.simps
    by (simp, elim ensures_mono, intro lv_range_Suc [OF h1(2)]; (elim lv_range_cong)?) (auto simp: h1(3) l)
qed

lemma zsl_unlink_Some:
  "zn_height h x = Some m \<Longrightarrow> i + n \<le> length up \<Longrightarrow>
   (\<And>j. i \<le> j \<Longrightarrow> j < i + n \<Longrightarrow> up ! j \<noteq> x \<and> (\<exists>l. lv_get h (up ! j) j = Some l \<and> (lv_forward l = Some x \<longrightarrow> j < m))) \<Longrightarrow>
   ensures (zsl_unlink n i x up h) (lv_range i n
     (\<lambda>y j. if y = up ! j then
        (let l = the (lv_get h y j) in
         if lv_forward l = Some x then map_option (\<lambda>xl. \<lparr>lv_forward = lv_forward xl, lv_span = ui_add (lv_span l) (ui_sub (lv_span xl) 1)\<rparr>) (lv_get h x j)
         else Some (l\<lparr>lv_span := ui_sub (lv_span l) 1\<rparr>))
      else lv_get h y j) h)"
proof (induction n arbitrary: i h)
  case 0
  then show ?case by (simp add: lv_range_0)
next
  case (Suc n)
  obtain l where u: "up ! i \<noteq> x" "lv_get h (up ! i) i = Some l" "lv_forward l = Some x \<longrightarrow> i < m" using Suc.prems(3) [of i] by auto
  obtain k where k: "zn_height h (up ! i) = Some k" "i < k" using u(2) by (auto simp: lv_get_def zn_height_def bind_eq_Some_conv arr_get_eq_Some_iff)
  obtain xl where xl: "lv_forward l = Some x \<Longrightarrow> lv_get h x i = Some xl" using lv_get_Some [OF Suc.prems(1), of i] u(3) by (cases "i < m") auto
  let ?l = "if lv_forward l = Some x then \<lparr>lv_forward = lv_forward xl, lv_span = ui_add (lv_span l) (ui_sub (lv_span xl) 1)\<rparr> else l\<lparr>lv_span := ui_sub (lv_span l) 1\<rparr>"
  obtain h1 where h1: "lv_set h (up ! i) i ?l = Some h1" "zn_same h h1" "lv_get h1 = (lv_get h)(up ! i := (lv_get h (up ! i))(i := Some ?l))"
    using lv_set_same [OF k] by blast
  then have hh: "zn_height h1 = zn_height h" by (simp add: zn_same_def)
  have g: "lv_get h1 y j = lv_get h y j" if "j \<noteq> i \<or> y \<noteq> up ! i" for y j using h1(3) that by auto
  have "ensures (zsl_unlink n (Suc i) x up h1) (lv_range (Suc i) n
     (\<lambda>y j. if y = up ! j then
        (let l = the (lv_get h1 y j) in
         if lv_forward l = Some x then map_option (\<lambda>xl. \<lparr>lv_forward = lv_forward xl, lv_span = ui_add (lv_span l) (ui_sub (lv_span xl) 1)\<rparr>) (lv_get h1 x j)
         else Some (l\<lparr>lv_span := ui_sub (lv_span l) 1\<rparr>))
      else lv_get h1 y j) h1)"
    by (rule Suc.IH) (use Suc.prems hh g in simp_all)
  moreover have "zsl_unlink (Suc n) i x up h = zsl_unlink n (Suc i) x up h1"
    using u h1(1) xl Suc.prems(2) by auto
  ultimately show ?case
    by (simp only:, elim ensures_mono, intro lv_range_Suc [OF h1(2)]; (elim lv_range_cong)?) (auto simp: h1(3) u xl g Let_def)
qed


section \<open>Linking and unlinking in the middle\<close>

lemma pred_at_split:
  assumes d: "distinct (map fst xs)" and x: "xs = us @ (a, l) # vs" "j < l" and p: "pred_at j xs p"
  shows "fst p = a \<longleftrightarrow> (\<forall>m \<in> set vs. snd m \<le> j)" "fst p = a \<Longrightarrow> snd p = length us"
proof -
  obtain us' l' vs' where p': "xs = us' @ (fst p, l') # vs'" "j < l'" "\<forall>m \<in> set vs'. snd m \<le> j" "snd p = length us'"
    using p unfolding pred_at_def by blast
  have same: "us' = us \<and> vs' = vs" if "fst p = a"
    using d x(1) p'(1) that by (auto simp: append_eq_append_conv2 append_eq_Cons_conv Cons_eq_append_conv)
  then show "fst p = a \<Longrightarrow> snd p = length us" using p'(4) by simp
  have "fst p = a" if "\<forall>m \<in> set vs. snd m \<le> j"
    using x p'(1-3) that by (auto simp: append_eq_append_conv2 append_eq_Cons_conv Cons_eq_append_conv)
  then show "fst p = a \<longleftrightarrow> (\<forall>m \<in> set vs. snd m \<le> j)" using same p'(3) by auto
qed

lemma pred_at_in: "pred_at j xs p \<Longrightarrow> fst p \<in> fst ` set xs"
  unfolding pred_at_def by force

lemma pred_at_0:
  assumes "pred_at 0 xs p" "\<forall>m \<in> set xs. 0 < snd m"
  shows "p = (fst (last xs), length xs - 1)"
proof -
  obtain us l vs where v: "xs = us @ (fst p, l) # vs" "\<forall>m \<in> set vs. snd m \<le> 0" "snd p = length us"
    using assms(1) unfolding pred_at_def by blast
  have "vs = []" using v(1,2) assms(2) by (cases vs) auto
  then show ?thesis using v by (cases p) simp
qed

text \<open>A node in front of the new one, and the new one itself.\<close>

lemma levels_insert_before:
  assumes lv: "levels_ok lv lim (xs @ ys)" and d: "distinct (map fst (xs @ ys))" and x: "x \<notin> fst ` set (xs @ ys)"
    and pos: "\<forall>m \<in> set xs. 0 < snd m" and len: "length (xs @ ys) < 2 ^ 32 - 1"
    and ur: "\<And>j. j < lim \<Longrightarrow> pred_at j xs (ur ! j)" and lim: "0 < lim" "level \<le> lim"
    and new: "\<And>y j. j < level \<Longrightarrow> lv' y j = (let d = ui_sub (snd (ur ! 0)) (snd (ur ! j)) in
        if y = x then map_option (\<lambda>l. \<lparr>lv_forward = lv_forward l, lv_span = ui_sub (lv_span l) d\<rparr>) (lv (fst (ur ! j)) j)
        else if y = fst (ur ! j) then Some \<lparr>lv_forward = Some x, lv_span = ui_add d 1\<rparr> else lv y j)"
    and old: "\<And>y j. level \<le> j \<Longrightarrow> j < lim \<Longrightarrow> lv' y j =
        (if y = fst (ur ! j) then map_option (\<lambda>l. l\<lparr>lv_span := ui_add (lv_span l) 1\<rparr>) (lv y j) else lv y j)"
    and i: "i < l" "i < lim" and xs: "xs = us @ (a, l) # vs0"
  shows "lv' a i = Some (expect i (vs0 @ (x, level) # ys))"
proof -
  have r0: "snd (ur ! 0) = length xs - 1" using pred_at_0 [OF ur [OF lim(1)] pos] by simp
  have dx: "distinct (map fst xs)" using d by simp
  have g: "lv a i = Some (expect i (vs0 @ ys))" using levels_okD [of lv lim us a l "vs0 @ ys" i] lv xs i by simp
  have ax: "a \<noteq> x" using x xs by auto
  note pa = pred_at_split [OF dx xs i(1) ur [OF i(2)]]
  show ?thesis
  proof (cases "\<forall>m \<in> set vs0. snd m \<le> i")
    case True
    then have a: "fst (ur ! i) = a" "snd (ur ! i) = length us" using pa by auto
    have s: "lv_span (expect i ys) + length vs0 < 2 ^ 32 - 1" using expect_span [of i ys] len xs by simp
    have dd: "ui_sub (snd (ur ! 0)) (snd (ur ! i)) = length vs0" using a r0 xs len by simp
    show ?thesis
    proof (cases "i < level")
      case il: True
      then show ?thesis using s ax by (simp add: new a(1) dd expect_low [OF True] Let_def)
    next
      case il: False
      then show ?thesis using s i by (simp add: old a(1) g expect_low [OF True])
    qed
  next
    case False
    then have a: "a \<noteq> fst (ur ! i)" and e: "\<exists>m \<in> set vs0. i < snd m" using pa(1) by (auto simp: not_le)
    have "lv' a i = lv a i" using new [of i a] old [of i a] a ax i(2) by (cases "i < level") (auto simp: Let_def)
    then show ?thesis using g expect_high [OF e] by simp
  qed
qed

lemma levels_insert_new:
  assumes lv: "levels_ok lv lim (xs @ ys)" and d: "distinct (map fst (xs @ ys))" and x: "x \<notin> fst ` set (xs @ ys)"
    and pos: "\<forall>m \<in> set xs. 0 < snd m" and len: "length (xs @ ys) < 2 ^ 32 - 1"
    and ur: "\<And>j. j < lim \<Longrightarrow> pred_at j xs (ur ! j)" and lim: "0 < lim" "level \<le> lim"
    and new: "\<And>y j. j < level \<Longrightarrow> lv' y j = (let d = ui_sub (snd (ur ! 0)) (snd (ur ! j)) in
        if y = x then map_option (\<lambda>l. \<lparr>lv_forward = lv_forward l, lv_span = ui_sub (lv_span l) d\<rparr>) (lv (fst (ur ! j)) j)
        else if y = fst (ur ! j) then Some \<lparr>lv_forward = Some x, lv_span = ui_add d 1\<rparr> else lv y j)"
    and i: "i < level"
  shows "lv' x i = Some (expect i ys)"
proof -
  have r0: "snd (ur ! 0) = length xs - 1" using pred_at_0 [OF ur [OF lim(1)] pos] by simp
  have i: "i < level" "i < lim" using i lim(2) by simp_all
  obtain u1 k u2 where p: "xs = u1 @ (fst (ur ! i), k) # u2" "i < k" "\<forall>m \<in> set u2. snd m \<le> i" "snd (ur ! i) = length u1"
    using ur [OF i(2)] unfolding pred_at_def by blast
  have g: "lv (fst (ur ! i)) i = Some (expect i (u2 @ ys))" using levels_okD [of lv lim u1 "fst (ur ! i)" k "u2 @ ys" i] lv p i(2) by simp
  have dd: "ui_sub (snd (ur ! 0)) (snd (ur ! i)) = length u2"
  proof -
    have "length xs = length u1 + length u2 + 1" by (subst p(1)) simp
    then show ?thesis using r0 p(4) len by simp
  qed
  have "length u2 \<le> length xs" by (subst p(1)) simp
  then have "lv_span (expect i ys) + length u2 < 2 ^ 32" using expect_span [of i ys] len by simp
  then show ?thesis using i by (simp add: new g dd expect_low [OF p(3)] Let_def)
qed

lemma levels_insert:
  assumes lv: "levels_ok lv lim (xs @ ys)" and d: "distinct (map fst (xs @ ys))" and x: "x \<notin> fst ` set (xs @ ys)"
    and pos: "\<forall>m \<in> set xs. 0 < snd m" and len: "length (xs @ ys) < 2 ^ 32 - 1"
    and ur: "\<And>j. j < lim \<Longrightarrow> pred_at j xs (ur ! j)" and lim: "0 < lim" "level \<le> lim"
    and new: "\<And>y j. j < level \<Longrightarrow> lv' y j = (let d = ui_sub (snd (ur ! 0)) (snd (ur ! j)) in
        if y = x then map_option (\<lambda>l. \<lparr>lv_forward = lv_forward l, lv_span = ui_sub (lv_span l) d\<rparr>) (lv (fst (ur ! j)) j)
        else if y = fst (ur ! j) then Some \<lparr>lv_forward = Some x, lv_span = ui_add d 1\<rparr> else lv y j)"
    and old: "\<And>y j. level \<le> j \<Longrightarrow> j < lim \<Longrightarrow> lv' y j =
        (if y = fst (ur ! j) then map_option (\<lambda>l. l\<lparr>lv_span := ui_add (lv_span l) 1\<rparr>) (lv y j) else lv y j)"
  shows "levels_ok lv' lim (xs @ (x, level) # ys)"
  unfolding levels_ok_def
proof (intro allI impI)
  fix us n vs i assume sp: "xs @ (x, level) # ys = us @ n # vs" and i: "i < min (snd n) lim"
  obtain a l where n: "n = (a, l)" by (cases n)
  have i: "i < l" "i < lim" using i n by simp_all
  consider vs0 where "xs = us @ (a, l) # vs0" "vs = vs0 @ (x, level) # ys" | "us = xs" "a = x" "l = level" "vs = ys"
    | us0 where "us = xs @ (x, level) # us0" "ys = us0 @ (a, l) # vs"
    using sp n by (auto simp: append_eq_append_conv2 append_eq_Cons_conv Cons_eq_append_conv)
  then have "lv' a i = Some (expect i vs)"
  proof cases
    case 1
    show ?thesis unfolding 1(2) by (rule levels_insert_before [OF lv d x pos len ur lim new old i 1(1)])
  next
    case 2
    show ?thesis unfolding 2(2,4) by (rule levels_insert_new [OF lv d x pos len ur lim new]) (use i 2(3) in simp_all)
  next
    case 3
    have "a \<noteq> x" "a \<notin> fst ` set xs" using x d 3(2) by auto
    then have "lv' a i = lv a i" using new [of i a] old [of i a] i(2) pred_at_in [OF ur [OF i(2)]] by (cases "i < level") (auto simp: Let_def)
    then show ?thesis using levels_okD [of lv lim "xs @ us0" a l vs i] lv 3(2) i by simp
  qed
  then show "lv' (fst n) i = Some (expect i vs)" using n by simp
qed

lemma levels_delete:
  assumes lv: "levels_ok lv lim (xs @ (x, k) # ys)" and d: "distinct (map fst (xs @ (x, k) # ys))"
    and len: "length (xs @ (x, k) # ys) < 2 ^ 32" and up: "\<And>j. j < lim \<Longrightarrow> pred_at j xs (up ! j, r j)"
    and new: "\<And>y j. j < lim \<Longrightarrow> lv' y j = (if y = up ! j then
        (let l = the (lv y j) in
         if lv_forward l = Some x then map_option (\<lambda>xl. \<lparr>lv_forward = lv_forward xl, lv_span = ui_add (lv_span l) (ui_sub (lv_span xl) 1)\<rparr>) (lv x j)
         else Some (l\<lparr>lv_span := ui_sub (lv_span l) 1\<rparr>))
      else lv y j)"
  shows "levels_ok lv' lim (xs @ ys)"
  unfolding levels_ok_def
proof (intro allI impI)
  fix us n vs i assume sp: "xs @ ys = us @ n # vs" and i: "i < min (snd n) lim"
  obtain a l where n: "n = (a, l)" by (cases n)
  have i: "i < l" "i < lim" using i n by simp_all
  have dx: "distinct (map fst xs)" using d by simp
  consider vs0 where "xs = us @ (a, l) # vs0" "vs = vs0 @ ys" | us0 where "us = xs @ us0" "ys = us0 @ (a, l) # vs"
    using sp n by (auto simp: append_eq_append_conv2 append_eq_Cons_conv Cons_eq_append_conv)
  then have "lv' a i = Some (expect i vs)"
  proof cases
    case 1
    have g: "lv a i = Some (expect i (vs0 @ (x, k) # ys))" using levels_okD [of lv lim us a l "vs0 @ (x, k) # ys" i] lv 1(1) i by simp
    note pa = pred_at_split [OF dx 1(1) i(1) up [OF i(2)]]
    show ?thesis
    proof (cases "\<forall>m \<in> set vs0. snd m \<le> i")
      case True
      then have a: "up ! i = a" using pa by simp
      have s: "lv_span (expect i ys) + length vs0 + 1 < 2 ^ 32" using expect_span [of i ys] len 1(1) by simp
      have "lv_forward (expect i ys) \<noteq> Some x" using expect_forward [of i ys x] d by force
      moreover have "i < k \<Longrightarrow> lv x i = Some (expect i ys)" using levels_okD [of lv lim xs x k ys i] lv i(2) by simp
      moreover have "ui_add (Suc (length vs0)) (ui_sub (lv_span (expect i ys)) 1) = lv_span (expect i ys) + length vs0"
      proof (cases "lv_span (expect i ys) = 0")
        case True
        then show ?thesis using s by (simp add: ui_add_def ui_sub_def)
      next
        case False
        then show ?thesis using s by simp
      qed
      ultimately show ?thesis using s i(2) by (simp add: new a g 1(2) expect_low [OF True] Let_def)
    next
      case False
      then have a: "a \<noteq> up ! i" and e: "\<exists>m \<in> set vs0. i < snd m" using pa(1) by (auto simp: not_le)
      then show ?thesis using g i(2) 1(2) expect_high [OF e] by (simp add: new)
    qed
  next
    case 2
    have "a \<notin> fst ` set xs" using d 2(2) by auto
    then have "lv' a i = lv a i" using new [OF i(2), of a] pred_at_in [OF up [OF i(2)]] by auto
    then show ?thesis using levels_okD [of lv lim "xs @ (x, k) # us0" a l vs i] lv 2(2) i by simp
  qed
  then show "lv' (fst n) i = Some (expect i vs)" using n by simp
qed


section \<open>The invariant\<close>

type_synonym 's zelem = "'s \<times> robj"

definition ekey :: "'s zelem \<Rightarrow> 's \<times> bytes" where
  "ekey e = (fst e, obj_str (snd e))"

definition zsl_max :: nat where
  "zsl_max = 2 ^ 32 - 3"

definition backs_ok :: "(nat \<Rightarrow> nat option option) \<Rightarrow> (nat \<times> nat) list \<Rightarrow> bool" where
  "backs_ok bk ns \<longleftrightarrow> (\<forall>us n vs. ns = us @ n # vs \<longrightarrow> bk (fst n) = Some (if us = [] then None else Some (fst (last us))))"

definition data_ok :: "(nat \<Rightarrow> (robj option \<times> 's dbl) option) \<Rightarrow> (nat \<times> nat) list \<Rightarrow> 's zelem list \<Rightarrow> bool" where
  "data_ok dat ns es \<longleftrightarrow> list_all2 (\<lambda>n e. dat (fst n) = Some (Some (snd e), Dbl (fst e))) ns es"

text \<open>The skip list \<open>zsl\<close> in the heap \<open>h\<close> has the nodes \<open>ns\<close> (addresses and heights) with the elements \<open>es\<close>.\<close>

definition zsl_nodes :: "'s zheap \<Rightarrow> zskiplist \<Rightarrow> (nat \<times> nat) list \<Rightarrow> bool" where
  "zsl_nodes h zsl ns \<longleftrightarrow>
     distinct (zsl_header zsl # map fst ns) \<and>
     levels_ok (lv_get h) (zsl_level zsl) ((zsl_header zsl, ZSKIPLIST_MAXLEVEL) # ns) \<and>
     zn_height h (zsl_header zsl) = Some ZSKIPLIST_MAXLEVEL \<and> (\<forall>n \<in> set ns. zn_height h (fst n) = Some (snd n)) \<and>
     (\<forall>i. zsl_level zsl \<le> i \<longrightarrow> i < ZSKIPLIST_MAXLEVEL \<longrightarrow> (\<exists>l. lv_get h (zsl_header zsl) i = Some l \<and> lv_forward l = None)) \<and>
     0 < zsl_level zsl \<and> zsl_level zsl \<le> ZSKIPLIST_MAXLEVEL \<and> (\<forall>n \<in> set ns. 0 < snd n \<and> snd n \<le> zsl_level zsl) \<and>
     backs_ok (zn_back h) ns \<and> zsl_tail zsl = (if ns = [] then None else Some (fst (last ns)))"

definition zsl_rep :: "('s :: linorder) zheap \<Rightarrow> zskiplist \<Rightarrow> (nat \<times> nat) list \<Rightarrow> 's zelem list \<Rightarrow> bool" where
  "zsl_rep h zsl ns es \<longleftrightarrow>
     zsl_nodes h zsl ns \<and> finite (dom h) \<and> zsl_length zsl = length ns \<and> length ns \<le> zsl_max \<and>
     data_ok (zn_dat h) ns es \<and> map_option fst (zn_dat h (zsl_header zsl)) = Some None \<and>
     sorted_wrt (<) (map ekey es) \<and> (\<forall>e \<in> set es. obj_ok (snd e))"

lemma zsl_nodesD:
  assumes "zsl_nodes h zsl ns"
  shows "distinct (zsl_header zsl # map fst ns)" "levels_ok (lv_get h) (zsl_level zsl) ((zsl_header zsl, ZSKIPLIST_MAXLEVEL) # ns)"
    "zn_height h (zsl_header zsl) = Some ZSKIPLIST_MAXLEVEL" "\<forall>n \<in> set ns. zn_height h (fst n) = Some (snd n)"
    "\<forall>i. zsl_level zsl \<le> i \<longrightarrow> i < ZSKIPLIST_MAXLEVEL \<longrightarrow> (\<exists>l. lv_get h (zsl_header zsl) i = Some l \<and> lv_forward l = None)"
    "0 < zsl_level zsl" "zsl_level zsl \<le> ZSKIPLIST_MAXLEVEL" "\<forall>n \<in> set ns. 0 < snd n \<and> snd n \<le> zsl_level zsl"
    "backs_ok (zn_back h) ns" "zsl_tail zsl = (if ns = [] then None else Some (fst (last ns)))"
  using assms unfolding zsl_nodes_def by blast+

lemma zsl_repD:
  assumes "zsl_rep h zsl ns es"
  shows "zsl_nodes h zsl ns" "finite (dom h)" "zsl_length zsl = length ns" "length ns \<le> zsl_max" "data_ok (zn_dat h) ns es"
    "map_option fst (zn_dat h (zsl_header zsl)) = Some None" "sorted_wrt (<) (map ekey es)" "\<forall>e \<in> set es. obj_ok (snd e)"
  using assms unfolding zsl_rep_def by blast+

lemma data_ok_length: "data_ok dat ns es \<Longrightarrow> length ns = length es"
  by (simp add: data_ok_def list_all2_lengthD)

lemma data_ok_node:
  assumes "data_ok (zn_dat h) ns es" "i < length ns"
  obtains nd where "h (fst (ns ! i)) = Some nd" "zn_obj nd = Some (snd (es ! i))" "zn_score nd = Dbl (fst (es ! i))"
  using list_all2_nthD [OF assms(1) [unfolded data_ok_def] assms(2)] by (auto simp: zn_dat_def)

lemma expect_0: "\<forall>n \<in> set ys. 0 < snd n \<Longrightarrow> lv_forward (expect 0 ys) = (if ys = [] then None else Some (fst (hd ys)))"
  by (cases ys) auto

section \<open>Cuts\<close>

lemma cut_index:
  assumes "\<And>i. i < length ns \<Longrightarrow> \<exists>nd. h (fst (ns ! i)) = Some nd \<and> test (Suc i) nd = Some (i < k)" "k \<le> length ns"
  shows "cut_ok test h (n0 # take k ns) (drop k ns)"
  unfolding cut_ok_def
proof (intro allI impI)
  fix us n vs assume "(n0 # take k ns) @ drop k ns = us @ n # vs" "us \<noteq> []"
  then obtain us' where "us = n0 # us'" "ns = us' @ n # vs" by (cases us) auto
  moreover have "length us < length (n0 # take k ns) \<longleftrightarrow> length us' < k" if "us = n0 # us'" "length us' < length ns"
    using that assms(2) by simp
  ultimately show "\<exists>nd. h (fst n) = Some nd \<and> test (length us) nd = Some (length us < length (n0 # take k ns))"
    using assms(1) [of "length us'"] by simp
qed

text \<open>The number of elements in front of which a property of elements, true up to there, becomes false.\<close>

definition cutpos :: "('e \<Rightarrow> bool) \<Rightarrow> 'e list \<Rightarrow> nat" where
  "cutpos P es = length (takeWhile P es)"

definition prefix_closed :: "('e \<Rightarrow> bool) \<Rightarrow> 'e list \<Rightarrow> bool" where
  "prefix_closed P es \<longleftrightarrow> (\<forall>i j. i \<le> j \<longrightarrow> j < length es \<longrightarrow> P (es ! j) \<longrightarrow> P (es ! i))"

lemma cut_le: "cutpos P es \<le> length es"
  by (simp add: cutpos_def length_takeWhile_le)

lemma cut_nth: "prefix_closed P es \<Longrightarrow> i < length es \<Longrightarrow> P (es ! i) \<longleftrightarrow> i < cutpos P es"
  unfolding prefix_closed_def cutpos_def by (metis leI le_less_trans nth_length_takeWhile takeWhile_nth nth_mem set_takeWhileD)

lemma take_cut: "take (cutpos P es) es = takeWhile P es" and drop_cut: "drop (cutpos P es) es = dropWhile P es"
  by (simp_all add: cutpos_def takeWhile_eq_take [symmetric] dropWhile_eq_drop [symmetric])

lemma sorted_prefix_closed:
  assumes "sorted_wrt (<) (map f es)" "\<And>a b. a \<in> set es \<Longrightarrow> b \<in> set es \<Longrightarrow> f a < f b \<Longrightarrow> P b \<Longrightarrow> P a"
  shows "prefix_closed P es"
  unfolding prefix_closed_def
proof (intro allI impI)
  fix i j assume ij: "i \<le> j" "j < length es" "P (es ! j)"
  show "P (es ! i)"
  proof (cases "i = j")
    case False
    then have "f (es ! i) < f (es ! j)" using ij assms(1) sorted_wrt_nth_less [of "(<)" "map f es" i j] by simp
    then show ?thesis using assms(2) [of "es ! i" "es ! j"] ij by simp
  qed (use ij in simp)
qed

text \<open>A test that reads score and object of a node, as a property of elements.\<close>

definition tests :: "(nat \<Rightarrow> 's zskiplistNode \<Rightarrow> bool option) \<Rightarrow> ('s zelem \<Rightarrow> bool) \<Rightarrow> 's zelem set \<Rightarrow> bool" where
  "tests test P E \<longleftrightarrow> (\<forall>t nd e. e \<in> E \<longrightarrow> zn_obj nd = Some (snd e) \<longrightarrow> zn_score nd = Dbl (fst e) \<longrightarrow> test t nd = Some (P e))"

lemma testsD: "tests test P E \<Longrightarrow> e \<in> E \<Longrightarrow> zn_obj nd = Some (snd e) \<Longrightarrow> zn_score nd = Dbl (fst e) \<Longrightarrow> test t nd = Some (P e)"
  unfolding tests_def by iprover

lemma cut_tests:
  assumes dat: "data_ok (zn_dat h) ns es" and t: "tests test P (set es)" and p: "prefix_closed P es"
  shows "cut_ok test h (n0 # take (cutpos P es) ns) (drop (cutpos P es) ns)"
proof (rule cut_index)
  fix i assume i: "i < length ns"
  then obtain nd where nd: "h (fst (ns ! i)) = Some nd" "zn_obj nd = Some (snd (es ! i))" "zn_score nd = Dbl (fst (es ! i))"
    using data_ok_node [OF dat] by blast
  have l: "i < length es" using i data_ok_length [OF dat] by simp
  have "test (Suc i) nd = Some (P (es ! i))" by (rule testsD [OF t nth_mem [OF l] nd(2,3)])
  then show "\<exists>nd. h (fst (ns ! i)) = Some nd \<and> test (Suc i) nd = Some (i < cutpos P es)"
    using nd(1) cut_nth [OF p l] by simp
qed (use cut_le [of P es] data_ok_length [OF dat] in simp)

lemma zsl_descend_cut:
  assumes n: "zsl_nodes h zsl ns" and len: "length ns \<le> zsl_max" and c: "cut_ok test h ((zsl_header zsl, ZSKIPLIST_MAXLEVEL) # take k ns) (drop k ns)"
    and add: "\<And>a b. a + b < 2 ^ 32 \<Longrightarrow> add a b = a + b"
  shows "ensures (zsl_descend add test h (zsl_level zsl) (zsl_header zsl) 0)
    (\<lambda>ur. length ur = zsl_level zsl \<and> (\<forall>j < zsl_level zsl. pred_at j ((zsl_header zsl, ZSKIPLIST_MAXLEVEL) # take k ns) (ur ! j)))"
  using zsl_descend_pred [OF _ c add, of "zsl_level zsl" "zsl_level zsl" "[]" "zsl_header zsl" ZSKIPLIST_MAXLEVEL "take k ns"]
    zsl_nodesD(2,7) [OF n] len by (simp add: zsl_max_def)

lemma pred_at_last:
  assumes "pred_at 0 ((hd0, m) # take k ns) p" "\<forall>n \<in> set ns. 0 < snd n" "0 < m" "k \<le> length ns"
  shows "snd p = k" "fst p = (if k = 0 then hd0 else fst (ns ! (k - 1)))"
proof -
  have "\<forall>n \<in> set ((hd0, m) # take k ns). 0 < snd n" using assms(2,3) by (auto dest: in_set_takeD)
  from pred_at_0 [OF assms(1) this] have p: "p = (fst (last ((hd0, m) # take k ns)), length (take k ns))" by simp
  show "snd p = k" using p assms(4) by simp
  show "fst p = (if k = 0 then hd0 else fst (ns ! (k - 1)))" using p assms(4) by (auto simp: last_conv_nth)
qed

end
