(* ===== verification/Skiplist_Update.thy ===== *)
theory Skiplist_Update
  imports Skiplist_Inv
begin

text \<open>
  Insertion and deletion in skip lists: what the loops of \<open>zslInsert\<close> and \<open>zslDeleteNode\<close> leave behind
  satisfies the invariant for the list with one element more or less.
\<close>

section \<open>Insertion\<close>

lemma backs_insert:
  assumes "backs_ok bk (xs @ ys)" "distinct (map fst (xs @ ys))" "x \<notin> fst ` set (xs @ ys)"
    and "bk' x = Some (if xs = [] then None else Some (fst (last xs)))" "ys \<noteq> [] \<Longrightarrow> bk' (fst (hd ys)) = Some (Some x)"
    and "\<And>y. y \<noteq> x \<Longrightarrow> (ys = [] \<or> y \<noteq> fst (hd ys)) \<Longrightarrow> bk' y = bk y"
  shows "backs_ok bk' (xs @ (x, k) # ys)"
  unfolding backs_ok_def
proof (intro allI impI)
  fix us n vs assume sp: "xs @ (x, k) # ys = us @ n # vs"
  have bk: "bk (fst n) = Some (if us = [] then None else Some (fst (last us)))" if "xs @ ys = us @ n # vs" for us n vs
    using assms(1) that unfolding backs_ok_def by blast
  consider vs0 where "xs = us @ n # vs0" | "us = xs" "n = (x, k)" | us0 where "us = xs @ (x, k) # us0" "ys = us0 @ n # vs"
    using sp by (auto simp: append_eq_append_conv2 append_eq_Cons_conv Cons_eq_append_conv)
  then show "bk' (fst n) = Some (if us = [] then None else Some (fst (last us)))"
  proof cases
    case 1
    then have "fst n \<noteq> x" "ys = [] \<or> fst n \<noteq> fst (hd ys)" using assms(2,3) by (auto simp: neq_Nil_conv)
    then show ?thesis using assms(6) [of "fst n"] bk [of us n "vs0 @ ys"] 1 by simp
  next
    case 3
    show ?thesis
    proof (cases us0)
      case Nil
      then show ?thesis using 3 assms(5) by simp
    next
      case (Cons u us1)
      then have "fst n \<noteq> x" "ys = [] \<or> fst n \<noteq> fst (hd ys)" using assms(2,3) 3 by auto
      then show ?thesis using assms(6) [of "fst n"] bk [of "xs @ us0" n vs] 3 Cons by simp
    qed
  qed (use assms(4) in simp)
qed

lemma backs_delete:
  assumes "backs_ok bk (xs @ (x, k) # ys)" "distinct (map fst (xs @ (x, k) # ys))"
    and "ys \<noteq> [] \<Longrightarrow> bk' (fst (hd ys)) = bk x" "\<And>y. (ys = [] \<or> y \<noteq> fst (hd ys)) \<Longrightarrow> bk' y = bk y"
  shows "backs_ok bk' (xs @ ys)"
  unfolding backs_ok_def
proof (intro allI impI)
  fix us n vs assume sp: "xs @ ys = us @ n # vs"
  have bk: "bk (fst n) = Some (if us = [] then None else Some (fst (last us)))" if "xs @ (x, k) # ys = us @ n # vs" for us n vs
    using assms(1) that unfolding backs_ok_def by blast
  consider vs0 where "xs = us @ n # vs0" | us0 where "us = xs @ us0" "ys = us0 @ n # vs"
    using sp by (auto simp: append_eq_append_conv2 append_eq_Cons_conv Cons_eq_append_conv)
  then show "bk' (fst n) = Some (if us = [] then None else Some (fst (last us)))"
  proof cases
    case 1
    then have "ys = [] \<or> fst n \<noteq> fst (hd ys)" using assms(2) by (auto simp: neq_Nil_conv)
    then show ?thesis using assms(4) [of "fst n"] bk [of us n "vs0 @ (x, k) # ys"] 1 by simp
  next
    case 2
    show ?thesis
    proof (cases us0)
      case Nil
      then show ?thesis using 2 assms(3) bk [of xs "(x, k)" ys] by simp
    next
      case (Cons u us1)
      then have "ys = [] \<or> fst n \<noteq> fst (hd ys)" using assms(2) 2 by auto
      then show ?thesis using assms(4) [of "fst n"] bk [of "xs @ (x, k) # us0" n vs] 2 Cons by simp
    qed
  qed
qed

text \<open>The back pointer of the first of the nodes \<open>ys\<close>, if there is one.\<close>

lemma set_backward_first:
  assumes "\<forall>n \<in> set ys. 0 < snd n \<and> zn_height h (fst n) = Some (snd n)"
  obtains h' where "(case lv_forward (expect 0 ys) of Some f \<Rightarrow> set_backward h f b | None \<Rightarrow> Some h) = Some h'" "zn_dat h' = zn_dat h"
    "zn_height h' = zn_height h" "lv_get h' = lv_get h" "zn_back h' = (if ys = [] then zn_back h else (zn_back h)(fst (hd ys) \<mapsto> b))"
proof (cases ys)
  case Nil
  then show ?thesis using that [of h] by simp
next
  case (Cons y ys')
  then have y: "0 < snd y" "zn_height h (fst y) = Some (snd y)" using assms by simp_all
  obtain h' where "set_backward h (fst y) b = Some h'" "zn_dat h' = zn_dat h" "zn_back h' = (zn_back h)(fst y \<mapsto> b)" "zn_height h' = zn_height h" "lv_get h' = lv_get h"
    by (rule set_backward_Some [OF y(2)])
  then show ?thesis using that [of h'] Cons y(1) by simp
qed

definition zmem_ok :: "'s zmem \<Rightarrow> bool" where
  "zmem_ok M \<longleftrightarrow> (\<forall>h. finite (dom h) \<longrightarrow> h (zm_alloc M h) = None)"

lemma zslCreateNode_views:
  assumes "zslCreateNode M level score obj h = (h', x)" "zmem_ok M" "finite (dom h)"
  shows "h x = None" "zn_dat h' = (zn_dat h)(x \<mapsto> (obj, score))" "zn_height h' = (zn_height h)(x \<mapsto> level)"
    "zn_back h' = (zn_back h)(x \<mapsto> zm_backward M)" "\<And>y. y \<noteq> x \<Longrightarrow> lv_get h' y = lv_get h y"
proof -
  have e: "x = zm_alloc M h" "h' = h(x \<mapsto> \<lparr>zn_obj = obj, zn_score = score, zn_backward = zm_backward M, zn_level = map (zm_level M) [0..<level]\<rparr>)"
    using assms(1) by (auto simp: zslCreateNode_def Let_def)
  show "h x = None" using assms(2,3) e(1) by (simp add: zmem_ok_def)
  show "zn_dat h' = (zn_dat h)(x \<mapsto> (obj, score))" "zn_height h' = (zn_height h)(x \<mapsto> level)"
    "zn_back h' = (zn_back h)(x \<mapsto> zm_backward M)" by (auto simp: e(2) zn_views)
  show "lv_get h' y = lv_get h y" if "y \<noteq> x" for y using that by (auto simp: e(2) lv_get_def fun_eq_iff)
qed

text \<open>The levels after the header has been raised.\<close>

lemma levels_raise:
  assumes lv: "levels_ok (lv_get h) lim ((hd0, m) # ns)" and d: "distinct (hd0 # map fst ns)" and r: "lv_range lim n
      (\<lambda>y j. if y = hd0 then map_option (lv_span_update (\<lambda>_. length ns mod 2 ^ 32)) (lv_get h y j) else lv_get h y j) h h1"
    and low: "\<forall>n \<in> set ns. snd n \<le> lim" and len: "length ns < 2 ^ 32"
    and none: "\<And>i. lim \<le> i \<Longrightarrow> i < m \<Longrightarrow> \<exists>l. lv_get h hd0 i = Some l \<and> lv_forward l = None"
  shows "levels_ok (lv_get h1) (lim + n) ((hd0, m) # ns)"
  unfolding levels_ok_def
proof (intro allI impI)
  fix us x vs i assume sp: "(hd0, m) # ns = us @ x # vs" and i: "i < min (snd x) (lim + n)"
  have g: "lv_get h1 y j = (if lim \<le> j \<and> j < lim + n then if y = hd0 then map_option (lv_span_update (\<lambda>_. length ns mod 2 ^ 32)) (lv_get h y j) else lv_get h y j else lv_get h y j)" for y j
    using r unfolding lv_range_def by simp
  show "lv_get h1 (fst x) i = Some (expect i vs)"
  proof (cases "lim \<le> i")
    case False
    then show ?thesis using levels_okD [of "lv_get h" lim us "fst x" "snd x" vs i] lv sp i g [of "fst x" i] by simp
  next
    case True
    then have x: "us = []" "x = (hd0, m)" "vs = ns" using sp i low by (auto simp: Cons_eq_append_conv)
    obtain l where l: "lv_get h hd0 i = Some l" "lv_forward l = None" using none [OF True] i x by auto
    have e: "expect i ns = \<lparr>lv_forward = None, lv_span = length ns\<rparr>" using expect_low [of ns i "[]"] low True by (simp add: order_trans [of _ lim i])
    show ?thesis using g [of hd0 i] l True i x len e by (simp add: zskiplistLevel.equality)
  qed
qed

lemma pred_at_header:
  assumes "\<forall>n \<in> set xs. snd n \<le> j" "j < m"
  shows "pred_at j ((hd0, m) # xs) (hd0, 0)"
  unfolding pred_at_def using assms by (intro exI [of _ "[]"]) auto


lemma levels_cong: "levels_ok lv lim ns \<Longrightarrow> (\<And>n. n \<in> set ns \<Longrightarrow> lv' (fst n) = lv (fst n)) \<Longrightarrow> levels_ok lv' lim ns"
  unfolding levels_ok_def by (metis in_set_conv_decomp)

lemma pred_at_height:
  assumes "pred_at j xs p" "\<forall>n \<in> set xs. zn_height h (fst n) = Some (snd n)"
  shows "\<exists>m. zn_height h (fst p) = Some m \<and> j < m"
proof -
  obtain us m vs where "xs = us @ (fst p, m) # vs" "j < m" using assms(1) unfolding pred_at_def by blast
  then show ?thesis using bspec [OF assms(2), of "(fst p, m)"] by auto
qed

text \<open>The two loops of \<open>zslInsert\<close> on the levels of the nodes around the new one.\<close>

lemma zsl_link_levels:
  assumes c: "zslCreateNode M level score obj h1 = (h2, x)" "zmem_ok M" "finite (dom h1)"
    and lv: "levels_ok (lv_get h1) lim (xs @ ys)" "distinct (map fst (xs @ ys))" "\<forall>n \<in> set (xs @ ys). zn_height h1 (fst n) = Some (snd n)"
    and ur: "length ur = lim" "\<And>j. j < lim \<Longrightarrow> pred_at j xs (ur ! j)"
    and b: "\<forall>m \<in> set xs. 0 < snd m" "length (xs @ ys) < 2 ^ 32 - 1" "0 < lim" "level \<le> lim"
  shows "ensures (do { h \<leftarrow> zsl_link level 0 x ur h2; zsl_untouched (lim - level) level ur h })
    (\<lambda>h'. zn_same h2 h' \<and> levels_ok (lv_get h') lim (xs @ (x, level) # ys) \<and> (\<forall>y j. lim \<le> j \<longrightarrow> lv_get h' y j = lv_get h2 y j))"
proof -
  note v = zslCreateNode_views [OF c]
  have fresh: "x \<notin> fst ` set (xs @ ys)"
  proof
    assume "x \<in> fst ` set (xs @ ys)"
    then have "zn_height h1 x \<noteq> None" using lv(3) by auto
    then show False using v(1) by (simp add: zn_height_def)
  qed
  have ux: "fst (ur ! j) \<noteq> x" if "j < lim" for j using pred_at_in [OF ur(2) [OF that]] fresh by auto
  have hgt: "\<exists>m. zn_height h2 (fst (ur ! j)) = Some m \<and> j < m" if "j < lim" for j
    using pred_at_height [OF ur(2) [OF that], of h1] lv(3) ux [OF that] v(3) by simp
  have link: "ensures (zsl_link level 0 x ur h2) (lv_range 0 level
     (\<lambda>y j. let d = ui_sub (snd (ur ! 0)) (snd (ur ! j)) in
      if y = x then map_option (\<lambda>l. \<lparr>lv_forward = lv_forward l, lv_span = ui_sub (lv_span l) d\<rparr>) (lv_get h2 (fst (ur ! j)) j)
      else if y = fst (ur ! j) then Some \<lparr>lv_forward = Some x, lv_span = ui_add d 1\<rparr> else lv_get h2 y j) h2)" (is "ensures _ (lv_range 0 level ?link h2)")
    by (rule zsl_link_Some [of h2 x level]) (use v(3) b(4) ur(1) ux hgt in auto)
  have lv2: "levels_ok (lv_get h2) lim (xs @ ys)" by (rule levels_cong [OF lv(1)]) (use fresh v(5) in force)
  show ?thesis
  proof (rule ensures_bindI [OF link])
    fix h3 assume h3: "lv_range 0 level ?link h2 h3"
    have same3: "zn_same h2 h3" using h3 by (simp add: lv_range_def)
    have "ensures (zsl_untouched (lim - level) level ur h3) (lv_range level (lim - level)
      (\<lambda>y j. if y = fst (ur ! j) then map_option (\<lambda>l. l\<lparr>lv_span := ui_add (lv_span l) 1\<rparr>) (lv_get h3 y j) else lv_get h3 y j) h3)"
      by (rule zsl_untouched_Some) (use b(4) ur(1) hgt same3 in \<open>auto simp: zn_same_def\<close>)
    then show "ensures (zsl_untouched (lim - level) level ur h3) (\<lambda>h'. zn_same h2 h' \<and>
      levels_ok (lv_get h') lim (xs @ (x, level) # ys) \<and> (\<forall>y j. lim \<le> j \<longrightarrow> lv_get h' y j = lv_get h2 y j))"
    proof (rule ensures_mono)
      fix h4 assume h4: "lv_range level (lim - level)
        (\<lambda>y j. if y = fst (ur ! j) then map_option (\<lambda>l. l\<lparr>lv_span := ui_add (lv_span l) 1\<rparr>) (lv_get h3 y j) else lv_get h3 y j) h3 h4"
      have "levels_ok (lv_get h4) lim (xs @ (x, level) # ys)"
        by (rule levels_insert [OF lv2 lv(2) fresh b(1,2) ur(2) b(3,4)]) (use h3 h4 b(4) in \<open>auto simp: lv_range_def\<close>)
      moreover have "zn_same h2 h4" using h4 same3 zn_same_trans by (auto simp: lv_range_def)
      ultimately show "zn_same h2 h4 \<and> levels_ok (lv_get h4) lim (xs @ (x, level) # ys) \<and> (\<forall>y j. lim \<le> j \<longrightarrow> lv_get h4 y j = lv_get h2 y j)"
        using h3 h4 b(4) by (simp add: lv_range_def)
    qed
  qed
qed

text \<open>The pointers of a list after the loops of \<open>zslInsert\<close>.\<close>

definition zsl_grown :: "'s zmem \<Rightarrow> 's zheap \<Rightarrow> zskiplist \<Rightarrow> nat \<Rightarrow> nat \<Rightarrow> robj \<Rightarrow> 's dbl \<Rightarrow> (nat \<times> nat) list \<Rightarrow> (nat \<times> nat) list \<Rightarrow> 's zheap \<times> nat \<Rightarrow> bool" where
  "zsl_grown M h zsl lim level obj score xs ys r \<longleftrightarrow> (case r of (h', x) \<Rightarrow>
      h x = None \<and> zn_dat h' = (zn_dat h)(x \<mapsto> (Some obj, score)) \<and> zn_height h' = (zn_height h)(x \<mapsto> level) \<and>
      zn_back h' = (zn_back h)(x \<mapsto> zm_backward M) \<and>
      levels_ok (lv_get h') lim ((zsl_header zsl, ZSKIPLIST_MAXLEVEL) # xs @ (x, level) # ys) \<and>
      (\<forall>i. lim \<le> i \<longrightarrow> lv_get h' (zsl_header zsl) i = lv_get h (zsl_header zsl) i))"

lemma insert_levels:
  assumes n: "zsl_nodes h zsl (xs @ ys)" and len: "length (xs @ ys) < zsl_max" and zl: "zsl_length zsl = length (xs @ ys)"
    and fin: "finite (dom h)" and M: "zmem_ok M" and level: "0 < level" "level \<le> ZSKIPLIST_MAXLEVEL"
    and lur: "length ur = zsl_level zsl" and ur: "\<And>j. j < zsl_level zsl \<Longrightarrow> pred_at j ((zsl_header zsl, ZSKIPLIST_MAXLEVEL) # xs) (ur ! j)"
    and k: "k = level - zsl_level zsl" and ur': "ur' = ur @ replicate k (zsl_header zsl, 0)"
  shows "ensures (do {
     h \<leftarrow> zsl_raise k (zsl_level zsl) (zsl_header zsl) (zsl_length zsl) h;
     let r = zslCreateNode M level score (Some obj) h;
     h \<leftarrow> (zsl_link level 0 (snd r) ur' (fst r) \<bind> zsl_untouched (zsl_level zsl + k - level) level ur');
     Some (h, snd r) }) (zsl_grown M h zsl (zsl_level zsl + k) level obj score xs ys)"
proof -
  let ?hd = "zsl_header zsl" and ?lim = "zsl_level zsl" and ?lim' = "zsl_level zsl + k"
  let ?xs = "(?hd, ZSKIPLIST_MAXLEVEL) # xs"
  note nd = zsl_nodesD [OF n]
  have kb: "?lim + k \<le> ZSKIPLIST_MAXLEVEL" "level \<le> ?lim'" using k level nd(7) by auto
  have low: "\<forall>m \<in> set (xs @ ys). snd m \<le> ?lim" "\<forall>m \<in> set ?xs. 0 < snd m" using nd(8) by (auto simp: ZSKIPLIST_MAXLEVEL_def)
  have up: "pred_at j ?xs (ur' ! j)" if "j < ?lim'" for j
  proof (cases "j < ?lim")
    case True
    then show ?thesis using ur lur by (simp add: ur' nth_append)
  next
    case False
    moreover have "pred_at j ?xs (?hd, 0)" by (rule pred_at_header) (use low that False kb in \<open>force+\<close>)
    ultimately show ?thesis using that lur by (simp add: ur' nth_append)
  qed
  have lens: "length (xs @ ys) < 2 ^ 32" using len by (simp add: zsl_max_def)
  show ?thesis
  proof (rule ensures_bindI [OF zsl_raise_Some [OF nd(3) kb(1)]])
    fix h1 assume h1: "lv_range ?lim k (\<lambda>y j. if y = ?hd then map_option (lv_span_update (\<lambda>_. zsl_length zsl mod 2 ^ 32)) (lv_get h y j) else lv_get h y j) h h1"
    have lv1: "levels_ok (lv_get h1) ?lim' (?xs @ ys)"
      using levels_raise [OF nd(2,1) h1 [unfolded zl] low(1) lens] nd(5) by simp
    have same1: "zn_same h h1" and above: "\<And>i. ?lim' \<le> i \<Longrightarrow> lv_get h1 ?hd i = lv_get h ?hd i" using h1 by (simp_all add: lv_range_def)
    have dom1: "finite (dom h1)" using fin same1 unfolding dom_height [of h1] zn_same_def by (simp add: dom_height)
    obtain h2 x where c: "zslCreateNode M level score (Some obj) h1 = (h2, x)" by (cases "zslCreateNode M level score (Some obj) h1")
    note v = zslCreateNode_views [OF c M dom1]
    have hx: "h x = None" using v(1) same1 unfolding zn_same_def zn_height_def by (metis map_option_is_None)
    then have xh: "?hd \<noteq> x" using nd(3) by (auto simp: zn_height_def)
    have "ensures (zsl_link level 0 x ur' h2 \<bind> zsl_untouched (?lim' - level) level ur')
      (\<lambda>h'. zn_same h2 h' \<and> levels_ok (lv_get h') ?lim' (?xs @ (x, level) # ys) \<and> (\<forall>y j. ?lim' \<le> j \<longrightarrow> lv_get h' y j = lv_get h2 y j))"
      by (rule zsl_link_levels [OF c M dom1 lv1 _ _ _ up low(2)])
        (use nd(1,3,4,6) same1 lur ur' len kb in \<open>auto simp: zn_same_def zsl_max_def\<close>)
    then show "ensures (let r = zslCreateNode M level score (Some obj) h1 in
        (zsl_link level 0 (snd r) ur' (fst r) \<bind> zsl_untouched (?lim' - level) level ur') \<bind> (\<lambda>h. Some (h, snd r)))
      (zsl_grown M h zsl ?lim' level obj score xs ys)"
      unfolding c Let_def fst_conv snd_conv
      by (rule ensures_bindI) (use hx xh same1 v above in \<open>simp add: zsl_grown_def zn_same_def\<close>)
  qed
qed

definition zsl_attach :: "zskiplist \<Rightarrow> nat \<Rightarrow> nat \<Rightarrow> 's zheap \<Rightarrow> ('s zheap \<times> zskiplist \<times> nat) option" where
  "zsl_attach zsl u0 x h = do {
     h \<leftarrow> set_backward h x (if u0 = zsl_header zsl then None else Some u0);
     l \<leftarrow> lv_get h x 0;
     h \<leftarrow> (case lv_forward l of Some f \<Rightarrow> set_backward h f (Some x) | None \<Rightarrow> Some h);
     let zsl = (if lv_forward l = None then zsl\<lparr>zsl_tail := Some x\<rparr> else zsl);
     Some (h, zsl\<lparr>zsl_length := ul_add (zsl_length zsl) 1\<rparr>, x) }"

lemma zslInsert_steps:
  "zslInsert M rnd zsl (Dbl s) obj h = do {
     ur \<leftarrow> zsl_descend ui_add (zsl_before (Dbl s) obj) h (zsl_level zsl) (zsl_header zsl) 0;
     level \<leftarrow> zslRandomLevel rnd;
     p \<leftarrow> (do {
       h \<leftarrow> zsl_raise (level - zsl_level zsl) (zsl_level zsl) (zsl_header zsl) (zsl_length zsl) h;
       let r = zslCreateNode M level (Dbl s) (Some obj) h;
       h \<leftarrow> (zsl_link level 0 (snd r) (ur @ replicate (level - zsl_level zsl) (zsl_header zsl, 0)) (fst r) \<bind>
             zsl_untouched (zsl_level zsl + (level - zsl_level zsl) - level) level (ur @ replicate (level - zsl_level zsl) (zsl_header zsl, 0)));
       Some (h, snd r) });
     u0 \<leftarrow> arr_get (ur @ replicate (level - zsl_level zsl) (zsl_header zsl, 0)) 0;
     zsl_attach (zsl\<lparr>zsl_level := zsl_level zsl + (level - zsl_level zsl)\<rparr>) (fst u0) (snd p) (fst p) }"
proof -
  have z: "(if level > zsl_level zsl then zsl\<lparr>zsl_level := level\<rparr> else zsl) = zsl\<lparr>zsl_level := zsl_level zsl + (level - zsl_level zsl)\<rparr>" for level
    by simp
  show ?thesis unfolding zslInsert_def zsl_attach_def Let_def z Option.bind_assoc Option.bind_lunit fst_conv snd_conv by simp
qed

text \<open>The specification of insertion: behind all smaller elements.\<close>

definition zins :: "('s :: linorder) zelem \<Rightarrow> 's zelem list \<Rightarrow> 's zelem list" where
  "zins e es = takeWhile (\<lambda>x. ekey x < ekey e) es @ e # dropWhile (\<lambda>x. ekey x < ekey e) es"

lemma sorted_mid: "sorted_wrt (<) (xs @ ys) \<Longrightarrow> \<forall>x \<in> set xs. x < k \<Longrightarrow> \<forall>y \<in> set ys. k < y \<Longrightarrow> sorted_wrt (<) (xs @ k # ys)"
  for k :: "'a :: linorder"
  by (simp add: sorted_wrt_append)

lemma neq_not_less: "a \<noteq> b \<Longrightarrow> \<not> b < a \<Longrightarrow> a < b"
  for a :: "'a :: linorder"
  by simp

lemma sorted_zins:
  assumes "sorted_wrt (<) (map ekey es)" "ekey e \<notin> ekey ` set es"
  shows "sorted_wrt (<) (map ekey (zins e es))"
proof -
  let ?P = "\<lambda>x. ekey x < ekey e"
  have "map ekey es = map ekey (takeWhile ?P es) @ map ekey (dropWhile ?P es)" by (metis map_append takeWhile_dropWhile_id)
  then have s: "sorted_wrt (<) (map ekey (takeWhile ?P es) @ map ekey (dropWhile ?P es))" using assms(1) by simp
  have "ekey e < ekey x" if x: "x \<in> set (dropWhile ?P es)" for x
  proof -
    obtain y ys where d: "dropWhile ?P es = y # ys" using x by (cases "dropWhile ?P es") auto
    have ny: "\<not> ekey y < ekey e" using d hd_dropWhile [of ?P es] by simp
    have "y \<in> set es" using d set_dropWhileD [of y ?P es] by simp
    then have "ekey e \<noteq> ekey y" using assms(2) by auto
    then have "ekey e < ekey y" using ny by (rule neq_not_less)
    moreover have "x = y \<or> ekey y < ekey x" using s d x by (auto simp: sorted_wrt_append simp del: less_prod_simp)
    ultimately show ?thesis using less_trans by blast
  qed
  then have "\<forall>k \<in> set (map ekey (dropWhile ?P es)). ekey e < k" by simp
  moreover have "\<forall>k \<in> set (map ekey (takeWhile ?P es)). k < ekey e" by (auto dest: set_takeWhileD simp del: less_prod_simp)
  ultimately show ?thesis unfolding zins_def map_append list.map by (intro sorted_mid [OF s])
qed

lemma tests_before: "obj_ok obj \<Longrightarrow> \<forall>e \<in> E. obj_ok (snd e) \<Longrightarrow> tests (zsl_before (Dbl s) obj) (\<lambda>e. ekey e < (s, obj_str obj)) E"
  unfolding tests_def
proof (intro allI impI)
  fix t :: nat and nd :: "'a zskiplistNode" and e
  assume o: "obj_ok obj" "\<forall>e \<in> E. obj_ok (snd e)" "e \<in> E" and nd: "zn_obj nd = Some (snd e)" "zn_score nd = Dbl (fst e)"
  obtain r where "compareStringObjects (snd e) obj = Some r" "r < 0 \<longleftrightarrow> obj_str (snd e) < obj_str obj"
    using compareStringObjects_Some [of "snd e" obj] o by metis
  then show "zsl_before (Dbl s) obj t nd = Some (ekey e < (s, obj_str obj))"
    using nd by (auto simp: zsl_before_def ekey_def)
qed

lemma nodes_alloc:
  assumes "zsl_nodes h zsl ns" shows "y \<in> fst ` set ns \<Longrightarrow> y \<in> dom h" "zsl_header zsl \<in> dom h"
proof -
  show "zsl_header zsl \<in> dom h" unfolding dom_height using zsl_nodesD(3) [OF assms] by auto
  show "y \<in> dom h" if "y \<in> fst ` set ns" unfolding dom_height using zsl_nodesD(4) [OF assms] that by auto
qed

lemma zsl_attach_Some:
  assumes n: "zsl_nodes h0 zsl0 (xs @ ys)" and len: "length (xs @ ys) < zsl_max" "zsl_length zsl0 = length (xs @ ys)"
    and g: "zsl_grown M h0 zsl0 lim level obj score xs ys (h, x)" and lim: "lim = zsl_level zsl0 + (level - zsl_level zsl0)"
    and level: "0 < level" "level \<le> ZSKIPLIST_MAXLEVEL" and u0: "u0 = (if xs = [] then zsl_header zsl0 else fst (last xs))"
  shows "ensures (zsl_attach (zsl0\<lparr>zsl_level := lim\<rparr>) u0 x h) (\<lambda>(h', zsl', x').
    zsl_nodes h' zsl' (xs @ (x, level) # ys) \<and> zsl_header zsl' = zsl_header zsl0 \<and> zsl_length zsl' = length (xs @ ys) + 1 \<and>
    zn_dat h' = (zn_dat h0)(x \<mapsto> (Some obj, score)) \<and> dom h' = insert x (dom h0) \<and> x' = x)"
proof -
  note nd = zsl_nodesD [OF n]
  have v: "h0 x = None" "zn_dat h = (zn_dat h0)(x \<mapsto> (Some obj, score))" "zn_height h = (zn_height h0)(x \<mapsto> level)"
    "zn_back h = (zn_back h0)(x \<mapsto> zm_backward M)" "levels_ok (lv_get h) lim ((zsl_header zsl0, ZSKIPLIST_MAXLEVEL) # xs @ (x, level) # ys)"
    "\<And>i. lim \<le> i \<Longrightarrow> lv_get h (zsl_header zsl0) i = lv_get h0 (zsl_header zsl0) i"
    using g by (simp_all add: zsl_grown_def)
  have x: "x \<notin> fst ` set (xs @ ys)" "x \<noteq> zsl_header zsl0" using nodes_alloc [OF n] v(1) by (metis domIff)+
  have lb: "level \<le> lim" "0 < lim" "lim \<le> ZSKIPLIST_MAXLEVEL" "zsl_level zsl0 \<le> lim" using lim level nd(6,7) by auto
  have ub: "(if u0 = zsl_header zsl0 then None else Some u0) = (if xs = [] then None else Some (fst (last xs)))"
  proof (cases "xs = []")
    case False
    then have "fst (last xs) \<in> fst ` set (xs @ ys)" by simp
    moreover have "zsl_header zsl0 \<notin> fst ` set (xs @ ys)" using nd(1) by (simp add: image_Un)
    ultimately have "u0 \<noteq> zsl_header zsl0" using u0 False by metis
    then show ?thesis using u0 False by simp
  qed (use u0 in simp)
  obtain h1 where h1: "set_backward h x (if u0 = zsl_header zsl0 then None else Some u0) = Some h1" "zn_dat h1 = zn_dat h"
    "zn_back h1 = (zn_back h)(x \<mapsto> (if xs = [] then None else Some (fst (last xs))))" "zn_height h1 = zn_height h" "lv_get h1 = lv_get h"
    using set_backward_Some [of h x level] v(3) ub by auto
  have l0: "lv_get h x 0 = Some (expect 0 ys)" using levels_okD [of "lv_get h" lim "(zsl_header zsl0, ZSKIPLIST_MAXLEVEL) # xs" x level ys 0] v(5) level(1) lb(2) by simp
  have f0: "lv_forward (expect 0 ys) = (if ys = [] then None else Some (fst (hd ys)))" by (rule expect_0) (use nd(8) in auto)
  have "\<forall>n \<in> set ys. 0 < snd n \<and> zn_height h1 (fst n) = Some (snd n)" using nd(4,8) x(1) v(3) h1(4) by auto
  then obtain h2 where h2: "(case lv_forward (expect 0 ys) of Some f \<Rightarrow> set_backward h1 f (Some x) | None \<Rightarrow> Some h1) = Some h2"
    "zn_dat h2 = zn_dat h1" "zn_height h2 = zn_height h1" "lv_get h2 = lv_get h1"
    "zn_back h2 = (if ys = [] then zn_back h1 else (zn_back h1)(fst (hd ys) \<mapsto> Some x))" by (rule set_backward_first)
  note h2 = h2 [unfolded h1(2,4,5)]
  let ?zsl = "zsl0\<lparr>zsl_level := lim, zsl_tail := (if ys = [] then Some x else zsl_tail zsl0), zsl_length := length (xs @ ys) + 1\<rparr>"
  have r: "zsl_attach (zsl0\<lparr>zsl_level := lim\<rparr>) u0 x h = Some (h2, ?zsl, x)"
    using h1 h2(1) l0 f0 len by (auto simp: zsl_attach_def zsl_max_def)
  have b: "backs_ok (zn_back h2) (xs @ (x, level) # ys)"
    by (rule backs_insert [OF nd(9) _ x(1)]) (use nd(1) h2(5) h1(3) v(4) x in auto)
  have low: "\<forall>n \<in> set (xs @ ys). 0 < snd n \<and> snd n \<le> lim" using nd(8) lb(4) order_trans by blast
  have "\<exists>l. lv_get h2 (zsl_header zsl0) i = Some l \<and> lv_forward l = None" if "lim \<le> i" "i < ZSKIPLIST_MAXLEVEL" for i
    using nd(5) lb(4) that h2(4) v(6) by simp
  then have "zsl_nodes h2 ?zsl (xs @ (x, level) # ys)"
    unfolding zsl_nodes_def using nd(1,3,4,10) v(3,5) x lb(1-3) level low h2(3,4) b by auto
  moreover have "dom h2 = insert x (dom h0)" using h2(3) v(3) unfolding dom_height [of h2] by (auto simp: dom_height)
  ultimately show ?thesis using r h2(2) v(2) by simp
qed


text \<open>The generator of levels ends: it returns a large enough number before the level overflows an \<open>int\<close>.\<close>

definition rnd_ok :: "(nat \<Rightarrow> nat) \<Rightarrow> bool" where
  "rnd_ok rnd \<longleftrightarrow> (\<exists>n < 2 ^ 31 - 1. 0xFFFF \<le> 4 * (rnd n AND 0xFFFF))"

lemma zslRandomLevel_loop_Some:
  "0xFFFF \<le> 4 * (rnd (n + d) AND 0xFFFF) \<Longrightarrow> level + d < 2 ^ 31 \<Longrightarrow> ensures (zslRandomLevel_loop rnd n level) (\<lambda>l. level \<le> l)"
proof (induction d arbitrary: n level)
  case 0
  then show ?case by (subst zslRandomLevel_loop.simps) simp
next
  case (Suc d)
  have "ensures (zslRandomLevel_loop rnd (Suc n) (level + 1)) (\<lambda>l. level + 1 \<le> l)" by (rule Suc.IH) (use Suc.prems in simp_all)
  then have "ensures (zslRandomLevel_loop rnd (Suc n) (level + 1)) (\<lambda>l. level \<le> l)" by (rule ensures_mono) simp
  then show ?case using Suc.prems by (subst zslRandomLevel_loop.simps) simp
qed

lemma zslRandomLevel_Some:
  assumes "rnd_ok rnd" obtains level where "zslRandomLevel rnd = Some level" "0 < level" "level \<le> ZSKIPLIST_MAXLEVEL"
proof -
  obtain n where "n < 2 ^ 31 - 1" "0xFFFF \<le> 4 * (rnd n AND 0xFFFF)" using assms unfolding rnd_ok_def by blast
  then have "ensures (zslRandomLevel_loop rnd 0 1) (\<lambda>l. 1 \<le> l)" using zslRandomLevel_loop_Some [of rnd 0 n 1] by simp
  then show ?thesis by (rule ensuresE) (rule that, auto simp: zslRandomLevel_def ZSKIPLIST_MAXLEVEL_def)
qed

lemma data_ok_insert:
  assumes d: "data_ok dat ns es" and x: "x \<notin> fst ` set ns" "dat' = dat(x \<mapsto> (Some ob, Dbl s))"
  shows "data_ok dat' (take k ns @ (x, l) # drop k ns) (take k es @ (s, ob) # drop k es)"
proof -
  have "list_all2 (\<lambda>n e. dat' (fst n) = Some (Some (snd e), Dbl (fst e))) ns es"
    using d x unfolding data_ok_def list_all2_conv_all_nth by (auto simp: image_iff)
  then show ?thesis unfolding data_ok_def using x by (intro list_all2_appendI) auto
qed

text \<open>The list with a new element behind all smaller ones.\<close>

definition zpos :: "('s :: linorder) zelem \<Rightarrow> 's zelem list \<Rightarrow> nat" where
  "zpos e es = cutpos (\<lambda>x. ekey x < ekey e) es"

definition zput_at :: "nat \<Rightarrow> 'e \<Rightarrow> 'e list \<Rightarrow> 'e list" where
  "zput_at k e es = take k es @ e # drop k es"

lemma zins_put: "zins e es = zput_at (zpos e es) e es"
  by (simp add: zins_def zput_at_def zpos_def take_cut drop_cut)

lemma zslInsert_Some:
  assumes rep: "zsl_rep h zsl ns es" and M: "zmem_ok M" "rnd_ok rnd" and len: "length es < zsl_max"
    and ob: "obj_ok obj" "ekey (s, obj) \<notin> ekey ` set es"
  shows "ensures (zslInsert M rnd zsl (Dbl s) obj h) (\<lambda>(h', zsl', x). \<exists>level.
    zsl_rep h' zsl' (zput_at (zpos (s, obj) es) (x, level) ns) (zput_at (zpos (s, obj) es) (s, obj) es))"
proof -
  note r = zsl_repD [OF rep]
  let ?P = "\<lambda>e. ekey e < (s, obj_str obj)"
  let ?k = "cutpos ?P es"
  let ?xs = "take ?k ns" and ?ys = "drop ?k ns"
  have ns: "zsl_nodes h zsl (?xs @ ?ys)" "length ns = length es" using r(1) data_ok_length [OF r(5)] by simp_all
  have zk: "zpos (s, obj) es = ?k" by (simp add: zpos_def ekey_def)
  have zi: "zput_at ?k (s, obj) es = take ?k es @ (s, obj) # drop ?k es" by (simp add: zput_at_def)
  have pc: "prefix_closed ?P es" using r(7) by (rule sorted_prefix_closed) (rule less_trans)
  have ok: "\<forall>e \<in> set es. obj_ok (snd e)" by (rule r(8))
  have cut: "cut_ok (zsl_before (Dbl s) obj) h ((zsl_header zsl, ZSKIPLIST_MAXLEVEL) # ?xs) ?ys"
    by (rule cut_tests [OF r(5) tests_before [OF ob(1) ok] pc])
  obtain ur where ur: "zsl_descend ui_add (zsl_before (Dbl s) obj) h (zsl_level zsl) (zsl_header zsl) 0 = Some ur" "length ur = zsl_level zsl"
    "\<And>j. j < zsl_level zsl \<Longrightarrow> pred_at j ((zsl_header zsl, ZSKIPLIST_MAXLEVEL) # ?xs) (ur ! j)"
    by (rule ensuresE [OF zsl_descend_cut [OF r(1,4) cut, of ui_add]]) auto
  obtain level where level: "zslRandomLevel rnd = Some level" "0 < level" "level \<le> ZSKIPLIST_MAXLEVEL" using zslRandomLevel_Some [OF M(2)] .
  note nd = zsl_nodesD [OF r(1)]
  let ?ur = "ur @ replicate (level - zsl_level zsl) (zsl_header zsl, 0)"
  have u0: "arr_get ?ur 0 = Some (ur ! 0)" using ur(2) nd(6) by (simp add: arr_get_def nth_append)
  have "\<forall>m \<in> set ?xs. 0 < snd m" using nd(8) set_take_subset [of ?k ns] by blast
  then have "\<forall>m \<in> set ((zsl_header zsl, ZSKIPLIST_MAXLEVEL) # ?xs). 0 < snd m" by (simp add: ZSKIPLIST_MAXLEVEL_def)
  from pred_at_0 [OF ur(3) [OF nd(6)] this] have u0': "fst (ur ! 0) = (if ?xs = [] then zsl_header zsl else fst (last ?xs))"
    by (simp only: last.simps) simp
  have len': "length (?xs @ ?ys) < zsl_max" "zsl_length zsl = length (?xs @ ?ys)" using len ns(2) r(3) by simp_all
  show ?thesis unfolding zk zslInsert_steps ur(1) level(1) Option.bind_lunit
  proof (rule ensures_bindI [OF insert_levels [OF ns(1) len' r(2) M(1) level(2,3) ur(2,3) refl refl]])
    fix p assume g: "zsl_grown M h zsl (zsl_level zsl + (level - zsl_level zsl)) level obj (Dbl s) ?xs ?ys p"
    obtain h1 x where p: "p = (h1, x)" by (cases p)
    then have hx: "h x = None" using g by (simp add: zsl_grown_def)
    have x: "x \<notin> fst ` set ns" "x \<noteq> zsl_header zsl" using nodes_alloc [OF r(1)] hx by (metis domIff)+
    show "ensures (arr_get ?ur 0 \<bind> (\<lambda>u0. zsl_attach (zsl\<lparr>zsl_level := zsl_level zsl + (level - zsl_level zsl)\<rparr>) (fst u0) (snd p) (fst p)))
      (\<lambda>(h', zsl', x). \<exists>level. zsl_rep h' zsl' (zput_at ?k (x, level) ns) (zput_at ?k (s, obj) es))"
      unfolding u0 Option.bind_lunit p fst_conv snd_conv
    proof (rule ensures_mono [OF zsl_attach_Some [OF ns(1) len' g [unfolded p] refl level(2,3) u0']])
      fix q assume q: "case q of (h', zsl', x') \<Rightarrow> zsl_nodes h' zsl' (?xs @ (x, level) # ?ys) \<and> zsl_header zsl' = zsl_header zsl \<and>
        zsl_length zsl' = length (?xs @ ?ys) + 1 \<and> zn_dat h' = (zn_dat h)(x \<mapsto> (Some obj, Dbl s)) \<and> dom h' = insert x (dom h) \<and> x' = x"
      obtain h' zsl' x' where e: "q = (h', zsl', x')" by (cases q)
      have "data_ok (zn_dat h') (?xs @ (x, level) # ?ys) (zput_at ?k (s, obj) es)" unfolding zi by (rule data_ok_insert [OF r(5) x(1)]) (use q e in simp)
      moreover have "sorted_wrt (<) (map ekey (zput_at ?k (s, obj) es))" using sorted_zins [OF r(7) ob(2)] by (simp only: zins_put zk)
      moreover have "\<forall>e \<in> set (zput_at ?k (s, obj) es). obj_ok (snd e)" unfolding zi using r(8) ob(1) by (auto dest: in_set_takeD in_set_dropD)
      ultimately have "zsl_rep h' zsl' (?xs @ (x, level) # ?ys) (zput_at ?k (s, obj) es)"
        using q e r(2,6) x(2) len' ns(2) cut_le [of ?P es] unfolding zsl_rep_def by simp
      then show "case q of (h', zsl', x) \<Rightarrow> \<exists>level. zsl_rep h' zsl' (zput_at ?k (x, level) ns) (zput_at ?k (s, obj) es)"
        using e q zput_at_def [of ?k "(x, level)" ns] by (intro case_prodI2 exI [of _ level]) simp
    qed
  qed
qed


section \<open>Deletion\<close>

lemma levels_mono: "levels_ok lv lim ns \<Longrightarrow> lim' \<le> lim \<Longrightarrow> levels_ok lv lim' ns"
  unfolding levels_ok_def by simp

lemma expect_None: "lv_forward (expect i ns) = None \<longleftrightarrow> (\<forall>n \<in> set ns. snd n \<le> i)"
  by (induction ns) auto

lemma expect_notin: "x \<notin> fst ` set ns \<Longrightarrow> lv_forward (expect i ns) \<noteq> Some x"
  by (induction ns) auto

lemma zsl_lower_Some:
  "levels_ok (lv_get h) lim ((hd0, m) # ns) \<Longrightarrow> lim \<le> m \<Longrightarrow> 0 < lim \<Longrightarrow> \<forall>n \<in> set ns. snd n \<le> lim \<Longrightarrow>
   ensures (zsl_lower h hd0 lim) (\<lambda>l. 0 < l \<and> l \<le> lim \<and> (\<forall>n \<in> set ns. snd n \<le> l) \<and>
     (\<forall>i. l \<le> i \<longrightarrow> i < lim \<longrightarrow> (\<exists>e. lv_get h hd0 i = Some e \<and> lv_forward e = None)))"
proof (induction lim)
  case (Suc lim)
  show ?case
  proof (cases "lim = 0")
    case True
    then show ?thesis using Suc.prems by (subst zsl_lower.simps) simp
  next
    case False
    have g: "lv_get h hd0 lim = Some (expect lim ns)" using levels_okD [of "lv_get h" "Suc lim" "[]" hd0 m ns lim] Suc.prems by simp
    show ?thesis
    proof (cases "lv_forward (expect lim ns) = None")
      case True
      have "ensures (zsl_lower h hd0 lim) (\<lambda>l. 0 < l \<and> l \<le> lim \<and> (\<forall>n \<in> set ns. snd n \<le> l) \<and>
        (\<forall>i. l \<le> i \<longrightarrow> i < lim \<longrightarrow> (\<exists>e. lv_get h hd0 i = Some e \<and> lv_forward e = None)))"
        using Suc.IH levels_mono [OF Suc.prems(1), of lim] Suc.prems(2) False True by (simp add: expect_None)
      then have "ensures (zsl_lower h hd0 lim) (\<lambda>l. 0 < l \<and> l \<le> Suc lim \<and> (\<forall>n \<in> set ns. snd n \<le> l) \<and>
        (\<forall>i. l \<le> i \<longrightarrow> i < Suc lim \<longrightarrow> (\<exists>e. lv_get h hd0 i = Some e \<and> lv_forward e = None)))"
        by (rule ensures_mono) (use g True in \<open>auto simp: less_Suc_eq\<close>)
      then show ?thesis using g True False by (subst zsl_lower.simps) simp
    next
      case f: False
      then show ?thesis using g False Suc.prems by (subst zsl_lower.simps) auto
    qed
  qed
qed simp

text \<open>What \<open>zslDeleteNode\<close> does to the pointers of the list.\<close>

lemma zsl_unlink_levels:
  assumes n: "zsl_nodes h zsl (xs @ (x, m) # ys)" and len: "length (xs @ (x, m) # ys) \<le> zsl_max"
    and up: "zsl_level zsl \<le> length up" "\<And>j. j < zsl_level zsl \<Longrightarrow> \<exists>r. pred_at j ((zsl_header zsl, ZSKIPLIST_MAXLEVEL) # xs) (up ! j, r)"
  shows "ensures (zsl_unlink (zsl_level zsl) 0 x up h) (\<lambda>h'. zn_same h h' \<and> lv_get h' x = lv_get h x \<and>
    levels_ok (lv_get h') (zsl_level zsl) ((zsl_header zsl, ZSKIPLIST_MAXLEVEL) # xs @ ys) \<and>
    (\<forall>y j. zsl_level zsl \<le> j \<longrightarrow> lv_get h' y j = lv_get h y j))"
proof -
  let ?lim = "zsl_level zsl" and ?xs = "(zsl_header zsl, ZSKIPLIST_MAXLEVEL) # xs"
  note nd = zsl_nodesD [OF n]
  have d: "distinct (map fst (?xs @ (x, m) # ys))" using nd(1) by simp
  obtain r where r: "\<And>j. j < ?lim \<Longrightarrow> pred_at j ?xs (up ! j, r j)" using up(2) by metis
  have ux: "up ! j \<noteq> x" if "j < ?lim" for j using pred_at_in [OF r [OF that]] d by auto
  have hx: "zn_height h x = Some m" using nd(4) by simp
  have xy: "x \<notin> fst ` set ys" using d by simp
  have lv: "levels_ok (lv_get h) ?lim (?xs @ (x, m) # ys)" using nd(2) by simp
  have "\<exists>l. lv_get h (up ! j) j = Some l \<and> (lv_forward l = Some x \<longrightarrow> j < m)" if j: "j < ?lim" for j
  proof -
    obtain us k vs where s: "?xs = us @ (up ! j, k) # vs" "j < k" "\<forall>m \<in> set vs. snd m \<le> j" using r [OF j] unfolding pred_at_def by auto
    have g: "lv_get h (up ! j) j = Some (expect j (vs @ (x, m) # ys))" using levels_okD [of "lv_get h" ?lim us "up ! j" k "vs @ (x, m) # ys" j] lv s j by simp
    have "j < m" if "lv_forward (expect j ((x, m) # ys)) = Some x"
      using that expect_notin [OF xy, of j] by (cases "j < m") simp_all
    moreover have "lv_forward (expect j (vs @ (x, m) # ys)) = lv_forward (expect j ((x, m) # ys))" by (subst expect_low [OF s(3)]) simp
    ultimately show ?thesis using g by (intro exI [of _ "expect j (vs @ (x, m) # ys)"]) (simp only: simp_thms, rule impI)
  qed
  then have "ensures (zsl_unlink ?lim 0 x up h) (lv_range 0 ?lim
     (\<lambda>y j. if y = up ! j then
        (let l = the (lv_get h y j) in
         if lv_forward l = Some x then map_option (\<lambda>xl. \<lparr>lv_forward = lv_forward xl, lv_span = ui_add (lv_span l) (ui_sub (lv_span xl) 1)\<rparr>) (lv_get h x j)
         else Some (l\<lparr>lv_span := ui_sub (lv_span l) 1\<rparr>))
      else lv_get h y j) h)"
    by (intro zsl_unlink_Some [OF hx]) (use up(1) ux in auto)
  then show ?thesis
  proof (rule ensures_mono)
    fix h1 assume h1: "lv_range 0 ?lim
     (\<lambda>y j. if y = up ! j then
        (let l = the (lv_get h y j) in
         if lv_forward l = Some x then map_option (\<lambda>xl. \<lparr>lv_forward = lv_forward xl, lv_span = ui_add (lv_span l) (ui_sub (lv_span xl) 1)\<rparr>) (lv_get h x j)
         else Some (l\<lparr>lv_span := ui_sub (lv_span l) 1\<rparr>))
      else lv_get h y j) h h1"
    have "levels_ok (lv_get h1) ?lim (?xs @ ys)"
      by (rule levels_delete [OF lv d _ r]) (use h1 len in \<open>auto simp: lv_range_def zsl_max_def\<close>)
    moreover have "lv_get h1 x = lv_get h x" using h1 ux by (auto simp: lv_range_def fun_eq_iff)
    ultimately show "zn_same h h1 \<and> lv_get h1 x = lv_get h x \<and> levels_ok (lv_get h1) ?lim ((zsl_header zsl, ZSKIPLIST_MAXLEVEL) # xs @ ys) \<and>
      (\<forall>y j. ?lim \<le> j \<longrightarrow> lv_get h1 y j = lv_get h y j)" using h1 by (simp add: lv_range_def)
  qed
qed

lemma backs_nth: "backs_ok bk (xs @ (x, m) # ys) \<Longrightarrow> bk x = Some (if xs = [] then None else Some (fst (last xs)))"
  unfolding backs_ok_def by (metis fst_conv)

text \<open>The last step of \<open>zslDeleteNode\<close>: the level of the list is lowered.\<close>

lemma zsl_lower_nodes:
  assumes n: "zsl_nodes h0 zsl0 (xs @ (x, m) # ys)" and len: "zsl_length zsl = length (xs @ (x, m) # ys)" "length (xs @ (x, m) # ys) \<le> zsl_max"
    and lv: "levels_ok (lv_get h) (zsl_level zsl0) ((zsl_header zsl0, ZSKIPLIST_MAXLEVEL) # xs @ ys)" "\<And>j. zsl_level zsl0 \<le> j \<Longrightarrow> lv_get h (zsl_header zsl0) j = lv_get h0 (zsl_header zsl0) j"
    and v: "zn_dat h = zn_dat h0" "zn_height h = zn_height h0" "backs_ok (zn_back h) (xs @ ys)"
    and zsl: "zsl_header zsl = zsl_header zsl0" "zsl_level zsl = zsl_level zsl0" "zsl_tail zsl = (if xs @ ys = [] then None else Some (fst (last (xs @ ys))))"
  shows "ensures (do { level \<leftarrow> zsl_lower h (zsl_header zsl) (zsl_level zsl); Some (h, zsl\<lparr>zsl_level := level, zsl_length := ul_sub (zsl_length zsl) 1\<rparr>) })
    (\<lambda>(h', zsl'). zsl_nodes h' zsl' (xs @ ys) \<and> zsl_header zsl' = zsl_header zsl0 \<and> zsl_level zsl' \<le> zsl_level zsl0 \<and>
      zsl_length zsl' = length (xs @ ys) \<and> zn_dat h' = zn_dat h0 \<and> dom h' = dom h0)"
  unfolding zsl(1,2)
proof -
  note nd = zsl_nodesD [OF n]
  have low: "\<forall>n \<in> set (xs @ ys). snd n \<le> zsl_level zsl0" using nd(8) by auto
  show "ensures (do { level \<leftarrow> zsl_lower h (zsl_header zsl0) (zsl_level zsl0); Some (h, zsl\<lparr>zsl_level := level, zsl_length := ul_sub (zsl_length zsl) 1\<rparr>) })
    (\<lambda>(h', zsl'). zsl_nodes h' zsl' (xs @ ys) \<and> zsl_header zsl' = zsl_header zsl0 \<and> zsl_level zsl' \<le> zsl_level zsl0 \<and>
      zsl_length zsl' = length (xs @ ys) \<and> zn_dat h' = zn_dat h0 \<and> dom h' = dom h0)"
  proof (rule ensures_bindI [OF zsl_lower_Some [OF lv(1) nd(7,6) low]])
    fix l assume l: "0 < l \<and> l \<le> zsl_level zsl0 \<and> (\<forall>n \<in> set (xs @ ys). snd n \<le> l) \<and>
      (\<forall>i. l \<le> i \<longrightarrow> i < zsl_level zsl0 \<longrightarrow> (\<exists>e. lv_get h (zsl_header zsl0) i = Some e \<and> lv_forward e = None))"
    have none: "\<exists>e. lv_get h (zsl_header zsl0) i = Some e \<and> lv_forward e = None" if "l \<le> i" "i < ZSKIPLIST_MAXLEVEL" for i
      using l that nd(5) lv(2) by (cases "i < zsl_level zsl0") auto
    have "zsl_nodes h (zsl\<lparr>zsl_level := l, zsl_length := length (xs @ ys)\<rparr>) (xs @ ys)"
      unfolding zsl_nodes_def using nd(1,3,4,8) nd(7) zsl l v(2,3) none levels_mono [OF lv(1), of l] by auto
    moreover have "ul_sub (zsl_length zsl) 1 = length (xs @ ys)" using len by (simp add: zsl_max_def)
    moreover have "dom h = dom h0" using v(2) by (simp add: dom_height)
    ultimately show "ensures (Some (h, zsl\<lparr>zsl_level := l, zsl_length := ul_sub (zsl_length zsl) 1\<rparr>))
      (\<lambda>(h', zsl'). zsl_nodes h' zsl' (xs @ ys) \<and> zsl_header zsl' = zsl_header zsl0 \<and> zsl_level zsl' \<le> zsl_level zsl0 \<and>
        zsl_length zsl' = length (xs @ ys) \<and> zn_dat h' = zn_dat h0 \<and> dom h' = dom h0)"
      using l v(1) zsl(1) by simp
  qed
qed

lemma zslDeleteNode_Some:
  assumes n: "zsl_nodes h zsl (xs @ (x, m) # ys)" and len: "length (xs @ (x, m) # ys) \<le> zsl_max" "zsl_length zsl = length (xs @ (x, m) # ys)"
    and up: "zsl_level zsl \<le> length up" "\<And>j. j < zsl_level zsl \<Longrightarrow> \<exists>r. pred_at j ((zsl_header zsl, ZSKIPLIST_MAXLEVEL) # xs) (up ! j, r)"
  shows "ensures (zslDeleteNode zsl x up h) (\<lambda>(h', zsl'). zsl_nodes h' zsl' (xs @ ys) \<and> zsl_header zsl' = zsl_header zsl \<and>
    zsl_level zsl' \<le> zsl_level zsl \<and> zsl_length zsl' = length (xs @ ys) \<and> zn_dat h' = zn_dat h \<and> dom h' = dom h)"
  unfolding zslDeleteNode_def
proof (rule ensures_bindI [OF zsl_unlink_levels [OF n len(1) up]])
  let ?lim = "zsl_level zsl" and ?hd = "zsl_header zsl"
  note nd = zsl_nodesD [OF n]
  fix h1 assume h1: "zn_same h h1 \<and> lv_get h1 x = lv_get h x \<and> levels_ok (lv_get h1) ?lim ((?hd, ZSKIPLIST_MAXLEVEL) # xs @ ys) \<and>
    (\<forall>y j. ?lim \<le> j \<longrightarrow> lv_get h1 y j = lv_get h y j)"
  then have s1: "zn_dat h1 = zn_dat h" "zn_back h1 = zn_back h" "zn_height h1 = zn_height h" by (simp_all add: zn_same_def)
  have "0 < m" using nd(8) by simp
  then have l0: "lv_get h1 x 0 = Some (expect 0 ys)"
    using levels_okD [of "lv_get h" ?lim "(?hd, ZSKIPLIST_MAXLEVEL) # xs" x m ys 0] nd(2,6) h1 by simp
  have f0: "lv_forward (expect 0 ys) = (if ys = [] then None else Some (fst (hd ys)))" by (rule expect_0) (use nd(8) in auto)
  let ?b = "if xs = [] then None else Some (fst (last xs))"
  have bx: "zn_back h x = Some ?b" using nd(9) by (rule backs_nth)
  then have "zn_back h1 x = Some ?b" by (simp only: s1(2))
  then obtain xn where xn: "h1 x = Some xn" "zn_backward xn = ?b" by (cases "h1 x") (simp_all add: zn_back_def split del: if_split)
  have "\<forall>n \<in> set ys. 0 < snd n \<and> zn_height h1 (fst n) = Some (snd n)" using nd(4,8) s1(3) by auto
  then obtain h2 where h2: "(case lv_forward (expect 0 ys) of Some f \<Rightarrow> set_backward h1 f ?b | None \<Rightarrow> Some h1) = Some h2"
    "zn_dat h2 = zn_dat h1" "zn_height h2 = zn_height h1" "lv_get h2 = lv_get h1"
    "zn_back h2 = (if ys = [] then zn_back h1 else (zn_back h1)(fst (hd ys) \<mapsto> ?b))" by (rule set_backward_first)
  note h2 = h2(1) h2(2-5) [unfolded s1]
  let ?zsl = "zsl\<lparr>zsl_tail := (if ys = [] then ?b else zsl_tail zsl)\<rparr>"
  have lv2: "levels_ok (lv_get h2) ?lim ((?hd, ZSKIPLIST_MAXLEVEL) # xs @ ys)" using h1 h2(4) by simp
  have b2: "backs_ok (zn_back h2) (xs @ ys)" by (rule backs_delete [OF nd(9)]) (use nd(1) h2(5) bx in auto)
  have tl: "zsl_tail ?zsl = (if xs @ ys = [] then None else Some (fst (last (xs @ ys))))" using nd(10) by auto
  have fin: "ensures (do { level \<leftarrow> zsl_lower h2 (zsl_header ?zsl) (zsl_level ?zsl); Some (h2, ?zsl\<lparr>zsl_level := level, zsl_length := ul_sub (zsl_length ?zsl) 1\<rparr>) })
    (\<lambda>(h', zsl'). zsl_nodes h' zsl' (xs @ ys) \<and> zsl_header zsl' = ?hd \<and> zsl_level zsl' \<le> ?lim \<and> zsl_length zsl' = length (xs @ ys) \<and> zn_dat h' = zn_dat h \<and> dom h' = dom h)"
    by (rule zsl_lower_nodes [OF n _ len(1) lv2 _ h2(2,3) b2 _ _ tl]) (use len(2) h1 h2(4) in simp_all)
  show "ensures (h1 x \<bind> (\<lambda>nd. lv_get h1 x 0 \<bind> (\<lambda>l. (case lv_forward l of None \<Rightarrow> Some h1 | Some f \<Rightarrow> set_backward h1 f (zn_backward nd)) \<bind>
      (\<lambda>h. let zsl = if lv_forward l = None then zsl\<lparr>zsl_tail := zn_backward nd\<rparr> else zsl in
        zsl_lower h (zsl_header zsl) (zsl_level zsl) \<bind> (\<lambda>level. Some (h, zsl\<lparr>zsl_level := level, zsl_length := ul_sub (zsl_length zsl) 1\<rparr>))))))
    (\<lambda>(h', zsl'). zsl_nodes h' zsl' (xs @ ys) \<and> zsl_header zsl' = ?hd \<and> zsl_level zsl' \<le> ?lim \<and> zsl_length zsl' = length (xs @ ys) \<and> zn_dat h' = zn_dat h \<and> dom h' = dom h)"
  proof -
    have z: "(if lv_forward (expect 0 ys) = None then zsl\<lparr>zsl_tail := ?b\<rparr> else zsl) = ?zsl" using f0 by simp
    show ?thesis unfolding xn(1) l0 Option.bind_lunit xn(2) h2(1) z Let_def using fin by simp
  qed
qed


section \<open>Search results\<close>

lemma zsl_search:
  assumes rep: "zsl_rep h zsl ns es" and k: "k \<le> length ns" and cut: "cut_ok test h ((zsl_header zsl, ZSKIPLIST_MAXLEVEL) # take k ns) (drop k ns)"
    and add: "\<And>a b. a + b < 2 ^ 32 \<Longrightarrow> add a b = a + b"
  obtains ur l where "zsl_descend add test h (zsl_level zsl) (zsl_header zsl) 0 = Some ur" "length ur = zsl_level zsl"
    "\<And>j. j < zsl_level zsl \<Longrightarrow> pred_at j ((zsl_header zsl, ZSKIPLIST_MAXLEVEL) # take k ns) (ur ! j)"
    "arr_get ur 0 = Some (if k = 0 then zsl_header zsl else fst (ns ! (k - 1)), k)"
    "lv_get h (if k = 0 then zsl_header zsl else fst (ns ! (k - 1))) 0 = Some l" "lv_forward l = (if k < length ns then Some (fst (ns ! k)) else None)"
proof -
  note r = zsl_repD [OF rep]
  note nd = zsl_nodesD [OF r(1)]
  let ?xs = "(zsl_header zsl, ZSKIPLIST_MAXLEVEL) # take k ns"
  have "ensures (zsl_descend add test h (zsl_level zsl) (zsl_header zsl) 0) (\<lambda>ur. length ur = zsl_level zsl \<and> (\<forall>j < zsl_level zsl. pred_at j ?xs (ur ! j)))"
    by (rule zsl_descend_cut [OF r(1,4) cut add])
  then obtain ur where ur: "zsl_descend add test h (zsl_level zsl) (zsl_header zsl) 0 = Some ur" "length ur = zsl_level zsl"
    "\<And>j. j < zsl_level zsl \<Longrightarrow> pred_at j ?xs (ur ! j)" by (rule ensuresE) blast
  have pos: "\<forall>n \<in> set ns. 0 < snd n" using nd(8) by simp
  have u0: "ur ! 0 = (if k = 0 then zsl_header zsl else fst (ns ! (k - 1)), k)"
    using pred_at_last [OF ur(3) [OF nd(6)] pos _ k] by (simp add: prod_eq_iff ZSKIPLIST_MAXLEVEL_def)
  obtain us a l vs where s: "?xs = us @ (a, l) # vs" "0 < l" "\<forall>m \<in> set vs. snd m \<le> 0" "a = fst (ur ! 0)"
    using ur(3) [OF nd(6)] unfolding pred_at_def by blast
  have "vs = []"
  proof (rule ccontr)
    assume "vs \<noteq> []"
    then obtain v vs' where "vs = v # vs'" by (cases vs) auto
    then have "v \<in> set (take k ns)" "snd v \<le> 0" using s(1,3) by (cases us; simp)+
    then show False using pos by (meson in_set_takeD not_less)
  qed
  then have "(zsl_header zsl, ZSKIPLIST_MAXLEVEL) # ns = us @ (a, l) # drop k ns" using s(1) append_take_drop_id [of k ns] by (metis append.assoc append_Cons append_Nil)
  then have "lv_get h a 0 = Some (expect 0 (drop k ns))" using levels_okD [of "lv_get h" "zsl_level zsl" us a l "drop k ns" 0] nd(2,6) s(2) by simp
  moreover have "lv_forward (expect 0 (drop k ns)) = (if k < length ns then Some (fst (ns ! k)) else None)"
  proof -
    have "\<forall>n \<in> set (drop k ns). 0 < snd n" using pos set_drop_subset [of k ns] by blast
    from expect_0 [OF this] show ?thesis by (simp add: hd_drop_conv_nth)
  qed
  ultimately show ?thesis using ur u0 s(4) nd(6) by (intro that [of ur "expect 0 (drop k ns)"]) simp_all
qed

section \<open>Deletion of elements\<close>

lemma zsl_nodes_free: "zsl_nodes h zsl ns \<Longrightarrow> x \<notin> fst ` set ns \<Longrightarrow> x \<noteq> zsl_header zsl \<Longrightarrow> zsl_nodes (zslFreeNode x h) zsl ns"
proof -
  assume n: "zsl_nodes h zsl ns" and x: "x \<notin> fst ` set ns" "x \<noteq> zsl_header zsl"
  have v: "lv_get (zslFreeNode x h) y = lv_get h y" "zn_height (zslFreeNode x h) y = zn_height h y" "zn_back (zslFreeNode x h) y = zn_back h y"
    if "y \<noteq> x" for y using that by (auto simp: zslFreeNode_def lv_get_def zn_views fun_eq_iff)
  note nd = zsl_nodesD [OF n]
  have ne: "fst n \<noteq> x" if "n \<in> set ((zsl_header zsl, ZSKIPLIST_MAXLEVEL) # ns)" for n using x that by auto
  have "levels_ok (lv_get (zslFreeNode x h)) (zsl_level zsl) ((zsl_header zsl, ZSKIPLIST_MAXLEVEL) # ns)"
    by (rule levels_cong [OF nd(2)]) (rule v(1) [OF ne])
  moreover have "backs_ok (zn_back (zslFreeNode x h)) ns" using nd(9) v(3) x(1) unfolding backs_ok_def
    by (metis fst_conv image_eqI in_set_conv_decomp)
  moreover have "\<forall>n \<in> set ns. zn_height (zslFreeNode x h) (fst n) = Some (snd n)" using nd(4) v(2) ne by simp
  ultimately show ?thesis using nd x v(1,2) [of "zsl_header zsl"] unfolding zsl_nodes_def by simp
qed

lemma zsl_rep_delete:
  assumes rep: "zsl_rep h zsl (xs @ (x, m) # ys) (E1 @ e # E2)" and l: "length xs = length E1"
    and up: "zsl_level zsl \<le> length up" "\<And>j. j < zsl_level zsl \<Longrightarrow> \<exists>r. pred_at j ((zsl_header zsl, ZSKIPLIST_MAXLEVEL) # xs) (up ! j, r)"
  shows "ensures (zslDeleteNode zsl x up h) (\<lambda>(h', zsl'). zsl_rep (zslFreeNode x h') zsl' (xs @ ys) (E1 @ E2) \<and>
    zsl_header zsl' = zsl_header zsl \<and> zsl_level zsl' \<le> zsl_level zsl)"
proof -
  note r = zsl_repD [OF rep]
  have x: "x \<notin> fst ` set (xs @ ys)" "x \<noteq> zsl_header zsl" using zsl_nodesD(1) [OF r(1)] by auto
  have d: "data_ok (zn_dat h) (xs @ ys) (E1 @ E2)"
    using r(5) l unfolding data_ok_def by (simp add: list_all2_append)
  show ?thesis
  proof (rule ensures_mono [OF zslDeleteNode_Some [OF r(1,4,3) up]])
    fix q assume q: "case q of (h', zsl') \<Rightarrow> zsl_nodes h' zsl' (xs @ ys) \<and> zsl_header zsl' = zsl_header zsl \<and> zsl_level zsl' \<le> zsl_level zsl \<and>
      zsl_length zsl' = length (xs @ ys) \<and> zn_dat h' = zn_dat h \<and> dom h' = dom h"
    obtain h' zsl' where e: "q = (h', zsl')" by (cases q)
    have "zsl_nodes (zslFreeNode x h') zsl' (xs @ ys)" by (rule zsl_nodes_free) (use q e x in auto)
    moreover have v: "zn_dat (zslFreeNode x h') y = zn_dat h y" if "y \<noteq> x" for y
      using q e that by (auto simp: zslFreeNode_def zn_dat_def fun_eq_iff)
    moreover have "data_ok (zn_dat (zslFreeNode x h')) (xs @ ys) (E1 @ E2)"
      using d x(1) v unfolding data_ok_def list_all2_conv_all_nth by (metis image_eqI nth_mem)
    ultimately show "case q of (h', zsl') \<Rightarrow> zsl_rep (zslFreeNode x h') zsl' (xs @ ys) (E1 @ E2) \<and>
      zsl_header zsl' = zsl_header zsl \<and> zsl_level zsl' \<le> zsl_level zsl"
      using q e r(2,4,6,7,8) x(2) unfolding zsl_rep_def by (auto simp: sorted_wrt_append zslFreeNode_def)
  qed
qed

text \<open>The position of a key among the smaller ones.\<close>

lemma sorted_cut_key:
  fixes f :: "'e \<Rightarrow> 'k :: linorder"
  assumes s: "sorted_wrt (<) (map f es)" and k: "k = cutpos (\<lambda>e. f e < key) es"
  shows "key \<in> f ` set es \<longleftrightarrow> k < length es \<and> f (es ! k) = key"
proof -
  have pc: "prefix_closed (\<lambda>e. f e < key) es" using s by (rule sorted_prefix_closed) (rule less_trans)
  have c: "f (es ! i) < key \<longleftrightarrow> i < k" if "i < length es" for i using cut_nth [OF pc that] k by simp
  have lt: "f (es ! i) < f (es ! j)" if "i < j" "j < length es" for i j using sorted_wrt_nth_less [OF s, of i j] that by simp
  show "key \<in> f ` set es \<longleftrightarrow> k < length es \<and> f (es ! k) = key"
  proof
    assume "key \<in> f ` set es"
    then obtain j where j: "j < length es" "f (es ! j) = key" by (auto simp: in_set_conv_nth)
    then have "k \<le> j" using c [OF j(1)] by simp
    moreover have "\<not> k < j" using lt [of k j] j c [of k] by auto
    ultimately show "k < length es \<and> f (es ! k) = key" using j by (cases "k = j") auto
  qed auto
qed

lemma pred_at_fst: "pred_at j xs p \<Longrightarrow> \<exists>r. pred_at j xs (fst p, r)"
  by (cases p) auto

text \<open>The list without \<open>m\<close> elements from position \<open>k\<close> on.\<close>

definition zcut :: "nat \<Rightarrow> nat \<Rightarrow> 'e list \<Rightarrow> 'e list" where
  "zcut k m es = take k es @ drop (k + m) es"

lemma zslDelete_Some:
  assumes rep: "zsl_rep h zsl ns es" and ob: "obj_ok obj"
  shows "ensures (zslDelete zsl (Dbl s) obj h) (\<lambda>(h', zsl', b). b = (ekey (s, obj) \<in> ekey ` set es) \<and>
    (if b then \<exists>k < length es. ekey (es ! k) = ekey (s, obj) \<and> zsl_rep h' zsl' (zcut k 1 ns) (zcut k 1 es) else h' = h \<and> zsl' = zsl))"
proof -
  note r = zsl_repD [OF rep]
  let ?P = "\<lambda>e. ekey e < (s, obj_str obj)"
  define k where "k = cutpos ?P es"
  have len: "length ns = length es" using data_ok_length [OF r(5)] .
  have k: "k \<le> length ns" using cut_le [of ?P es] len by (simp add: k_def)
  have key: "ekey (s, obj) = (s, obj_str obj)" by (simp add: ekey_def)
  note ck = sorted_cut_key [OF r(7) k_def]
  have pc: "prefix_closed ?P es" using r(7) by (rule sorted_prefix_closed) (rule less_trans)
  have cut: "cut_ok (zsl_before (Dbl s) obj) h ((zsl_header zsl, ZSKIPLIST_MAXLEVEL) # take k ns) (drop k ns)"
    unfolding k_def by (rule cut_tests [OF r(5) tests_before [OF ob r(8)] pc])
  obtain ur l where ur: "zsl_descend ul_add (zsl_before (Dbl s) obj) h (zsl_level zsl) (zsl_header zsl) 0 = Some ur" "length ur = zsl_level zsl"
    "\<And>j. j < zsl_level zsl \<Longrightarrow> pred_at j ((zsl_header zsl, ZSKIPLIST_MAXLEVEL) # take k ns) (ur ! j)"
    "arr_get ur 0 = Some (if k = 0 then zsl_header zsl else fst (ns ! (k - 1)), k)"
    "lv_get h (if k = 0 then zsl_header zsl else fst (ns ! (k - 1))) 0 = Some l" "lv_forward l = (if k < length ns then Some (fst (ns ! k)) else None)"
    using zsl_search [OF rep k cut, of ul_add] by auto
  show ?thesis
  proof (cases "k < length es")
    case False
    then show ?thesis using ur(1,4,5,6) ck(1) len by (auto simp: zslDelete_def key)
  next
    case True
    obtain nd where nd: "h (fst (ns ! k)) = Some nd" "zn_obj nd = Some (snd (es ! k))" "zn_score nd = Dbl (fst (es ! k))"
      using data_ok_node [OF r(5), of k] True len by auto
    have eq: "equalStringObjects (snd (es ! k)) obj = Some (obj_str (snd (es ! k)) = obj_str obj)"
      by (rule equalStringObjects_Some) (use r(8) True ob in simp_all)
    have t: "(if dbl_eq (Dbl s) (zn_score nd) then do { ob \<leftarrow> zn_obj nd; equalStringObjects ob obj } else Some False) = Some (ekey (es ! k) = (s, obj_str obj))"
      using nd(2,3) eq by (auto simp: ekey_def)
    have step: "zslDelete zsl (Dbl s) obj h = (if ekey (es ! k) = (s, obj_str obj)
       then do { r \<leftarrow> zslDeleteNode zsl (fst (ns ! k)) (map fst ur) h; Some (zslFreeNode (fst (ns ! k)) (fst r), snd r, True) } else Some (h, zsl, False))"
      unfolding zslDelete_def ur(1,4) Option.bind_lunit fst_conv ur(5,6) using True len nd(1) t by simp
    show ?thesis
    proof (cases "ekey (es ! k) = (s, obj_str obj)")
      case False
      then show ?thesis using step ck(1) True by (auto simp: key)
    next
      case hit: True
      have sp: "ns = take k ns @ (fst (ns ! k), snd (ns ! k)) # drop (Suc k) ns" "es = take k es @ es ! k # drop (Suc k) es"
        using True len by (simp_all add: id_take_nth_drop)
      have "ensures (zslDeleteNode zsl (fst (ns ! k)) (map fst ur) h) (\<lambda>(h', zsl'). zsl_rep (zslFreeNode (fst (ns ! k)) h') zsl' (take k ns @ drop (Suc k) ns) (take k es @ drop (Suc k) es) \<and>
          zsl_header zsl' = zsl_header zsl \<and> zsl_level zsl' \<le> zsl_level zsl)"
        by (rule zsl_rep_delete [where m = "snd (ns ! k)" and e = "es ! k"]) (use rep sp len ur(2,3) pred_at_fst in auto)
      moreover have "ekey (s, obj) \<in> ekey ` set es" using ck(1) hit True by (simp add: key)
      ultimately show ?thesis using step hit True by (auto simp: zcut_def key elim!: ensuresE intro!: exI [of _ k])
    qed
  qed
qed

end
