(* ===== verification/Skiplist_Range.thy ===== *)
theory Skiplist_Range
  imports Skiplist_Update
begin

text \<open>
  Ranks, the ends of ranges and the deletion of ranges in skip lists, and the creation and release of a
  list.
\<close>

section \<open>Deletion of ranges\<close>

definition tests_at :: "(nat \<Rightarrow> 's zskiplistNode \<Rightarrow> bool option) \<Rightarrow> (nat \<Rightarrow> 's zelem \<Rightarrow> bool) \<Rightarrow> 's zelem set \<Rightarrow> bool" where
  "tests_at test Q E \<longleftrightarrow> (\<forall>t nd e. e \<in> E \<longrightarrow> zn_obj nd = Some (snd e) \<longrightarrow> zn_score nd = Dbl (fst e) \<longrightarrow> test t nd = Some (Q t e))"

lemma tests_atD: "tests_at test Q E \<Longrightarrow> e \<in> E \<Longrightarrow> zn_obj nd = Some (snd e) \<Longrightarrow> zn_score nd = Dbl (fst e) \<Longrightarrow> test t nd = Some (Q t e)"
  unfolding tests_at_def by iprover

lemma tests_at_const: "tests test P E \<Longrightarrow> tests_at test (\<lambda>t. P) E"
  unfolding tests_def tests_at_def .

lemma tests_at_subset: "tests_at test Q E \<Longrightarrow> E' \<subseteq> E \<Longrightarrow> tests_at test Q E'"
  unfolding tests_at_def by (meson subsetD)

text \<open>The number of elements the loop deletes.\<close>

fun zsl_run :: "(nat \<Rightarrow> 'e \<Rightarrow> bool) \<Rightarrow> nat \<Rightarrow> 'e list \<Rightarrow> nat" where
  "zsl_run Q t [] = 0"
| "zsl_run Q t (e # es) = (if Q t e then Suc (zsl_run Q (Suc t) es) else 0)"

abbreviation estr :: "'s zelem \<Rightarrow> bytes" where
  "estr e \<equiv> obj_str (snd e)"

definition up_ok :: "zskiplist \<Rightarrow> nat list \<Rightarrow> (nat \<times> nat) list \<Rightarrow> bool" where
  "up_ok zsl up xs \<longleftrightarrow> zsl_level zsl \<le> length up \<and> (\<forall>j < zsl_level zsl. \<exists>r. pred_at j ((zsl_header zsl, ZSKIPLIST_MAXLEVEL) # xs) (up ! j, r))"

lemma zsl_rep_first:
  assumes "zsl_rep h zsl (xs @ (x, m) # ys) (E1 @ e # E2)" "length xs = length E1"
  obtains nd l where "h x = Some nd" "zn_obj nd = Some (snd e)" "zn_score nd = Dbl (fst e)" "lv_get h x 0 = Some l"
    "lv_forward l = (if ys = [] then None else Some (fst (hd ys)))"
proof -
  note r = zsl_repD [OF assms(1)]
  note nd = zsl_nodesD [OF r(1)]
  have m: "0 < m" "\<forall>n \<in> set ys. 0 < snd n" using nd(8) by simp_all
  have "lv_get h x 0 = Some (expect 0 ys)"
    using levels_okD [of "lv_get h" "zsl_level zsl" "(zsl_header zsl, ZSKIPLIST_MAXLEVEL) # xs" x m ys 0] nd(2,6) m(1) by simp
  moreover obtain n where "h x = Some n" "zn_obj n = Some (snd e)" "zn_score n = Dbl (fst e)"
    using data_ok_node [OF r(5), of "length xs"] assms(2) by (auto simp: nth_append)
  ultimately show ?thesis using that expect_0 [OF m(2)] by blast
qed

lemma zsl_delete_while_Some:
  "zsl_rep h zsl (xs @ ys) (E1 @ E2) \<Longrightarrow> length xs = length E1 \<Longrightarrow> up_ok zsl up xs \<Longrightarrow> dict_inv d \<Longrightarrow> tests_at test Q (set E2) \<Longrightarrow>
   t + length E2 < 2 ^ 64 \<Longrightarrow> rem + length E2 < 2 ^ 64 \<Longrightarrow>
   ensures (zsl_delete_while test up (if ys = [] then None else Some (fst (hd ys))) t rem h zsl d) (\<lambda>(h', zsl', d', n).
     n = rem + zsl_run Q t E2 \<and> zsl_rep h' zsl' (xs @ drop (zsl_run Q t E2) ys) (E1 @ drop (zsl_run Q t E2) E2) \<and> dict_inv d' \<and>
     dict_map d' = dict_map d |` (- estr ` set (take (zsl_run Q t E2) E2)))"
proof (induction E2 arbitrary: ys h zsl d t rem)
  case Nil
  then have "ys = []" using data_ok_length [OF zsl_repD(5) [OF Nil.prems(1)]] by simp
  then show ?case using Nil.prems by (subst zsl_delete_while.simps) auto
next
  case (Cons e E2)
  have "length ys = Suc (length E2)" using data_ok_length [OF zsl_repD(5) [OF Cons.prems(1)]] Cons.prems(2) by simp
  then obtain x m ys' where y: "ys = (x, m) # ys'" by (cases ys) auto
  note rep = Cons.prems(1) [unfolded y]
  obtain nd l where nd: "h x = Some nd" "zn_obj nd = Some (snd e)" "zn_score nd = Dbl (fst e)" "lv_get h x 0 = Some l"
    "lv_forward l = (if ys' = [] then None else Some (fst (hd ys')))" using zsl_rep_first [OF rep Cons.prems(2)] .
  have tst: "test t nd = Some (Q t e)" by (rule tests_atD [OF Cons.prems(5) _ nd(2,3)]) simp
  show ?case
  proof (cases "Q t e")
    case False
    then show ?thesis using Cons.prems(1,4) y nd(1) tst by (subst zsl_delete_while.simps) auto
  next
    case True
    obtain h1 zsl1 where d1: "zslDeleteNode zsl x up h = Some (h1, zsl1)" "zsl_rep (zslFreeNode x h1) zsl1 (xs @ ys') (E1 @ E2)"
      "zsl_header zsl1 = zsl_header zsl" "zsl_level zsl1 \<le> zsl_level zsl"
      by (rule ensuresE [OF zsl_rep_delete [OF rep Cons.prems(2)]]) (use Cons.prems(3) in \<open>auto simp: up_ok_def\<close>)
    obtain d' ret where dd: "dictDelete d (estr e) = Some (d', ret)" "dict_inv d'" "dict_map d' = (dict_map d)(estr e := None)"
      using dictGenericDelete_spec [OF Cons.prems(4), of "estr e"] by (auto simp: dictDelete_def dict_step_def)
    have up: "up_ok zsl1 up xs" using Cons.prems(3) d1(3,4) by (auto simp: up_ok_def)
    have t: "tests_at test Q (set E2)" by (rule tests_at_subset [OF Cons.prems(5)]) auto
    have "ensures (zsl_delete_while test up (if ys' = [] then None else Some (fst (hd ys'))) (Suc t) (Suc rem) (zslFreeNode x h1) zsl1 d') (\<lambda>(h', zsl', d'', n).
     n = Suc rem + zsl_run Q (Suc t) E2 \<and> zsl_rep h' zsl' (xs @ drop (zsl_run Q (Suc t) E2) ys') (E1 @ drop (zsl_run Q (Suc t) E2) E2) \<and> dict_inv d'' \<and>
     dict_map d'' = dict_map d' |` (- estr ` set (take (zsl_run Q (Suc t) E2) E2)))"
      by (rule Cons.IH [OF d1(2) Cons.prems(2) up dd(2) t]) (use Cons.prems(6,7) in simp_all)
    moreover have "zsl_delete_while test up (if ys = [] then None else Some (fst (hd ys))) t rem h zsl d =
      zsl_delete_while test up (if ys' = [] then None else Some (fst (hd ys'))) (Suc t) (Suc rem) (zslFreeNode x h1) zsl1 d'"
      using Cons.prems(6,7) by (subst zsl_delete_while.simps) (simp add: y nd tst True d1(1) dd(1))
    moreover have "dict_map d' |` (- A) = dict_map d |` (- insert (estr e) A)" for A
      unfolding dd(3) by (auto simp: restrict_map_def fun_eq_iff)
    ultimately show ?thesis using True y by (auto elim!: ensures_mono)
  qed
qed

lemma zsl_delete_range_Some:
  assumes rep: "zsl_rep h zsl ns es" and d: "dict_inv d" and k: "k \<le> length es"
    and cut: "cut_ok out h ((zsl_header zsl, ZSKIPLIST_MAXLEVEL) # take k ns) (drop k ns)" and t: "tests_at within Q (set es)"
  shows "ensures (zsl_delete_range out within h zsl d) (\<lambda>(h', zsl', d', n). let m = zsl_run Q (Suc k) (drop k es) in
     n = m \<and> zsl_rep h' zsl' (zcut k m ns) (zcut k m es) \<and> dict_inv d' \<and>
     dict_map d' = dict_map d |` (- estr ` set (take m (drop k es))))"
proof -
  have len: "length ns = length es" "length ns \<le> zsl_max" using data_ok_length [OF zsl_repD(5) [OF rep]] zsl_repD(4) [OF rep] by simp_all
  then have kn: "k \<le> length ns" using k by simp
  obtain ur l where ur: "zsl_descend ul_add out h (zsl_level zsl) (zsl_header zsl) 0 = Some ur" "length ur = zsl_level zsl"
    "\<And>j. j < zsl_level zsl \<Longrightarrow> pred_at j ((zsl_header zsl, ZSKIPLIST_MAXLEVEL) # take k ns) (ur ! j)"
    "arr_get ur 0 = Some (if k = 0 then zsl_header zsl else fst (ns ! (k - 1)), k)"
    "lv_get h (if k = 0 then zsl_header zsl else fst (ns ! (k - 1))) 0 = Some l" "lv_forward l = (if k < length ns then Some (fst (ns ! k)) else None)"
    using zsl_search [OF rep kn cut, of ul_add] by auto
  have f: "lv_forward l = (if drop k ns = [] then None else Some (fst (hd (drop k ns))))" using ur(6) by (simp add: hd_drop_conv_nth)
  have up: "up_ok zsl (map fst ur) (take k ns)" using ur(2,3) pred_at_fst by (simp add: up_ok_def)
  have k1: "ul_add k 1 = Suc k" using kn len by (simp add: zsl_max_def)
  have t': "tests_at within Q (set (drop k es))" by (rule tests_at_subset [OF t set_drop_subset])
  have "ensures (zsl_delete_while within (map fst ur) (if drop k ns = [] then None else Some (fst (hd (drop k ns)))) (Suc k) 0 h zsl d)
    (\<lambda>(h', zsl', d', n). n = 0 + zsl_run Q (Suc k) (drop k es) \<and> zsl_rep h' zsl' (take k ns @ drop (zsl_run Q (Suc k) (drop k es)) (drop k ns)) (take k es @ drop (zsl_run Q (Suc k) (drop k es)) (drop k es)) \<and>
     dict_inv d' \<and> dict_map d' = dict_map d |` (- estr ` set (take (zsl_run Q (Suc k) (drop k es)) (drop k es))))"
    by (rule zsl_delete_while_Some [OF _ _ up d t']) (use rep len k in \<open>simp_all add: zsl_max_def\<close>)
  then show ?thesis unfolding zsl_delete_range_def ur(1,4) Option.bind_lunit fst_conv snd_conv ur(5) f k1 Let_def by (simp add: add.commute zcut_def)
qed

lemma prefix_filter:
  assumes "prefix_closed P es" shows "takeWhile P es = filter P es" "dropWhile P es = filter (\<lambda>e. \<not> P e) es"
proof -
  have t: "\<forall>e \<in> set (take (cutpos P es) es). P e" by (auto simp: take_cut dest: set_takeWhileD)
  have d: "\<forall>e \<in> set (drop (cutpos P es) es). \<not> P e" using cut_nth [OF assms] by (auto simp: in_set_conv_nth)
  have "filter Q es = filter Q (take (cutpos P es) es) @ filter Q (drop (cutpos P es) es)" for Q by (metis append_take_drop_id filter_append)
  from this [of P] this [of "\<lambda>e. \<not> P e"] t d show "takeWhile P es = filter P es" "dropWhile P es = filter (\<lambda>e. \<not> P e) es"
    by (simp_all add: filter_id_conv filter_empty_conv take_cut drop_cut)
qed

lemma prefix_closed_drop: "prefix_closed P es \<Longrightarrow> prefix_closed P (drop k es)"
  unfolding prefix_closed_def
proof (intro allI impI)
  fix i j assume pc: "\<forall>i j. i \<le> j \<longrightarrow> j < length es \<longrightarrow> P (es ! j) \<longrightarrow> P (es ! i)"
    and ij: "i \<le> j" "j < length (drop k es)" "P (drop k es ! j)"
  then show "P (drop k es ! i)" using pc [rule_format, of "k + i" "k + j"] by simp
qed

lemma zsl_run_const: "zsl_run (\<lambda>t. R) t es = length (takeWhile R es)"
  by (induction es arbitrary: t) auto

lemma zsl_run_rank: "zsl_run (\<lambda>t e. t \<le> n) t es = min (length es) (Suc n - t)"
  by (induction es arbitrary: t) auto

text \<open>Ranges of elements: those that are not below (\<open>P\<close>) and not above (\<open>R\<close> fails) are deleted.\<close>

lemma zsl_delete_elems:
  assumes rep: "zsl_rep h zsl ns es" and d: "dict_inv d" and t: "tests out P (set es)" "tests within R (set es)"
    and pc: "prefix_closed P es" "prefix_closed R es"
  shows "ensures (zsl_delete_range out within h zsl d) (\<lambda>(h', zsl', d', n). n = length (filter (\<lambda>e. \<not> P e \<and> R e) es) \<and>
     (\<exists>k m. zsl_rep h' zsl' (zcut k m ns) (zcut k m es) \<and> zcut k m es = filter (\<lambda>e. P e \<or> \<not> R e) es \<and> take m (drop k es) = filter (\<lambda>e. \<not> P e \<and> R e) es) \<and> dict_inv d' \<and>
     dict_map d' = dict_map d |` (- estr ` set (filter (\<lambda>e. \<not> P e \<and> R e) es)))"
proof -
  let ?k = "cutpos P es" and ?D = "drop (cutpos P es) es"
  note cut = cut_tests [OF zsl_repD(5) [OF rep] t(1) pc(1), of "(zsl_header zsl, ZSKIPLIST_MAXLEVEL)"]
  let ?m = "zsl_run (\<lambda>t. R) (Suc ?k) ?D"
  note pd = prefix_filter [OF prefix_closed_drop [OF pc(2), of ?k]]
  have m: "?m = cutpos R ?D" by (simp add: zsl_run_const cutpos_def)
  have tk: "take ?m ?D = filter R ?D" and dr: "drop ?m ?D = filter (\<lambda>e. \<not> R e) ?D" by (simp_all only: m take_cut [of R ?D] drop_cut [of R ?D] pd)
  have D: "?D = filter (\<lambda>e. \<not> P e) es" unfolding drop_cut by (rule prefix_filter(2) [OF pc(1)])
  have f: "filter (\<lambda>e. \<not> P e \<and> R e) es = filter R ?D" unfolding D by (simp add: conj_commute)
  have "\<forall>e \<in> set (take ?k es). P e" by (auto simp: take_cut dest: set_takeWhileD)
  then have "filter (\<lambda>e. P e \<or> \<not> R e) (take ?k es) = take ?k es" by (simp add: filter_id_conv)
  moreover have "\<forall>e \<in> set ?D. \<not> P e" by (subst D) simp
  then have "filter (\<lambda>e. P e \<or> \<not> R e) ?D = drop ?m ?D" unfolding dr by (intro filter_cong) simp_all
  ultimately have "filter (\<lambda>e. P e \<or> \<not> R e) (take ?k es @ ?D) = take ?k es @ drop ?m ?D" by (simp only: filter_append)
  then have g: "filter (\<lambda>e. P e \<or> \<not> R e) es = zcut ?k ?m es"
    by (simp only: zcut_def append_take_drop_id drop_drop add.commute)
  have n: "length (filter R ?D) = ?m" using pd(1) by (simp add: zsl_run_const)
  show ?thesis unfolding f g tk [symmetric] using zsl_delete_range_Some [OF rep d cut_le cut tests_at_const [OF t(2)]] n tk
    by (auto simp: Let_def elim!: ensures_mono)
qed

section \<open>Ranks\<close>

lemma pred_at_pos:
  assumes "pred_at j ((hd0, m) # take k ns) p" "k \<le> length ns"
  shows "snd p \<le> k" "fst p = (if snd p = 0 then hd0 else fst (ns ! (snd p - 1)))"
proof -
  obtain us l vs where s: "(hd0, m) # take k ns = us @ (fst p, l) # vs" "snd p = length us" using assms(1) unfolding pred_at_def by blast
  have "length ((hd0, m) # take k ns) = Suc k" using assms(2) by simp
  then show "snd p \<le> k" using s by simp
  have "fst (((hd0, m) # take k ns) ! snd p) = fst p" unfolding s by simp
  then show "fst p = (if snd p = 0 then hd0 else fst (ns ! (snd p - 1)))" using \<open>snd p \<le> k\<close> by (auto simp: nth_Cons split: nat.splits)
qed

text \<open>A node with at least \<open>i\<close> levels and its position.\<close>

definition node_at :: "nat \<Rightarrow> (nat \<times> nat) list \<Rightarrow> nat \<times> nat \<Rightarrow> bool" where
  "node_at i xs p \<longleftrightarrow> (\<exists>us l vs. xs = us @ (fst p, l) # vs \<and> i \<le> l \<and> snd p = length us)"

lemma pred_at_node: "pred_at i xs p \<Longrightarrow> node_at i xs p"
  unfolding pred_at_def node_at_def using less_imp_le by blast

lemma node_at_header: "i \<le> m \<Longrightarrow> node_at i ((hd0, m) # xs) (hd0, 0)"
  unfolding node_at_def by (intro exI [of _ "[]"]) auto

lemma zsl_forward_at:
  assumes rep: "zsl_rep h zsl ns es" and k: "k \<le> length ns" and cut: "cut_ok test h ((zsl_header zsl, ZSKIPLIST_MAXLEVEL) # take k ns) (drop k ns)"
    and i: "i < zsl_level zsl" and p: "node_at (Suc i) ((zsl_header zsl, ZSKIPLIST_MAXLEVEL) # take k ns) p"
  shows "ensures (zsl_forward ul_add test h i (fst p) (snd p)) (\<lambda>r. pred_at i ((zsl_header zsl, ZSKIPLIST_MAXLEVEL) # take k ns) r)"
proof -
  note r = zsl_repD [OF rep]
  note nd = zsl_nodesD [OF r(1)]
  let ?xs = "(zsl_header zsl, ZSKIPLIST_MAXLEVEL) # take k ns"
  obtain us l vs where s: "?xs = us @ (fst p, l) # vs" "i < l" "snd p = length us" using p unfolding node_at_def using Suc_le_lessD by blast
  have "levels_ok (lv_get h) (zsl_level zsl) (?xs @ drop k ns)" using nd(2) by simp
  from zsl_forward_pred [OF this i cut _ _ s(1,2), of ul_add] show ?thesis using r(4) k s(3) by (simp add: zsl_max_def)
qed


lemma tests_upto: "obj_ok obj \<Longrightarrow> \<forall>e \<in> E. obj_ok (snd e) \<Longrightarrow> tests (zsl_upto (Dbl s) obj) (\<lambda>e. ekey e \<le> (s, obj_str obj)) E"
  unfolding tests_def
proof (intro allI impI)
  fix t :: nat and nd :: "'a zskiplistNode" and e
  assume o: "obj_ok obj" "\<forall>e \<in> E. obj_ok (snd e)" "e \<in> E" and nd: "zn_obj nd = Some (snd e)" "zn_score nd = Dbl (fst e)"
  obtain r where "compareStringObjects (snd e) obj = Some r" "r \<le> 0 \<longleftrightarrow> obj_str (snd e) \<le> obj_str obj"
    using compareStringObjects_Some [of "snd e" obj] o by metis
  then show "zsl_upto (Dbl s) obj t nd = Some (ekey e \<le> (s, obj_str obj))"
    using nd by (auto simp: zsl_upto_def ekey_def)
qed

text \<open>The position of a key, counted from 1, or 0.\<close>

definition zrank :: "('s \<times> bytes) \<Rightarrow> 's zelem list \<Rightarrow> nat" where
  "zrank key es = (case find_pos (\<lambda>e. ekey e = key) es of None \<Rightarrow> 0 | Some i \<Rightarrow> Suc i)"

lemma sorted_upto_closed: "sorted_wrt (<) (map f es) \<Longrightarrow> prefix_closed (\<lambda>e. f e \<le> key) es"
  for key :: "'k :: linorder"
  by (erule sorted_prefix_closed) simp

lemma zrank_cut:
  fixes es :: "('s :: linorder) zelem list"
  assumes "sorted_wrt (<) (map ekey es)"
  shows "zrank key es = (if key \<in> ekey ` set es then cutpos (\<lambda>e. ekey e \<le> key) es else 0)"
proof (cases "find_pos (\<lambda>e. ekey e = key) es")
  case None
  then have "key \<notin> ekey ` set es" by (auto simp: find_pos_None_iff)
  then show ?thesis using None by (simp add: zrank_def)
next
  case (Some i)
  then have i: "i < length es" "ekey (es ! i) = key" using find_pos_SomeD by fastforce+
  have pc: "prefix_closed (\<lambda>e. ekey e \<le> key) es" using assms by (rule sorted_upto_closed)
  have "i < cutpos (\<lambda>e. ekey e \<le> key) es" using cut_nth [OF pc i(1)] i(2) by simp
  moreover have "\<not> Suc i < cutpos (\<lambda>e. ekey e \<le> key) es"
  proof
    assume c: "Suc i < cutpos (\<lambda>e. ekey e \<le> key) es"
    then have l: "Suc i < length es" using cut_le less_le_trans by blast
    then have "ekey (es ! Suc i) \<le> key" using cut_nth [OF pc l] c by simp
    moreover have "key < ekey (es ! Suc i)" using sorted_wrt_nth_less [OF assms, of i "Suc i"] l i by simp
    ultimately show False by (meson leD)
  qed
  moreover have "key \<in> ekey ` set es" using i by force
  ultimately show ?thesis using Some by (simp add: zrank_def)
qed

lemma zrank_nth:
  fixes es :: "('s :: linorder) zelem list"
  assumes "sorted_wrt (<) (map ekey es)" "p < length es"
  shows "ekey (es ! p) = key \<longleftrightarrow> Suc p = zrank key es"
proof (cases "find_pos (\<lambda>e. ekey e = key) es")
  case None
  then have "ekey (es ! p) \<noteq> key" using assms(2) by (simp add: find_pos_None_iff)
  then show ?thesis using None by (simp add: zrank_def)
next
  case (Some i)
  then have i: "i < length es" "ekey (es ! i) = key" using find_pos_SomeD by fastforce+
  have "distinct (map ekey es)" using assms(1) by (simp add: strict_sorted_iff)
  then have "map ekey es ! p = map ekey es ! i \<longleftrightarrow> p = i" using i(1) assms(2) by (intro nth_eq_iff_index_eq) simp_all
  then show ?thesis using i assms(2) Some by (simp add: zrank_def)
qed

lemma zslGetRank_loop_Some:
  assumes rep: "zsl_rep h zsl ns es" and ob: "obj_ok obj" and uniq: "\<forall>e \<in> set es. estr e = obj_str obj \<longrightarrow> fst e = s"
    and k: "k = cutpos (\<lambda>e. ekey e \<le> (s, obj_str obj)) es"
  shows "i \<le> zsl_level zsl \<Longrightarrow> node_at i ((zsl_header zsl, ZSKIPLIST_MAXLEVEL) # take k ns) p \<Longrightarrow>
    zslGetRank_loop (Dbl s) obj h i (fst p) (snd p) = Some (if 0 < i then zrank (s, obj_str obj) es else 0)"
proof (induction i arbitrary: p)
  case (Suc i)
  note r = zsl_repD [OF rep]
  let ?key = "(s, obj_str obj)" and ?xs = "(zsl_header zsl, ZSKIPLIST_MAXLEVEL) # take k ns"
  have len: "length ns = length es" using data_ok_length [OF r(5)] .
  have pc: "prefix_closed (\<lambda>e. ekey e \<le> ?key) es" using r(7) by (rule sorted_upto_closed)
  have kn: "k \<le> length ns" using cut_le [of _ es] len by (simp add: k)
  have cut: "cut_ok (zsl_upto (Dbl s) obj) h ?xs (drop k ns)" unfolding k by (rule cut_tests [OF r(5) tests_upto [OF ob r(8)] pc])
  obtain q where q: "zsl_forward ul_add (zsl_upto (Dbl s) obj) h i (fst p) (snd p) = Some q" "pred_at i ?xs q"
    using zsl_forward_at [OF rep kn cut _ Suc.prems(2)] Suc.prems(1) by (auto elim: ensuresE)
  note qp = pred_at_pos [OF q(2) kn]
  have "\<exists>nd. h (fst q) = Some nd \<and> (case zn_obj nd of None \<Rightarrow> Some False | Some ob \<Rightarrow> equalStringObjects ob obj) = Some (0 < snd q \<and> snd q = zrank ?key es)"
  proof (cases "snd q = 0")
    case True
    then show ?thesis using r(6) qp(2) by (auto simp: zn_dat_def)
  next
    case False
    then have l: "snd q - 1 < length ns" using qp(1) kn by linarith
    let ?e = "es ! (snd q - 1)"
    obtain nd where nd: "h (fst q) = Some nd" "zn_obj nd = Some (snd ?e)" using data_ok_node [OF r(5) l] qp(2) False by auto
    have e: "?e \<in> set es" using l len by simp
    then have "equalStringObjects (snd ?e) obj = Some (estr ?e = obj_str obj)" using r(8) ob by (intro equalStringObjects_Some) auto
    moreover have "estr ?e = obj_str obj \<longleftrightarrow> ekey ?e = ?key" using uniq e by (auto simp: ekey_def)
    ultimately show ?thesis using nd False zrank_nth [OF r(7), of "snd q - 1" ?key] l len by simp
  qed
  then obtain nd where nd: "h (fst q) = Some nd" "(case zn_obj nd of None \<Rightarrow> Some False | Some ob \<Rightarrow> equalStringObjects ob obj) = Some (0 < snd q \<and> snd q = zrank ?key es)"
    by blast
  have last: "i = 0 \<Longrightarrow> snd q = k"
    using pred_at_last(1) [of "zsl_header zsl" ZSKIPLIST_MAXLEVEL k ns q] q(2) zsl_nodesD(8) [OF r(1)] kn by (simp add: ZSKIPLIST_MAXLEVEL_def)
  have rank: "zrank ?key es \<in> {0, k}" using zrank_cut [OF r(7), of ?key] unfolding k by simp
  have rest: "zslGetRank_loop (Dbl s) obj h i (fst q) (snd q) = Some (if 0 < i then zrank ?key es else 0)"
    by (rule Suc.IH) (use Suc.prems(1) pred_at_node [OF q(2)] in simp_all)
  show ?case using q(1) nd rest last rank by (cases "i = 0") auto
qed simp

lemma zslGetRank_Some:
  assumes rep: "zsl_rep h zsl ns es" and ob: "obj_ok obj" and uniq: "\<forall>e \<in> set es. estr e = obj_str obj \<longrightarrow> fst e = s"
  shows "zslGetRank zsl (Dbl s) obj h = Some (zrank (s, obj_str obj) es)"
proof -
  note nd = zsl_nodesD [OF zsl_repD(1) [OF rep]]
  show ?thesis using zslGetRank_loop_Some [OF rep ob uniq refl order_refl node_at_header [OF nd(7)]] nd(6)
    by (simp add: zslGetRank_def)
qed


lemma zslGetElementByRank_loop_Some:
  assumes rep: "zsl_rep h zsl ns es" and rank: "0 < rank" and k: "k = min rank (length ns)"
  shows "i \<le> zsl_level zsl \<Longrightarrow> node_at i ((zsl_header zsl, ZSKIPLIST_MAXLEVEL) # take k ns) p \<Longrightarrow>
    zslGetElementByRank_loop rank h i (fst p) (snd p) = Some (if 0 < i \<and> rank \<le> length ns then Some (fst (ns ! (rank - 1))) else None)"
proof (induction i arbitrary: p)
  case (Suc i)
  note r = zsl_repD [OF rep]
  let ?xs = "(zsl_header zsl, ZSKIPLIST_MAXLEVEL) # take k ns"
  have kn: "k \<le> length ns" by (simp add: k)
  have cut: "cut_ok (\<lambda>t nd. Some (t \<le> rank)) h ?xs (drop k ns)"
  proof (rule cut_index)
    fix i assume i: "i < length ns"
    then show "\<exists>nd. h (fst (ns ! i)) = Some nd \<and> Some (Suc i \<le> rank) = Some (i < k)" by (rule data_ok_node [OF r(5)]) (use i in \<open>auto simp: k\<close>)
  qed (rule kn)
  obtain q where q: "zsl_forward ul_add (\<lambda>t nd. Some (t \<le> rank)) h i (fst p) (snd p) = Some q" "pred_at i ?xs q"
    using zsl_forward_at [OF rep kn cut _ Suc.prems(2)] Suc.prems(1) by (auto elim: ensuresE)
  note qp = pred_at_pos [OF q(2) kn]
  have last: "i = 0 \<Longrightarrow> snd q = k"
    using pred_at_last(1) [of "zsl_header zsl" ZSKIPLIST_MAXLEVEL k ns q] q(2) zsl_nodesD(8) [OF r(1)] kn by (simp add: ZSKIPLIST_MAXLEVEL_def)
  have rest: "zslGetElementByRank_loop rank h i (fst q) (snd q) = Some (if 0 < i \<and> rank \<le> length ns then Some (fst (ns ! (rank - 1))) else None)"
    by (rule Suc.IH) (use Suc.prems(1) pred_at_node [OF q(2)] in simp_all)
  show ?case
  proof (cases "snd q = rank")
    case True
    then have "rank \<le> length ns" using qp(1) k by simp
    then show ?thesis using q(1) True qp(2) rank by simp
  next
    case False
    then have "0 < i \<or> \<not> rank \<le> length ns" using last k by auto
    then show ?thesis using q(1) False rest by auto
  qed
qed simp

lemma zslGetElementByRank_Some:
  assumes rep: "zsl_rep h zsl ns es" and rank: "0 < rank"
  shows "zslGetElementByRank zsl rank h = Some (if rank \<le> length ns then Some (fst (ns ! (rank - 1))) else None)"
  using zslGetElementByRank_loop_Some [OF rep rank refl order_refl node_at_header] zsl_nodesD(6,7) [OF zsl_repD(1) [OF rep]]
  by (simp add: zslGetElementByRank_def)

section \<open>The ends of ranges\<close>

text \<open>Score and object of the node a function returned.\<close>

definition zsl_value :: "'s zheap \<Rightarrow> nat option \<Rightarrow> 's zelem option option" where
  "zsl_value h p = (case p of None \<Rightarrow> Some None | Some x \<Rightarrow> do {
     nd \<leftarrow> h x;
     ob \<leftarrow> zn_obj nd;
     case zn_score nd of NaN \<Rightarrow> None | Dbl s \<Rightarrow> Some (Some (s, ob)) })"

lemma zsl_value_nth: "data_ok (zn_dat h) ns es \<Longrightarrow> i < length ns \<Longrightarrow> zsl_value h (Some (fst (ns ! i))) = Some (Some (es ! i))"
  by (erule (1) data_ok_node) (simp add: zsl_value_def)

text \<open>\<open>G\<close> holds from some element on, \<open>L\<close> up to some element.\<close>

definition zsl_window :: "('s :: linorder) zheap \<Rightarrow> zskiplist \<Rightarrow> (nat \<times> nat) list \<Rightarrow> 's zelem list \<Rightarrow>
    ('s zskiplistNode \<Rightarrow> bool option) \<Rightarrow> ('s zskiplistNode \<Rightarrow> bool option) \<Rightarrow> ('s zelem \<Rightarrow> bool) \<Rightarrow> ('s zelem \<Rightarrow> bool) \<Rightarrow> bool" where
  "zsl_window h zsl ns es gte lte G L \<longleftrightarrow> zsl_rep h zsl ns es \<and> tests (\<lambda>t. gte) G (set es) \<and> tests (\<lambda>t. lte) L (set es) \<and>
     prefix_closed (\<lambda>e. \<not> G e) es \<and> prefix_closed L es"

lemma windowD:
  assumes "zsl_window h zsl ns es gte lte G L"
  shows "zsl_rep h zsl ns es" "tests (\<lambda>t. gte) G (set es)" "tests (\<lambda>t. lte) L (set es)" "prefix_closed (\<lambda>e. \<not> G e) es" "prefix_closed L es"
    "length ns = length es"
  using assms data_ok_length [OF zsl_repD(5)] unfolding zsl_window_def by blast+

lemma ul_add_small: "a + b < 2 ^ 32 \<Longrightarrow> ul_add a b = a + b"
  by simp

lemma window_node:
  assumes w: "zsl_window h zsl ns es gte lte G L" and i: "i < length es"
  obtains nd where "h (fst (ns ! i)) = Some nd" "gte nd = Some (G (es ! i))" "lte nd = Some (L (es ! i))"
proof -
  note rep = windowD(1) [OF w] and gte = windowD(2) [OF w] and lte = windowD(3) [OF w] and closedG = windowD(4) [OF w] and closedL = windowD(5) [OF w] and len = windowD(6) [OF w]
  have "i < length ns" using i len by simp
  then obtain nd where nd: "h (fst (ns ! i)) = Some nd" "zn_obj nd = Some (snd (es ! i))" "zn_score nd = Dbl (fst (es ! i))"
    by (rule data_ok_node [OF zsl_repD(5) [OF rep]])
  show ?thesis using nd(1) testsD [OF gte nth_mem [OF i] nd(2,3)] testsD [OF lte nth_mem [OF i] nd(2,3)] by (rule that)
qed

lemma window_ends:
  assumes w: "zsl_window h zsl ns es gte lte G L"
  shows "zsl_ends gte lte zsl h = Some (es \<noteq> [] \<and> G (last es) \<and> L (hd es))"
proof (cases "es = []")
  case True
  then show ?thesis using zsl_nodesD(10) [OF zsl_repD(1) [OF windowD(1) [OF w]]] windowD(6) [OF w] by (simp add: zsl_ends_def)
next
  case False
  note nd = zsl_nodesD [OF zsl_repD(1) [OF windowD(1) [OF w]]]
  have l: "length es - 1 < length es" "0 < length es" "ns \<noteq> []" using False windowD(6) [OF w] by auto
  obtain nd1 where nd1: "h (fst (ns ! (length es - 1))) = Some nd1" "gte nd1 = Some (G (es ! (length es - 1)))" by (rule window_node [OF w l(1)])
  obtain nd0 where nd0: "h (fst (ns ! 0)) = Some nd0" "lte nd0 = Some (L (es ! 0))" by (rule window_node [OF w l(2)])
  have t: "zsl_tail zsl = Some (fst (ns ! (length es - 1)))" using nd(10) l(3) windowD(6) [OF w] by (simp add: last_conv_nth)
  have "lv_get h (zsl_header zsl) 0 = Some (expect 0 ns)"
    using levels_okD [of "lv_get h" "zsl_level zsl" "[]" "zsl_header zsl" ZSKIPLIST_MAXLEVEL ns 0] nd(2,6) by (simp add: ZSKIPLIST_MAXLEVEL_def)
  moreover have "lv_forward (expect 0 ns) = Some (fst (ns ! 0))" using expect_0 [of ns] nd(8) l(3) by (simp add: hd_conv_nth)
  ultimately show ?thesis using t nd1 nd0 False by (auto simp: zsl_ends_def last_conv_nth hd_conv_nth)
qed

text \<open>The elements of a range are those from position \<open>cutpos (\<lambda>e. \<not> G e) es\<close> up to position \<open>cutpos L es\<close>.\<close>

lemma window_first:
  assumes w: "zsl_window h zsl ns es gte lte G L" and ne: "es \<noteq> []" "G (last es)"
    and a: "a = cutpos (\<lambda>e. \<not> G e) es" and b: "b = cutpos L es"
  shows "zsl_first gte lte zsl h = Some (if a < b then Some (fst (ns ! a)) else None)"
proof -
  note rep = windowD(1) [OF w] and len = windowD(6) [OF w]
  have k: "a < length es" using cut_nth [OF windowD(4) [OF w], of "length es - 1"] ne unfolding a by (cases "length es") (auto simp: last_conv_nth)
  have t: "tests (\<lambda>t nd. gte nd \<bind> (\<lambda>b. Some (\<not> b))) (\<lambda>e. \<not> G e) (set es)" using windowD(2) [OF w] unfolding tests_def by fastforce
  note cut = cut_tests [OF zsl_repD(5) [OF rep] t windowD(4) [OF w], folded a, of "(zsl_header zsl, ZSKIPLIST_MAXLEVEL)"]
  have kn: "a \<le> length ns" using k len by simp
  obtain ur l where ur: "zsl_descend ul_add (\<lambda>t nd. gte nd \<bind> (\<lambda>b. Some (\<not> b))) h (zsl_level zsl) (zsl_header zsl) 0 = Some ur"
    "arr_get ur 0 = Some (if a = 0 then zsl_header zsl else fst (ns ! (a - 1)), a)"
    "lv_get h (if a = 0 then zsl_header zsl else fst (ns ! (a - 1))) 0 = Some l" "lv_forward l = (if a < length ns then Some (fst (ns ! a)) else None)"
    by (rule zsl_search [OF rep kn cut ul_add_small])
  obtain nd where nd: "h (fst (ns ! a)) = Some nd" "lte nd = Some (L (es ! a))" by (rule window_node [OF w k])
  have "L (es ! a) \<longleftrightarrow> a < b" unfolding b by (rule cut_nth [OF windowD(5) [OF w] k])
  then show ?thesis unfolding zsl_first_def ur(1,2) Option.bind_lunit fst_conv ur(3,4) using k len nd by simp
qed

lemma window_last:
  assumes w: "zsl_window h zsl ns es gte lte G L" and ne: "es \<noteq> []" "L (hd es)"
    and a: "a = cutpos (\<lambda>e. \<not> G e) es" and b: "b = cutpos L es"
  shows "zsl_last gte lte zsl h = Some (if a < b then Some (fst (ns ! (b - 1))) else None)"
proof -
  note rep = windowD(1) [OF w] and len = windowD(6) [OF w]
  have k: "0 < b" "b \<le> length es" "b - 1 < length es"
    using cut_nth [OF windowD(5) [OF w], of 0] ne cut_le [of L es] unfolding b by (auto simp: hd_conv_nth)
  note cut = cut_tests [OF zsl_repD(5) [OF rep] windowD(3,5) [OF w], folded b, of "(zsl_header zsl, ZSKIPLIST_MAXLEVEL)"]
  have kn: "b \<le> length ns" using k len by simp
  obtain ur where ur: "zsl_descend ul_add (\<lambda>t. lte) h (zsl_level zsl) (zsl_header zsl) 0 = Some ur"
    "arr_get ur 0 = Some (if b = 0 then zsl_header zsl else fst (ns ! (b - 1)), b)"
    by (rule zsl_search [OF rep kn cut ul_add_small])
  obtain nd where nd: "h (fst (ns ! (b - 1))) = Some nd" "gte nd = Some (G (es ! (b - 1)))" by (rule window_node [OF w k(3)])
  have "G (es ! (b - 1)) \<longleftrightarrow> a < b" using cut_nth [OF windowD(4) [OF w] k(3)] k(1) unfolding a by auto
  then show ?thesis unfolding zsl_last_def ur(1,2) Option.bind_lunit fst_conv using k(1) nd by simp
qed

text \<open>When the ends are not in the range, nothing is.\<close>

lemma window_outside:
  assumes w: "zsl_window h zsl ns es gte lte G L" and n: "\<not> (es \<noteq> [] \<and> G (last es) \<and> L (hd es))"
  shows "\<not> cutpos (\<lambda>e. \<not> G e) es < cutpos L es"
proof
  assume lt: "cutpos (\<lambda>e. \<not> G e) es < cutpos L es"
  then have ne: "0 < length es" "cutpos (\<lambda>e. \<not> G e) es \<le> length es - 1" using cut_le [of L es] by linarith+
  have "G (last es)" using cut_nth [OF windowD(4) [OF w], of "length es - 1"] ne by (simp add: last_conv_nth)
  moreover have "L (hd es)" using cut_nth [OF windowD(5) [OF w], of 0] ne(1) lt by (simp add: hd_conv_nth)
  ultimately show False using n ne(1) by simp
qed

lemma cutpos_drop:
  assumes "prefix_closed P es" shows "cutpos P (drop k es) = cutpos P es - k"
proof (cases "k \<le> cutpos P es")
  case True
  have "takeWhile P es = take k es @ takeWhile P (drop k es)"
  proof -
    have "\<forall>x \<in> set (take k es). P x" using True set_takeWhileD [of _ P es] set_take_subset_set_take [of k "cutpos P es" es] unfolding take_cut by blast
    then show ?thesis by (metis append_take_drop_id takeWhile_append2)
  qed
  then show ?thesis using True cut_le [of P es] by (simp add: cutpos_def)
next
  case False
  have "\<not> P (es ! k)" if "k < length es" using cut_nth [OF assms that] False by simp
  then have "takeWhile P (drop k es) = []" by (cases "k < length es") (simp_all add: takeWhile_eq_Nil_iff hd_drop_conv_nth)
  then show ?thesis using False by (simp add: cutpos_def)
qed

lemma window_filter:
  assumes w: "zsl_window h zsl ns es gte lte G L" and a: "a = cutpos (\<lambda>e. \<not> G e) es" and b: "b = cutpos L es"
  shows "filter (\<lambda>e. G e \<and> L e) es = take (b - a) (drop a es)"
proof -
  have "filter (\<lambda>e. G e \<and> L e) es = filter L (filter (\<lambda>e. \<not> \<not> G e) es)" by (simp add: conj_commute)
  also have "filter (\<lambda>e. \<not> \<not> G e) es = drop a es" using prefix_filter(2) [OF windowD(4) [OF w]] unfolding a drop_cut by simp
  also have "filter L (drop a es) = take (cutpos L (drop a es)) (drop a es)"
    unfolding take_cut using prefix_filter(1) [OF prefix_closed_drop [OF windowD(5) [OF w]]] by simp
  finally show ?thesis unfolding cutpos_drop [OF windowD(5) [OF w]] b .
qed

text \<open>
  The functions for the ends of a range of the elements \<open>P\<close>: they are the nodes at both ends of the segment from \<open>a\<close> to
  \<open>b\<close>, and the tests of nodes tell the positions.
\<close>

definition zsl_range :: "'s zheap \<Rightarrow> (nat \<times> nat) list \<Rightarrow> 's zelem list \<Rightarrow> ('s zskiplistNode \<Rightarrow> bool option) \<Rightarrow> ('s zskiplistNode \<Rightarrow> bool option) \<Rightarrow>
    ('s zelem \<Rightarrow> bool) \<Rightarrow> nat option option \<Rightarrow> nat option option \<Rightarrow> bool" where
  "zsl_range h ns es gte lte P first lst \<longleftrightarrow> (\<exists>a b. b \<le> length es \<and> filter P es = take (b - a) (drop a es) \<and>
     first = Some (if a < b then Some (fst (ns ! a)) else None) \<and> lst = Some (if a < b then Some (fst (ns ! (b - 1))) else None) \<and>
     (\<forall>i nd. i < length es \<longrightarrow> h (fst (ns ! i)) = Some nd \<longrightarrow> gte nd = Some (a \<le> i) \<and> lte nd = Some (i < b)))"

lemma window_range:
  assumes w: "zsl_window h zsl ns es gte lte G L" and e: "emp \<Longrightarrow> \<forall>e \<in> set es. \<not> (G e \<and> L e)"
    and inr: "inr = Some (\<not> emp \<and> es \<noteq> [] \<and> G (last es) \<and> L (hd es))"
  shows "zsl_range h ns es gte lte (\<lambda>e. G e \<and> L e) (do { b \<leftarrow> inr; if \<not> b then Some None else zsl_first gte lte zsl h })
     (do { b \<leftarrow> inr; if \<not> b then Some None else zsl_last gte lte zsl h })"
proof -
  define a where "a = cutpos (\<lambda>e. \<not> G e) es"
  define b where "b = cutpos L es"
  have b: "b \<le> length es" unfolding b_def by (rule cut_le)
  note f = window_filter [OF w a_def b_def]
  have out: "\<not> a < b" if "\<not> (\<not> emp \<and> es \<noteq> [] \<and> G (last es) \<and> L (hd es))"
  proof (cases emp)
    case True
    then have "filter (\<lambda>e. G e \<and> L e) es = []" using e by (simp add: filter_empty_conv)
    then show ?thesis using f b by auto
  next
    case False
    then show ?thesis using window_outside [OF w] that unfolding a_def b_def by blast
  qed
  have t: "gte nd = Some (a \<le> i) \<and> lte nd = Some (i < b)" if "i < length es" "h (fst (ns ! i)) = Some nd" for i nd
  proof -
    note i = that(1)
    obtain nd' where "h (fst (ns ! i)) = Some nd'" "gte nd' = Some (G (es ! i))" "lte nd' = Some (L (es ! i))" by (rule window_node [OF w i])
    then show ?thesis using that(2) cut_nth [OF windowD(4) [OF w] that(1)] cut_nth [OF windowD(5) [OF w] that(1)]
      unfolding a_def b_def by auto
  qed
  show ?thesis unfolding zsl_range_def
  proof (intro exI conjI)
    show "(do { b \<leftarrow> inr; if \<not> b then Some None else zsl_first gte lte zsl h }) = Some (if a < b then Some (fst (ns ! a)) else None)"
      "(do { b \<leftarrow> inr; if \<not> b then Some None else zsl_last gte lte zsl h }) = Some (if a < b then Some (fst (ns ! (b - 1))) else None)"
      using out window_first [OF w _ _ a_def b_def] window_last [OF w _ _ a_def b_def] unfolding inr
      by (cases "\<not> emp \<and> es \<noteq> [] \<and> G (last es) \<and> L (hd es)"; simp)+
  qed (use b f t in auto)
qed


section \<open>Ranges of scores\<close>

definition rg_ok :: "('s :: linorder) zrangespec \<Rightarrow> bool" where
  "rg_ok rg \<longleftrightarrow> zr_min rg \<noteq> NaN \<and> zr_max rg \<noteq> NaN"

definition in_rg :: "('s :: linorder) zrangespec \<Rightarrow> 's \<Rightarrow> bool" where
  "in_rg rg s \<longleftrightarrow> zslValueGteMin (Dbl s) rg \<and> zslValueLteMax (Dbl s) rg"

lemma ekey_less_fst: "ekey a < ekey b \<Longrightarrow> fst a \<le> fst b"
  for a b :: "('s :: linorder) zelem"
  by (auto simp: ekey_def)

lemma gte_mono: "a \<le> b \<Longrightarrow> zslValueGteMin (Dbl a) rg \<Longrightarrow> zslValueGteMin (Dbl b) rg"
  by (cases "zr_min rg") (auto simp: zslValueGteMin_def split: if_splits)

lemma lte_mono: "a \<le> b \<Longrightarrow> zslValueLteMax (Dbl b) rg \<Longrightarrow> zslValueLteMax (Dbl a) rg"
  by (cases "zr_max rg") (auto simp: zslValueLteMax_def split: if_splits)

lemma score_window:
  assumes "zsl_rep h zsl ns es"
  shows "zsl_window h zsl ns es (\<lambda>nd. Some (zslValueGteMin (zn_score nd) rg)) (\<lambda>nd. Some (zslValueLteMax (zn_score nd) rg))
    (\<lambda>e. zslValueGteMin (Dbl (fst e)) rg) (\<lambda>e. zslValueLteMax (Dbl (fst e)) rg)"
proof -
  note s = zsl_repD(7) [OF assms]
  have "prefix_closed (\<lambda>e. \<not> zslValueGteMin (Dbl (fst e)) rg) es" using s by (rule sorted_prefix_closed) (meson ekey_less_fst gte_mono)
  moreover have "prefix_closed (\<lambda>e. zslValueLteMax (Dbl (fst e)) rg) es" using s by (rule sorted_prefix_closed) (meson ekey_less_fst lte_mono)
  ultimately show ?thesis using assms by (simp add: zsl_window_def tests_def)
qed

lemma rg_empty:
  assumes "rg_ok rg" "dbl_lt (zr_max rg) (zr_min rg) \<or> (dbl_eq (zr_min rg) (zr_max rg) \<and> (zr_minex rg \<or> zr_maxex rg))"
  shows "\<not> in_rg rg s"
  using assms by (cases "zr_min rg"; cases "zr_max rg") (auto simp: rg_ok_def in_rg_def zslValueGteMin_def zslValueLteMax_def split: if_splits)

lemma zslInRange_Some:
  assumes "zsl_rep h zsl ns es" "rg_ok rg"
  shows "zsl_range h ns es (\<lambda>nd. Some (zslValueGteMin (zn_score nd) rg)) (\<lambda>nd. Some (zslValueLteMax (zn_score nd) rg)) (\<lambda>e. in_rg rg (fst e))
    (zslFirstInRange zsl rg h) (zslLastInRange zsl rg h)"
proof -
  note w = score_window [OF assms(1), of rg]
  let ?empty = "dbl_lt (zr_max rg) (zr_min rg) \<or> (dbl_eq (zr_min rg) (zr_max rg) \<and> (zr_minex rg \<or> zr_maxex rg))"
  have "zslIsInRange zsl rg h = Some (\<not> ?empty \<and> es \<noteq> [] \<and> zslValueGteMin (Dbl (fst (last es))) rg \<and> zslValueLteMax (Dbl (fst (hd es))) rg)"
    unfolding zslIsInRange_def window_ends [OF w] by auto
  from window_range [OF w _ this] show ?thesis unfolding zslFirstInRange_def zslLastInRange_def in_rg_def
    using rg_empty [OF assms(2), unfolded in_rg_def] by blast
qed

section \<open>Lexicographic ranges\<close>

fun lex_gte :: "zlexrangespec \<Rightarrow> bytes \<Rightarrow> bool" where
  "lex_gte rg s = (case zlr_min rg of MinString \<Rightarrow> True | MaxString \<Rightarrow> False
     | LexObj ob \<Rightarrow> if zlr_minex rg then obj_str ob < s else obj_str ob \<le> s)"

fun lex_lte :: "zlexrangespec \<Rightarrow> bytes \<Rightarrow> bool" where
  "lex_lte rg s = (case zlr_max rg of MinString \<Rightarrow> False | MaxString \<Rightarrow> True
     | LexObj ob \<Rightarrow> if zlr_maxex rg then s < obj_str ob else s \<le> obj_str ob)"

definition in_lex :: "zlexrangespec \<Rightarrow> bytes \<Rightarrow> bool" where
  "in_lex rg s \<longleftrightarrow> lex_gte rg s \<and> lex_lte rg s"

definition lex_bounds :: "zlexrangespec \<Rightarrow> bool" where
  "lex_bounds rg \<longleftrightarrow> obj_ok (lex_robj (zlr_min rg)) \<and> obj_ok (lex_robj (zlr_max rg))"

text \<open>The contents of \<open>shared.minstring\<close> and \<open>shared.maxstring\<close> are not confused with the other bound.\<close>

definition lex_plain :: "zlexrangespec \<Rightarrow> bool" where
  "lex_plain rg \<longleftrightarrow> obj_str (lex_robj (zlr_min rg)) = obj_str (lex_robj (zlr_max rg)) \<and> (zlr_minex rg \<or> zlr_maxex rg) \<longrightarrow>
     (\<exists>a b. zlr_min rg = LexObj a \<and> zlr_max rg = LexObj b)"

lemma lexcmp_Some:
  assumes "obj_ok v" "obj_ok ob"
  obtains r where "compareStringObjectsForLexRange (LexObj v) (LexObj ob) = Some r" "(r < 0) = (obj_str v < obj_str ob)" "(r \<le> 0) = (obj_str v \<le> obj_str ob)"
proof (cases "v = ob")
  case True
  then show ?thesis using that [of 0] by (simp add: compareStringObjectsForLexRange_def)
next
  case False
  obtain r where "compareStringObjects v ob = Some r" "r < 0 \<longleftrightarrow> obj_str v < obj_str ob" "r \<le> 0 \<longleftrightarrow> obj_str v \<le> obj_str ob"
    by (rule compareStringObjects_Some [OF assms])
  then show ?thesis using False by (intro that [of r]) (simp_all add: compareStringObjectsForLexRange_def)
qed

lemma zslLexValue_Some:
  assumes "lex_bounds rg" "obj_ok v"
  shows "zslLexValueGteMin v rg = Some (lex_gte rg (obj_str v))" "zslLexValueLteMax v rg = Some (lex_lte rg (obj_str v))"
proof -
  show "zslLexValueGteMin v rg = Some (lex_gte rg (obj_str v))"
  proof (cases "zlr_min rg")
    case (LexObj ob)
    then have "obj_ok ob" using assms(1) by (simp add: lex_bounds_def)
    from lexcmp_Some [OF assms(2) this] obtain r where r: "compareStringObjectsForLexRange (LexObj v) (LexObj ob) = Some r"
      "(r < 0) = (obj_str v < obj_str ob)" "(r \<le> 0) = (obj_str v \<le> obj_str ob)" .
    have "(0 < r) = (obj_str ob < obj_str v)" "(0 \<le> r) = (obj_str ob \<le> obj_str v)" using r(2,3) by (metis not_le)+
    then show ?thesis using LexObj r(1) by (simp add: zslLexValueGteMin_def)
  qed (simp_all add: zslLexValueGteMin_def compareStringObjectsForLexRange_def)
  show "zslLexValueLteMax v rg = Some (lex_lte rg (obj_str v))"
  proof (cases "zlr_max rg")
    case (LexObj ob)
    then have "obj_ok ob" using assms(1) by (simp add: lex_bounds_def)
    from lexcmp_Some [OF assms(2) this] obtain r where r: "compareStringObjectsForLexRange (LexObj v) (LexObj ob) = Some r"
      "(r < 0) = (obj_str v < obj_str ob)" "(r \<le> 0) = (obj_str v \<le> obj_str ob)" .
    then show ?thesis using LexObj by (simp add: zslLexValueLteMax_def)
  qed (simp_all add: zslLexValueLteMax_def compareStringObjectsForLexRange_def)
qed

lemma lex_mono:
  "a \<le> b \<Longrightarrow> lex_gte rg a \<Longrightarrow> lex_gte rg b" "a \<le> b \<Longrightarrow> lex_lte rg b \<Longrightarrow> lex_lte rg a"
  by (auto split: lexobj.splits if_splits)

text \<open>With equal scores the elements are in the order of their strings.\<close>

definition one_score :: "('s \<times> 'e) list \<Rightarrow> bool" where
  "one_score es \<longleftrightarrow> (\<forall>a \<in> set es. \<forall>b \<in> set es. fst a = fst b)"

lemma one_score_less: "one_score es \<Longrightarrow> a \<in> set es \<Longrightarrow> b \<in> set es \<Longrightarrow> ekey a < ekey b \<Longrightarrow> estr a \<le> estr b"
  for a b :: "('s :: linorder) zelem"
proof -
  assume "one_score es" "a \<in> set es" "b \<in> set es" "ekey a < ekey b"
  moreover from calculation have "fst a = fst b" unfolding one_score_def by blast
  ultimately show ?thesis by (simp add: ekey_def)
qed

lemma lex_window:
  assumes rep: "zsl_rep h zsl ns es" and b: "lex_bounds rg" and o: "one_score es"
  shows "zsl_window h zsl ns es (\<lambda>nd. zn_obj nd \<bind> (\<lambda>ob. zslLexValueGteMin ob rg)) (\<lambda>nd. zn_obj nd \<bind> (\<lambda>ob. zslLexValueLteMax ob rg))
    (\<lambda>e. lex_gte rg (estr e)) (\<lambda>e. lex_lte rg (estr e))"
proof -
  note s = zsl_repD(7,8) [OF rep]
  have "prefix_closed (\<lambda>e. \<not> lex_gte rg (estr e)) es" using s(1) by (rule sorted_prefix_closed) (meson o one_score_less lex_mono(1))
  moreover have "prefix_closed (\<lambda>e. lex_lte rg (estr e)) es" using s(1) by (rule sorted_prefix_closed) (meson o one_score_less lex_mono(2))
  ultimately show ?thesis unfolding zsl_window_def tests_def
    using rep s(2) zslLexValue_Some [OF b] by (simp del: lex_gte.simps lex_lte.simps)
qed


lemma lex_empty:
  assumes b: "lex_bounds rg" "lex_plain rg"
    and r: "compareStringObjectsForLexRange (zlr_min rg) (zlr_max rg) = Some r" "compareStringObjects (lex_robj (zlr_min rg)) (lex_robj (zlr_max rg)) = Some q"
    and e: "r > 1 \<or> (q = 0 \<and> (zlr_minex rg \<or> zlr_maxex rg))"
  shows "\<not> in_lex rg s"
proof -
  obtain q' where q': "compareStringObjects (lex_robj (zlr_min rg)) (lex_robj (zlr_max rg)) = Some q'" "q' \<le> 0 \<longleftrightarrow> obj_str (lex_robj (zlr_min rg)) \<le> obj_str (lex_robj (zlr_max rg))"
    "q' = 0 \<longleftrightarrow> obj_str (lex_robj (zlr_min rg)) = obj_str (lex_robj (zlr_max rg))"
    using compareStringObjects_Some [of "lex_robj (zlr_min rg)" "lex_robj (zlr_max rg)"] b(1) unfolding lex_bounds_def by metis
  from e show ?thesis
  proof
    assume "q = 0 \<and> (zlr_minex rg \<or> zlr_maxex rg)"
    moreover from this obtain x y where xy: "zlr_min rg = LexObj x" "zlr_max rg = LexObj y" using b(2) q' r(2) unfolding lex_plain_def by auto
    ultimately show ?thesis using q' r(2) by (auto simp: in_lex_def split: if_splits)
  next
    assume r1: "r > 1"
    then obtain x y where xy: "zlr_min rg = LexObj x" "zlr_max rg = LexObj y"
      using r(1) by (cases "zlr_min rg"; cases "zlr_max rg") (auto simp: compareStringObjectsForLexRange_def)
    then have "q' = r" "x \<noteq> y" using r(1) r1 q'(1) by (auto simp: compareStringObjectsForLexRange_def split: if_splits)
    then have "obj_str y < obj_str x" using q'(2) xy r1 by (simp add: not_le [symmetric])
    then show ?thesis using xy less_le_trans le_less_trans by (auto simp: in_lex_def split: if_splits)
  qed
qed

lemma lex_compare_Some:
  assumes "lex_bounds rg"
  obtains r q where "compareStringObjectsForLexRange (zlr_min rg) (zlr_max rg) = Some r" "compareStringObjects (lex_robj (zlr_min rg)) (lex_robj (zlr_max rg)) = Some q"
proof -
  obtain q where "compareStringObjects (lex_robj (zlr_min rg)) (lex_robj (zlr_max rg)) = Some q"
    using compareStringObjects_Some [of "lex_robj (zlr_min rg)" "lex_robj (zlr_max rg)"] assms unfolding lex_bounds_def by metis
  moreover from this have "\<exists>r. compareStringObjectsForLexRange (zlr_min rg) (zlr_max rg) = Some r" by (simp add: compareStringObjectsForLexRange_def)
  ultimately show ?thesis using that by blast
qed

lemma zslInLexRange_Some:
  assumes "zsl_rep h zsl ns es" "lex_bounds rg" "lex_plain rg" "one_score es"
  shows "zsl_range h ns es (\<lambda>nd. zn_obj nd \<bind> (\<lambda>ob. zslLexValueGteMin ob rg)) (\<lambda>nd. zn_obj nd \<bind> (\<lambda>ob. zslLexValueLteMax ob rg)) (\<lambda>e. in_lex rg (estr e))
    (zslFirstInLexRange zsl rg h) (zslLastInLexRange zsl rg h)"
proof -
  note w = lex_window [OF assms(1,2,4)]
  obtain r q where c: "compareStringObjectsForLexRange (zlr_min rg) (zlr_max rg) = Some r" "compareStringObjects (lex_robj (zlr_min rg)) (lex_robj (zlr_max rg)) = Some q"
    by (rule lex_compare_Some [OF assms(2)])
  let ?empty = "r > 1 \<or> (q = 0 \<and> (zlr_minex rg \<or> zlr_maxex rg))"
  have "zslIsInLexRange zsl rg h = Some (\<not> ?empty \<and> es \<noteq> [] \<and> lex_gte rg (estr (last es)) \<and> lex_lte rg (estr (hd es)))"
    unfolding zslIsInLexRange_def c Option.bind_lunit window_ends [OF w] by (auto simp del: lex_gte.simps lex_lte.simps)
  from window_range [OF w _ this] show ?thesis unfolding zslFirstInLexRange_def zslLastInLexRange_def in_lex_def
    using lex_empty [OF assms(2,3) c, unfolded in_lex_def] by blast
qed

section \<open>The functions that delete ranges\<close>

text \<open>What a function that deletes a part of the list returns, for the elements \<open>P\<close>.\<close>

definition zsl_removed :: "(nat \<times> nat) list \<Rightarrow> ('s :: linorder) zelem list \<Rightarrow> (bytes, 'v) dict \<Rightarrow> 's zelem list \<Rightarrow> 's zelem list \<Rightarrow>
    's zheap \<times> zskiplist \<times> (bytes, 'v) dict \<times> nat \<Rightarrow> bool" where
  "zsl_removed ns es d gone kept r \<longleftrightarrow> (case r of (h', zsl', d', n) \<Rightarrow> n = length gone \<and> dict_inv d' \<and>
     (\<exists>k m. zsl_rep h' zsl' (zcut k m ns) (zcut k m es) \<and> zcut k m es = kept \<and> take m (drop k es) = gone) \<and>
     dict_map d' = dict_map d |` (- estr ` set gone))"

lemma zslDeleteRangeByScore_Some:
  assumes rep: "zsl_rep h zsl ns es" and d: "dict_inv d" and rg: "rg_ok rg"
  shows "ensures (zslDeleteRangeByScore zsl rg d h) (zsl_removed ns es d (filter (\<lambda>e. in_rg rg (fst e)) es) (filter (\<lambda>e. \<not> in_rg rg (fst e)) es))"
proof -
  note w = score_window [OF rep, of rg]
  obtain mn mx where m: "zr_min rg = Dbl mn" "zr_max rg = Dbl mx" using rg by (cases "zr_min rg"; cases "zr_max rg") (auto simp: rg_ok_def)
  have t1: "tests (\<lambda>t nd. Some (if zr_minex rg then dbl_le (zn_score nd) (zr_min rg) else dbl_lt (zn_score nd) (zr_min rg))) (\<lambda>e. \<not> zslValueGteMin (Dbl (fst e)) rg) (set es)"
    by (simp add: tests_def m zslValueGteMin_def not_le not_less)
  have t2: "tests (\<lambda>t nd. Some (if zr_maxex rg then dbl_lt (zn_score nd) (zr_max rg) else dbl_le (zn_score nd) (zr_max rg))) (\<lambda>e. zslValueLteMax (Dbl (fst e)) rg) (set es)"
    by (simp add: tests_def m zslValueLteMax_def)
  from zsl_delete_elems [OF rep d t1 t2 windowD(4,5) [OF w]] show ?thesis
    unfolding zslDeleteRangeByScore_def zsl_removed_def by (rule ensures_mono) (auto simp: in_rg_def)
qed

lemma zslDeleteRangeByLex_Some:
  assumes rep: "zsl_rep h zsl ns es" and d: "dict_inv d" and rg: "lex_bounds rg" and o: "one_score es"
  shows "ensures (zslDeleteRangeByLex zsl rg d h) (zsl_removed ns es d (filter (\<lambda>e. in_lex rg (estr e)) es) (filter (\<lambda>e. \<not> in_lex rg (estr e)) es))"
proof -
  note w = lex_window [OF rep rg o]
  have ok: "\<forall>e \<in> set es. obj_ok (snd e)" using zsl_repD(8) [OF rep] .
  have t1: "tests (\<lambda>t nd. do { ob \<leftarrow> zn_obj nd; b \<leftarrow> zslLexValueGteMin ob rg; Some (\<not> b) }) (\<lambda>e. \<not> lex_gte rg (estr e)) (set es)"
    using ok zslLexValue_Some [OF rg] by (simp add: tests_def del: lex_gte.simps)
  have t2: "tests (\<lambda>t nd. do { ob \<leftarrow> zn_obj nd; zslLexValueLteMax ob rg }) (\<lambda>e. lex_lte rg (estr e)) (set es)"
    using ok zslLexValue_Some [OF rg] by (simp add: tests_def del: lex_lte.simps)
  from zsl_delete_elems [OF rep d t1 t2 windowD(4,5) [OF w]] show ?thesis
    unfolding zslDeleteRangeByLex_def zsl_removed_def by (rule ensures_mono) (auto simp: in_lex_def simp del: lex_gte.simps lex_lte.simps)
qed

lemma zslDeleteRangeByRank_Some:
  assumes rep: "zsl_rep h zsl ns es" and d: "dict_inv d" and r: "0 < start" "start \<le> en" "en \<le> length es"
  shows "ensures (zslDeleteRangeByRank zsl start en d h) (zsl_removed ns es d (take (en + 1 - start) (drop (start - 1) es)) (zcut (start - 1) (en + 1 - start) es))"
proof -
  have len: "length ns = length es" using data_ok_length [OF zsl_repD(5) [OF rep]] .
  have cut: "cut_ok (\<lambda>t nd. Some (t < start)) h ((zsl_header zsl, ZSKIPLIST_MAXLEVEL) # take (start - 1) ns) (drop (start - 1) ns)"
  proof (rule cut_index)
    fix i assume i: "i < length ns"
    then show "\<exists>nd. h (fst (ns ! i)) = Some nd \<and> Some (Suc i < start) = Some (i < start - 1)"
      by (rule data_ok_node [OF zsl_repD(5) [OF rep]]) (use i in auto)
  qed (use r len in simp)
  have t: "tests_at (\<lambda>t nd. Some (t \<le> en)) (\<lambda>t e. t \<le> en) (set es)" by (simp add: tests_at_def)
  have m: "zsl_run (\<lambda>t e. t \<le> en) (Suc (start - 1)) (drop (start - 1) es) = en + 1 - start" using r by (simp add: zsl_run_rank)
  have k: "start - 1 \<le> length es" using r by simp
  from zsl_delete_range_Some [OF rep d k cut t, unfolded m] show ?thesis
    unfolding zslDeleteRangeByRank_def zsl_removed_def by (rule ensures_mono) (use r in \<open>auto simp: Let_def\<close>)
qed


section \<open>Creation\<close>

lemma zslCreate_loop_Some:
  assumes "zn_height h x = Some n"
  shows "j \<le> n \<Longrightarrow> ensures (zslCreate_loop j x h) (\<lambda>h'. zn_same h h' \<and> (\<forall>i < j. lv_get h' x i = Some \<lparr>lv_forward = None, lv_span = 0\<rparr>))"
proof (induction j)
  case (Suc j)
  then obtain h1 where h1: "zslCreate_loop j x h = Some h1" "zn_same h h1" "\<forall>i < j. lv_get h1 x i = Some \<lparr>lv_forward = None, lv_span = 0\<rparr>"
    by (auto elim!: ensuresE)
  have "zn_height h1 x = Some n" using h1(2) assms by (simp add: zn_same_def)
  then obtain h2 where h2: "lv_set h1 x j \<lparr>lv_forward = None, lv_span = 0\<rparr> = Some h2" "zn_dat h2 = zn_dat h1" "zn_back h2 = zn_back h1" "zn_height h2 = zn_height h1"
    "lv_get h2 = (lv_get h1)(x := (lv_get h1 x)(j := Some \<lparr>lv_forward = None, lv_span = 0\<rparr>))"
    using lv_set_Some [of h1 x n j] Suc.prems by (metis Suc_le_eq)
  then show ?case using h1 by (auto simp: zn_same_def less_Suc_eq)
qed (simp add: zn_same_def)

lemma zslCreate_Some:
  assumes M: "zmem_ok M" "finite (dom h)"
  shows "ensures (zslCreate M zero h) (\<lambda>(h', zsl). zsl_rep h' zsl [] [])"
proof -
  obtain h1 x where c: "zslCreateNode M ZSKIPLIST_MAXLEVEL (Dbl zero) None h = (h1, x)" by fastforce
  note v = zslCreateNode_views [OF c M]
  have hx: "zn_height h1 x = Some ZSKIPLIST_MAXLEVEL" by (simp add: v(3))
  obtain h2 where h2: "zslCreate_loop ZSKIPLIST_MAXLEVEL x h1 = Some h2" "zn_same h1 h2" "\<forall>i < ZSKIPLIST_MAXLEVEL. lv_get h2 x i = Some \<lparr>lv_forward = None, lv_span = 0\<rparr>"
    using zslCreate_loop_Some [OF hx, of ZSKIPLIST_MAXLEVEL] by (auto elim!: ensuresE)
  have "zn_height h2 x = Some ZSKIPLIST_MAXLEVEL" using h2(2) hx by (simp add: zn_same_def)
  then obtain h3 where h3: "set_backward h2 x None = Some h3" "zn_dat h3 = zn_dat h2" "zn_back h3 = (zn_back h2)(x \<mapsto> None)" "zn_height h3 = zn_height h2" "lv_get h3 = lv_get h2"
    by (rule set_backward_Some)
  have hh: "zn_height h3 = (zn_height h)(x \<mapsto> ZSKIPLIST_MAXLEVEL)" "zn_dat h3 = (zn_dat h)(x \<mapsto> (None, Dbl zero))"
    using h2(2) h3 v by (simp_all add: zn_same_def)
  then have "finite (dom h3)" using M(2) dom_height [of h] dom_height [of h3] by simp
  then have "zsl_rep h3 \<lparr>zsl_header = x, zsl_tail = None, zsl_length = 0, zsl_level = 1\<rparr> [] []"
    using h2(3) h3(5) hh by (simp add: zsl_rep_def zsl_nodes_def levels_ok_def backs_ok_def data_ok_def ZSKIPLIST_MAXLEVEL_def Cons_eq_append_conv)
  then show ?thesis by (simp add: zslCreate_def c h2(1) h3(1))
qed

section \<open>Release\<close>

lemma zslFreeNode_other:
  assumes "x \<notin> fst ` set ns" "data_ok (zn_dat h) ns es" "levels_ok (lv_get h) 1 ns"
  shows "data_ok (zn_dat (zslFreeNode x h)) ns es" "levels_ok (lv_get (zslFreeNode x h)) 1 ns"
proof -
  have other: "zn_dat (zslFreeNode x h) (fst m) = zn_dat h (fst m)" "lv_get (zslFreeNode x h) (fst m) = lv_get h (fst m)" if "m \<in> set ns" for m
  proof -
    have "fst m \<noteq> x" using assms(1) that by blast
    then show "zn_dat (zslFreeNode x h) (fst m) = zn_dat h (fst m)" "lv_get (zslFreeNode x h) (fst m) = lv_get h (fst m)"
      by (simp_all add: zslFreeNode_def zn_dat_def lv_get_def fun_eq_iff)
  qed
  show "data_ok (zn_dat (zslFreeNode x h)) ns es" using assms(2) other(1) by (auto simp: data_ok_def list_all2_conv_all_nth)
  show "levels_ok (lv_get (zslFreeNode x h)) 1 ns" by (rule levels_cong [OF assms(3) other(2)])
qed

lemma levels_tl: "levels_ok lv lim (n # ns) \<Longrightarrow> levels_ok lv lim ns"
  unfolding levels_ok_def by (metis append_Cons)

lemma zslFree_loop_Some:
  assumes "distinct (map fst ns)" "data_ok (zn_dat h) ns es" "levels_ok (lv_get h) 1 ns" "\<forall>n \<in> set ns. 0 < snd n"
  shows "zslFree_loop (if ns = [] then None else Some (fst (hd ns))) h = Some (h |` (- fst ` set ns), map (Some \<circ> snd) es)"
  using assms
proof (induction ns arbitrary: h es)
  case Nil
  then show ?case by (simp add: zslFree_loop.simps data_ok_def)
next
  case (Cons n ns)
  obtain e es' where es: "es = e # es'" "zn_dat h (fst n) = Some (Some (snd e), Dbl (fst e))" "data_ok (zn_dat h) ns es'"
    using Cons.prems(2) by (auto simp: data_ok_def list_all2_Cons1)
  obtain nd where nd: "h (fst n) = Some nd" "zn_obj nd = Some (snd e)" using es(2) by (auto simp: zn_dat_def)
  have l: "lv_get h (fst n) 0 = Some (expect 0 ns)" using levels_okD [of "lv_get h" 1 "[]" "fst n" "snd n" ns 0] Cons.prems(3,4) by simp
  let ?h = "zslFreeNode (fst n) h"
  have "data_ok (zn_dat ?h) ns es'" "levels_ok (lv_get ?h) 1 ns"
    using zslFreeNode_other [OF _ es(3) levels_tl [OF Cons.prems(3)], of "fst n"] Cons.prems(1) by simp_all
  then have "zslFree_loop (if ns = [] then None else Some (fst (hd ns))) ?h = Some (?h |` (- fst ` set ns), map (Some \<circ> snd) es')"
    using Cons.IH Cons.prems(1,4) by simp
  moreover have "?h |` (- fst ` set ns) = h |` (- fst ` set (n # ns))" by (auto simp: zslFreeNode_def restrict_map_def fun_eq_iff)
  ultimately show ?case using nd l es(1) expect_0 [of ns] Cons.prems(4) by (simp add: zslFree_loop.simps [of "Some (fst n)"])
qed

lemma zslFree_Some:
  assumes "zsl_rep h zsl ns es"
  shows "zslFree zsl h = Some (h |` (- insert (zsl_header zsl) (fst ` set ns)), map (Some \<circ> snd) es)"
proof -
  note r = zsl_repD [OF assms] and n = zsl_nodesD [OF zsl_repD(1) [OF assms]]
  let ?h = "h(zsl_header zsl := None)"
  have l: "lv_get h (zsl_header zsl) 0 = Some (expect 0 ns)" using levels_okD [of "lv_get h" "zsl_level zsl" "[]" "zsl_header zsl" ZSKIPLIST_MAXLEVEL ns 0] n(2,6) by (simp add: ZSKIPLIST_MAXLEVEL_def)
  have "levels_ok (lv_get h) 1 ns" using levels_mono [OF levels_tl [OF n(2)], of 1] n(6) by simp
  then have "data_ok (zn_dat ?h) ns es" "levels_ok (lv_get ?h) 1 ns"
    using zslFreeNode_other [OF _ r(5), of "zsl_header zsl"] n(1) by (simp_all add: zslFreeNode_def)
  then have "zslFree_loop (if ns = [] then None else Some (fst (hd ns))) ?h = Some (?h |` (- fst ` set ns), map (Some \<circ> snd) es)"
    using n(1,8) by (intro zslFree_loop_Some) auto
  moreover have "?h |` (- fst ` set ns) = h |` (- insert (zsl_header zsl) (fst ` set ns))" by (auto simp: restrict_map_def fun_eq_iff)
  ultimately show ?thesis using expect_0 [of ns] n(8) by (simp add: zslFree_def l)
qed

end
