(* ===== verification/Zset.thy ===== *)
theory Zset
  imports Skiplist
begin

text \<open>
  Sorted sets in their large encoding (\<open>t_zset.c\<close>): a skip list and a hash table over the same
  elements.  The keys of the hash table are the contents of the objects and its values point to the scores in
  the nodes of the skip list; a value is the address of the node.  The operations are the branches of the
  commands for \<open>REDIS_ENCODING_SKIPLIST\<close>, after the arguments have been parsed and the key has been looked up.
  A reply is a list of scores and strings or a number; \<open>True\<close> for \<open>keyremoved\<close> means that the
  command deletes the key.
\<close>

record zset =
  zs_dict :: "(bytes, nat) dict"
  zs_zsl :: zskiplist

type_synonym 's zset_state = "'s zheap \<times> zset"

definition REDIS_HT_MINFILL :: nat where "REDIS_HT_MINFILL = 10"

definition htNeedsResize :: "('k, 'v) dict \<Rightarrow> bool" where
  "htNeedsResize d = (let size = dictSlots d; used = dictSize d in
     size \<noteq> 0 \<and> used \<noteq> 0 \<and> size > DICT_HT_INITIAL_SIZE \<and> used * 100 div size < REDIS_HT_MINFILL)"

datatype zadd_res = ZaddNan | ZaddSame | ZaddUpdated | ZaddAdded

text \<open>
  \<open>zaddGenericCommand\<close> for one pair.  \<open>addf\<close> is the addition of doubles, \<open>incr\<close> is true for
  \<open>ZINCRBY\<close>; the object of an entry is the one in its node.  A failed assertion is undefined.
\<close>

definition zset_add :: "('s :: linorder) zmem \<Rightarrow> (nat \<Rightarrow> nat) \<Rightarrow> bool \<Rightarrow> nat \<Rightarrow> ('s dbl \<Rightarrow> 's dbl \<Rightarrow> 's dbl) \<Rightarrow>
    bool \<Rightarrow> 's dbl \<Rightarrow> bool \<Rightarrow> robj \<Rightarrow> 's zset_state \<Rightarrow> ('s zset_state \<times> zadd_res) option" where
  "zset_add M rnd cr junk addf incr score shared ele = (\<lambda>(h, zs). do {
     ele \<leftarrow> tryObjectEncoding shared ele;
     f \<leftarrow> dictFind (zs_dict zs) (obj_str ele);
     let d = fst f;
     case snd f of
       Some de \<Rightarrow> do {
         e \<leftarrow> dictGetEntry d de;
         nd \<leftarrow> h (snd e);
         curobj \<leftarrow> zn_obj nd;
         let curscore = zn_score nd;
         let score = (if incr then addf score curscore else score);
         if incr \<and> score = NaN then Some ((h, zs\<lparr>zs_dict := d\<rparr>), ZaddNan)
         else if \<not> dbl_eq score curscore then do {
           r \<leftarrow> zslDelete (zs_zsl zs) curscore curobj h;
           if \<not> snd (snd r) then None
           else do {
             q \<leftarrow> zslInsert M rnd (fst (snd r)) score curobj (fst r);
             d \<leftarrow> dictSetVal d de (snd (snd q));
             Some ((fst q, zs\<lparr>zs_dict := d, zs_zsl := fst (snd q)\<rparr>), ZaddUpdated) } }
         else Some ((h, zs\<lparr>zs_dict := d\<rparr>), ZaddSame) }
     | None \<Rightarrow> do {
         q \<leftarrow> zslInsert M rnd (zs_zsl zs) score ele h;
         a \<leftarrow> dictAdd cr junk d (obj_str ele) (snd (snd q));
         if snd a \<noteq> DICT_OK then None
         else Some ((fst q, zs\<lparr>zs_dict := fst a, zs_zsl := fst (snd q)\<rparr>), ZaddAdded) } })"

text \<open>The conversions of \<open>zsetLength\<close> to \<open>int\<close> and \<open>unsigned int\<close>.\<close>

definition zsetLength :: "zset \<Rightarrow> nat" where
  "zsetLength zs = zsl_length (zs_zsl zs) mod 2 ^ 32"

text \<open>The loop body of \<open>zremCommand\<close>: whether the element was there.\<close>

definition zset_rem :: "bool \<Rightarrow> robj \<Rightarrow> ('s :: linorder) zset_state \<Rightarrow> ('s zset_state \<times> bool) option" where
  "zset_rem cr ele = (\<lambda>(h, zs). do {
     f \<leftarrow> dictFind (zs_dict zs) (obj_str ele);
     let d = fst f;
     case snd f of
       None \<Rightarrow> Some ((h, zs\<lparr>zs_dict := d\<rparr>), False)
     | Some de \<Rightarrow> do {
         e \<leftarrow> dictGetEntry d de;
         nd \<leftarrow> h (snd e);
         r \<leftarrow> zslDelete (zs_zsl zs) (zn_score nd) ele h;
         if \<not> snd (snd r) then None
         else do {
           a \<leftarrow> dictDelete d (obj_str ele);
           b \<leftarrow> (if htNeedsResize (fst a) then map_option fst (dictResize cr (fst a)) else Some (fst a));
           Some ((fst r, zs\<lparr>zs_dict := b, zs_zsl := fst (snd r)\<rparr>), True) } } })"

text \<open>The loop of \<open>zremCommand\<close>, which stops when the set is empty: the number of deleted elements and \<open>keyremoved\<close>.\<close>

primrec zset_rem_loop :: "bool \<Rightarrow> robj list \<Rightarrow> ('s :: linorder) zset_state \<Rightarrow> ('s zset_state \<times> nat \<times> bool) option" where
  "zset_rem_loop cr [] st = Some (st, 0, False)"
| "zset_rem_loop cr (ele # eles) st = do {
     r \<leftarrow> zset_rem cr ele st;
     if \<not> snd r then zset_rem_loop cr eles (fst r)
     else if dictSize (zs_dict (snd (fst r))) = 0 then Some (fst r, 1, True)
     else do {
       q \<leftarrow> zset_rem_loop cr eles (fst r);
       Some (fst q, Suc (fst (snd q)), snd (snd q)) } }"

definition zset_score :: "bool \<Rightarrow> robj \<Rightarrow> 's zset_state \<Rightarrow> ('s zset_state \<times> 's dbl option) option" where
  "zset_score shared ele = (\<lambda>(h, zs). do {
     ele \<leftarrow> tryObjectEncoding shared ele;
     f \<leftarrow> dictFind (zs_dict zs) (obj_str ele);
     case snd f of
       None \<Rightarrow> Some ((h, zs\<lparr>zs_dict := fst f\<rparr>), None)
     | Some de \<Rightarrow> do {
         e \<leftarrow> dictGetEntry (fst f) de;
         nd \<leftarrow> h (snd e);
         Some ((h, zs\<lparr>zs_dict := fst f\<rparr>), Some (zn_score nd)) } })"

text \<open>\<open>zrankGenericCommand\<close>: the rank from 0, from the other end when \<open>reverse\<close>.\<close>

definition zset_rank :: "bool \<Rightarrow> bool \<Rightarrow> robj \<Rightarrow> ('s :: linorder) zset_state \<Rightarrow> ('s zset_state \<times> nat option) option" where
  "zset_rank reverse shared ele = (\<lambda>(h, zs). do {
     let llen = zsetLength zs;
     ele \<leftarrow> (case ele of ObjRaw s \<Rightarrow> tryObjectEncoding shared ele | ObjInt v \<Rightarrow> None);
     f \<leftarrow> dictFind (zs_dict zs) (obj_str ele);
     case snd f of
       None \<Rightarrow> Some ((h, zs\<lparr>zs_dict := fst f\<rparr>), None)
     | Some de \<Rightarrow> do {
         e \<leftarrow> dictGetEntry (fst f) de;
         nd \<leftarrow> h (snd e);
         rank \<leftarrow> zslGetRank (zs_zsl zs) (zn_score nd) ele h;
         if rank = 0 then None
         else Some ((h, zs\<lparr>zs_dict := fst f\<rparr>), Some (if reverse then ul_sub llen rank else ul_sub rank 1)) } })"

text \<open>The calls of \<open>zremrangeGenericCommand\<close>; \<open>remf\<close> is one of the three functions that delete a range.\<close>

definition zset_remrange :: "bool \<Rightarrow> (zskiplist \<Rightarrow> (bytes, nat) dict \<Rightarrow> 's zheap \<Rightarrow> ('s zheap \<times> zskiplist \<times> (bytes, nat) dict \<times> nat) option) \<Rightarrow>
    's zset_state \<Rightarrow> ('s zset_state \<times> nat \<times> bool) option" where
  "zset_remrange cr remf = (\<lambda>(h, zs). do {
     r \<leftarrow> remf (zs_zsl zs) (zs_dict zs) h;
     let d = fst (snd (snd r));
     b \<leftarrow> (if htNeedsResize d then map_option fst (dictResize cr d) else Some d);
     Some ((fst r, \<lparr>zs_dict = b, zs_zsl = fst (snd r)\<rparr>), snd (snd (snd r)), dictSize b = 0) })"

text \<open>The indexes of \<open>ZREMRANGEBYRANK\<close>, which count from the end when negative.\<close>

definition zset_remrangebyrank :: "bool \<Rightarrow> int \<Rightarrow> int \<Rightarrow> ('s :: linorder) zset_state \<Rightarrow> ('s zset_state \<times> nat \<times> bool) option" where
  "zset_remrangebyrank cr start en st = (let
     llen = int (zsetLength (snd st));
     start = (if start < 0 then llen + start else start);
     en = (if en < 0 then llen + en else en);
     start = (if start < 0 then 0 else start) in
     if start > en \<or> start \<ge> llen then Some (st, 0, False)
     else let en = (if en \<ge> llen then llen - 1 else en) in
       zset_remrange cr (\<lambda>zsl. zslDeleteRangeByRank zsl (nat (start + 1) mod 2 ^ 32) (nat (en + 1) mod 2 ^ 32)) st)"

section \<open>Commands that walk along the list\<close>

definition zsl_next :: "bool \<Rightarrow> 's zheap \<Rightarrow> nat \<Rightarrow> nat option option" where
  "zsl_next reverse h x = (if reverse then map_option zn_backward (h x) else map_option lv_forward (lv_get h x 0))"

text \<open>Score and string of a node, for the reply.\<close>

definition zset_reply :: "'s zskiplistNode \<Rightarrow> ('s dbl \<times> bytes) option" where
  "zset_reply nd = do { ob \<leftarrow> zn_obj nd; Some (zn_score nd, obj_str ob) }"

primrec zset_emit :: "nat \<Rightarrow> bool \<Rightarrow> 's zheap \<Rightarrow> nat option \<Rightarrow> ('s dbl \<times> bytes) list option" where
  "zset_emit 0 reverse h ln = Some []"
| "zset_emit (Suc rangelen) reverse h ln = do {
     x \<leftarrow> ln;
     nd \<leftarrow> h x;
     e \<leftarrow> zset_reply nd;
     p \<leftarrow> zsl_next reverse h x;
     rest \<leftarrow> zset_emit rangelen reverse h p;
     Some (e # rest) }"

text \<open>\<open>zrangeGenericCommand\<close>.\<close>

definition zset_range :: "bool \<Rightarrow> int \<Rightarrow> int \<Rightarrow> 's zset_state \<Rightarrow> ('s dbl \<times> bytes) list option" where
  "zset_range reverse start en = (\<lambda>(h, zs). let
     zsl = zs_zsl zs;
     llen = int_of_ulong (zsetLength zs);
     start = (if start < 0 then llen + start else start);
     en = (if en < 0 then llen + en else en);
     start = (if start < 0 then 0 else start) in
     if start > en \<or> start \<ge> llen then Some []
     else do {
       let en = (if en \<ge> llen then llen - 1 else en);
       ln \<leftarrow> (if reverse then
                if start > 0 then zslGetElementByRank zsl (nat (llen - start)) h else Some (zsl_tail zsl)
              else
                if start > 0 then zslGetElementByRank zsl (nat (start + 1)) h else map_option lv_forward (lv_get h (zsl_header zsl) 0));
       zset_emit (nat (en - start + 1)) reverse h ln })"

text \<open>\<open>while (ln && offset--)\<close>; the decrement of the least \<open>long\<close> overflows.\<close>

partial_function (option) zset_skip :: "bool \<Rightarrow> 's zheap \<Rightarrow> nat option \<Rightarrow> int \<Rightarrow> nat option option" where
  "zset_skip reverse h ln offset = (case ln of
     None \<Rightarrow> Some None
   | Some x \<Rightarrow>
       if offset = 0 then Some ln
       else if offset = LLONG_MIN then None
       else do {
         p \<leftarrow> zsl_next reverse h x;
         zset_skip reverse h p (offset - 1) })"

text \<open>\<open>while (ln && limit--)\<close> with the test that ends the range.\<close>

partial_function (option) zset_emit_while :: "('s zskiplistNode \<Rightarrow> bool option) \<Rightarrow> bool \<Rightarrow> 's zheap \<Rightarrow> nat option \<Rightarrow> int \<Rightarrow> ('s dbl \<times> bytes) list option" where
  "zset_emit_while test reverse h ln limit = (case ln of
     None \<Rightarrow> Some []
   | Some x \<Rightarrow>
       if limit = 0 then Some []
       else if limit = LLONG_MIN then None
       else do {
         nd \<leftarrow> h x;
         b \<leftarrow> test nd;
         if \<not> b then Some []
         else do {
           e \<leftarrow> zset_reply nd;
           p \<leftarrow> zsl_next reverse h x;
           rest \<leftarrow> zset_emit_while test reverse h p (limit - 1);
           Some (e # rest) } })"

text \<open>The common part of \<open>genericZrangebyscoreCommand\<close> and \<open>genericZrangebylexCommand\<close>, from the node \<open>ln\<close> on.\<close>

definition zset_range_from :: "('s zskiplistNode \<Rightarrow> bool option) \<Rightarrow> bool \<Rightarrow> int \<Rightarrow> int \<Rightarrow> 's zheap \<Rightarrow> nat option option \<Rightarrow> ('s dbl \<times> bytes) list option" where
  "zset_range_from test reverse offset limit h ln = do {
     ln \<leftarrow> ln;
     if ln = None then Some []
     else do {
       ln \<leftarrow> zset_skip reverse h ln offset;
       zset_emit_while test reverse h ln limit } }"

definition zset_rangebyscore :: "bool \<Rightarrow> ('s :: linorder) zrangespec \<Rightarrow> int \<Rightarrow> int \<Rightarrow> 's zset_state \<Rightarrow> ('s dbl \<times> bytes) list option" where
  "zset_rangebyscore reverse rg offset limit = (\<lambda>(h, zs).
     zset_range_from (\<lambda>nd. Some (if reverse then zslValueGteMin (zn_score nd) rg else zslValueLteMax (zn_score nd) rg)) reverse offset limit h
       (if reverse then zslLastInRange (zs_zsl zs) rg h else zslFirstInRange (zs_zsl zs) rg h))"

definition zset_rangebylex :: "bool \<Rightarrow> zlexrangespec \<Rightarrow> int \<Rightarrow> int \<Rightarrow> 's zset_state \<Rightarrow> ('s dbl \<times> bytes) list option" where
  "zset_rangebylex reverse rg offset limit = (\<lambda>(h, zs).
     zset_range_from (\<lambda>nd. zn_obj nd \<bind> (\<lambda>ob. if reverse then zslLexValueGteMin ob rg else zslLexValueLteMax ob rg)) reverse offset limit h
       (if reverse then zslLastInLexRange (zs_zsl zs) rg h else zslFirstInLexRange (zs_zsl zs) rg h))"

section \<open>Counting\<close>

text \<open>The count of \<open>zcountCommand\<close> and \<open>zlexcountCommand\<close> from the ranks of the first and the last node of a range.\<close>

definition zset_count_from :: "nat option option \<Rightarrow> nat option option \<Rightarrow> zskiplist \<Rightarrow> ('s :: linorder) zheap \<Rightarrow> int option" where
  "zset_count_from first lst zsl h = do {
     zn \<leftarrow> first;
     case zn of None \<Rightarrow> Some 0
     | Some x \<Rightarrow> do {
         nd \<leftarrow> h x;
         ob \<leftarrow> zn_obj nd;
         rank \<leftarrow> zslGetRank zsl (zn_score nd) ob h;
         let count = int_of_ulong (ul_sub (zsl_length zsl) (ul_sub rank 1));
         zn \<leftarrow> lst;
         case zn of None \<Rightarrow> Some count
         | Some x \<Rightarrow> do {
             nd \<leftarrow> h x;
             ob \<leftarrow> zn_obj nd;
             rank \<leftarrow> zslGetRank zsl (zn_score nd) ob h;
             Some (int_of_ulong (ul_sub (ulong_of_int count) (ul_sub (zsl_length zsl) rank))) } } }"

definition zset_count :: "('s :: linorder) zrangespec \<Rightarrow> 's zset_state \<Rightarrow> int option" where
  "zset_count rg = (\<lambda>(h, zs). zset_count_from (zslFirstInRange (zs_zsl zs) rg h) (zslLastInRange (zs_zsl zs) rg h) (zs_zsl zs) h)"

definition zset_lexcount :: "zlexrangespec \<Rightarrow> ('s :: linorder) zset_state \<Rightarrow> int option" where
  "zset_lexcount rg = (\<lambda>(h, zs). zset_count_from (zslFirstInLexRange (zs_zsl zs) rg h) (zslLastInLexRange (zs_zsl zs) rg h) (zs_zsl zs) h)"

section \<open>Creation\<close>

definition createZsetObject :: "('s :: linorder) zmem \<Rightarrow> 's \<Rightarrow> (bytes, nat) dictType \<Rightarrow> 's zheap \<Rightarrow> 's zset_state option" where
  "createZsetObject M zero ty h = do {
     r \<leftarrow> zslCreate M zero h;
     Some (fst r, \<lparr>zs_dict = dictCreate ty, zs_zsl = snd r\<rparr>) }"

end
