(* ===== verification/Zset_Inv.thy ===== *)
theory Zset_Inv
  imports Skiplist_Range Zset
begin

text \<open>
  The invariant of sorted sets, which ties the nodes of the skip list to the entries of the hash table, and
  the commands that change a set or look up one element.  The contents are a strictly sorted list of pairs of a score and
  a string, in which every string occurs once.
\<close>

section \<open>Parallel lists\<close>

lemma map_zput: "map f (zput_at k x xs) = zput_at k (f x) (map f xs)"
  by (simp add: zput_at_def take_map drop_map)

lemma map_zcut: "map f (zcut k m xs) = zcut k m (map f xs)"
  by (simp add: zcut_def take_map drop_map)

lemma zip_zput: "length xs = length ys \<Longrightarrow> zip (zput_at k x xs) (zput_at k y ys) = zput_at k (x, y) (zip xs ys)"
  by (simp add: zput_at_def take_zip drop_zip)

lemma zip_zcut: "length xs = length ys \<Longrightarrow> zip (zcut k m xs) (zcut k m ys) = zcut k m (zip xs ys)"
  by (simp add: zcut_def take_zip drop_zip)

lemma zcut_split: "xs = take k xs @ take m (drop k xs) @ drop (k + m) xs"
  by (metis append_take_drop_id drop_drop add.commute)

lemma distinct_zcut: "distinct xs \<Longrightarrow> distinct (zcut k m xs)"
proof -
  assume "distinct xs"
  then have "distinct (take k xs @ take m (drop k xs) @ drop (k + m) xs)" using zcut_split [of xs k m] by simp
  then show ?thesis unfolding zcut_def by auto
qed

lemma filter_mid: "distinct (map f (as @ x # cs)) \<Longrightarrow> filter (\<lambda>y. f y \<noteq> f x) (as @ x # cs) = as @ cs"
proof -
  assume d: "distinct (map f (as @ x # cs))"
  have "filter (\<lambda>y. f y \<noteq> f x) as = as" "filter (\<lambda>y. f y \<noteq> f x) cs = cs" using d by (auto intro!: filter_True simp: image_iff)
  then show ?thesis by simp
qed

lemma zcut_one:
  assumes "distinct (map f xs)" "k < length xs"
  shows "zcut k 1 xs = filter (\<lambda>y. f y \<noteq> f (xs ! k)) xs"
  using filter_mid [of f "take k xs" "xs ! k" "drop (Suc k) xs"] assms by (simp add: zcut_def id_take_nth_drop [symmetric])

lemma map_of_zput: "k \<notin> fst ` set xs \<Longrightarrow> map_of (zput_at p (k, v) xs) = (map_of xs)(k \<mapsto> v)"
proof -
  assume k: "k \<notin> fst ` set xs"
  have "map_of xs = map_of (take p xs @ drop p xs)" by simp
  moreover have "k \<notin> dom (map_of (take p xs))" using k by (auto simp: dom_map_of_conv_image_fst dest: in_set_takeD)
  ultimately show ?thesis unfolding zput_at_def map_of_append by (auto simp: map_add_def fun_eq_iff split: option.splits)
qed

lemma map_of_zcut:
  assumes "distinct (map fst xs)"
  shows "map_of (zcut k m xs) = map_of xs |` (- fst ` set (take m (drop k xs)))"
proof
  fix x
  let ?a = "take k xs" and ?b = "take m (drop k xs)" and ?c = "drop (k + m) xs"
  have s: "xs = ?a @ ?b @ ?c" by (rule zcut_split)
  then have d: "distinct (map fst (?a @ ?b @ ?c))" using assms by simp
  show "map_of (zcut k m xs) x = (map_of xs |` (- fst ` set ?b)) x"
  proof (cases "x \<in> fst ` set ?b")
    case True
    then have "x \<notin> fst ` set (?a @ ?c)" using d by auto
    then show ?thesis using True by (simp add: zcut_def map_of_eq_None_iff del: map_of_append set_append)
  next
    case False
    then have "map_of ?b x = None" by (simp add: map_of_eq_None_iff)
    moreover have "map_of xs x = map_of (?a @ ?b @ ?c) x" using s by simp
    ultimately show ?thesis using False by (simp add: zcut_def map_add_def split: option.splits)
  qed
qed

section \<open>The invariant\<close>

definition zpairs :: "'s zelem list \<Rightarrow> (nat \<times> nat) list \<Rightarrow> (bytes \<times> nat) list" where
  "zpairs es ns = zip (map estr es) (map fst ns)"

definition zset_rep :: "('s :: linorder) zset_state \<Rightarrow> (nat \<times> nat) list \<Rightarrow> 's zelem list \<Rightarrow> bool" where
  "zset_rep st ns es \<longleftrightarrow> zsl_rep (fst st) (zs_zsl (snd st)) ns es \<and> distinct (map estr es) \<and>
     dict_inv (zs_dict (snd st)) \<and> dict_map (zs_dict (snd st)) = map_of (zpairs es ns)"

lemma zset_repD:
  assumes "zset_rep (h, zs) ns es"
  shows "zsl_rep h (zs_zsl zs) ns es" "distinct (map estr es)" "dict_inv (zs_dict zs)" "dict_map (zs_dict zs) = map_of (zpairs es ns)" "length ns = length es"
  using assms data_ok_length [OF zsl_repD(5)] unfolding zset_rep_def by auto

lemma zpairs_fst: "length ns = length es \<Longrightarrow> map fst (zpairs es ns) = map estr es"
  by (simp add: zpairs_def)

lemma zpairs_put: "length ns = length es \<Longrightarrow> zpairs (zput_at k e es) (zput_at k n ns) = zput_at k (estr e, fst n) (zpairs es ns)"
  by (simp add: zpairs_def map_zput zip_zput)

lemma zpairs_cut: "length ns = length es \<Longrightarrow> zpairs (zcut k m es) (zcut k m ns) = zcut k m (zpairs es ns)"
  by (simp add: zpairs_def map_zcut zip_zcut)

lemma zset_rep_dict:
  assumes "zset_rep (h, zs) ns es" "dict_inv d" "dict_map d = dict_map (zs_dict zs)"
  shows "zset_rep (h, zs\<lparr>zs_dict := d\<rparr>) ns es"
  using assms by (simp add: zset_rep_def)

lemma map_of_zpairs_cut:
  assumes "distinct (map estr es)" "length ns = length es"
  shows "map_of (zpairs (zcut k m es) (zcut k m ns)) = map_of (zpairs es ns) |` (- estr ` set (take m (drop k es)))"
proof -
  have "map_of (zcut k m (zpairs es ns)) = map_of (zpairs es ns) |` (- fst ` set (take m (drop k (zpairs es ns))))"
    using assms(1) zpairs_fst [OF assms(2)] by (intro map_of_zcut) simp
  moreover have "fst ` set (take m (drop k (zpairs es ns))) = estr ` set (take m (drop k es))"
    using zpairs_fst [OF assms(2)] by (metis (no_types) drop_map image_set take_map)
  ultimately show ?thesis by (simp add: zpairs_cut [OF assms(2)])
qed

text \<open>The elements removed at \<open>k\<close>, from the skip list and from the hash table.\<close>

lemma zset_rep_cut:
  assumes rep: "zset_rep (h, zs) ns es" and z: "zsl_rep h' zsl' (zcut k m ns) (zcut k m es)"
    and d: "dict_inv d'" "dict_map d' = dict_map (zs_dict zs) |` (- estr ` set (take m (drop k es)))"
  shows "zset_rep (h', \<lparr>zs_dict = d', zs_zsl = zsl'\<rparr>) (zcut k m ns) (zcut k m es)"
proof -
  note r = zset_repD [OF rep]
  have "distinct (map estr (zcut k m es))" using r(2) by (simp only: map_zcut distinct_zcut)
  then show ?thesis using z d r(4) map_of_zpairs_cut [OF r(2,5), of k m] by (simp add: zset_rep_def)
qed

text \<open>An element with a fresh string inserted.\<close>

lemma zset_rep_put:
  assumes r: "distinct (map estr es)" "length ns = length es" and z: "zsl_rep h' zsl' (zput_at k (x, level) ns) (zput_at k e es)"
    and d: "dict_inv d'" "dict_map d' = (map_of (zpairs es ns))(estr e \<mapsto> x)" and new: "estr e \<notin> estr ` set es"
  shows "zset_rep (h', \<lparr>zs_dict = d', zs_zsl = zsl'\<rparr>) (zput_at k (x, level) ns) (zput_at k e es)"
proof -
  have "estr e \<notin> fst ` set (zpairs es ns)" using new zpairs_fst [OF r(2)] by (metis image_set)
  then have "map_of (zpairs (zput_at k e es) (zput_at k (x, level) ns)) = (map_of (zpairs es ns))(estr e \<mapsto> x)"
    by (simp add: zpairs_put [OF r(2)] map_of_zput)
  moreover have "distinct (map estr (take k es) @ map estr (drop k es))" using r(1) by (metis append_take_drop_id map_append)
  then have "distinct (map estr (zput_at k e es))" using new by (auto simp: zput_at_def dest: in_set_takeD in_set_dropD)
  ultimately show ?thesis using z d by (simp add: zset_rep_def)
qed

section \<open>The specification\<close>

type_synonym 's zview = "('s \<times> bytes) list"

definition zv_find :: "bytes \<Rightarrow> 's zview \<Rightarrow> 's option" where
  "zv_find m A = map_option fst (find (\<lambda>e. snd e = m) A)"

definition zv_drop :: "bytes \<Rightarrow> 's zview \<Rightarrow> 's zview" where
  "zv_drop m A = filter (\<lambda>e. snd e \<noteq> m) A"

definition zv_put :: "'s \<Rightarrow> bytes \<Rightarrow> ('s :: linorder) zview \<Rightarrow> 's zview" where
  "zv_put s m A = insort (s, m) (zv_drop m A)"

lemma snd_ekey [simp]: "snd (ekey e) = estr e" and fst_ekey [simp]: "fst (ekey e) = fst e"
  by (simp_all add: ekey_def)

lemma map_ekey_zcut:
  assumes "distinct (map estr es)" "k < length es"
  shows "map ekey (zcut k 1 es) = zv_drop (estr (es ! k)) (map ekey es)"
  unfolding zcut_one [OF assms] by (simp add: zv_drop_def filter_map comp_def)

lemma set_zput: "set (zput_at k x xs) = insert x (set xs)"
proof -
  have "set (take k xs) \<union> set (drop k xs) = set xs" by (metis append_take_drop_id set_append)
  then show ?thesis by (auto simp: zput_at_def)
qed

lemma zput_notin: "distinct (zput_at k x xs) \<Longrightarrow> x \<notin> set xs"
proof -
  assume "distinct (zput_at k x xs)"
  then have "x \<notin> set (take k xs @ drop k xs)" unfolding zput_at_def by (simp del: append_take_drop_id)
  then show ?thesis by simp
qed

lemma map_ekey_zput:
  fixes es :: "('s :: linorder) zelem list"
  assumes s: "sorted_wrt (<) (map ekey es)" "sorted_wrt (<) (map ekey (zput_at k e es))"
  shows "map ekey (zput_at k e es) = insort (ekey e) (map ekey es)"
proof (rule strict_sorted_equal)
  have "ekey e \<notin> set (map ekey es)" using s(2) zput_notin [of k "ekey e" "map ekey es"] unfolding strict_sorted_iff map_zput by iprover
  then show "sorted_wrt (<) (insort (ekey e) (map ekey es))" using s(1) unfolding strict_sorted_iff
    by (simp add: sorted_insort distinct_insort del: set_map)
  show "set (map ekey (zput_at k e es)) = set (insort (ekey e) (map ekey es))"
    by (simp add: set_insort_key set_zput map_zput)
qed (rule s(2))

lemma zv_find_nth:
  assumes "distinct (map estr es)" "i < length es"
  shows "zv_find (estr (es ! i)) (map ekey es) = Some (fst (es ! i))"
proof -
  have "find (\<lambda>e. snd e = estr (es ! i)) (map ekey es) = Some (ekey (es ! i))"
    unfolding find_Some_iff using assms by (intro exI [of _ i]) (auto simp: distinct_conv_nth)
  then show ?thesis by (simp add: zv_find_def)
qed

lemma zv_find_None: "zv_find m (map ekey es) = None \<longleftrightarrow> m \<notin> estr ` set es"
  by (auto simp: zv_find_def find_None_iff)

section \<open>Lookup\<close>

lemma zset_find:
  assumes rep: "zset_rep (h, zs) ns es"
  obtains (miss) d where "dictFind (zs_dict zs) m = Some (d, None)" "zset_rep (h, zs\<lparr>zs_dict := d\<rparr>) ns es" "m \<notin> estr ` set es"
  | (hit) d he i nd where "dictFind (zs_dict zs) m = Some (d, Some he)" "zset_rep (h, zs\<lparr>zs_dict := d\<rparr>) ns es"
      "ref_ok d he" "fst (ref_entry d he) = m" "dictGetEntry d he = Some (m, fst (ns ! i))" "i < length es" "estr (es ! i) = m"
      "h (fst (ns ! i)) = Some nd" "zn_obj nd = Some (snd (es ! i))" "zn_score nd = Dbl (fst (es ! i))"
proof -
  note r = zset_repD [OF rep]
  obtain d f where f: "dictFind (zs_dict zs) m = Some (d, f)" "dict_same (zs_dict zs) d"
    "case f of None \<Rightarrow> dict_map (zs_dict zs) m = None | Some he \<Rightarrow> ref_ok d he \<and> fst (ref_entry d he) = m"
    using dictFind_spec [OF r(3)] by blast
  have d: "dict_inv d" "dict_map d = map_of (zpairs es ns)" using dict_same_step [OF r(3) f(2)] r(4) by (simp_all add: dict_step_def)
  have rep': "zset_rep (h, zs\<lparr>zs_dict := d\<rparr>) ns es" by (rule zset_rep_dict [OF rep d(1)]) (simp add: d(2) r(4))
  show ?thesis
  proof (cases f)
    case None
    then have "m \<notin> set (map fst (zpairs es ns))" using f(3) r(4) by (simp add: map_of_eq_None_iff)
    then have "m \<notin> estr ` set es" unfolding zpairs_fst [OF r(5)] by simp
    then show ?thesis using miss [of d] f(1) rep' None by simp
  next
    case (Some he)
    then have he: "ref_ok d he" "fst (ref_entry d he) = m" using f(3) by simp_all
    have "map_of (zpairs es ns) m = Some (snd (ref_entry d he))" using dict_map_ref [OF d(1) he(1)] d(2) he(2) by simp
    then have "(m, snd (ref_entry d he)) \<in> set (zpairs es ns)" by (rule map_of_SomeD)
    then obtain i where i: "i < length es" "estr (es ! i) = m" "fst (ns ! i) = snd (ref_entry d he)"
      using r(5) by (auto simp: zpairs_def in_set_zip)
    obtain nd where "h (fst (ns ! i)) = Some nd" "zn_obj nd = Some (snd (es ! i))" "zn_score nd = Dbl (fst (es ! i))"
      using data_ok_node [OF zsl_repD(5) [OF r(1)], of i] i(1) r(5) by metis
    moreover have "dictGetEntry d he = Some (m, fst (ns ! i))" using dictGetEntry_ref [OF he(1)] he(2) i(3) by (metis prod.collapse)
    ultimately show ?thesis using hit [of d he i nd] f(1) rep' Some he i by simp
  qed
qed

text \<open>What an operation promises: the invariant, the new contents, the result.\<close>

definition zset_to :: "('s :: linorder) zview \<Rightarrow> 'r \<Rightarrow> 's zset_state \<times> 'r \<Rightarrow> bool" where
  "zset_to A x q \<longleftrightarrow> snd q = x \<and> (\<exists>ns es. zset_rep (fst q) ns es \<and> map ekey es = A)"

lemma zset_toI: "zset_rep st ns es \<Longrightarrow> map ekey es = A \<Longrightarrow> zset_to A x (st, x)"
  by (auto simp: zset_to_def)

lemma zset_score_Some:
  assumes rep: "zset_rep st ns es" and ob: "obj_ok ele"
  shows "ensures (zset_score shared ele st) (zset_to (map ekey es) (map_option Dbl (zv_find (obj_str ele) (map ekey es))))"
proof -
  obtain h zs where st: "st = (h, zs)" by (cases st)
  obtain ele' where e: "tryObjectEncoding shared ele = Some ele'" "obj_str ele' = obj_str ele" using tryObjectEncoding_Some [OF ob] by metis
  show ?thesis
  proof (rule zset_find [OF rep [unfolded st], of "obj_str ele"])
    fix d assume d: "dictFind (zs_dict zs) (obj_str ele) = Some (d, None)" "zset_rep (h, zs\<lparr>zs_dict := d\<rparr>) ns es" "obj_str ele \<notin> estr ` set es"
    then have "zv_find (obj_str ele) (map ekey es) = None" by (simp only: zv_find_None) simp
    then show ?thesis using d by (simp add: zset_score_def st e zset_toI)
  next
    fix d he i nd
    assume d: "dictFind (zs_dict zs) (obj_str ele) = Some (d, Some he)" "zset_rep (h, zs\<lparr>zs_dict := d\<rparr>) ns es"
      "dictGetEntry d he = Some (obj_str ele, fst (ns ! i))" "i < length es" "estr (es ! i) = obj_str ele"
      "h (fst (ns ! i)) = Some nd" "zn_score nd = Dbl (fst (es ! i))"
    then have "zv_find (obj_str ele) (map ekey es) = Some (fst (es ! i))" using zv_find_nth [of es i] zset_repD(2) [OF rep [unfolded st]] by simp
    then show ?thesis using d by (simp add: zset_score_def st e zset_toI)
  qed
qed


section \<open>Insertion and deletion\<close>

lemma zset_eta: "zs\<lparr>zs_dict := d, zs_zsl := z\<rparr> = \<lparr>zs_dict = d, zs_zsl = z\<rparr>" for zs :: zset
  by (cases zs) simp

lemma zset_resize_Some:
  assumes "dict_inv d"
  shows "ensures (if htNeedsResize d then map_option fst (dictResize cr d) else Some d) (\<lambda>d'. dict_inv d' \<and> dict_map d' = dict_map d)"
proof (cases "htNeedsResize d")
  case True
  obtain d' r where d': "dictResize cr d = Some (d', r)" "dict_same d d'" using dictResize_same [OF assms, of cr] by blast
  then show ?thesis using True dict_same_step [OF assms d'(2)] by (simp add: dict_step_def)
qed (simp add: assms)

lemma take_one_drop: "k < length xs \<Longrightarrow> take 1 (drop k xs) = [xs ! k]"
  by (simp add: Cons_nth_drop_Suc [symmetric])

text \<open>Deleting the element with the string \<open>m\<close> from the skip list.\<close>

lemma zset_zslDelete:
  assumes rep: "zset_rep (h, zs) ns es" and i: "i < length es" "estr (es ! i) = m" and ob: "obj_ok obj" "obj_str obj = m"
  obtains h' zsl' k where "zslDelete (zs_zsl zs) (Dbl (fst (es ! i))) obj h = Some (h', zsl', True)" "k < length es" "estr (es ! k) = m"
    "zsl_rep h' zsl' (zcut k 1 ns) (zcut k 1 es)"
proof -
  have "ekey (fst (es ! i), obj) = ekey (es ! i)" using i(2) ob(2) by (simp add: ekey_def)
  then have e: "ekey (fst (es ! i), obj) \<in> ekey ` set es" using i(1) by simp
  show ?thesis
  proof (rule ensuresE [OF zslDelete_Some [OF zset_repD(1) [OF rep] ob(1), of "fst (es ! i)"]])
    fix q
    assume q: "zslDelete (zs_zsl zs) (Dbl (fst (es ! i))) obj h = Some q"
      "case q of (h', zsl', b) \<Rightarrow> b = (ekey (fst (es ! i), obj) \<in> ekey ` set es) \<and>
        (if b then \<exists>k < length es. ekey (es ! k) = ekey (fst (es ! i), obj) \<and> zsl_rep h' zsl' (zcut k 1 ns) (zcut k 1 es) else h' = h \<and> zsl' = zs_zsl zs)"
    obtain h' zsl' b where qe: "q = (h', zsl', b)" by (cases q)
    then obtain k where "b" "k < length es" "ekey (es ! k) = ekey (fst (es ! i), obj)" "zsl_rep h' zsl' (zcut k 1 ns) (zcut k 1 es)"
      using q(2) e by auto
    moreover from this(3) have "estr (es ! k) = m" using ob(2) by (simp add: ekey_def)
    ultimately show ?thesis using that [of h' zsl' k] q(1) qe by simp
  qed
qed

lemma zset_rem_Some:
  assumes rep: "zset_rep st ns es" and ob: "obj_ok ele"
  shows "ensures (zset_rem cr ele st) (zset_to (zv_drop (obj_str ele) (map ekey es)) (obj_str ele \<in> estr ` set es))"
proof -
  obtain h zs where st: "st = (h, zs)" by (cases st)
  note rep = rep [unfolded st]
  note dis = zset_repD(2) [OF rep]
  show ?thesis
  proof (rule zset_find [OF rep, of "obj_str ele"])
    fix d assume d: "dictFind (zs_dict zs) (obj_str ele) = Some (d, None)" "zset_rep (h, zs\<lparr>zs_dict := d\<rparr>) ns es" "obj_str ele \<notin> estr ` set es"
    then have "zv_drop (obj_str ele) (map ekey es) = map ekey es" by (auto simp: zv_drop_def filter_id_conv image_iff)
    moreover have "zset_rem cr ele st = Some ((h, zs\<lparr>zs_dict := d\<rparr>), False)" using d(1) by (simp add: zset_rem_def st)
    ultimately show ?thesis using d(2,3) by (simp add: zset_to_def) (rule exI, rule exI, erule conjI, rule refl)
  next
    fix d he i nd
    assume d: "dictFind (zs_dict zs) (obj_str ele) = Some (d, Some he)" "zset_rep (h, zs\<lparr>zs_dict := d\<rparr>) ns es"
      "dictGetEntry d he = Some (obj_str ele, fst (ns ! i))" "i < length es" "estr (es ! i) = obj_str ele"
      "h (fst (ns ! i)) = Some nd" "zn_score nd = Dbl (fst (es ! i))"
    obtain h' zsl' k where k: "zslDelete (zs_zsl zs) (Dbl (fst (es ! i))) ele h = Some (h', zsl', True)" "k < length es" "estr (es ! k) = obj_str ele"
      "zsl_rep h' zsl' (zcut k 1 ns) (zcut k 1 es)" by (rule zset_zslDelete [OF rep d(4,5) ob refl])
    note r = zset_repD [OF d(2), simplified]
    obtain d1 x where d1: "dictDelete d (obj_str ele) = Some (d1, x)" "dict_inv d1" "dict_map d1 = (dict_map d)(obj_str ele := None)"
      using dictGenericDelete_spec [OF r(3), of "obj_str ele"] by (auto simp: dictDelete_def dict_step_def)
    obtain d2 where d2: "(if htNeedsResize d1 then map_option fst (dictResize cr d1) else Some d1) = Some d2" "dict_inv d2" "dict_map d2 = dict_map d1"
      using zset_resize_Some [OF d1(2), of cr] by (auto elim!: ensuresE)
    have m: "dict_map d2 = dict_map d |` (- estr ` set (take 1 (drop k es)))"
      unfolding d2(3) d1(3) take_one_drop [OF k(2)] by (simp add: k(3) restrict_complement_singleton_eq)
    have "zset_rep (h', \<lparr>zs_dict = d2, zs_zsl = zsl'\<rparr>) (zcut k 1 ns) (zcut k 1 es)"
      using zset_rep_cut [OF d(2) k(4) d2(2)] m by simp
    moreover have "map ekey (zcut k 1 es) = zv_drop (obj_str ele) (map ekey es)" using map_ekey_zcut [OF dis k(2)] k(3) by simp
    moreover have "zset_rem cr ele st = Some ((h', \<lparr>zs_dict = d2, zs_zsl = zsl'\<rparr>), True)"
      using d(1,3,6,7) k(1) d1(1) d2(1) by (cases "htNeedsResize d1") (auto simp: zset_rem_def st zset_eta)
    moreover have "obj_str ele \<in> estr ` set es" using d(4,5) by (metis imageI nth_mem)
    ultimately show ?thesis by (simp add: zset_toI)
  qed
qed

lemma zset_max: "dict_max < zsl_max"
  by (simp add: dict_max_def zsl_max_def)

lemma zset_size:
  assumes "zset_rep (h, zs) ns es" shows "dictSize (zs_dict zs) = length es"
proof -
  note r = zset_repD [OF assms]
  have "dom (map_of (zpairs es ns)) = set (map estr es)" using zpairs_fst [OF r(5)] by (metis dom_map_of_conv_image_fst image_set)
  then show ?thesis using dictSize_card [OF r(3)] r(4) distinct_card [OF r(2)] by simp
qed

text \<open>The loop of \<open>zremCommand\<close> removes all given strings; it stops early only when nothing is left.\<close>

definition zv_rem :: "bytes set \<Rightarrow> 's zview \<Rightarrow> 's zview \<times> nat \<times> bool" where
  "zv_rem S A = (let B = filter (\<lambda>e. snd e \<notin> S) A in (B, length A - length B, A \<noteq> [] \<and> B = []))"

lemma zset_to_size: "zset_to A x q \<Longrightarrow> dictSize (zs_dict (snd (fst q))) = length A"
proof -
  assume "zset_to A x q"
  then obtain ns es where "zset_rep (fst (fst q), snd (fst q)) ns es" "map ekey es = A" by (auto simp: zset_to_def)
  then show ?thesis using zset_size [of "fst (fst q)" "snd (fst q)" ns es] by auto
qed

lemma zset_to_result: "ensures m (zset_to A x) \<Longrightarrow> ensures (do { q \<leftarrow> m; Some (fst q, f (snd q)) }) (zset_to A (f x))"
  by (erule ensuresE) (simp add: zset_to_def)

lemma zset_rem_loop_Some:
  assumes "zset_rep st ns es" "\<forall>ele \<in> set eles. obj_ok ele"
  shows "ensures (zset_rem_loop cr eles st) (zset_to (fst (zv_rem (obj_str ` set eles) (map ekey es))) (snd (zv_rem (obj_str ` set eles) (map ekey es))))"
  using assms
proof (induction eles arbitrary: st ns es)
  case Nil
  then show ?case by (simp add: zv_rem_def zset_toI)
next
  case (Cons ele eles)
  let ?m = "obj_str ele" and ?S = "obj_str ` set eles" and ?A = "map ekey es"
  let ?B = "zv_drop ?m ?A"
  obtain q where q: "zset_rem cr ele st = Some q" "zset_to ?B (?m \<in> estr ` set es) q"
    by (rule ensuresE [OF zset_rem_Some [OF Cons.prems(1), of ele cr]]) (use Cons.prems(2) in auto)
  obtain ns' es' where r: "zset_rep (fst q) ns' es'" "map ekey es' = ?B" "snd q \<longleftrightarrow> ?m \<in> estr ` set es" using q(2) unfolding zset_to_def by iprover
  have IH: "ensures (zset_rem_loop cr eles (fst q)) (zset_to (fst (zv_rem ?S ?B)) (snd (zv_rem ?S ?B)))"
    using Cons.IH [OF r(1)] Cons.prems(2) r(2) by simp
  have f: "filter (\<lambda>e. snd e \<notin> ?S) ?B = filter (\<lambda>e. snd e \<notin> obj_str ` set (ele # eles)) ?A" by (simp add: zv_drop_def conj_commute)
  have le: "length (filter (\<lambda>e. snd e \<notin> ?S) ?B) \<le> length ?B" by simp
  show ?case
  proof (cases "?m \<in> estr ` set es")
    case False
    then have "?B = ?A" by (auto simp: zv_drop_def filter_id_conv image_iff)
    then have "zv_rem (obj_str ` set (ele # eles)) ?A = zv_rem ?S ?B" using f by (simp add: zv_rem_def Let_def)
    then show ?thesis using IH q(1) r(3) False by simp
  next
    case hit: True
    have one: "length ?A = Suc (length ?B)"
    proof -
      obtain i where i: "i < length es" "estr (es ! i) = ?m" using hit by (metis (no_types, lifting) imageE in_set_conv_nth)
      have "?B = map ekey (zcut i 1 es)" using map_ekey_zcut [OF _ i(1)] i(2) Cons.prems(1) by (simp add: zset_rep_def)
      then show ?thesis using i(1) by (simp add: zcut_def)
    qed
    then have ne: "?A \<noteq> []" by auto
    have size: "dictSize (zs_dict (snd (fst q))) = length ?B" by (rule zset_to_size [OF q(2)])
    show ?thesis
    proof (cases "?B = []")
      case True
      then have "zv_rem (obj_str ` set (ele # eles)) ?A = ([], 1, True)" using f one ne by (simp add: zv_rem_def Let_def)
      moreover have "zset_rem_loop cr (ele # eles) st = Some (fst q, 1, True)" using q(1) r(3) hit size True by simp
      ultimately show ?thesis using r(1,2) True by (simp add: zset_toI)
    next
      case False
      then have v: "zv_rem (obj_str ` set (ele # eles)) ?A = (fst (zv_rem ?S ?B), Suc (fst (snd (zv_rem ?S ?B))), snd (snd (zv_rem ?S ?B)))"
        using f one ne le by (simp add: zv_rem_def Let_def Suc_diff_le)
      have "zset_rem_loop cr (ele # eles) st = do { q \<leftarrow> zset_rem_loop cr eles (fst q); Some (fst q, Suc (fst (snd q)), snd (snd q)) }"
        using q(1) r(3) hit size False by simp
      then show ?thesis using zset_to_result [OF IH, of "\<lambda>p. (Suc (fst p), snd p)"] unfolding v by simp
    qed
  qed
qed

text \<open>Inserting an element whose string is fresh, into the skip list.\<close>

lemma zset_zslInsert:
  assumes rep: "zsl_rep h zsl ns es" and M: "zmem_ok M" "rnd_ok rnd" and len: "length es < zsl_max" and ob: "obj_ok obj" "obj_str obj \<notin> estr ` set es"
  obtains h' zsl' x level k where "zslInsert M rnd zsl (Dbl s) obj h = Some (h', zsl', x)"
    "zsl_rep h' zsl' (zput_at k (x, level) ns) (zput_at k (s, obj) es)" "map ekey (zput_at k (s, obj) es) = insort (s, obj_str obj) (map ekey es)"
proof -
  have new: "ekey (s, obj) \<notin> ekey ` set es" using ob(2) by (auto simp: ekey_def)
  obtain q where q: "zslInsert M rnd zsl (Dbl s) obj h = Some q" "case q of (h', zsl', x) \<Rightarrow> \<exists>level.
    zsl_rep h' zsl' (zput_at (zpos (s, obj) es) (x, level) ns) (zput_at (zpos (s, obj) es) (s, obj) es)"
    by (rule ensuresE [OF zslInsert_Some [OF rep M len ob(1) new]])
  obtain h' zsl' x where e: "q = (h', zsl', x)" by (cases q)
  from q(2) obtain level where l: "zsl_rep h' zsl' (zput_at (zpos (s, obj) es) (x, level) ns) (zput_at (zpos (s, obj) es) (s, obj) es)"
    unfolding e by auto
  then show ?thesis using that [OF q(1) [unfolded e] l] map_ekey_zput [OF zsl_repD(7) [OF rep] zsl_repD(7) [OF l]] by (simp add: ekey_def [of "(s, obj)"])
qed


definition zv_score :: "('s dbl \<Rightarrow> 's dbl \<Rightarrow> 's dbl) \<Rightarrow> bool \<Rightarrow> 's \<Rightarrow> 's \<Rightarrow> 's dbl" where
  "zv_score addf incr s cur = (if incr then addf (Dbl s) (Dbl cur) else Dbl s)"

text \<open>What \<open>ZADD\<close> and \<open>ZINCRBY\<close> do.\<close>

definition zv_add :: "('s dbl \<Rightarrow> 's dbl \<Rightarrow> 's dbl) \<Rightarrow> bool \<Rightarrow> 's \<Rightarrow> bytes \<Rightarrow> ('s :: linorder) zview \<Rightarrow> 's zview \<times> zadd_res" where
  "zv_add addf incr s m A = (case zv_find m A of
     None \<Rightarrow> (zv_put s m A, ZaddAdded)
   | Some cur \<Rightarrow> (case zv_score addf incr s cur of
        NaN \<Rightarrow> (A, ZaddNan)
      | Dbl t \<Rightarrow> if t = cur then (A, ZaddSame) else (zv_put t m A, ZaddUpdated)))"

lemma zset_add_new:
  assumes rep: "zset_rep (h, zs) ns es" and M: "zmem_ok M" "rnd_ok rnd" and len: "length es < dict_max" and ob: "obj_ok ele" "obj_str ele \<notin> estr ` set es"
  shows "ensures (do {
       q \<leftarrow> zslInsert M rnd (zs_zsl zs) (Dbl s) ele h;
       a \<leftarrow> dictAdd cr junk (zs_dict zs) (obj_str ele) (snd (snd q));
       if snd a \<noteq> DICT_OK then None else Some ((fst q, zs\<lparr>zs_dict := fst a, zs_zsl := fst (snd q)\<rparr>), ZaddAdded) })
     (zset_to (insort (s, obj_str ele) (map ekey es)) ZaddAdded)"
proof -
  note r = zset_repD [OF rep]
  obtain h' zsl' x level k where k: "zslInsert M rnd (zs_zsl zs) (Dbl s) ele h = Some (h', zsl', x)"
    "zsl_rep h' zsl' (zput_at k (x, level) ns) (zput_at k (s, ele) es)" "map ekey (zput_at k (s, ele) es) = insort (s, obj_str ele) (map ekey es)"
    by (rule zset_zslInsert [OF r(1) M less_trans [OF len zset_max] ob])
  have room: "dictSize (zs_dict zs) < dict_max" using zset_size [OF rep] len by simp
  have "dict_map (zs_dict zs) (obj_str ele) = None" unfolding r(4) map_of_eq_None_iff using ob(2) zpairs_fst [OF r(5)] by (metis image_set)
  then obtain d where d: "dictAdd cr junk (zs_dict zs) (obj_str ele) x = Some (d, DICT_OK)" "dict_inv d" "dict_map d = (dict_map (zs_dict zs))(obj_str ele \<mapsto> x)"
    using dictAdd_spec [OF r(3) room, of cr junk "obj_str ele" x] by (auto simp: dict_step_def)
  have "zset_rep (h', \<lparr>zs_dict = d, zs_zsl = zsl'\<rparr>) (zput_at k (x, level) ns) (zput_at k (s, ele) es)"
    by (rule zset_rep_put [OF r(2,5) k(2) d(2)]) (use d(3) r(4) ob(2) in simp_all)
  then show ?thesis using k(1,3) d(1) by (simp add: zset_eta zset_toI)
qed

lemma zset_add_move:
  assumes rep: "zset_rep (h, zs) ns es" and M: "zmem_ok M" "rnd_ok rnd" and i: "i < length es" "estr (es ! i) = m" and ref: "ref_ok (zs_dict zs) de" "fst (ref_entry (zs_dict zs) de) = m"
  shows "ensures (do {
       r \<leftarrow> zslDelete (zs_zsl zs) (Dbl (fst (es ! i))) (snd (es ! i)) h;
       if \<not> snd (snd r) then None
       else do {
         q \<leftarrow> zslInsert M rnd (fst (snd r)) (Dbl t) (snd (es ! i)) (fst r);
         d \<leftarrow> dictSetVal (zs_dict zs) de (snd (snd q));
         Some ((fst q, zs\<lparr>zs_dict := d, zs_zsl := fst (snd q)\<rparr>), ZaddUpdated) } })
     (zset_to (zv_put t m (map ekey es)) ZaddUpdated)"
proof -
  note r = zset_repD [OF rep]
  have ob: "obj_ok (snd (es ! i))" using zsl_repD(8) [OF r(1)] i(1) by simp
  obtain h' zsl' k where k: "zslDelete (zs_zsl zs) (Dbl (fst (es ! i))) (snd (es ! i)) h = Some (h', zsl', True)" "k < length es" "estr (es ! k) = m"
    "zsl_rep h' zsl' (zcut k 1 ns) (zcut k 1 es)" by (rule zset_zslDelete [OF rep i ob i(2)])
  have cut: "map ekey (zcut k 1 es) = zv_drop m (map ekey es)" using map_ekey_zcut [OF r(2) k(2)] k(3) by simp
  have new: "estr (es ! i) \<notin> estr ` set (zcut k 1 es)" using zcut_one [OF r(2) k(2)] k(3) i(2) by auto
  have "length es \<le> zsl_max" using zsl_repD(4) [OF r(1)] r(5) by simp
  then have len: "length (zcut k 1 es) < zsl_max" using k(2) by (simp add: zcut_def)
  obtain h2 zsl2 x level p where p: "zslInsert M rnd zsl' (Dbl t) (snd (es ! i)) h' = Some (h2, zsl2, x)"
    "zsl_rep h2 zsl2 (zput_at p (x, level) (zcut k 1 ns)) (zput_at p (t, snd (es ! i)) (zcut k 1 es))"
    "map ekey (zput_at p (t, snd (es ! i)) (zcut k 1 es)) = insort (t, estr (es ! i)) (map ekey (zcut k 1 es))"
    by (rule zset_zslInsert [OF k(4) M len ob new])
  obtain d where d: "dictSetVal (zs_dict zs) de x = Some d" "dict_inv d" "dict_map d = (dict_map (zs_dict zs))(m \<mapsto> x)"
    using dictSetVal_spec [OF r(3) ref(1), of x] ref(2) by (auto simp: dict_step_def)
  have cl: "length (zcut k 1 ns) = length (zcut k 1 es)" "distinct (map estr (zcut k 1 es))"
    using r(2,5) by (simp add: zcut_def, simp only: map_zcut distinct_zcut)
  have "map_of (zpairs (zcut k 1 es) (zcut k 1 ns)) = dict_map (zs_dict zs) |` (- {m})"
    unfolding map_of_zpairs_cut [OF r(2,5)] take_one_drop [OF k(2)] r(4) by (simp add: k(3))
  then have "dict_map d = (map_of (zpairs (zcut k 1 es) (zcut k 1 ns)))(m \<mapsto> x)" unfolding d(3) by (simp add: restrict_complement_singleton_eq)
  then have "zset_rep (h2, \<lparr>zs_dict = d, zs_zsl = zsl2\<rparr>) (zput_at p (x, level) (zcut k 1 ns)) (zput_at p (t, snd (es ! i)) (zcut k 1 es))"
    using i(2) new by (intro zset_rep_put [OF cl(2,1) p(2) d(2)]) simp_all
  moreover have "map ekey (zput_at p (t, snd (es ! i)) (zcut k 1 es)) = zv_put t m (map ekey es)" using p(3) cut i(2) by (simp add: zv_put_def)
  ultimately show ?thesis using k(1) p(1) d(1) by (simp add: zset_eta zset_toI)
qed

lemma zset_add_Some:
  assumes rep: "zset_rep st ns es" and M: "zmem_ok M" "rnd_ok rnd" and len: "length es < dict_max" and ob: "obj_ok ele"
  shows "ensures (zset_add M rnd cr junk addf incr (Dbl s) shared ele st)
    (zset_to (fst (zv_add addf incr s (obj_str ele) (map ekey es))) (snd (zv_add addf incr s (obj_str ele) (map ekey es))))"
proof -
  obtain h zs where st: "st = (h, zs)" by (cases st)
  note rep = rep [unfolded st]
  note dis = zset_repD(2) [OF rep]
  obtain ele' where e: "tryObjectEncoding shared ele = Some ele'" "obj_ok ele'" "obj_str ele' = obj_str ele" by (rule tryObjectEncoding_Some [OF ob])
  show ?thesis
  proof (rule zset_find [OF rep, of "obj_str ele"])
    fix d assume d: "dictFind (zs_dict zs) (obj_str ele) = Some (d, None)" "zset_rep (h, zs\<lparr>zs_dict := d\<rparr>) ns es" "obj_str ele \<notin> estr ` set es"
    then have "zv_drop (obj_str ele) (map ekey es) = map ekey es" by (auto simp: zv_drop_def filter_id_conv image_iff)
    moreover have "zv_find (obj_str ele) (map ekey es) = None" using d(3) by (simp only: zv_find_None) simp
    ultimately have v: "zv_add addf incr s (obj_str ele) (map ekey es) = (insort (s, obj_str ele) (map ekey es), ZaddAdded)" by (simp add: zv_add_def zv_put_def)
    show ?thesis using zset_add_new [OF d(2) M len e(2), of s cr junk] d(1,3)
      unfolding v e(3) fst_conv snd_conv by (simp add: zset_add_def st e(1,3) zset_eta cong: if_cong)
  next
    fix d de i nd
    assume d: "dictFind (zs_dict zs) (obj_str ele) = Some (d, Some de)" "zset_rep (h, zs\<lparr>zs_dict := d\<rparr>) ns es" "ref_ok d de" "fst (ref_entry d de) = obj_str ele"
      "dictGetEntry d de = Some (obj_str ele, fst (ns ! i))" "i < length es" "estr (es ! i) = obj_str ele"
      "h (fst (ns ! i)) = Some nd" "zn_obj nd = Some (snd (es ! i))" "zn_score nd = Dbl (fst (es ! i))"
    have f: "zv_find (obj_str ele) (map ekey es) = Some (fst (es ! i))" using zv_find_nth [OF dis d(6)] d(7) by simp
    let ?t = "zv_score addf incr s (fst (es ! i))"
    show ?thesis
    proof (cases ?t)
      case NaN
      then have "incr" by (simp add: zv_score_def split: if_splits)
      then show ?thesis using NaN d(1,2,5,8-10) by (simp add: zset_add_def st e(1,3) zv_add_def f zv_score_def zset_toI)
    next
      case (Dbl t)
      have t: "(if incr then addf (Dbl s) (Dbl (fst (es ! i))) else Dbl s) = Dbl t" using Dbl by (simp add: zv_score_def)
      show ?thesis
      proof (cases "t = fst (es ! i)")
        case True
        then show ?thesis using Dbl t d(1,2,5,8-10) by (simp add: zset_add_def st e(1,3) zv_add_def f zset_toI)
      next
        case False
        then show ?thesis using Dbl t d(1,5,8-10) zset_add_move [OF d(2) M d(6,7), of de t] d(3,4)
          by (simp add: zset_add_def st e(1,3) zv_add_def f zset_eta cong: if_cong)
      qed
    qed
  qed
qed


section \<open>Ranks\<close>

lemma find_pos_nth: "i < length xs \<Longrightarrow> P (xs ! i) \<Longrightarrow> (\<And>j. j < i \<Longrightarrow> \<not> P (xs ! j)) \<Longrightarrow> find_pos P xs = Some i"
proof (cases "find_pos P xs")
  case (Some j)
  assume "i < length xs" "P (xs ! i)" "\<And>j. j < i \<Longrightarrow> \<not> P (xs ! j)"
  then show ?thesis using find_pos_SomeD [OF Some] Some by (metis linorder_neqE_nat)
qed (auto simp: find_pos_None_iff)

definition zv_rank :: "bool \<Rightarrow> bytes \<Rightarrow> 's zview \<Rightarrow> nat option" where
  "zv_rank reverse m A = map_option (\<lambda>i. if reverse then length A - 1 - i else i) (find_pos (\<lambda>e. snd e = m) A)"

lemma zset_length:
  assumes "zset_rep (h, zs) ns es"
  shows "zsetLength zs = length es" "zsl_length (zs_zsl zs) = length es" "length es < 2 ^ 31"
proof -
  note r = zset_repD [OF assms]
  have "length es \<le> dict_max" using zset_size [OF assms] dictSize_eq [OF r(3)] r(3) by (simp add: dict_inv_def)
  then show "length es < 2 ^ 31" by (simp add: dict_max_def)
  then show "zsetLength zs = length es" "zsl_length (zs_zsl zs) = length es" using zsl_repD(3) [OF r(1)] r(5) by (simp_all add: zsetLength_def)
qed

lemma zset_rank_nth:
  assumes rep: "zset_rep (h, zs) ns es" and i: "i < length es" "estr (es ! i) = m" and ob: "obj_ok ob" "obj_str ob = m"
  shows "zslGetRank (zs_zsl zs) (Dbl (fst (es ! i))) ob h = Some (Suc i)" "find_pos (\<lambda>e. snd e = m) (map ekey es) = Some i"
proof -
  note r = zset_repD [OF rep]
  have before: "estr (es ! j) \<noteq> m" if "j < i" for j using that i r(2) by (auto simp: distinct_conv_nth)
  have same: "fst x = fst (es ! i)" if "x \<in> set es" "estr x = m" for x
    using inj_onD [of estr "set es" x "es ! i"] r(2) that i by (simp add: distinct_map)
  show "find_pos (\<lambda>e. snd e = m) (map ekey es) = Some i" by (rule find_pos_nth) (use i before in auto)
  have "find_pos (\<lambda>e. ekey e = (fst (es ! i), m)) es = Some i" by (rule find_pos_nth) (use i before in \<open>auto simp: ekey_def\<close>)
  then have "zrank (fst (es ! i), obj_str ob) es = Suc i" by (simp add: zrank_def ob(2))
  then show "zslGetRank (zs_zsl zs) (Dbl (fst (es ! i))) ob h = Some (Suc i)"
    using zslGetRank_Some [OF r(1) ob(1), of "fst (es ! i)"] same ob(2) by simp
qed

lemma zset_rank_Some:
  assumes rep: "zset_rep st ns es" and ob: "obj_ok (ObjRaw m)"
  shows "ensures (zset_rank reverse shared (ObjRaw m) st) (zset_to (map ekey es) (zv_rank reverse m (map ekey es)))"
proof -
  obtain h zs where st: "st = (h, zs)" by (cases st)
  note rep = rep [unfolded st]
  obtain ele where e: "tryObjectEncoding shared (ObjRaw m) = Some ele" "obj_ok ele" "obj_str ele = m" using tryObjectEncoding_Some [OF ob] by (metis obj_str.simps(1))
  show ?thesis
  proof (rule zset_find [OF rep, of m])
    fix d assume d: "dictFind (zs_dict zs) m = Some (d, None)" "zset_rep (h, zs\<lparr>zs_dict := d\<rparr>) ns es" "m \<notin> estr ` set es"
    then have "find_pos (\<lambda>e. snd e = m) (map ekey es) = None" by (auto simp: find_pos_None_iff image_iff)
    then show ?thesis using d by (simp add: zset_rank_def st e zset_toI zv_rank_def)
  next
    fix d he i nd
    assume d: "dictFind (zs_dict zs) m = Some (d, Some he)" "zset_rep (h, zs\<lparr>zs_dict := d\<rparr>) ns es"
      "dictGetEntry d he = Some (m, fst (ns ! i))" "i < length es" "estr (es ! i) = m" "h (fst (ns ! i)) = Some nd" "zn_score nd = Dbl (fst (es ! i))"
    then show ?thesis using zset_rank_nth [OF rep d(4,5) e(2,3)] zset_length [OF rep] by (simp add: zset_rank_def st e zset_toI zv_rank_def)
  qed
qed

section \<open>Ranges\<close>

lemma filter_ekey: "filter (\<lambda>e. P (fst e)) (map ekey es) = map ekey (filter (\<lambda>e. P (fst e)) es)"
    "filter (\<lambda>e. Q (snd e)) (map ekey es) = map ekey (filter (\<lambda>e. Q (estr e)) es)"
  by (simp_all add: filter_map comp_def)

lemma zset_remrange_Some:
  assumes rep: "zset_rep (h, zs) ns es" and rem: "ensures (remf (zs_zsl zs) (zs_dict zs) h) (zsl_removed ns es (zs_dict zs) gone kept)"
  shows "ensures (zset_remrange cr remf (h, zs)) (zset_to (map ekey kept) (length gone, kept = []))"
proof -
  obtain q where q: "remf (zs_zsl zs) (zs_dict zs) h = Some q" "zsl_removed ns es (zs_dict zs) gone kept q" by (rule ensuresE [OF rem])
  obtain h' zsl' d n where qe: "q = (h', zsl', d, n)" by (cases q)
  then obtain k m where c: "zsl_rep h' zsl' (zcut k m ns) (zcut k m es)" "zcut k m es = kept" "take m (drop k es) = gone"
      "n = length gone" "dict_inv d" "dict_map d = dict_map (zs_dict zs) |` (- estr ` set gone)"
    using q(2) by (auto simp: zsl_removed_def)
  obtain d2 where d2: "(if htNeedsResize d then map_option fst (dictResize cr d) else Some d) = Some d2" "dict_inv d2" "dict_map d2 = dict_map d"
    using zset_resize_Some [OF c(5), of cr] by (rule ensuresE) blast
  have "zset_rep (h', \<lparr>zs_dict = d2, zs_zsl = zsl'\<rparr>) (zcut k m ns) (zcut k m es)"
    by (rule zset_rep_cut [OF rep c(1) d2(2)]) (simp add: d2(3) c(3,6))
  then have to: "zset_to (map ekey kept) (n, kept = []) ((h', \<lparr>zs_dict = d2, zs_zsl = zsl'\<rparr>), n, kept = [])" by (rule zset_toI) (simp add: c(2))
  moreover have "dictSize d2 = 0 \<longleftrightarrow> kept = []" using zset_to_size [OF to] by simp
  then have "zset_remrange cr remf (h, zs) = Some ((h', \<lparr>zs_dict = d2, zs_zsl = zsl'\<rparr>), n, kept = [])"
    using q(1) qe d2(1) by (cases "htNeedsResize d") (auto simp: zset_remrange_def)
  ultimately show ?thesis using c(4) by simp
qed

text \<open>The elements outside the indexes \<open>start\<close> to \<open>en\<close>, which count from the end when negative.\<close>

definition zv_cut :: "int \<Rightarrow> int \<Rightarrow> 'e list \<Rightarrow> 'e list" where
  "zv_cut start en A = (let norm = (\<lambda>i. if i < 0 then int (length A) + i else i); lo = max 0 (norm start); hi = norm en in
     if lo > hi then A else take (nat lo) A @ drop (nat (hi + 1)) A)"

lemma zcut_gone: "0 < a \<Longrightarrow> a \<le> b \<Longrightarrow> b \<le> length es \<Longrightarrow>
    length (take (b + 1 - a) (drop (a - 1) es)) = length es - length (zcut (a - 1) (b + 1 - a) es)"
  by (simp add: zcut_def)

lemma zset_remrangebyrank_Some:
  assumes rep: "zset_rep st ns es"
  shows "ensures (zset_remrangebyrank cr start en st)
    (zset_to (zv_cut start en (map ekey es)) (length es - length (zv_cut start en es), es \<noteq> [] \<and> zv_cut start en es = []))"
proof -
  obtain h zs where st: "st = (h, zs)" by (cases st)
  note rep = rep [unfolded st]
  note r = zset_repD [OF rep] and len = zset_length [OF rep]
  let ?n = "int (length es)"
  let ?norm = "\<lambda>i. if i < 0 then ?n + i else i"
  let ?lo = "max 0 (?norm start)" and ?hi = "?norm en"
  have lo: "(if ?norm start < 0 then 0 else ?norm start) = ?lo" by simp
  have m: "zv_cut start en (map ekey es) = map ekey (zv_cut start en es)" by (simp add: zv_cut_def Let_def take_map drop_map)
  show ?thesis
  proof (cases "?lo > ?hi \<or> ?lo \<ge> ?n")
    case True
    then have "zv_cut start en es = es" by (auto simp: zv_cut_def Let_def max_def split: if_splits)
    then show ?thesis using True rep unfolding zset_remrangebyrank_def st snd_conv len m Let_def lo by (simp add: zset_toI)
  next
    case False
    let ?e = "min ?hi (?n - 1)"
    let ?a = "nat (?lo + 1)" and ?b = "nat (?e + 1)"
    have ab: "0 < ?a" "?a \<le> ?b" "?b \<le> length es" using False by auto
    have ne: "es \<noteq> []" using ab by auto
    have "zcut (?a - 1) (?b + 1 - ?a) es = take (nat ?lo) es @ drop ?b es" using ab by (simp add: zcut_def nat_add_distrib)
    also have "drop ?b es = drop (nat (?hi + 1)) es" using False by (auto simp: min_def)
    also have "take (nat ?lo) es @ drop (nat (?hi + 1)) es = zv_cut start en es" using False by (simp add: zv_cut_def Let_def)
    finally have c: "zcut (?a - 1) (?b + 1 - ?a) es = zv_cut start en es" .
    have g: "length (take (?b + 1 - ?a) (drop (?a - 1) es)) = length es - length (zv_cut start en es)"
      unfolding c [symmetric] by (rule zcut_gone [OF ab])
    have e: "(if ?hi \<ge> ?n then ?n - 1 else ?hi) = ?e" by auto
    have small: "?a mod 2 ^ 32 = ?a" "?b mod 2 ^ 32 = ?b" using ab len(3) by simp_all
    have s: "zset_remrangebyrank cr start en (h, zs) = zset_remrange cr (\<lambda>zsl. zslDeleteRangeByRank zsl ?a ?b) (h, zs)"
      unfolding zset_remrangebyrank_def snd_conv len Let_def lo e small using False by simp
    show ?thesis unfolding st s m
      using zset_remrange_Some [where remf = "\<lambda>zsl. zslDeleteRangeByRank zsl ?a ?b", OF rep zslDeleteRangeByRank_Some [OF r(1,3) ab], of cr] ne unfolding c g by simp
  qed
qed

end
