(* ===== verification/Zset_Correct.thy ===== *)
theory Zset_Correct
  imports Zset_Inv
begin

text \<open>
  The commands on sorted sets that read ranges, and the refinement: every run of commands is a run on
  sorted lists.
\<close>

section \<open>Walking along the list\<close>

definition zseq :: "bool \<Rightarrow> 'a list \<Rightarrow> 'a list" where
  "zseq reverse xs = (if reverse then rev xs else xs)"

lemma length_zseq [simp]: "length (zseq reverse xs) = length xs"
  by (simp add: zseq_def)

lemma zseq_nth: "j < length xs \<Longrightarrow> zseq reverse xs ! j = xs ! (if reverse then length xs - Suc j else j)"
  by (simp add: zseq_def rev_nth)

text \<open>The pointer to the node at a position, and behind the last one.\<close>

definition zlink :: "(nat \<times> nat) list \<Rightarrow> nat \<Rightarrow> nat option" where
  "zlink ns j = (if j < length ns then Some (fst (ns ! j)) else None)"

lemma zsl_next_nth:
  assumes rep: "zsl_rep h zsl ns es" and i: "i < length ns"
  shows "zsl_next False h (fst (ns ! i)) = Some (zlink ns (Suc i))" "zsl_next True h (fst (ns ! i)) = Some (if i = 0 then None else Some (fst (ns ! (i - 1))))"
proof -
  note n = zsl_nodesD [OF zsl_repD(1) [OF rep]]
  have sp: "ns = take i ns @ (fst (ns ! i), snd (ns ! i)) # drop (Suc i) ns" using i by (simp add: id_take_nth_drop)
  have "levels_ok (lv_get h) (zsl_level zsl) (take i ns @ (fst (ns ! i), snd (ns ! i)) # drop (Suc i) ns)" using levels_tl [OF n(2)] sp by simp
  from levels_okD [OF this, of 0] have "lv_get h (fst (ns ! i)) 0 = Some (expect 0 (drop (Suc i) ns))" using n(6,8) i by simp
  moreover have "\<forall>m \<in> set (drop (Suc i) ns). 0 < snd m" using n(8) by (meson in_set_dropD)
  ultimately show "zsl_next False h (fst (ns ! i)) = Some (zlink ns (Suc i))"
    using expect_0 [of "drop (Suc i) ns"] by (simp add: zsl_next_def zlink_def hd_drop_conv_nth)
  have "zn_back h (fst (ns ! i)) = Some (if take i ns = [] then None else Some (fst (last (take i ns))))"
    using backs_nth [of "zn_back h" "take i ns" "fst (ns ! i)" "snd (ns ! i)" "drop (Suc i) ns"] n(9) sp by simp
  moreover have "last (take i ns) = ns ! (i - 1)" if "i \<noteq> 0" using that i by (cases i) (simp_all add: take_Suc_conv_app_nth)
  ultimately show "zsl_next True h (fst (ns ! i)) = Some (if i = 0 then None else Some (fst (ns ! (i - 1))))"
    using i by (auto simp: zsl_next_def zn_back_def)
qed

lemma zsl_next_seq:
  assumes rep: "zsl_rep h zsl ns es" and j: "j < length ns"
  shows "zsl_next reverse h (fst (zseq reverse ns ! j)) = Some (zlink (zseq reverse ns) (Suc j))"
proof (cases reverse)
  case True
  have "zsl_next True h (fst (ns ! (length ns - Suc j))) = Some (if length ns - Suc j = 0 then None else Some (fst (ns ! (length ns - Suc j - 1))))"
    by (rule zsl_next_nth(2) [OF rep]) (use j in simp)
  moreover have "length ns - Suc j = 0 \<longleftrightarrow> Suc j = length ns" using j by linarith
  ultimately show ?thesis using True j by (auto simp: zlink_def zseq_nth)
next
  case False
  then show ?thesis using zsl_next_nth(1) [OF rep j] by (simp add: zseq_def)
qed

text \<open>What the reply contains for an element.\<close>

definition zrow :: "'s zelem \<Rightarrow> 's dbl \<times> bytes" where
  "zrow e = (Dbl (fst e), estr e)"

lemma zseq_node:
  assumes rep: "zsl_rep h zsl ns es" and j: "j < length ns"
  obtains nd where "h (fst (zseq reverse ns ! j)) = Some nd" "zset_reply nd = Some (zrow (zseq reverse es ! j))"
proof -
  have len: "length ns = length es" by (rule data_ok_length [OF zsl_repD(5) [OF rep]])
  let ?i = "if reverse then length ns - Suc j else j"
  have "?i < length ns" using j by auto
  then obtain nd where "h (fst (ns ! ?i)) = Some nd" "zn_obj nd = Some (snd (es ! ?i))" "zn_score nd = Dbl (fst (es ! ?i))"
    by (rule data_ok_node [OF zsl_repD(5) [OF rep]])
  then show ?thesis using that [of nd] j len by (simp only: zseq_nth) (simp add: zset_reply_def zrow_def)
qed

lemma zset_emit_Some:
  assumes rep: "zsl_rep h zsl ns es"
  shows "j + n \<le> length ns \<Longrightarrow> zset_emit n reverse h (zlink (zseq reverse ns) j) = Some (map zrow (take n (drop j (zseq reverse es))))"
proof (induction n arbitrary: j)
  case (Suc n)
  have len: "length ns = length es" by (rule data_ok_length [OF zsl_repD(5) [OF rep]])
  have j: "j < length ns" using Suc.prems by simp
  obtain nd where nd: "h (fst (zseq reverse ns ! j)) = Some nd" "zset_reply nd = Some (zrow (zseq reverse es ! j))" by (rule zseq_node [OF rep j])
  have "drop j (zseq reverse es) = zseq reverse es ! j # drop (Suc j) (zseq reverse es)" using j len by (simp add: Cons_nth_drop_Suc)
  then show ?case using Suc.IH [of "Suc j"] Suc.prems nd zsl_next_seq [OF rep j] j by (simp add: zlink_def [of _ j])
qed simp

lemma zset_skip_Some:
  assumes rep: "zsl_rep h zsl ns es"
  shows "LLONG_MIN + int (length ns - j) \<le> offset \<Longrightarrow>
    zset_skip reverse h (zlink (zseq reverse ns) j) offset = Some (if offset < 0 then None else zlink (zseq reverse ns) (j + nat offset))"
proof (induction "length ns - j" arbitrary: j offset)
  case 0
  then show ?case by (simp add: zlink_def zset_skip.simps)
next
  case (Suc k)
  have j: "j < length ns" using Suc.hyps(2) by simp
  have l: "zlink (zseq reverse ns) j = Some (fst (zseq reverse ns ! j))" using j by (simp add: zlink_def)
  show ?case
  proof (cases "offset = 0")
    case True
    then show ?thesis by (simp add: l zset_skip.simps)
  next
    case False
    have "offset \<noteq> LLONG_MIN" using Suc.prems Suc.hyps(2) by simp
    then have "zset_skip reverse h (zlink (zseq reverse ns) j) offset = zset_skip reverse h (zlink (zseq reverse ns) (Suc j)) (offset - 1)"
      using False zsl_next_seq [OF rep j, of reverse] by (subst zset_skip.simps) (simp add: l)
    also have "\<dots> = Some (if offset - 1 < 0 then None else zlink (zseq reverse ns) (Suc j + nat (offset - 1)))"
      by (rule Suc.hyps(1)) (use Suc.hyps(2) Suc.prems in auto)
    finally show ?thesis using False by (auto simp: nat_diff_distrib)
  qed
qed

text \<open>At most \<open>limit\<close> elements, or all when it is negative.\<close>

definition zlimit :: "int \<Rightarrow> 'a list \<Rightarrow> 'a list" where
  "zlimit limit xs = (if limit < 0 then xs else take (nat limit) xs)"

lemma zset_emit_while_Some:
  assumes rep: "zsl_rep h zsl ns es" and c: "c \<le> length ns"
    and test: "\<And>i nd. i < length ns \<Longrightarrow> h (fst (zseq reverse ns ! i)) = Some nd \<Longrightarrow> test nd = Some (i < c)"
  shows "LLONG_MIN + int (length ns - j) \<le> limit \<Longrightarrow>
    zset_emit_while test reverse h (zlink (zseq reverse ns) j) limit = Some (map zrow (zlimit limit (take (c - j) (drop j (zseq reverse es)))))"
proof (induction "length ns - j" arbitrary: j limit)
  case 0
  then show ?case using c by (simp add: zlink_def zset_emit_while.simps zlimit_def)
next
  case (Suc k)
  have len: "length ns = length es" by (rule data_ok_length [OF zsl_repD(5) [OF rep]])
  have j: "j < length ns" using Suc.hyps(2) by simp
  have l: "zlink (zseq reverse ns) j = Some (fst (zseq reverse ns ! j))" using j by (simp add: zlink_def)
  obtain nd where nd: "h (fst (zseq reverse ns ! j)) = Some nd" "zset_reply nd = Some (zrow (zseq reverse es ! j))" by (rule zseq_node [OF rep j])
  have t: "test nd = Some (j < c)" by (rule test [OF j nd(1)])
  have min: "limit \<noteq> LLONG_MIN" using Suc.prems Suc.hyps(2) by simp
  show ?case
  proof (cases "limit = 0 \<or> c \<le> j")
    case True
    then show ?thesis using nd(1) t min by (subst zset_emit_while.simps) (auto simp: l zlimit_def)
  next
    case False
    have dr: "drop j (zseq reverse es) = zseq reverse es ! j # drop (Suc j) (zseq reverse es)" using j len by (simp add: Cons_nth_drop_Suc)
    have cj: "c - j = Suc (c - Suc j)" using False by auto
    have IH: "zset_emit_while test reverse h (zlink (zseq reverse ns) (Suc j)) (limit - 1) = Some (map zrow (zlimit (limit - 1) (take (c - Suc j) (drop (Suc j) (zseq reverse es)))))"
      by (rule Suc.hyps(1)) (use Suc.hyps(2) Suc.prems in auto)
    have "zlimit limit (x # xs) = x # zlimit (limit - 1) xs" for x :: "'a zelem" and xs
      using False by (cases "nat limit") (auto simp: zlimit_def nat_diff_distrib)
    then show ?thesis using False nd t min IH zsl_next_seq [OF rep j, of reverse] by (subst zset_emit_while.simps) (simp add: l dr cj)
  qed
qed

section \<open>Ranges and counts\<close>

definition zv_slice :: "int \<Rightarrow> int \<Rightarrow> 'e list \<Rightarrow> 'e list" where
  "zv_slice start en A = (let norm = (\<lambda>i. if i < 0 then int (length A) + i else i); lo = max 0 (norm start); hi = norm en in
     if lo > hi then [] else take (nat (hi + 1 - lo)) (drop (nat lo) A))"

lemma zset_start:
  assumes rep: "zsl_rep h zsl ns es" and lo: "0 \<le> lo" "lo < int (length ns)"
  shows "(if reverse then if lo > 0 then zslGetElementByRank zsl (nat (int (length ns) - lo)) h else Some (zsl_tail zsl)
     else if lo > 0 then zslGetElementByRank zsl (nat (lo + 1)) h else map_option lv_forward (lv_get h (zsl_header zsl) 0))
     = Some (zlink (zseq reverse ns) (nat lo))"
proof -
  note n = zsl_nodesD [OF zsl_repD(1) [OF rep]]
  have ne: "ns \<noteq> []" "nat lo < length ns" using lo by auto
  have "lv_get h (zsl_header zsl) 0 = Some (expect 0 ns)"
    using levels_okD [of "lv_get h" "zsl_level zsl" "[]" "zsl_header zsl" ZSKIPLIST_MAXLEVEL ns 0] n(2,6) by (simp add: ZSKIPLIST_MAXLEVEL_def)
  then have hd: "map_option lv_forward (lv_get h (zsl_header zsl) 0) = Some (Some (fst (ns ! 0)))" using expect_0 [of ns] n(8) ne by (simp add: hd_conv_nth)
  have tl: "zsl_tail zsl = Some (fst (ns ! (length ns - 1)))" using n(10) ne by (simp add: last_conv_nth)
  have g: "zslGetElementByRank zsl (nat (int (length ns) - lo)) h = Some (Some (fst (ns ! (length ns - Suc (nat lo)))))" if "lo > 0"
    using zslGetElementByRank_Some [OF rep, of "nat (int (length ns) - lo)"] lo that by (simp add: nat_diff_distrib)
  have f: "zslGetElementByRank zsl (nat (lo + 1)) h = Some (Some (fst (ns ! nat lo)))"
    using zslGetElementByRank_Some [OF rep, of "nat (lo + 1)"] lo by (simp add: nat_add_distrib)
  show ?thesis using hd tl g f lo ne by (cases reverse; cases "lo = 0") (simp_all add: zlink_def zseq_nth)
qed

lemma zset_range_Some:
  assumes rep: "zset_rep st ns es"
  shows "zset_range reverse start en st = Some (map zrow (zv_slice start en (zseq reverse es)))"
proof -
  obtain h zs where st: "st = (h, zs)" by (cases st)
  note rep = rep [unfolded st]
  note r = zset_repD [OF rep]
  define n where "n = int (length es)"
  define lo where "lo = max 0 (if start < 0 then n + start else start)"
  define hi where "hi = (if en < 0 then n + en else en)"
  have len: "int_of_ulong (zsetLength zs) = n" using zset_length [OF rep] by (simp add: n_def)
  have clip: "(if (if start < 0 then n + start else start) < 0 then 0 else if start < 0 then n + start else start) = lo" by (simp add: lo_def)
  have v: "zv_slice start en (zseq reverse es) = (if lo > hi then [] else take (nat (hi + 1 - lo)) (drop (nat lo) (zseq reverse es)))"
    unfolding zv_slice_def Let_def length_zseq lo_def hi_def n_def by (rule refl)
  have c: "zset_range reverse start en st = (if lo > hi \<or> lo \<ge> n then Some [] else do {
      ln \<leftarrow> (if reverse then if lo > 0 then zslGetElementByRank (zs_zsl zs) (nat (n - lo)) h else Some (zsl_tail (zs_zsl zs))
        else if lo > 0 then zslGetElementByRank (zs_zsl zs) (nat (lo + 1)) h else map_option lv_forward (lv_get h (zsl_header (zs_zsl zs)) 0));
      zset_emit (nat ((if hi \<ge> n then n - 1 else hi) - lo + 1)) reverse h ln })"
    unfolding zset_range_def st prod.case len Let_def clip hi_def [symmetric] by (rule refl)
  show ?thesis
  proof (cases "lo > hi \<or> lo \<ge> n")
    case True
    then show ?thesis unfolding c v by (auto simp: n_def)
  next
    case False
    let ?e = "if hi \<ge> n then n - 1 else hi"
    have l: "0 \<le> lo" "lo < int (length ns)" using False r(5) by (simp add: lo_def, simp add: n_def)
    have e: "nat lo + nat (?e - lo + 1) \<le> length ns" using False r(5) l(1) by (simp add: n_def) linarith
    note s = zset_start [OF r(1) l, of reverse, unfolded r(5), folded n_def]
    have t: "take (nat (?e - lo + 1)) (drop (nat lo) (zseq reverse es)) = take (nat (hi + 1 - lo)) (drop (nat lo) (zseq reverse es))"
    proof (cases "hi \<ge> n")
      case True
      then have "length (drop (nat lo) (zseq reverse es)) \<le> nat (n - 1 - lo + 1)" "length (drop (nat lo) (zseq reverse es)) \<le> nat (hi + 1 - lo)" using l(1) by (simp_all add: n_def)
      then show ?thesis using True by simp
    qed (simp add: algebra_simps)
    show ?thesis using False zset_emit_Some [OF r(1) e, of reverse] unfolding c v s Option.bind_lunit t by auto
  qed
qed

text \<open>The elements from \<open>offset\<close> on; none when it is negative.\<close>

definition zoffset :: "int \<Rightarrow> 'a list \<Rightarrow> 'a list" where
  "zoffset offset xs = (if offset < 0 then [] else drop (nat offset) xs)"

lemma zseq_segment: "b \<le> length xs \<Longrightarrow> a < b \<Longrightarrow> zseq True (take (b - a) (drop a xs)) = take (b - a) (drop (length xs - b) (zseq True xs))"
proof -
  assume "b \<le> length xs" "a < b"
  then have "length xs - a - (b - a) = length xs - b" "length xs - a - (length xs - b) = b - a" by simp_all
  then show ?thesis by (simp only: zseq_def if_True rev_take rev_drop length_drop drop_take)
qed

lemma zset_range_from_Some:
  assumes rep: "zsl_rep h zsl ns es" and rg: "zsl_range h ns es gte lte P first lst"
    and o: "LLONG_MIN + int (length es) \<le> offset" "LLONG_MIN + int (length es) \<le> limit"
  shows "zset_range_from (\<lambda>nd. if reverse then gte nd else lte nd) reverse offset limit h (if reverse then lst else first)
    = Some (map zrow (zlimit limit (zoffset offset (zseq reverse (filter P es)))))"
proof -
  obtain a b where ab: "b \<le> length es" "filter P es = take (b - a) (drop a es)"
    "first = Some (if a < b then Some (fst (ns ! a)) else None)" "lst = Some (if a < b then Some (fst (ns ! (b - 1))) else None)"
    "\<And>i nd. i < length es \<Longrightarrow> h (fst (ns ! i)) = Some nd \<Longrightarrow> gte nd = Some (a \<le> i) \<and> lte nd = Some (i < b)"
    using rg unfolding zsl_range_def by blast
  have len: "length ns = length es" by (rule data_ok_length [OF zsl_repD(5) [OF rep]])
  show ?thesis
  proof (cases "a < b")
    case False
    then show ?thesis using ab(2-4) by (simp add: zset_range_from_def zlimit_def zoffset_def zseq_def)
  next
    case lt: True
    define s where "s = (if reverse then length es - b else a)"
    define c where "c = (if reverse then length es - a else b)"
    have c: "c \<le> length ns" "s < length ns" using ab(1) lt len by (auto simp: c_def s_def)
    have F: "zseq reverse (filter P es) = take (c - s) (drop s (zseq reverse es))"
      using zseq_segment [OF ab(1) lt] ab(1,2) lt by (cases reverse) (simp_all add: c_def s_def zseq_def [of False])
    have start: "(if reverse then lst else first) = Some (zlink (zseq reverse ns) s)"
      using ab(1,3,4) lt len by (auto simp: zlink_def zseq_nth s_def)
    have test: "(if reverse then gte nd else lte nd) = Some (i < c)" if "i < length ns" "h (fst (zseq reverse ns ! i)) = Some nd" for i nd
    proof (cases reverse)
      case True
      then have "gte nd = Some (a \<le> length es - Suc i)" using ab(5) [of "length es - Suc i" nd] that len by (simp add: zseq_nth)
      moreover have "a \<le> length es - Suc i \<longleftrightarrow> i < c" using that(1) True len ab(1) lt by (auto simp: c_def)
      ultimately show ?thesis using True by simp
    next
      case False
      then show ?thesis using ab(5) [of i nd] that len by (simp add: zseq_nth c_def)
    qed
    have so: "LLONG_MIN + int (length ns - j) \<le> offset" "LLONG_MIN + int (length ns - j) \<le> limit" for j using o len by linarith+
    have sk: "zset_skip reverse h (zlink (zseq reverse ns) s) offset = Some (if offset < 0 then None else zlink (zseq reverse ns) (s + nat offset))"
      by (rule zset_skip_Some [OF rep so(1)])
    have em: "zset_emit_while (\<lambda>nd. if reverse then gte nd else lte nd) reverse h (zlink (zseq reverse ns) j) limit = Some (map zrow (zlimit limit (take (c - j) (drop j (zseq reverse es)))))" for j
      by (rule zset_emit_while_Some [OF rep c(1) test so(2)])
    have nn: "(zlink (zseq reverse ns) s = None) = False" using c(2) by (simp add: zlink_def)
    show ?thesis unfolding zset_range_from_def start Option.bind_lunit nn if_False sk
      by (cases "offset < 0") (simp_all add: em F zoffset_def zlimit_def zset_emit_while.simps [of _ _ _ None] drop_take add.commute)
  qed
qed

lemma zset_count_from_Some:
  assumes rep: "zset_rep (h, zs) ns es" and rg: "zsl_range h ns es gte lte P first lst"
  shows "zset_count_from first lst (zs_zsl zs) h = Some (int (length (filter P es)))"
proof -
  note r = zset_repD [OF rep] and len = zset_length [OF rep]
  obtain a b where ab: "b \<le> length es" "filter P es = take (b - a) (drop a es)"
    "first = Some (if a < b then Some (fst (ns ! a)) else None)" "lst = Some (if a < b then Some (fst (ns ! (b - 1))) else None)"
    using rg unfolding zsl_range_def by blast
  have rank: "\<exists>nd. h (fst (ns ! i)) = Some nd \<and> zn_obj nd = Some (snd (es ! i)) \<and> zslGetRank (zs_zsl zs) (zn_score nd) (snd (es ! i)) h = Some (Suc i)" if "i < length es" for i
  proof -
    have i: "i < length ns" "obj_ok (snd (es ! i))" using that r(5) zsl_repD(8) [OF r(1)] by simp_all
    obtain nd where "h (fst (ns ! i)) = Some nd" "zn_obj nd = Some (snd (es ! i))" "zn_score nd = Dbl (fst (es ! i))"
      by (rule data_ok_node [OF zsl_repD(5) [OF r(1)] i(1)])
    then show ?thesis using zset_rank_nth(1) [OF rep that refl i(2) refl] by simp
  qed
  show ?thesis
  proof (cases "a < b")
    case True
    then have "a < length es" "b - 1 < length es" "Suc (b - 1) = b" using ab(1) by simp_all
    then show ?thesis using True rank [of a] rank [of "b - 1"] ab len by (auto simp: zset_count_from_def)
  qed (use ab in \<open>simp add: zset_count_from_def\<close>)
qed


section \<open>Contents of a sorted set\<close>

text \<open>The elements of the lowest level, from the node \<open>p\<close> on.\<close>

primrec zsl_collect :: "nat \<Rightarrow> 's zheap \<Rightarrow> nat option \<Rightarrow> 's zview" where
  "zsl_collect 0 h p = []"
| "zsl_collect (Suc n) h p = (case zsl_value h p of Some (Some e) \<Rightarrow> ekey e # zsl_collect n h (lv_get h (the p) 0 \<bind> lv_forward) | _ \<Rightarrow> [])"

definition zset_view :: "'s zset_state \<Rightarrow> 's zview" where
  "zset_view st = zsl_collect (zsl_length (zs_zsl (snd st))) (fst st) (lv_get (fst st) (zsl_header (zs_zsl (snd st))) 0 \<bind> lv_forward)"

lemma zsl_collect_rep:
  assumes "data_ok (zn_dat h) ns es" "levels_ok (lv_get h) 1 ns" "\<forall>n \<in> set ns. 0 < snd n"
  shows "zsl_collect (length ns) h (lv_forward (expect 0 ns)) = map ekey es"
  using assms
proof (induction ns arbitrary: es)
  case (Cons n ns)
  obtain e es' where es: "es = e # es'" "data_ok (zn_dat h) ns es'" using Cons.prems(1) by (auto simp: data_ok_def list_all2_Cons1)
  have v: "zsl_value h (Some (fst n)) = Some (Some e)" using zsl_value_nth [OF Cons.prems(1), of 0] es(1) by simp
  have l: "lv_get h (fst n) 0 = Some (expect 0 ns)" using levels_okD [of "lv_get h" 1 "[]" "fst n" "snd n" ns 0] Cons.prems(2,3) by simp
  show ?case using Cons.IH [OF es(2) levels_tl [OF Cons.prems(2)]] Cons.prems(3) v l es(1) by simp
qed (simp add: data_ok_def)

lemma zset_view_rep:
  assumes "zset_rep st ns es" shows "zset_view st = map ekey es"
proof -
  obtain h zs where st: "st = (h, zs)" by (cases st)
  note r = zset_repD [OF assms [unfolded st]]
  note z = zsl_repD [OF r(1)] and n = zsl_nodesD [OF zsl_repD(1) [OF r(1)]]
  have "lv_get h (zsl_header (zs_zsl zs)) 0 = Some (expect 0 ns)"
    using levels_okD [of "lv_get h" "zsl_level (zs_zsl zs)" "[]" "zsl_header (zs_zsl zs)" ZSKIPLIST_MAXLEVEL ns 0] n(2,6) by (simp add: ZSKIPLIST_MAXLEVEL_def)
  moreover have "levels_ok (lv_get h) 1 ns" using levels_mono [OF levels_tl [OF n(2)], of 1] n(6) by simp
  ultimately show ?thesis using zsl_collect_rep [OF z(5)] n(8) z(3) by (simp add: zset_view_def st)
qed

section \<open>Operations and their specification\<close>

text \<open>
  The commands with the values they get from their surroundings: the random numbers of
  \<open>zslRandomLevel\<close>, whether hash tables may be resized, whether the argument object is shared.
\<close>

datatype 's zset_op =
    ZAdd "nat \<Rightarrow> nat" bool nat bool 's bool robj
  | ZRem bool "robj list"
  | ZScore bool robj
  | ZRank bool bool robj
  | ZCard
  | ZRange bool int int
  | ZRangeByScore bool "'s zrangespec" int int
  | ZRangeByLex bool zlexrangespec int int
  | ZCount "'s zrangespec"
  | ZLexCount zlexrangespec
  | ZRemRangeByScore bool "'s zrangespec"
  | ZRemRangeByLex bool zlexrangespec
  | ZRemRangeByRank bool int int

datatype 's zset_res =
    ZrAdd zadd_res
  | ZrDeleted "nat \<times> bool"
  | ZrScore "'s dbl option"
  | ZrRank "nat option"
  | ZrRows "('s dbl \<times> bytes) list"
  | ZrCount int

fun zset_do :: "('s :: linorder) zmem \<Rightarrow> ('s dbl \<Rightarrow> 's dbl \<Rightarrow> 's dbl) \<Rightarrow> 's zset_state \<Rightarrow> 's zset_op \<Rightarrow> ('s zset_state \<times> 's zset_res) option" where
  "zset_do M addf st (ZAdd rnd cr junk incr s shared ele) = map_option (apsnd ZrAdd) (zset_add M rnd cr junk addf incr (Dbl s) shared ele st)"
| "zset_do M addf st (ZRem cr eles) = map_option (apsnd ZrDeleted) (zset_rem_loop cr eles st)"
| "zset_do M addf st (ZScore shared ele) = map_option (apsnd ZrScore) (zset_score shared ele st)"
| "zset_do M addf st (ZRank reverse shared ele) = map_option (apsnd ZrRank) (zset_rank reverse shared ele st)"
| "zset_do M addf st ZCard = Some (st, ZrCount (int (zsetLength (snd st))))"
| "zset_do M addf st (ZRange reverse start en) = map_option (\<lambda>x. (st, ZrRows x)) (zset_range reverse start en st)"
| "zset_do M addf st (ZRangeByScore reverse rg offset limit) = map_option (\<lambda>x. (st, ZrRows x)) (zset_rangebyscore reverse rg offset limit st)"
| "zset_do M addf st (ZRangeByLex reverse rg offset limit) = map_option (\<lambda>x. (st, ZrRows x)) (zset_rangebylex reverse rg offset limit st)"
| "zset_do M addf st (ZCount rg) = map_option (\<lambda>n. (st, ZrCount n)) (zset_count rg st)"
| "zset_do M addf st (ZLexCount rg) = map_option (\<lambda>n. (st, ZrCount n)) (zset_lexcount rg st)"
| "zset_do M addf st (ZRemRangeByScore cr rg) = map_option (apsnd ZrDeleted) (zset_remrange cr (\<lambda>zsl. zslDeleteRangeByScore zsl rg) st)"
| "zset_do M addf st (ZRemRangeByLex cr rg) = map_option (apsnd ZrDeleted) (zset_remrange cr (\<lambda>zsl. zslDeleteRangeByLex zsl rg) st)"
| "zset_do M addf st (ZRemRangeByRank cr start en) = map_option (apsnd ZrDeleted) (zset_remrangebyrank cr start en st)"

text \<open>The specification, on the sorted list of scores and strings.\<close>

definition zv_rows :: "bool \<Rightarrow> int \<Rightarrow> int \<Rightarrow> 's zview \<Rightarrow> ('s dbl \<times> bytes) list" where
  "zv_rows reverse offset limit A = map (apfst Dbl) (zlimit limit (zoffset offset (zseq reverse A)))"

definition zv_remrange :: "('s \<times> bytes \<Rightarrow> bool) \<Rightarrow> 's zview \<Rightarrow> 's zview \<times> nat \<times> bool" where
  "zv_remrange P A = (let B = filter (\<lambda>e. \<not> P e) A in (B, length (filter P A), B = []))"

definition zv_remrank :: "int \<Rightarrow> int \<Rightarrow> 's zview \<Rightarrow> 's zview \<times> nat \<times> bool" where
  "zv_remrank start en A = (let B = zv_cut start en A in (B, length A - length B, A \<noteq> [] \<and> B = []))"

fun zset_spec :: "('s dbl \<Rightarrow> 's dbl \<Rightarrow> 's dbl) \<Rightarrow> ('s :: linorder) zview \<Rightarrow> 's zset_op \<Rightarrow> 's zview \<times> 's zset_res" where
  "zset_spec addf A (ZAdd rnd cr junk incr s shared ele) = apsnd ZrAdd (zv_add addf incr s (obj_str ele) A)"
| "zset_spec addf A (ZRem cr eles) = apsnd ZrDeleted (zv_rem (obj_str ` set eles) A)"
| "zset_spec addf A (ZScore shared ele) = (A, ZrScore (map_option Dbl (zv_find (obj_str ele) A)))"
| "zset_spec addf A (ZRank reverse shared ele) = (A, ZrRank (zv_rank reverse (obj_str ele) A))"
| "zset_spec addf A ZCard = (A, ZrCount (int (length A)))"
| "zset_spec addf A (ZRange reverse start en) = (A, ZrRows (map (apfst Dbl) (zv_slice start en (zseq reverse A))))"
| "zset_spec addf A (ZRangeByScore reverse rg offset limit) = (A, ZrRows (zv_rows reverse offset limit (filter (\<lambda>e. in_rg rg (fst e)) A)))"
| "zset_spec addf A (ZRangeByLex reverse rg offset limit) = (A, ZrRows (zv_rows reverse offset limit (filter (\<lambda>e. in_lex rg (snd e)) A)))"
| "zset_spec addf A (ZCount rg) = (A, ZrCount (int (length (filter (\<lambda>e. in_rg rg (fst e)) A))))"
| "zset_spec addf A (ZLexCount rg) = (A, ZrCount (int (length (filter (\<lambda>e. in_lex rg (snd e)) A))))"
| "zset_spec addf A (ZRemRangeByScore cr rg) = apsnd ZrDeleted (zv_remrange (\<lambda>e. in_rg rg (fst e)) A)"
| "zset_spec addf A (ZRemRangeByLex cr rg) = apsnd ZrDeleted (zv_remrange (\<lambda>e. in_lex rg (snd e)) A)"
| "zset_spec addf A (ZRemRangeByRank cr start en) = apsnd ZrDeleted (zv_remrank start en A)"

text \<open>
  What the commands rely on: strings of admissible length, a generator that does not return small
  numbers for ever, room in the hash table, no NaN as a bound, offsets and limits that can be counted down,
  and for lexicographic ranges elements of one score.
\<close>

definition zset_count_ok :: "'s zview \<Rightarrow> int \<Rightarrow> bool" where
  "zset_count_ok A i \<longleftrightarrow> LLONG_MIN + int (length A) \<le> i"

fun zset_ok :: "'s zview \<Rightarrow> ('s :: linorder) zset_op \<Rightarrow> bool" where
  "zset_ok A (ZAdd rnd cr junk incr s shared ele) \<longleftrightarrow> rnd_ok rnd \<and> length A < dict_max \<and> obj_ok ele"
| "zset_ok A (ZRem cr eles) \<longleftrightarrow> (\<forall>ele \<in> set eles. obj_ok ele)"
| "zset_ok A (ZScore shared ele) \<longleftrightarrow> obj_ok ele"
| "zset_ok A (ZRank reverse shared ele) \<longleftrightarrow> obj_ok ele \<and> (\<exists>m. ele = ObjRaw m)"
| "zset_ok A ZCard \<longleftrightarrow> True"
| "zset_ok A (ZRange reverse start en) \<longleftrightarrow> True"
| "zset_ok A (ZRangeByScore reverse rg offset limit) \<longleftrightarrow> rg_ok rg \<and> zset_count_ok A offset \<and> zset_count_ok A limit"
| "zset_ok A (ZRangeByLex reverse rg offset limit) \<longleftrightarrow> lex_bounds rg \<and> lex_plain rg \<and> one_score A \<and> zset_count_ok A offset \<and> zset_count_ok A limit"
| "zset_ok A (ZCount rg) \<longleftrightarrow> rg_ok rg"
| "zset_ok A (ZLexCount rg) \<longleftrightarrow> lex_bounds rg \<and> lex_plain rg \<and> one_score A"
| "zset_ok A (ZRemRangeByScore cr rg) \<longleftrightarrow> rg_ok rg"
| "zset_ok A (ZRemRangeByLex cr rg) \<longleftrightarrow> lex_bounds rg \<and> one_score A"
| "zset_ok A (ZRemRangeByRank cr start en) \<longleftrightarrow> True"

lemma zset_to_map: "ensures m (zset_to A x) \<Longrightarrow> ensures (map_option (apsnd f) m) (zset_to A (f x))"
  by (erule ensuresE) (simp add: zset_to_def)

lemma zset_read: "zset_rep st ns es \<Longrightarrow> m = Some x \<Longrightarrow> ensures (map_option (\<lambda>x. (st, f x)) m) (zset_to (map ekey es) (f x))"
  by (simp add: zset_toI)

lemma one_score_ekey: "one_score (map ekey es) \<longleftrightarrow> one_score es"
  by (simp add: one_score_def)

lemma zrow_ekey: "map zrow es = map (apfst Dbl) (map ekey es)"
  by (simp add: zrow_def ekey_def)

lemma map_zseq: "map f (zseq reverse xs) = zseq reverse (map f xs)"
  by (simp add: zseq_def rev_map)

lemma map_rows: "map zrow (zlimit limit (zoffset offset (zseq reverse es))) = zv_rows reverse offset limit (map ekey es)"
  unfolding zrow_ekey zv_rows_def map_zseq [symmetric] by (simp add: zlimit_def zoffset_def take_map drop_map)

lemma map_zv_slice: "map f (zv_slice start en A) = zv_slice start en (map f A)"
  unfolding zv_slice_def Let_def length_map by (simp only: if_distrib [of "map f"] list.map take_map drop_map)

lemma map_slice: "map zrow (zv_slice start en (zseq reverse es)) = map (apfst Dbl) (zv_slice start en (zseq reverse (map ekey es)))"
  unfolding zrow_ekey map_zseq [symmetric] map_zv_slice ..


section \<open>Refinement\<close>

lemma zset_ranges_sim:
  assumes rep: "zset_rep st ns es" and o: "zset_count_ok (map ekey es) offset" "zset_count_ok (map ekey es) limit"
  shows "rg_ok rg \<Longrightarrow> zset_rangebyscore reverse rg offset limit st = Some (zv_rows reverse offset limit (filter (\<lambda>e. in_rg rg (fst e)) (map ekey es)))"
    "lex_bounds lrg \<Longrightarrow> lex_plain lrg \<Longrightarrow> one_score es \<Longrightarrow>
      zset_rangebylex reverse lrg offset limit st = Some (zv_rows reverse offset limit (filter (\<lambda>e. in_lex lrg (snd e)) (map ekey es)))"
proof -
  obtain h zs where st: "st = (h, zs)" by (cases st)
  note r = zset_repD [OF rep [unfolded st]]
  note o = o [unfolded zset_count_ok_def length_map]
  show "zset_rangebyscore reverse rg offset limit st = Some (zv_rows reverse offset limit (filter (\<lambda>e. in_rg rg (fst e)) (map ekey es)))" if "rg_ok rg"
  proof -
    have t: "(\<lambda>nd. Some (if reverse then zslValueGteMin (zn_score nd) rg else zslValueLteMax (zn_score nd) rg)) =
      (\<lambda>nd. if reverse then Some (zslValueGteMin (zn_score nd) rg) else Some (zslValueLteMax (zn_score nd) rg))" by auto
    show ?thesis unfolding zset_rangebyscore_def st prod.case t filter_ekey(1) [of "in_rg rg"] map_rows [symmetric]
      by (rule zset_range_from_Some [OF r(1) zslInRange_Some [OF r(1) that] o])
  qed
  show "zset_rangebylex reverse lrg offset limit st = Some (zv_rows reverse offset limit (filter (\<lambda>e. in_lex lrg (snd e)) (map ekey es)))"
    if "lex_bounds lrg" "lex_plain lrg" "one_score es"
  proof -
    have t: "(\<lambda>nd. zn_obj nd \<bind> (\<lambda>ob. if reverse then zslLexValueGteMin ob lrg else zslLexValueLteMax ob lrg)) =
      (\<lambda>nd. if reverse then zn_obj nd \<bind> (\<lambda>ob. zslLexValueGteMin ob lrg) else zn_obj nd \<bind> (\<lambda>ob. zslLexValueLteMax ob lrg))" by auto
    show ?thesis unfolding zset_rangebylex_def st prod.case t filter_ekey(2) [of "in_lex lrg"] map_rows [symmetric]
      by (rule zset_range_from_Some [OF r(1) zslInLexRange_Some [OF r(1) that] o])
  qed
qed

lemma zset_counts_sim:
  assumes rep: "zset_rep st ns es"
  shows "rg_ok rg \<Longrightarrow> zset_count rg st = Some (int (length (filter (\<lambda>e. in_rg rg (fst e)) (map ekey es))))"
    "lex_bounds lrg \<Longrightarrow> lex_plain lrg \<Longrightarrow> one_score es \<Longrightarrow> zset_lexcount lrg st = Some (int (length (filter (\<lambda>e. in_lex lrg (snd e)) (map ekey es))))"
proof -
  obtain h zs where st: "st = (h, zs)" by (cases st)
  note rep = rep [unfolded st]
  note z = zset_repD(1) [OF rep]
  show "zset_count rg st = Some (int (length (filter (\<lambda>e. in_rg rg (fst e)) (map ekey es))))" if "rg_ok rg"
    unfolding zset_count_def st prod.case filter_ekey(1) [of "in_rg rg"] length_map by (rule zset_count_from_Some [OF rep zslInRange_Some [OF z that]])
  show "zset_lexcount lrg st = Some (int (length (filter (\<lambda>e. in_lex lrg (snd e)) (map ekey es))))" if "lex_bounds lrg" "lex_plain lrg" "one_score es"
    unfolding zset_lexcount_def st prod.case filter_ekey(2) [of "in_lex lrg"] length_map by (rule zset_count_from_Some [OF rep zslInLexRange_Some [OF z that]])
qed

lemma zset_remranges_sim:
  assumes rep: "zset_rep st ns es"
  shows "rg_ok rg \<Longrightarrow> ensures (zset_remrange cr (\<lambda>zsl. zslDeleteRangeByScore zsl rg) st)
      (zset_to (fst (zv_remrange (\<lambda>e. in_rg rg (fst e)) (map ekey es))) (snd (zv_remrange (\<lambda>e. in_rg rg (fst e)) (map ekey es))))"
    "lex_bounds lrg \<Longrightarrow> one_score es \<Longrightarrow> ensures (zset_remrange cr (\<lambda>zsl. zslDeleteRangeByLex zsl lrg) st)
      (zset_to (fst (zv_remrange (\<lambda>e. in_lex lrg (snd e)) (map ekey es))) (snd (zv_remrange (\<lambda>e. in_lex lrg (snd e)) (map ekey es))))"
    "ensures (zset_remrangebyrank cr start en st) (zset_to (fst (zv_remrank start en (map ekey es))) (snd (zv_remrank start en (map ekey es))))"
proof -
  obtain h zs where st: "st = (h, zs)" by (cases st)
  note r = zset_repD [OF rep [unfolded st]]
  note rem = zset_remrange_Some [OF rep [unfolded st], where cr = cr]
  show "ensures (zset_remrange cr (\<lambda>zsl. zslDeleteRangeByScore zsl rg) st)
      (zset_to (fst (zv_remrange (\<lambda>e. in_rg rg (fst e)) (map ekey es))) (snd (zv_remrange (\<lambda>e. in_rg rg (fst e)) (map ekey es))))" if "rg_ok rg"
    using rem [where remf = "\<lambda>zsl. zslDeleteRangeByScore zsl rg", OF zslDeleteRangeByScore_Some [OF r(1,3) that]]
      filter_ekey(1) [of "in_rg rg" es] filter_ekey(1) [of "\<lambda>s. \<not> in_rg rg s" es] by (simp add: zv_remrange_def Let_def st)
  show "ensures (zset_remrange cr (\<lambda>zsl. zslDeleteRangeByLex zsl lrg) st)
      (zset_to (fst (zv_remrange (\<lambda>e. in_lex lrg (snd e)) (map ekey es))) (snd (zv_remrange (\<lambda>e. in_lex lrg (snd e)) (map ekey es))))" if "lex_bounds lrg" "one_score es"
    using rem [where remf = "\<lambda>zsl. zslDeleteRangeByLex zsl lrg", OF zslDeleteRangeByLex_Some [OF r(1,3) that]]
      filter_ekey(2) [of "in_lex lrg" es] filter_ekey(2) [of "\<lambda>s. \<not> in_lex lrg s" es] by (simp add: zv_remrange_def Let_def st)
  have "zv_cut start en (map ekey es) = map ekey (zv_cut start en es)" by (simp add: zv_cut_def Let_def take_map drop_map)
  then show "ensures (zset_remrangebyrank cr start en st) (zset_to (fst (zv_remrank start en (map ekey es))) (snd (zv_remrank start en (map ekey es))))"
    using zset_remrangebyrank_Some [OF rep, of cr start en] by (simp add: zv_remrank_def Let_def)
qed

lemma zset_do_sim:
  assumes rep: "zset_rep st ns es" and M: "zmem_ok M" and ok: "zset_ok (map ekey es) x"
  shows "ensures (zset_do M addf st x) (zset_to (fst (zset_spec addf (map ekey es) x)) (snd (zset_spec addf (map ekey es) x)))"
proof (cases x)
  case (ZAdd rnd cr junk incr s shared ele)
  then show ?thesis using zset_to_map [OF zset_add_Some [OF rep M, of rnd ele cr junk addf incr s shared]] ok by simp
next
  case (ZRem cr eles)
  then show ?thesis using zset_to_map [OF zset_rem_loop_Some [OF rep, of eles cr], of ZrDeleted] ok by simp
next
  case (ZScore shared ele)
  then show ?thesis using zset_to_map [OF zset_score_Some [OF rep, of ele shared], of ZrScore] ok by simp
next
  case (ZRank reverse shared ele)
  then obtain m where "ele = ObjRaw m" "obj_ok (ObjRaw m)" using ok by auto
  then show ?thesis using zset_to_map [OF zset_rank_Some [OF rep, of m reverse shared], of ZrRank] ZRank by simp
next
  case ZCard
  then show ?thesis using zset_length(1) [of "fst st" "snd st" ns es] rep by (simp add: zset_toI)
next
  case (ZRange reverse start en)
  then show ?thesis using zset_read [OF rep zset_range_Some [OF rep, of reverse start en], of ZrRows] by (simp add: map_slice)
next
  case (ZRangeByScore reverse rg offset limit)
  then show ?thesis using zset_read [OF rep zset_ranges_sim(1) [OF rep, of offset limit rg reverse], of ZrRows] ok by simp
next
  case (ZRangeByLex reverse rg offset limit)
  then show ?thesis using zset_read [OF rep zset_ranges_sim(2) [OF rep, of offset limit rg reverse], of ZrRows] ok by (simp add: one_score_ekey)
next
  case (ZCount rg)
  then show ?thesis using zset_read [OF rep zset_counts_sim(1) [OF rep, of rg], of ZrCount] ok by simp
next
  case (ZLexCount rg)
  then show ?thesis using zset_read [OF rep zset_counts_sim(2) [OF rep, of rg], of ZrCount] ok by (simp add: one_score_ekey)
next
  case (ZRemRangeByScore cr rg)
  then show ?thesis using zset_to_map [OF zset_remranges_sim(1) [OF rep, of rg cr], of ZrDeleted] ok by simp
next
  case (ZRemRangeByLex cr rg)
  then show ?thesis using zset_to_map [OF zset_remranges_sim(2) [OF rep, of rg cr], of ZrDeleted] ok by (simp add: one_score_ekey)
next
  case (ZRemRangeByRank cr start en)
  then show ?thesis using zset_to_map [OF zset_remranges_sim(3) [OF rep, of cr start en], of ZrDeleted] by simp
qed

definition zset_inv :: "('s :: linorder) zmem \<Rightarrow> 's zset_state \<Rightarrow> bool" where
  "zset_inv M st \<longleftrightarrow> zmem_ok M \<and> (\<exists>ns es. zset_rep st ns es)"

interpretation zset_sim: simulation "zset_inv M" zset_view "zset_do M addf" "zset_spec addf" zset_ok
  for M :: "('s :: linorder) zmem" and addf
proof
  fix st :: "'s zset_state" and x
  assume "zset_inv M st" and ok: "zset_ok (zset_view st) x"
  then obtain ns es where rep: "zset_rep st ns es" and M: "zmem_ok M" by (auto simp: zset_inv_def)
  note v = zset_view_rep [OF rep]
  obtain q where q: "zset_do M addf st x = Some q" "zset_to (fst (zset_spec addf (map ekey es) x)) (snd (zset_spec addf (map ekey es) x)) q"
    by (rule ensuresE [OF zset_do_sim [OF rep M ok [unfolded v]]])
  obtain ns' es' where r: "zset_rep (fst q) ns' es'" "map ekey es' = fst (zset_spec addf (map ekey es) x)" "snd q = snd (zset_spec addf (map ekey es) x)"
    using q(2) unfolding zset_to_def by iprover
  have "zset_do M addf st x = Some (fst q, snd (zset_spec addf (zset_view st) x))" using q(1) r(3) v by (metis prod.collapse)
  moreover have "zset_inv M (fst q)" unfolding zset_inv_def using M r(1) by iprover
  moreover have "zset_view (fst q) = fst (zset_spec addf (zset_view st) x)" using zset_view_rep [OF r(1)] r(2) v by simp
  ultimately show "\<exists>s'. zset_do M addf st x = Some (s', snd (zset_spec addf (zset_view st) x)) \<and> zset_inv M s' \<and> zset_view s' = fst (zset_spec addf (zset_view st) x)"
    by iprover
qed

lemma createZsetObject_Some:
  assumes "zmem_ok M" "finite (dom h)" "dict_type_ok ty"
  shows "ensures (createZsetObject M zero ty h) (\<lambda>st. zset_inv M st \<and> zset_view st = [])"
proof -
  obtain h' zsl where c: "zslCreate M zero h = Some (h', zsl)" "zsl_rep h' zsl [] []"
    using zslCreate_Some [OF assms(1,2), of zero] by (auto elim!: ensuresE)
  then have rep: "zset_rep (h', \<lparr>zs_dict = dictCreate ty, zs_zsl = zsl\<rparr>) [] []"
    using dictCreate_inv [OF assms(3)] by (simp add: zset_rep_def zpairs_def)
  then show ?thesis using c(1) zset_view_rep [OF rep] assms(1) by (auto simp: createZsetObject_def zset_inv_def)
qed

lemma zset_inv_sorted:
  assumes "zset_inv M st" shows "sorted_wrt (<) (zset_view st)" "distinct (map snd (zset_view st))" "length (zset_view st) \<le> dict_max"
proof -
  obtain ns es where rep: "zset_rep (fst st, snd st) ns es" using assms by (auto simp: zset_inv_def)
  note r = zset_repD [OF rep]
  have v: "zset_view st = map ekey es" using zset_view_rep [OF rep] by simp
  show "sorted_wrt (<) (zset_view st)" unfolding v by (rule zsl_repD(7) [OF r(1)])
  show "distinct (map snd (zset_view st))" unfolding v using r(2) by (simp add: comp_def)
  have "length es \<le> dict_max" using zset_size [OF rep] dictSize_eq [OF r(3)] r(3) by (simp add: dict_inv_def)
  then show "length (zset_view st) \<le> dict_max" by (simp add: v)
qed

text \<open>Releasing the skip list hands every element to \<open>decrRefCount\<close> once.\<close>

lemma zset_inv_free:
  assumes "zset_inv M st"
  shows "ensures (zslFree (zs_zsl (snd st)) (fst st)) (\<lambda>(h', objs). map (map_option obj_str) objs = map (Some \<circ> snd) (zset_view st))"
proof -
  obtain ns es where rep: "zset_rep (fst st, snd st) ns es" using assms by (auto simp: zset_inv_def)
  have v: "zset_view st = map ekey es" using zset_view_rep [OF rep] by simp
  show ?thesis unfolding zslFree_Some [OF zset_repD(1) [OF rep]] v by (simp add: comp_def)
qed


text \<open>
  C2.  A sorted set in its large encoding is a sorted list of scores and strings.  From the empty set, any sequence
  of \<open>ZADD\<close>, \<open>ZINCRBY\<close>, \<open>ZREM\<close>, \<open>ZSCORE\<close>, \<open>ZRANK\<close>, \<open>ZCARD\<close>, \<open>ZRANGE\<close>, \<open>ZRANGEBYSCORE\<close>,
  \<open>ZRANGEBYLEX\<close> (both directions, with offset and limit), \<open>ZCOUNT\<close>, \<open>ZLEXCOUNT\<close> and \<open>ZREMRANGEBY...\<close> follows no dangling pointer,
  terminates and returns what the same operations on a strictly sorted list with distinct strings return, whatever heights the
  nodes get: skip list and hash table stay in step, the spans give the right ranks, and releasing the skip list hands every
  object to \<open>decrRefCount\<close> exactly once.
\<close>

theorem zset_refines_sorted:
  assumes "zmem_ok M" "finite (dom h)" "dict_type_ok ty" "run_ok (zset_spec addf) zset_ok [] xs"
  shows "ensures (do { st \<leftarrow> createZsetObject M zero ty h; run_ops (zset_do M addf) st xs }) (\<lambda>(st, rs).
     zset_inv M st \<and> zset_view st = fst (run_spec (zset_spec addf) [] xs) \<and> rs = snd (run_spec (zset_spec addf) [] xs) \<and>
     sorted_wrt (<) (zset_view st) \<and> distinct (map snd (zset_view st)) \<and>
     ensures (zslFree (zs_zsl (snd st)) (fst st)) (\<lambda>(h', objs). map (map_option obj_str) objs = map (Some \<circ> snd) (zset_view st)))"
proof (rule ensures_bindI [OF createZsetObject_Some [OF assms(1-3)]])
  fix st assume st: "zset_inv M st \<and> zset_view st = []"
  then show "ensures (run_ops (zset_do M addf) st xs) (\<lambda>(st, rs).
     zset_inv M st \<and> zset_view st = fst (run_spec (zset_spec addf) [] xs) \<and> rs = snd (run_spec (zset_spec addf) [] xs) \<and>
     sorted_wrt (<) (zset_view st) \<and> distinct (map snd (zset_view st)) \<and>
     ensures (zslFree (zs_zsl (snd st)) (fst st)) (\<lambda>(h', objs). map (map_option obj_str) objs = map (Some \<circ> snd) (zset_view st)))"
    using zset_sim.run_sim [of M st addf xs] assms(4) zset_inv_sorted zset_inv_free by fastforce
qed

definition sample_mem :: "'s zmem" where
  "sample_mem = \<lparr>zm_alloc = \<lambda>h. LEAST n. h n = None, zm_level = \<lambda>i. \<lparr>lv_forward = None, lv_span = 7\<rparr>, zm_backward = Some 99\<rparr>"

lemma sample_mem_ok: "zmem_ok sample_mem"
  unfolding zmem_ok_def sample_mem_def zskiplistNode.simps zmem.simps
proof (intro allI impI)
  fix h :: "'a zheap" assume "finite (dom h)"
  then obtain n where "n \<notin> dom h" using ex_new_if_finite infinite_UNIV_nat by blast
  then show "h (LEAST n. h n = None) = None" by (intro LeastI [of "\<lambda>n. h n = None" n]) auto
qed

definition sample_bytes_type :: "(bytes, nat) dictType" where
  "sample_bytes_type = \<lparr>hashFunction = \<lambda>s. of_nat (length s), keyDup = None, valDup = None, keyCompare = Some (=)\<rparr>"

lemma sample_bytes_type_ok: "dict_type_ok sample_bytes_type"
  by (simp add: dict_type_ok_def sample_bytes_type_def)

fun sample_addf :: "int dbl \<Rightarrow> int dbl \<Rightarrow> int dbl" where
  "sample_addf (Dbl a) (Dbl b) = Dbl (a + b)"
| "sample_addf _ _ = NaN"

definition sample_rnd :: "nat \<Rightarrow> nat" where
  "sample_rnd n = (if n < 3 then 5 else 0xFFFF)"

lemma sample_rnd_ok: "rnd_ok sample_rnd"
  unfolding rnd_ok_def sample_rnd_def by (rule exI [of _ 3]) simp

definition sample_zset_ops :: "int zset_op list" where
  "sample_zset_ops = [ZAdd sample_rnd True 0 False 2 False (ObjRaw (str ''b'')), ZAdd sample_rnd True 0 False 1 False (ObjRaw (str ''7'')),
     ZAdd sample_rnd True 0 True 5 False (ObjInt 7), ZRank False False (ObjRaw (str ''7'')), ZRange True 0 (- 1),
     ZCount \<lparr>zr_min = Dbl 2, zr_max = Dbl 6, zr_minex = False, zr_maxex = True\<rparr>,
     ZRangeByScore False \<lparr>zr_min = Dbl 0, zr_max = Dbl 9, zr_minex = False, zr_maxex = False\<rparr> 1 (- 1),
     ZRem True [ObjRaw (str ''x''), ObjRaw (str ''b''), ObjInt 7, ObjInt 8]]"

theorem zset_refines_sorted_witness:
  "ensures (do { st \<leftarrow> createZsetObject sample_mem 0 sample_bytes_type Map.empty; run_ops (zset_do sample_mem sample_addf) st sample_zset_ops }) (\<lambda>(st, rs).
     zset_view st = [] \<and>
     rs = [ZrAdd ZaddAdded, ZrAdd ZaddAdded, ZrAdd ZaddUpdated, ZrRank (Some 1), ZrRows [(Dbl 6, str ''7''), (Dbl 2, str ''b'')], ZrCount 1,
       ZrRows [(Dbl 6, str ''7'')], ZrDeleted (2, True)])"
proof -
  have d: "dec 7 = [55]" "dec 8 = [56]" by (subst dec.simps, simp)+
  note ev = d sample_zset_ops_def sample_rnd_ok dict_max_def sds_max_def zv_add_def zv_find_def zv_put_def zv_drop_def zv_score_def zv_rank_def
    in_rg_def zslValueGteMin_def zslValueLteMax_def rg_ok_def dec_int_def is_llong_def zset_count_ok_def zv_slice_def zseq_def zv_rows_def zlimit_def
    zoffset_def zv_rem_def
  have "run_ok (zset_spec sample_addf) zset_ok [] sample_zset_ops" by (simp add: ev)
  moreover have "run_spec (zset_spec sample_addf) [] sample_zset_ops =
    ([], [ZrAdd ZaddAdded, ZrAdd ZaddAdded, ZrAdd ZaddUpdated, ZrRank (Some 1), ZrRows [(Dbl 6, str ''7''), (Dbl 2, str ''b'')], ZrCount 1,
       ZrRows [(Dbl 6, str ''7'')], ZrDeleted (2, True)])" by (simp add: ev)
  ultimately show ?thesis using zset_refines_sorted [OF sample_mem_ok _ sample_bytes_type_ok, of Map.empty sample_addf sample_zset_ops 0]
    by (auto elim!: ensures_mono)
qed

text \<open>
  C40.  The bound \<open>-\<close> of a lexicographic range is confused with the string \<open>minstring\<close>: in a sorted set
  whose elements all have one score (the documented use of these commands), for the range
  \<open>- (minstring\<close> the commands \<open>ZRANGEBYLEX\<close> and \<open>ZLEXCOUNT\<close> find no element, in both directions and for every
  offset and limit, while \<open>ZREMRANGEBYLEX\<close> with the same range removes exactly the elements below
  \<open>minstring\<close>, keeps the others, and returns the number of the removed ones.
\<close>

theorem lex_sentinel_confused:
  assumes "zset_inv M st" "one_score (zset_view st)"
  shows "\<exists>rg. zslParseLexRange (ObjRaw (str ''-'')) (ObjRaw (str ''(minstring'')) = Some rg \<and>
     zset_rangebylex reverse rg offset limit st = Some [] \<and> zset_lexcount rg st = Some 0 \<and>
     ensures (zset_remrange cr (\<lambda>zsl. zslDeleteRangeByLex zsl rg) st)
       (\<lambda>r. zset_inv M (fst r) \<and> zset_view (fst r) = filter (\<lambda>e. \<not> snd e < str ''minstring'') (zset_view st) \<and>
            fst (snd r) = length (filter (\<lambda>e. snd e < str ''minstring'') (zset_view st)))"
proof -
  let ?rg = "\<lparr>zlr_min = MinString, zlr_max = LexObj (ObjRaw (str ''minstring'')), zlr_minex = False, zlr_maxex = True\<rparr>"
  have p: "zslParseLexRange (ObjRaw (str ''-'')) (ObjRaw (str ''(minstring'')) = Some ?rg"
    by (simp add: zslParseLexRangeItem_def Let_def)
  obtain q where q: "compareStringObjects (lex_robj (zlr_min ?rg)) (lex_robj (zlr_max ?rg)) = Some q" "q = 0"
    using compareStringObjects_Some [of "lex_robj (zlr_min ?rg)" "lex_robj (zlr_max ?rg)"] by (auto simp: sds_max_def)
  have f: "zslFirstInLexRange (zs_zsl (snd st)) ?rg (fst st) = Some None" "zslLastInLexRange (zs_zsl (snd st)) ?rg (fst st) = Some None"
    unfolding zslFirstInLexRange_def zslLastInLexRange_def zslIsInLexRange_def q(1) by (simp_all add: compareStringObjectsForLexRange_def q(2))
  have r: "zset_rangebylex reverse ?rg offset limit st = Some []" "zset_lexcount ?rg st = Some 0"
    using f by (cases st; simp add: zset_rangebylex_def zset_range_from_def zset_lexcount_def zset_count_from_def)+
  have lb: "lex_bounds ?rg" by (simp add: lex_bounds_def sds_max_def)
  have i: "in_lex ?rg s \<longleftrightarrow> s < str ''minstring''" for s by (simp add: in_lex_def)
  obtain ns es where rep: "zset_rep st ns es" and M: "zmem_ok M" using assms(1) by (auto simp: zset_inv_def)
  have "one_score es" using assms(2) zset_view_rep [OF rep] by (simp add: one_score_ekey)
  from zset_remranges_sim(2) [OF rep lb this, of cr]
  have "ensures (zset_remrange cr (\<lambda>zsl. zslDeleteRangeByLex zsl ?rg) st)
       (\<lambda>r. zset_inv M (fst r) \<and> zset_view (fst r) = filter (\<lambda>e. \<not> in_lex ?rg (snd e)) (zset_view st) \<and>
            fst (snd r) = length (filter (\<lambda>e. in_lex ?rg (snd e)) (zset_view st)))"
    unfolding zset_view_rep [OF rep]
    by (rule ensures_mono) (auto simp: zset_to_def zv_remrange_def Let_def zset_inv_def M dest: zset_view_rep)
  then show ?thesis unfolding i using p r by blast
qed

theorem lex_sentinel_confused_witness:
  "\<exists>st :: int zset_state. zset_view st = [(0, str ''a''), (0, str ''z'')] \<and>
     (\<exists>rg. zslParseLexRange (ObjRaw (str ''-'')) (ObjRaw (str ''(minstring'')) = Some rg \<and> zset_rangebylex False rg 0 (- 1) st = Some [] \<and>
       ensures (zset_remrange True (\<lambda>zsl. zslDeleteRangeByLex zsl rg) st) (\<lambda>r. zset_view (fst r) = [(0, str ''z'')] \<and> fst (snd r) = 1))"
proof -
  let ?xs = "[ZAdd sample_rnd True 0 False 0 False (ObjRaw (str ''a'')), ZAdd sample_rnd True 0 False 0 False (ObjRaw (str ''z''))] :: int zset_op list"
  obtain st0 :: "int zset_state" where st0: "zset_inv sample_mem st0" "zset_view st0 = []"
    using createZsetObject_Some [OF sample_mem_ok _ sample_bytes_type_ok, of Map.empty 0] by (auto elim!: ensuresE)
  have "run_ok (zset_spec sample_addf) zset_ok (zset_view st0) ?xs"
    by (simp add: st0(2) sample_rnd_ok dict_max_def sds_max_def zv_add_def zv_find_def zv_put_def zv_drop_def)
  from zset_sim.run_sim [OF st0(1) this] obtain st :: "int zset_state" where st: "zset_inv sample_mem st" "zset_view st = [(0, str ''a''), (0, str ''z'')]"
    by (auto simp: st0(2) zv_add_def zv_find_def zv_put_def zv_drop_def)
  then have "one_score (zset_view st)" by (simp add: one_score_def)
  from lex_sentinel_confused [OF st(1) this, of False 0 "- 1" True] st(2) show ?thesis
    by (intro exI [of _ st]) (auto elim!: ensures_mono)
qed

end
