(* ===== verification/Spec2Isabelle.thy ===== *)
theory Spec2Isabelle
  imports Dict_Scan Numbers Glob Intset Adlist Sds_Text Crc64 Lzf Pubsub_Correct Query_Correct Zset_Correct
begin

text \<open>
  A verification library for the C code of the Redis 2.8.19 server under
  \<open>src/redis-2.8.19/src\<close>, the data store of the music comparison application in \<open>src/application\<close>.

  \<^bold>\<open>The program.\<close>  The server keeps data bases of keys in memory.  Its foundation is a set of
  containers and string routines written for it: hash tables (\<open>dict.c\<close>), linked lists (\<open>adlist.c\<close>),
  dynamic strings (\<open>sds.c\<close>), integer sets (\<open>intset.c\<close>), conversions and pattern matching
  (\<open>util.c\<close>), compression and checksum of the dump file (\<open>lzf_c.c\<close>, \<open>lzf_d.c\<close>, \<open>crc64.c\<close>).  On top
  of them \<open>networking.c\<close> reads and parses the requests of clients, \<open>processCommand\<close> of \<open>redis.c\<close> admits the command of a client and \<open>call\<close> executes and propagates
  it; \<open>multi.c\<close> queues commands in transactions with watched keys, \<open>pubsub.c\<close> sends messages to
  subscribers, and \<open>t_zset.c\<close> implements sorted sets by skip lists and hash tables over string objects (\<open>object.c\<close>).

  \<^bold>\<open>Conventions.\<close>  The target is LP64 and little-endian with signed \<open>char\<close>.  A C function becomes a
  HOL function of the same name (\<open>_f\<close> becomes \<open>f_priv\<close>); loops become recursive functions
  named after their function.  \<open>None\<close> stands for undefined behaviour: an access outside a block, a null
  or dangling pointer, signed overflow, a failed assertion; a theorem with a result \<open>Some\<close> says that it does not
  occur and that the code returns.  Unsigned counters are natural numbers with the
  wrap-around of their width written out (\<open>ul_add\<close>, \<open>ui_sub\<close>); bytes and hashes are words.  Memory that
  \<open>malloc\<close> does not initialise is an argument (\<open>junk\<close>), so theorems hold for every content.

  \<^bold>\<open>Theories.\<close>
  \<^item> \<open>Prelude\<close>: checked array access, fixed-width arithmetic and total correctness (\<open>ensures\<close>);
    \<open>Refinement\<close>: the locale \<open>simulation\<close>, which lifts single steps to whole histories and is interpreted by the
    containers, sorted sets and publish/subscribe; \<open>Memory\<close>: blocks of bytes, \<open>memmove\<close> and \<open>realloc\<close>;
    \<open>Bytes\<close>: C strings and decimal notation.
  \<^item> \<open>Dict\<close>, \<open>Dict_Correct\<close>, \<open>Dict_Scan\<close> (\<open>dict.c\<close>, \<open>dict.h\<close>): tables, incremental rehashing, lookup,
    insertion, replacement, deletion, clearing and the cursor scan.  Any history of operations refines a finite map
    while rehashing is under way; clearing frees every entry once; a scan returns every element that is
    present throughout, when the table grows, and exactly once when it does not change; an
    evaluated example shows what is lost when it shrinks.
  \<^item> \<open>Numbers\<close>, \<open>Glob\<close> (\<open>util.c\<close>): conversions between integers and decimal text, memory units, and
    glob matching against a declarative meaning of well-formed patterns, with its own notion of case and
    ranges; the inputs outside it (a class against the empty string, a class that ends in a backslash) are
    treated separately.
  \<^item> \<open>Intset\<close> (\<open>intset.c\<close>, \<open>endianconv.c\<close>): the set in a block of bytes with three encodings refines
    a set of integers; binary search; the upgrade keeps all elements.
  \<^item> \<open>Adlist\<close> (\<open>adlist.c\<close>): doubly linked lists in a heap of nodes refine sequences; deletion of the node an
    iterator returned; duplication with failure; release.  The allocation and release of list and iterator structures and
    the calls of the \<open>free\<close> method are events (\<open>mem_event\<close>) that the operations return.
  \<^item> \<open>Sds\<close>, \<open>Sds_Text\<close> (\<open>sds.c\<close>): strings with length, free space and terminator refine byte
    sequences; formatting, splitting, joining, quoting and parsing of arguments with round trips.
  \<^item> \<open>Crc64\<close>, \<open>Lzf\<close>: the table-driven checksum is polynomial division and detects short bursts;
    decompression inverts compression.
  \<^item> \<open>Server\<close> (\<open>redis.h\<close>, \<open>call\<close>, \<open>propagate\<close>): the state of clients and server.  Clients live in a heap, so a
    stale pointer is undefined.  The command procedures, the eviction of keys, the clock and the
    order of dictionary iterators are functions of the record \<open>hooks\<close>; theorems state what
    they rely on (\<open>procs_ok\<close> of the procedures of queued commands, \<open>evict_ok\<close>, \<open>hooks_keep\<close>, \<open>dictKeys_ok\<close>).  What leaves the server is a sequence of events.
  \<^item> \<open>Multi\<close>, \<open>Multi_Exec\<close> (\<open>multi.c\<close>): a state machine of watched keys with its invariant over all interleavings; the
    optimistic lock; execution of the queue.  \<open>Command\<close> (\<open>processCommand\<close>): every guard in order, and
    what happens to a command inside a transaction.
  \<^item> \<open>Pubsub\<close>, \<open>Pubsub_Correct\<close> (\<open>pubsub.c\<close>): the two copies of the subscriptions refine two
    relations, and a message reaches exactly its subscribers.
  \<^item> \<open>Query\<close>, \<open>Query_Correct\<close> (\<open>networking.c\<close>): \<open>readQueryFromClient\<close>, the inline and multi bulk parsers and
    \<open>processInputBuffer\<close>.  Encoded requests survive any fragmentation; on a pipeline the loop
    does what serving the requests one by one (\<open>serve\<close>) does.  \<open>procf_ok\<close> states what the loop relies on, and
    \<open>processCommand\<close> is shown to satisfy it.
  \<^item> \<open>Object\<close> (\<open>object.c\<close>): string objects, their comparison and integer encoding.
  \<^item> \<open>Skiplist\<close> (\<open>t_zset.c\<close>): the functions \<open>zsl*\<close> on a heap of nodes.  \<open>Skiplist_Inv\<close>: the invariant
    \<open>zsl_rep\<close>; \<open>expect\<close> gives the forward pointer and the span a level must have.  \<open>Skiplist_Update\<close>: insertion and deletion keep it.
    \<open>Skiplist_Range\<close>: ranks, ends of ranges, deletion of ranges, creation, release.
  \<^item> \<open>Zset\<close> (\<open>t_zset.c\<close>): the commands on sorted sets for the skip list encoding.  \<open>Zset_Inv\<close>: the invariant \<open>zset_rep\<close>
    of skip list and hash table.  \<open>Zset_Correct\<close>: every run of commands refines strictly sorted lists; an error of lexicographic ranges.

  \<^bold>\<open>Bounds.\<close>  Strings have at most \<open>2 ^ 30\<close> bytes (\<open>sds_max\<close>; the length field has 32 bits and growing doubles
  it), hash tables at most \<open>2 ^ 29\<close> entries (\<open>dict_max\<close>), integer sets \<open>2 ^ 28\<close> elements
  (\<open>intset_max\<close>, so that the size in bytes fits 32 bits); requests have at most 64 KB
  (\<open>args_ok\<close>) in query buffers shorter than \<open>2 ^ 31\<close>; skip lists have at most \<open>2 ^ 32 - 3\<close> elements (\<open>zsl_max\<close>, so that
  the 32-bit spans do not wrap), sorted sets as many as their hash table; a score is a value of an arbitrary linear order or a NaN, and the random numbers
  of \<open>zslRandomLevel\<close> are an arbitrary sequence that ends its loop (\<open>rnd_ok\<close>); text arguments of conversions are shorter
  than \<open>2 ^ 31\<close>.  No fuel is used: loops are functions with termination proofs, or partial functions whose results are
  proved to exist.

  \<^bold>\<open>Not modelled.\<close>  Input and output (\<open>anet.c\<close>, \<open>ae*.c\<close>, \<open>rio.c\<close>, \<open>syncio.c\<close>, \<open>bio.c\<close>), processes and
  the operating system (\<open>zmalloc.c\<close>, \<open>memtest.c\<close>, \<open>setproctitle.c\<close>, \<open>debug.c\<close>), persistence and
  replication beyond their checksum and compression, the commands of the other data types, \<open>ziplist.c\<close> and with it
  small sorted sets, unions and intersections of sorted sets,
  \<open>hyperloglog.c\<close>, Sentinel, the command line tools, the vendored libraries under \<open>deps\<close> and
  the JavaScript application.  Of the modelled files: the dictionary iterator, random keys and hash functions,
  floating-point parsing and formatting and random identifiers.  Freeing memory is modelled where it is observable
  (lists, hash tables, skip lists), reference counts are not.
\<close>

end
